(* ===== verification/Fail_Prelude.thy ===== *)
theory Fail_Prelude
  imports Main "HOL-Library.Word" "HOL-Library.Multiset"
begin

text \<open>
  Shared vocabulary of the development: the machine types of the sources, the named
  theorem collections the component theories fill, and the generic facts on lists,
  multisets and options that several components use.
\<close>

section \<open>Machine types\<close>

type_synonym u8 = "8 word"
type_synonym u32 = "32 word"
type_synonym u64 = "64 word"

text \<open>\<open>address_t\<close> is \<open>guest_address_t\<close>, 64 bits wide in the Bochs (x86-64), gem5 and
  QEMU configurations; \<open>simtime_t\<close> is \<open>uint64_t\<close>.\<close>

type_synonym address_t = u64
type_synonym simtime_t = u64

section \<open>Theorem collections\<close>

named_theorems inv_intros \<open>introduction rules for component invariants\<close>
named_theorems owner_simps \<open>which operation moves which job where\<close>

section \<open>Bounded draining of a container\<close>

text \<open>
  \<open>drain deq n q\<close> takes elements out of \<open>q\<close> with the non-blocking \<open>deq\<close> until
  \<open>n\<close> were taken or \<open>deq\<close> has nothing to give.
\<close>

fun drain :: "('q \<Rightarrow> ('a \<times> 'q) option) \<Rightarrow> nat \<Rightarrow> 'q \<Rightarrow> 'a list \<times> 'q" where
  "drain deq 0 q = ([], q)"
| "drain deq (Suc n) q =
     (case deq q of
        None \<Rightarrow> ([], q)
      | Some (x, q') \<Rightarrow> (let (xs, q'') = drain deq n q' in (x # xs, q'')))"

lemma drain_length: "length (fst (drain deq n q)) \<le> n"
proof (induction n arbitrary: q)
  case (Suc n)
  show ?case
  proof (cases "deq q")
    case (Some p)
    with Suc.IH [of "snd p"] show ?thesis by (simp add: case_prod_beta Let_def)
  qed simp
qed simp

section \<open>Swap-removal from a list\<close>

text \<open>
  Removing index \<open>i\<close> by overwriting it with the last element and dropping the last slot.
\<close>

definition swap_remove :: "nat \<Rightarrow> 'a list \<Rightarrow> 'a list" where
  "swap_remove i xs = butlast (xs[i := last xs])"

lemma length_swap_remove [simp]: "length (swap_remove i xs) = length xs - 1"
  by (simp add: swap_remove_def)

lemma swap_remove_snoc:
  "swap_remove i (xs @ [x]) = (if i < length xs then xs[i := x] else xs)"
  by (auto simp: swap_remove_def list_update_append list_update_beyond butlast_append
      split: nat.splits)

lemma mset_swap_remove:
  assumes "i < length xs"
  shows "mset (swap_remove i xs) = mset xs - {#xs ! i#}"
proof (cases xs rule: rev_cases)
  case (snoc ys y)
  then show ?thesis
    using assms by (auto simp: swap_remove_snoc mset_update nth_append)
qed (use assms in simp)

lemma nth_swap_remove:
  assumes "i < length xs" and "j < length xs - 1"
  shows "swap_remove i xs ! j = (if j = i then last xs else xs ! j)"
  using assms by (simp add: swap_remove_def nth_butlast nth_list_update)

lemma take_swap_remove:
  "i < length xs \<Longrightarrow> take i (swap_remove i xs) = take i xs"
  by (rule nth_equalityI) (auto simp: nth_swap_remove)

lemma mset_drop_swap_remove:
  assumes "i < length xs"
  shows "mset (drop i (swap_remove i xs)) = mset (drop (Suc i) xs)"
proof -
  have "mset (take i xs) + mset (drop i (swap_remove i xs)) = mset (swap_remove i xs)"
    using take_swap_remove [OF assms] append_take_drop_id [of i "swap_remove i xs"]
    by (metis mset_append)
  moreover have "mset xs = add_mset (xs ! i) (mset (take i xs) + mset (drop (Suc i) xs))"
    using id_take_nth_drop [OF assms] by (metis mset.simps(2) mset_append union_mset_add_mset_right)
  ultimately show ?thesis by (simp add: mset_swap_remove [OF assms])
qed

lemma mset_swap_remove1: "i < length xs \<Longrightarrow> mset (swap_remove i xs) = mset (remove1 (xs ! i) xs)"
  by (simp add: mset_swap_remove)

lemma distinct_swap_remove: "i < length xs \<Longrightarrow> distinct xs \<Longrightarrow> distinct (swap_remove i xs)"
  by (simp add: mset_eq_imp_distinct_iff [OF mset_swap_remove1] distinct_remove1)

lemma set_swap_remove: "i < length xs \<Longrightarrow> distinct xs \<Longrightarrow> set (swap_remove i xs) = set xs - {xs ! i}"
  by (simp add: mset_eq_setD [OF mset_swap_remove1])

section \<open>Words as bounded numbers\<close>

lemma unat_of_nat_u32: "n < 2 ^ 32 \<Longrightarrow> unat (of_nat n :: u32) = n"
  by (simp add: unat_of_nat take_bit_nat_eq_self)

lemma unat_of_nat_u64: "n < 2 ^ 64 \<Longrightarrow> unat (of_nat n :: u64) = n"
  by (simp add: unat_of_nat take_bit_nat_eq_self)

section \<open>One element of a list replaced\<close>

lemma mset_concat_map_update:
  assumes "i < length cs"
  shows "mset (concat (map f (cs[i := c]))) + mset (f (cs ! i)) = mset (concat (map f cs)) + mset (f c)"
  using assms
proof (induction cs arbitrary: i)
  case (Cons c' cs)
  then show ?case by (cases i) (auto simp: ac_simps)
qed simp

lemma unat_less_u64: "unat (w :: u64) < 2 ^ 64"
  using unsigned_less [of w] by simp

lemma unat_less_u32: "unat (w :: u32) < 2 ^ 32"
  using unsigned_less [of w] by simp

end
