(* ===== verification/Sync_Containers.thy ===== *)
theory Sync_Containers
  imports Fail_Prelude
begin

text \<open>
  The thread-safe containers of \<^verbatim>\<open>src/core/util\<close>: \<open>SynchronizedQueue\<close>, \<open>SynchronizedMap\<close>
  and \<open>SynchronizedCounter\<close>. Every method holds the container's mutex from its first to its
  last statement, so a method is one atomic state change. A method that would wait on a
  condition variable is \<open>None\<close> (the caller stays blocked and retries); the notification a
  method issues is a separate value, which the lost-wakeup results are about.

  The locales \<open>fifo_queue\<close> and \<open>id_map\<close> state what the job server relies on.
\<close>

section \<open>SynchronizedQueue\<close>

record 'a SynchronizedQueue =
  m_queue :: "'a list"
  capacity :: nat
  finished :: bool

datatype wakeup = No_wakeup | Cond_notify_one | Cond_notify_all | Capacity_notify_one

definition SynchronizedQueue_new :: "nat \<Rightarrow> 'a SynchronizedQueue" where
  "SynchronizedQueue_new cap = \<lparr>m_queue = [], capacity = cap, finished = False\<rparr>"

definition Size :: "'a SynchronizedQueue \<Rightarrow> nat" where
  "Size q = length (m_queue q)"

definition Enqueue :: "'a \<Rightarrow> 'a SynchronizedQueue \<Rightarrow> 'a SynchronizedQueue option" where
  "Enqueue data q =
     (if capacity q \<noteq> 0 \<and> Size q \<ge> capacity q then None
      else Some (q\<lparr>m_queue := m_queue q @ [data]\<rparr>))"

definition Enqueue_wakeup :: "'a \<Rightarrow> 'a SynchronizedQueue \<Rightarrow> wakeup" where
  "Enqueue_wakeup data q =
     (case Enqueue data q of None \<Rightarrow> No_wakeup | Some _ \<Rightarrow> Cond_notify_one)"

text \<open>
  \<open>Dequeue\<close> blocks (\<open>None\<close>) on an empty queue that is not finished, returns the default
  value of the element type (\<open>Some (None, q)\<close>, a null pointer for the job queues) on an
  empty finished queue, and otherwise pops the front.
\<close>

definition Dequeue :: "'a SynchronizedQueue \<Rightarrow> ('a option \<times> 'a SynchronizedQueue) option" where
  "Dequeue q =
     (case m_queue q of
        [] \<Rightarrow> (if finished q then Some (None, q) else None)
      | x # xs \<Rightarrow> Some (Some x, q\<lparr>m_queue := xs\<rparr>))"

definition Dequeue_nb :: "'a SynchronizedQueue \<Rightarrow> ('a \<times> 'a SynchronizedQueue) option" where
  "Dequeue_nb q =
     (case m_queue q of [] \<Rightarrow> None | x # xs \<Rightarrow> Some (x, q\<lparr>m_queue := xs\<rparr>))"

text \<open>The notification of both dequeue methods, a function of the queue after the pop.\<close>

definition pop_wakeup :: "'a SynchronizedQueue \<Rightarrow> wakeup" where
  "pop_wakeup q' = (if Size q' < capacity q' then Capacity_notify_one else No_wakeup)"

definition setIsFinished :: "bool \<Rightarrow> 'a SynchronizedQueue \<Rightarrow> 'a SynchronizedQueue" where
  "setIsFinished value q = q\<lparr>finished := value\<rparr>"

definition setIsFinished_wakeup :: wakeup where
  "setIsFinished_wakeup = Cond_notify_all"

lemmas queue_defs = Enqueue_def Dequeue_def Dequeue_nb_def setIsFinished_def Size_def
  SynchronizedQueue_new_def

lemma Dequeue_nb_None_iff: "Dequeue_nb q = None \<longleftrightarrow> m_queue q = []"
  by (auto simp: queue_defs split: list.splits)

lemma Dequeue_nb_SomeD:
  "Dequeue_nb q = Some (x, q') \<Longrightarrow> m_queue q = x # m_queue q' \<and> capacity q' = capacity q \<and> finished q' = finished q"
  by (auto simp: queue_defs split: list.splits)

lemma Enqueue_SomeD:
  "Enqueue x q = Some q' \<Longrightarrow> m_queue q' = m_queue q @ [x] \<and> capacity q' = capacity q \<and> finished q' = finished q"
  by (auto simp: queue_defs split: if_splits)

subsection \<open>The contract the job server uses\<close>

locale fifo_queue =
  fixes enq :: "'a \<Rightarrow> 'q \<Rightarrow> 'q option"
    and deq :: "'q \<Rightarrow> ('a \<times> 'q) option"
    and elems :: "'q \<Rightarrow> 'a list"
  assumes enq_elems: "enq x q = Some q' \<Longrightarrow> elems q' = elems q @ [x]"
    and deq_None: "deq q = None \<longleftrightarrow> elems q = []"
    and deq_Some: "deq q = Some (x, q') \<Longrightarrow> elems q = x # elems q'"
begin

lemma drain_take: "fst (drain deq n q) = take n (elems q)"
proof (induction n arbitrary: q)
  case (Suc n)
  show ?case
  proof (cases "deq q")
    case None
    then have "elems q = []" by (simp add: deq_None)
    with None show ?thesis by simp
  next
    case (Some p)
    then have "elems q = fst p # elems (snd p)"
      using deq_Some [of q "fst p" "snd p"] by simp
    with Some Suc.IH [of "snd p"] show ?thesis
      by (simp add: case_prod_beta Let_def)
  qed
qed simp

lemma drain_drop: "elems (snd (drain deq n q)) = drop n (elems q)"
proof (induction n arbitrary: q)
  case (Suc n)
  show ?case
  proof (cases "deq q")
    case None
    then have "elems q = []" by (simp add: deq_None)
    with None show ?thesis by simp
  next
    case (Some p)
    then have "elems q = fst p # elems (snd p)"
      using deq_Some [of q "fst p" "snd p"] by simp
    with Some Suc.IH [of "snd p"] show ?thesis
      by (simp add: case_prod_beta Let_def)
  qed
qed simp

lemma drain_append: "fst (drain deq n q) @ elems (snd (drain deq n q)) = elems q"
  by (simp add: drain_take drain_drop)

lemma drain_mset: "mset (elems q) = mset (fst (drain deq n q)) + mset (elems (snd (drain deq n q)))"
  by (metis drain_append mset_append)

lemma drain_all: "fst (drain deq n q) = [] \<Longrightarrow> 0 < n \<Longrightarrow> elems q = []"
  by (simp add: drain_take)

lemma deq_after_enq: "enq x q = Some q' \<Longrightarrow> deq q' = Some (y, q'') \<Longrightarrow> y # elems q'' = elems q @ [x]"
  using enq_elems deq_Some by metis

end

interpretation sq: fifo_queue Enqueue Dequeue_nb m_queue
  by unfold_locales (auto simp: Dequeue_nb_None_iff dest: Enqueue_SomeD Dequeue_nb_SomeD)

lemma drain_Dequeue_nb_fields:
  "capacity (snd (drain Dequeue_nb n q)) = capacity q \<and> finished (snd (drain Dequeue_nb n q)) = finished q"
proof (induction n arbitrary: q)
  case (Suc n)
  show ?case
  proof (cases "Dequeue_nb q")
    case (Some p)
    then show ?thesis
      using Suc.IH [of "snd p"] Dequeue_nb_SomeD [of q "fst p" "snd p"]
      by (simp add: case_prod_beta Let_def)
  qed simp
qed simp

subsection \<open>No lost wakeups\<close>

text \<open>
  A waiter in \<open>Enqueue\<close> (blocked on \<open>q\<close>) that a pop makes runnable is notified, and so is a
  waiter in \<open>Dequeue\<close> that an insertion or \<open>setIsFinished\<close> makes runnable.
\<close>

lemma pop_notifies_blocked_enqueue:
  "Dequeue_nb q = Some (x, q') \<Longrightarrow> Enqueue y q = None \<Longrightarrow> Enqueue y q' \<noteq> None \<Longrightarrow>
     pop_wakeup q' = Capacity_notify_one"
  by (auto simp: pop_wakeup_def queue_defs split: if_splits list.splits)

lemma enqueue_notifies_blocked_dequeue:
  "Enqueue x q = Some q' \<Longrightarrow> Dequeue q = None \<Longrightarrow> Dequeue q' \<noteq> None \<and> Enqueue_wakeup x q = Cond_notify_one"
  by (auto simp: Enqueue_wakeup_def queue_defs split: if_splits list.splits)

section \<open>SynchronizedCounter\<close>

text \<open>
  The counter is an \<open>int\<close> of 32 bits; the job server stores what \<open>increment\<close> returns in a
  \<open>uint32_t\<close>, so the counter is a 32-bit word here.
\<close>

type_synonym SynchronizedCounter = u32

definition increment :: "SynchronizedCounter \<Rightarrow> u32 \<times> SynchronizedCounter" where
  "increment c = (c + 1, c + 1)"

definition decrement :: "SynchronizedCounter \<Rightarrow> u32 \<times> SynchronizedCounter" where
  "decrement c = (c - 1, c - 1)"

definition getValue :: "SynchronizedCounter \<Rightarrow> u32" where
  "getValue c = c"

section \<open>SynchronizedMap\<close>

text \<open>
  \<open>std::map\<close> iterates in key order, which \<open>pickone\<close> depends on: the underlying map is an
  association list kept strictly sorted by key (\<open>smap_inv\<close>).
\<close>

fun sorted_put :: "'k::linorder \<Rightarrow> 'v \<Rightarrow> ('k \<times> 'v) list \<Rightarrow> ('k \<times> 'v) list" where
  "sorted_put k v [] = [(k, v)]"
| "sorted_put k v ((k', v') # xs) =
     (if k < k' then (k, v) # (k', v') # xs
      else if k = k' then (k, v) # xs
      else (k', v') # sorted_put k v xs)"

definition key_erase :: "'k \<Rightarrow> ('k \<times> 'v) list \<Rightarrow> ('k \<times> 'v) list" where
  "key_erase k xs = filter (\<lambda>p. fst p \<noteq> k) xs"

record ('k, 'v) SynchronizedMap =
  m_map :: "('k \<times> 'v) list"
  nextpick :: nat

definition pick_window_size :: nat where
  "pick_window_size = 50000"

definition SynchronizedMap_new :: "('k, 'v) SynchronizedMap" where
  "SynchronizedMap_new = \<lparr>m_map = [], nextpick = 0\<rparr>"

definition smap_Size :: "('k, 'v) SynchronizedMap \<Rightarrow> nat" where
  "smap_Size m = length (m_map m)"

text \<open>
  The walk of \<open>pickone\<close>: advance the iterator once per round; on reaching the end, go back to
  the beginning, reset \<open>nextpick\<close> and leave the loop. The first argument counts the rounds
  left, the second is the iterator; the result is the iterator and the new \<open>nextpick\<close>.
\<close>

fun pick_walk :: "nat \<Rightarrow> nat \<Rightarrow> nat \<Rightarrow> nat \<Rightarrow> nat \<times> nat" where
  "pick_walk 0 it n np = (it, np)"
| "pick_walk (Suc i) it n np =
     (if Suc it = n then (0, 0) else pick_walk i (Suc it) n np)"

definition pickone :: "('k, 'v) SynchronizedMap \<Rightarrow> 'v option \<times> ('k, 'v) SynchronizedMap" where
  "pickone m =
     (if smap_Size m = 0 then (None, m)
      else let (it, np) = pick_walk (nextpick m) 0 (smap_Size m) (nextpick m)
           in (Some (snd (m_map m ! it)),
               m\<lparr>nextpick := (if Suc np \<ge> pick_window_size then 0 else Suc np)\<rparr>))"

definition smap_insert ::
  "'k::linorder \<Rightarrow> 'v \<Rightarrow> ('k, 'v) SynchronizedMap \<Rightarrow> bool \<times> ('k, 'v) SynchronizedMap" where
  "smap_insert key value m =
     (case map_of (m_map m) key of
        None \<Rightarrow> (True, m\<lparr>m_map := sorted_put key value (m_map m)\<rparr>)
      | Some _ \<Rightarrow> (False, m))"

definition smap_remove ::
  "'k \<Rightarrow> ('k, 'v) SynchronizedMap \<Rightarrow> ('v \<times> ('k, 'v) SynchronizedMap) option" where
  "smap_remove key m =
     (case map_of (m_map m) key of
        Some v \<Rightarrow> Some (v, m\<lparr>m_map := key_erase key (m_map m)\<rparr>)
      | None \<Rightarrow> None)"

definition smap_inv :: "('k::linorder, 'v) SynchronizedMap \<Rightarrow> bool" where
  "smap_inv m \<longleftrightarrow> sorted (map fst (m_map m)) \<and> distinct (map fst (m_map m))"

lemmas smap_defs = smap_insert_def smap_remove_def smap_inv_def smap_Size_def SynchronizedMap_new_def

subsection \<open>Sorted association lists\<close>

lemma map_of_sorted_put: "map_of (sorted_put k v xs) = (map_of xs)(k \<mapsto> v)"
  by (induction k v xs rule: sorted_put.induct) (auto simp: fun_eq_iff)

lemma set_keys_sorted_put: "fst ` set (sorted_put k v xs) = insert k (fst ` set xs)"
  by (induction k v xs rule: sorted_put.induct) auto

lemma sorted_keys_sorted_put:
  "sorted (map fst xs) \<Longrightarrow> sorted (map fst (sorted_put k v xs))"
  by (induction k v xs rule: sorted_put.induct) (auto simp: set_keys_sorted_put)

lemma distinct_keys_sorted_put:
  "sorted (map fst xs) \<Longrightarrow> distinct (map fst xs) \<Longrightarrow> distinct (map fst (sorted_put k v xs))"
  by (induction k v xs rule: sorted_put.induct) (auto simp: set_keys_sorted_put)

lemma mset_sorted_put:
  "map_of xs k = None \<Longrightarrow> mset (sorted_put k v xs) = add_mset (k, v) (mset xs)"
  by (induction k v xs rule: sorted_put.induct) (auto split: if_splits)

lemma mset_key_erase:
  "distinct (map fst xs) \<Longrightarrow> map_of xs k = Some v \<Longrightarrow> mset xs = add_mset (k, v) (mset (key_erase k xs))"
proof (induction xs)
  case (Cons p xs)
  show ?case
  proof (cases "fst p = k")
    case True
    with Cons.prems have "filter (\<lambda>p. fst p \<noteq> k) xs = xs"
      by (simp add: filter_id_conv) (metis image_eqI)
    with True Cons.prems show ?thesis by (cases p) (auto simp: key_erase_def)
  next
    case False
    with Cons show ?thesis by (cases p) (auto simp: key_erase_def)
  qed
qed simp

lemma map_of_key_erase: "map_of (key_erase k xs) = (map_of xs)(k := None)"
  by (induction xs) (auto simp: key_erase_def fun_eq_iff)

lemma sorted_key_erase: "sorted (map fst xs) \<Longrightarrow> sorted (map fst (key_erase k xs))"
  by (simp add: key_erase_def sorted_filter)

lemma distinct_key_erase: "distinct (map fst xs) \<Longrightarrow> distinct (map fst (key_erase k xs))"
  by (simp add: key_erase_def distinct_map_filter)

subsection \<open>The contract the job server uses\<close>

text \<open>\<open>take_ids\<close> looks up and removes a list of keys one after the other, remembering for
  each whether it was there.\<close>

fun take_ids :: "('k \<Rightarrow> 'm \<Rightarrow> ('v \<times> 'm) option) \<Rightarrow> 'k list \<Rightarrow> 'm \<Rightarrow> ('v option \<times> 'k) list \<times> 'm" where
  "take_ids rem [] m = ([], m)"
| "take_ids rem (k # ks) m =
     (case rem k m of
        Some (v, m') \<Rightarrow> (let (rs, m'') = take_ids rem ks m' in ((Some v, k) # rs, m''))
      | None \<Rightarrow> (let (rs, m'') = take_ids rem ks m in ((None, k) # rs, m'')))"

fun found_entries :: "('v option \<times> 'k) list \<Rightarrow> ('k \<times> 'v) list" where
  "found_entries [] = []"
| "found_entries ((Some v, k) # rs) = (k, v) # found_entries rs"
| "found_entries ((None, k) # rs) = found_entries rs"

locale id_map =
  fixes ins :: "'k \<Rightarrow> 'v \<Rightarrow> 'm \<Rightarrow> bool \<times> 'm"
    and rem :: "'k \<Rightarrow> 'm \<Rightarrow> ('v \<times> 'm) option"
    and look :: "'m \<Rightarrow> 'k \<Rightarrow> 'v option"
    and entries :: "'m \<Rightarrow> ('k \<times> 'v) multiset"
    and invar :: "'m \<Rightarrow> bool"
  assumes ins_new: "invar m \<Longrightarrow> look m k = None \<Longrightarrow>
        fst (ins k v m) \<and> entries (snd (ins k v m)) = add_mset (k, v) (entries m)"
    and ins_old: "look m k = Some w \<Longrightarrow> ins k v m = (False, m)"
    and ins_invar: "invar m \<Longrightarrow> invar (snd (ins k v m))"
    and rem_Some: "invar m \<Longrightarrow> rem k m = Some (v, m') \<Longrightarrow>
        entries m = add_mset (k, v) (entries m') \<and> invar m'"
    and rem_None: "rem k m = None \<longleftrightarrow> look m k = None"
    and look_entries: "invar m \<Longrightarrow> look m k = Some v \<longleftrightarrow> (k, v) \<in># entries m"
begin

lemma look_None: "invar m \<Longrightarrow> look m k = None \<longleftrightarrow> k \<notin># image_mset fst (entries m)"
  using look_entries [of m k] by (cases "look m k") force+

lemma take_ids_entries:
  "invar m \<Longrightarrow> entries m = mset (found_entries (fst (take_ids rem ks m))) + entries (snd (take_ids rem ks m))
     \<and> invar (snd (take_ids rem ks m))"
proof (induction ks arbitrary: m)
  case (Cons k ks)
  show ?case
  proof (cases "rem k m")
    case None
    with Cons show ?thesis by (simp add: case_prod_beta Let_def)
  next
    case (Some p)
    then have p: "entries m = add_mset (k, fst p) (entries (snd p))" "invar (snd p)"
      using rem_Some [of m k "fst p" "snd p"] Cons.prems by simp_all
    with Some Cons.IH [of "snd p"] show ?thesis
      by (simp add: case_prod_beta Let_def)
  qed
qed simp

lemma take_ids_keys: "map snd (fst (take_ids rem ks m)) = ks"
  by (induction ks arbitrary: m) (auto split: option.splits simp: case_prod_beta Let_def)

end

interpretation sm: id_map smap_insert smap_remove "\<lambda>m. map_of (m_map m)" "\<lambda>m. mset (m_map m)" smap_inv
proof (unfold_locales, goal_cases)
  case (1 m k v)
  then show ?case by (simp add: smap_defs mset_sorted_put)
next
  case (3 m k v)
  then show ?case
    by (auto simp: smap_defs sorted_keys_sorted_put distinct_keys_sorted_put split: option.splits)
next
  case (4 m k v m')
  then show ?case
    by (auto simp: smap_defs mset_key_erase sorted_key_erase distinct_key_erase split: option.splits)
next
  case (6 m k v)
  then show ?case by (simp add: smap_defs)
qed (auto simp: smap_defs split: option.splits)

lemma smap_insert_nextpick: "nextpick (snd (smap_insert k v m)) = nextpick m"
  by (simp add: smap_defs split: option.splits)

subsection \<open>Round-robin picking\<close>

lemma pick_walk_closed:
  "it < n \<Longrightarrow> pick_walk i it n np = (if it + i < n then (it + i, np) else (0, 0))"
  by (induction i it n np rule: pick_walk.induct) auto

lemma pickone_closed:
  assumes "m_map m \<noteq> []"
  shows "pickone m =
    (let i = (if nextpick m < length (m_map m) then nextpick m else 0)
     in (Some (snd (m_map m ! i)),
         m\<lparr>nextpick := (if Suc i \<ge> pick_window_size then 0 else Suc i)\<rparr>))"
  using assms by (auto simp: pickone_def smap_Size_def pick_walk_closed Let_def)

lemma pickone_map [simp]: "m_map (snd (pickone m)) = m_map m"
  by (auto simp: pickone_def Let_def split: prod.splits)

lemma pickone_inv: "smap_inv m \<Longrightarrow> smap_inv (snd (pickone m))"
  by (simp add: smap_inv_def)

lemma pickone_Some: "fst (pickone m) = Some v \<Longrightarrow> \<exists>k. (k, v) \<in> set (m_map m)"
proof -
  assume v: "fst (pickone m) = Some v"
  then have ne: "m_map m \<noteq> []" by (auto simp: pickone_def smap_Size_def)
  define i where "i = (if nextpick m < length (m_map m) then nextpick m else 0)"
  have "i < length (m_map m)" using ne by (simp add: i_def)
  moreover have "v = snd (m_map m ! i)"
    using v pickone_closed [OF ne] by (simp add: Let_def i_def)
  ultimately show ?thesis by (metis nth_mem prod.collapse)
qed

lemma pickone_None: "fst (pickone m) = None \<longleftrightarrow> m_map m = []"
  by (auto simp: pickone_def smap_Size_def Let_def split: prod.splits)

fun pick_many :: "nat \<Rightarrow> ('k, 'v) SynchronizedMap \<Rightarrow> 'v option list" where
  "pick_many 0 m = []"
| "pick_many (Suc n) m = (let (v, m') = pickone m in v # pick_many n m')"

lemma pick_many_from:
  assumes "nextpick m + n \<le> length (m_map m)" and "nextpick m + n \<le> pick_window_size"
  shows "pick_many n m = map (Some \<circ> snd) (take n (drop (nextpick m) (m_map m)))"
  using assms
proof (induction n arbitrary: m)
  case (Suc n)
  then have ne: "m_map m \<noteq> []" and lt: "nextpick m < length (m_map m)" by auto
  have drop_eq: "drop (nextpick m) (m_map m) = m_map m ! nextpick m # drop (Suc (nextpick m)) (m_map m)"
    using lt by (rule Cons_nth_drop_Suc [symmetric])
  show ?case
  proof (cases "n = 0")
    case True
    then show ?thesis using pickone_closed [OF ne] lt drop_eq by (simp add: Let_def)
  next
    case False
    then have "\<not> Suc (nextpick m) \<ge> pick_window_size" using Suc.prems(2) by simp
    then have p: "pickone m = (Some (snd (m_map m ! nextpick m)), m\<lparr>nextpick := Suc (nextpick m)\<rparr>)"
      using pickone_closed [OF ne] lt by (simp add: Let_def)
    show ?thesis using Suc.IH [of "m\<lparr>nextpick := Suc (nextpick m)\<rparr>"] Suc.prems p drop_eq by simp
  qed
qed simp

end
