(* ===== verification/Job_Server.thy ===== *)
theory Job_Server
  imports Sync_Containers
begin

text \<open>
  The campaign server: \<open>JobServer\<close> and its communication coroutines (\<open>CommThread\<close>) of
  \<^verbatim>\<open>src/core/cpn/JobServer.cc\<close>, with the control messages of \<open>FailControlMessage.proto\<close>.

  All coroutines run on the one thread of \<open>comm_service\<close> and give way to each other exactly at
  the socket operations (\<open>rcvMsg\<close>, \<open>dropMsg\<close>, \<open>sendMsg\<close>), so the code between two socket
  operations is one step here. \<open>coro\<close> names the points where a coroutine is suspended, \<open>io\<close>
  is what the socket operation came back with, and \<open>coro_step\<close> runs to the next suspension.
  The campaign thread calls \<open>addParam\<close>, \<open>getDone\<close> and \<open>setNoMoreExperiments\<close> in between.

  \<open>ExperimentData*\<close> is an index into the store \<open>exps\<close>; the payload type \<open>'m\<close> stands for the
  experiment's protobuf message.
\<close>

section \<open>Messages and state\<close>

datatype Command = NEED_WORK | RESULT_FOLLOWS | WORK_FOLLOWS | COME_AGAIN | DIE

record FailControlMessage =
  command :: Command
  workloadid :: "u32 list"
  build_id :: u64
  run_id :: "u64 option"
  job_size :: "u32 option"

type_synonym exp_ptr = nat

record 'm ExperimentData =
  msg :: 'm
  m_workloadID :: u32

record 'm JobServer =
  m_runid :: u64
  m_DoneCount :: u64
  m_TotalCount :: "u64 option"
  m_inOutCounter :: SynchronizedCounter
  m_counter :: SynchronizedCounter
  m_runningJobs :: "(u32, exp_ptr) SynchronizedMap"
  m_undoneJobs :: "exp_ptr SynchronizedQueue"
  m_doneJobs :: "exp_ptr SynchronizedQueue"
  noMoreExps :: bool
  redundant_results :: u64
  exps :: "exp_ptr \<Rightarrow> 'm ExperimentData"

definition JobServer_new :: "u64 \<Rightarrow> nat \<Rightarrow> 'm \<Rightarrow> 'm JobServer" where
  "JobServer_new runid out_queue_size m0 =
     \<lparr>m_runid = runid, m_DoneCount = 0, m_TotalCount = None,
      m_inOutCounter = 0, m_counter = 0,
      m_runningJobs = SynchronizedMap_new,
      m_undoneJobs = SynchronizedQueue_new out_queue_size,
      m_doneJobs = SynchronizedQueue_new 0,
      noMoreExps = False, redundant_results = 0,
      exps = (\<lambda>_. \<lparr>msg = m0, m_workloadID = 0\<rparr>)\<rparr>"

section \<open>Operations of the campaign\<close>

definition addParam :: "exp_ptr \<Rightarrow> 'm JobServer \<Rightarrow> 'm JobServer option" where
  "addParam e js =
     (case Enqueue e (m_undoneJobs js) of
        None \<Rightarrow> None
      | Some q \<Rightarrow> Some (js\<lparr>m_inOutCounter := snd (increment (m_inOutCounter js)),
                           m_undoneJobs := q\<rparr>))"

definition getDone :: "'m JobServer \<Rightarrow> (exp_ptr option \<times> 'm JobServer) option" where
  "getDone js =
     (case Dequeue (m_doneJobs js) of
        None \<Rightarrow> None
      | Some (Some e, q) \<Rightarrow>
          Some (Some e, js\<lparr>m_doneJobs := q,
                           m_inOutCounter := snd (decrement (m_inOutCounter js))\<rparr>)
      | Some (None, q) \<Rightarrow> Some (None, js\<lparr>m_doneJobs := q\<rparr>))"

definition noMoreExperiments :: "'m JobServer \<Rightarrow> bool" where
  "noMoreExperiments js = noMoreExps js"

definition setNoMoreExperiments :: "'m JobServer \<Rightarrow> 'm JobServer" where
  "setNoMoreExperiments js =
     (let js1 = js\<lparr>noMoreExps := True, m_undoneJobs := setIsFinished True (m_undoneJobs js)\<rparr>
      in if Size (m_undoneJobs js1) = 0 \<and> smap_Size (m_runningJobs js1) = 0
         then js1\<lparr>m_doneJobs := setIsFinished True (m_doneJobs js1)\<rparr>
         else js1)"

definition setTotalCount :: "u64 \<Rightarrow> 'm JobServer \<Rightarrow> 'm JobServer" where
  "setTotalCount n js = js\<lparr>m_TotalCount := Some n\<rparr>"

definition increaseTotalCount :: "u64 \<Rightarrow> 'm JobServer \<Rightarrow> 'm JobServer" where
  "increaseTotalCount n js =
     js\<lparr>m_TotalCount := Some ((case m_TotalCount js of None \<Rightarrow> 0 | Some t \<Rightarrow> t) + n)\<rparr>"

definition skipJobs :: "u64 \<Rightarrow> 'm JobServer \<Rightarrow> 'm JobServer" where
  "skipJobs n js = js\<lparr>m_DoneCount := m_DoneCount js + 1\<rparr>"

section \<open>The communication coroutine\<close>

datatype coro =
    Await_ctrl                                      \<comment> \<open>\<open>operator()\<close>: reading the control message\<close>
  | Send_die FailControlMessage                     \<comment> \<open>answering \<open>DIE\<close> to an old or confused client\<close>
  | Send_work FailControlMessage "exp_ptr list"     \<comment> \<open>announcing the jobs in \<open>exp\<close>\<close>
  | Send_jobs "exp_ptr list"                        \<comment> \<open>sending \<open>exp.front()\<close>\<close>
  | Requeue "exp_ptr list"                          \<comment> \<open>giving the unsent jobs back to \<open>m_undoneJobs\<close>\<close>
  | Send_second FailControlMessage "exp_ptr option" \<comment> \<open>the answer when no fresh job is left\<close>
  | Resend exp_ptr                                  \<comment> \<open>sending a running job once more\<close>
  | Receive "(exp_ptr option \<times> u32) list" "(exp_ptr \<times> u32 \<times> bool) list"
                                                    \<comment> \<open>reading results: still to read, already read\<close>
  | Terminated

datatype 'm io =
    Rcv_ctrl FailControlMessage  \<comment> \<open>a control message was read and parsed\<close>
  | Rcv_msg 'm                   \<comment> \<open>a result was read and parsed\<close>
  | Rcv_bad 'm                   \<comment> \<open>a result was read, parsing failed and left this behind\<close>
  | Rcv_fail                     \<comment> \<open>reading failed\<close>
  | Send_ok
  | Send_fail
  | Internal                     \<comment> \<open>no socket operation\<close>

definition die_msg :: FailControlMessage where
  "die_msg = \<lparr>command = DIE, workloadid = [], build_id = 42, run_id = None, job_size = None\<rparr>"

text \<open>The loop of \<open>sendPendingExperimentData\<close> that takes up to \<open>m_job_size\<close> fresh jobs.\<close>

fun fetch_jobs :: "nat \<Rightarrow> 'm JobServer \<Rightarrow> exp_ptr list \<times> u32 list \<times> 'm JobServer" where
  "fetch_jobs 0 js = ([], [], js)"
| "fetch_jobs (Suc n) js =
     (case Dequeue_nb (m_undoneJobs js) of
        None \<Rightarrow> ([], [], js)
      | Some (temp_exp, q) \<Rightarrow>
          (let (wid, c) = increment (m_counter js);
               js1 = js\<lparr>m_undoneJobs := q, m_counter := c,
                        exps := (exps js)(temp_exp := (exps js temp_exp)\<lparr>m_workloadID := wid\<rparr>)\<rparr>;
               (es, ids, js2) = fetch_jobs n js1
           in (temp_exp # es, wid # ids, js2)))"

definition sendPendingExperimentData :: "u32 \<Rightarrow> 'm JobServer \<Rightarrow> 'm JobServer \<times> coro" where
  "sendPendingExperimentData m_job_size js =
     (let (exp, ids, js1) = fetch_jobs (unat m_job_size) js;
          ctrlmsg = \<lparr>command = WORK_FOLLOWS, workloadid = ids, build_id = 42,
                     run_id = Some (m_runid js), job_size = None\<rparr>
      in if exp \<noteq> [] then (js1, Send_work (ctrlmsg\<lparr>job_size := Some (of_nat (length exp))\<rparr>) exp)
         else case pickone (m_runningJobs js1) of
                (Some temp_exp, m) \<Rightarrow>
                  (js1\<lparr>m_runningJobs := m\<rparr>,
                   Send_second (ctrlmsg\<lparr>command := WORK_FOLLOWS,
                                        workloadid := [m_workloadID (exps js1 temp_exp)],
                                        job_size := Some 1\<rparr>) (Some temp_exp))
              | (None, m) \<Rightarrow>
                  (js1\<lparr>m_runningJobs := m\<rparr>,
                   Send_second (ctrlmsg\<lparr>command :=
                     (if \<not> noMoreExperiments js1 then COME_AGAIN else DIE)\<rparr>) None))"

text \<open>
  \<open>receiveExperimentResults\<close>: the first locked section takes the jobs out of the running map,
  the I/O loop reads one result per identifier, the second locked section files the results.
\<close>

fun store_results :: "(exp_ptr \<times> u32 \<times> bool) list \<Rightarrow> 'm JobServer \<Rightarrow> 'm JobServer option" where
  "store_results [] js = Some js"
| "store_results ((exp, w_id, received) # rs) js =
     (if received then
        (case Enqueue exp (m_doneJobs js) of
           None \<Rightarrow> None
         | Some q \<Rightarrow> store_results rs (js\<lparr>m_doneJobs := q\<rparr>))
      else store_results rs
             (js\<lparr>m_runningJobs := snd (smap_insert w_id exp (m_runningJobs js))\<rparr>))"

definition check_complete :: "'m JobServer \<Rightarrow> 'm JobServer" where
  "check_complete js =
     (if Size (m_undoneJobs js) = 0 \<and> noMoreExperiments js \<and> smap_Size (m_runningJobs js) = 0
      then js\<lparr>m_doneJobs := setIsFinished True (m_doneJobs js)\<rparr> else js)"

definition receive_next ::
  "'m JobServer \<Rightarrow> (exp_ptr option \<times> u32) list \<Rightarrow> (exp_ptr \<times> u32 \<times> bool) list
   \<Rightarrow> ('m JobServer \<times> coro) option" where
  "receive_next js msgs recvd =
     (if msgs \<noteq> [] then Some (js, Receive msgs recvd)
      else map_option (\<lambda>js'. (check_complete js', Terminated)) (store_results recvd js))"

definition receiveExperimentResults ::
  "FailControlMessage \<Rightarrow> 'm JobServer \<Rightarrow> ('m JobServer \<times> coro) option" where
  "receiveExperimentResults ctrlmsg js =
     (let (msgs, m) = take_ids smap_remove (workloadid ctrlmsg) (m_runningJobs js)
      in receive_next (js\<lparr>m_runningJobs := m\<rparr>) msgs [])"

definition receive_one ::
  "exp_ptr option \<Rightarrow> u32 \<Rightarrow> 'm io \<Rightarrow> 'm JobServer \<Rightarrow> ('m JobServer \<times> (exp_ptr \<times> u32 \<times> bool) list) option" where
  "receive_one exp w_id result js =
     (case exp of
        Some e \<Rightarrow>
          (let put = (\<lambda>m. js\<lparr>exps := (exps js)(e := (exps js e)\<lparr>msg := m\<rparr>),
                             m_DoneCount := m_DoneCount js + 1\<rparr>)
           in case result of
                Rcv_msg m \<Rightarrow> Some (put m, [(e, w_id, True)])
              | Rcv_bad m \<Rightarrow> Some (put m, [(e, w_id, False)])
              | Rcv_fail \<Rightarrow> Some (js\<lparr>m_DoneCount := m_DoneCount js + 1\<rparr>, [(e, w_id, False)])
              | _ \<Rightarrow> None)
      | None \<Rightarrow>
          (case result of
             Rcv_msg m \<Rightarrow> Some (js\<lparr>redundant_results := redundant_results js + 1\<rparr>, [])
           | Rcv_bad m \<Rightarrow> Some (js\<lparr>redundant_results := redundant_results js + 1\<rparr>, [])
           | Rcv_fail \<Rightarrow> Some (js\<lparr>redundant_results := redundant_results js + 1\<rparr>, [])
           | _ \<Rightarrow> None))"

text \<open>\<open>CommThread::operator()\<close> after the control message is in.\<close>

definition dispatch :: "FailControlMessage \<Rightarrow> 'm JobServer \<Rightarrow> ('m JobServer \<times> coro) option" where
  "dispatch ctrlmsg js =
     (case command ctrlmsg of
        NEED_WORK \<Rightarrow>
          (if (case run_id ctrlmsg of None \<Rightarrow> True | Some r \<Rightarrow> r \<noteq> 0 \<and> r \<noteq> m_runid js)
           then Some (js, Send_die die_msg)
           else Some (sendPendingExperimentData
                        (case job_size ctrlmsg of None \<Rightarrow> 0 | Some n \<Rightarrow> n) js))
      | RESULT_FOLLOWS \<Rightarrow>
          (if run_id ctrlmsg \<noteq> Some (m_runid js) then Some (js, Terminated)
           else receiveExperimentResults ctrlmsg js)
      | _ \<Rightarrow> Some (js, Send_die die_msg))"

fun coro_step :: "'m JobServer \<Rightarrow> coro \<Rightarrow> 'm io \<Rightarrow> ('m JobServer \<times> coro) option" where
  "coro_step js Await_ctrl result =
     (case result of
        Rcv_ctrl ctrlmsg \<Rightarrow> dispatch ctrlmsg js
      | Rcv_fail \<Rightarrow> Some (js, Terminated)
      | _ \<Rightarrow> None)"
| "coro_step js (Send_die ctrlmsg) result =
     (if result \<in> {Send_ok, Send_fail} then Some (js, Terminated) else None)"
| "coro_step js (Send_work ctrlmsg exp) result =
     (case result of
        Send_ok \<Rightarrow> Some (js, Send_jobs exp)
      | Send_fail \<Rightarrow> Some (js, Terminated)
      | _ \<Rightarrow> None)"
| "coro_step js (Send_jobs []) result = None"
| "coro_step js (Send_jobs (e # exp)) result =
     (case result of
        Send_ok \<Rightarrow>
          Some (js\<lparr>m_runningJobs := snd (smap_insert (m_workloadID (exps js e)) e (m_runningJobs js))\<rparr>,
                if exp = [] then Terminated else Send_jobs exp)
      | Send_fail \<Rightarrow> Some (js, Requeue (e # exp))
      | _ \<Rightarrow> None)"
| "coro_step js (Requeue []) result = None"
| "coro_step js (Requeue (e # exp)) result =
     (if result \<noteq> Internal then None
      else case Enqueue e (m_undoneJobs js) of
             None \<Rightarrow> None
           | Some q \<Rightarrow> Some (js\<lparr>m_undoneJobs := q\<rparr>, if exp = [] then Terminated else Requeue exp))"
| "coro_step js (Send_second ctrlmsg temp_exp) result =
     (case result of
        Send_ok \<Rightarrow> Some (js, case temp_exp of Some e \<Rightarrow> Resend e | None \<Rightarrow> Terminated)
      | Send_fail \<Rightarrow> Some (js, Terminated)
      | _ \<Rightarrow> None)"
| "coro_step js (Resend e) result =
     (if result \<in> {Send_ok, Send_fail} then Some (js, Terminated) else None)"
| "coro_step js (Receive [] recvd) result = None"
| "coro_step js (Receive ((exp, w_id) # msgs) recvd) result =
     (case receive_one exp w_id result js of
        None \<Rightarrow> None
      | Some (js', r) \<Rightarrow> receive_next js' msgs (recvd @ r))"
| "coro_step js Terminated result = None"

section \<open>The server as a whole\<close>

text \<open>
  The server, its connections, and four history variables that no code reads: the jobs the
  campaign added, the jobs \<open>getDone\<close> handed out, the jobs whose last reference a coroutine
  dropped, and how many workload identifiers were given out.
\<close>

record 'm sys =
  server :: "'m JobServer"
  coros :: "coro list"
  added :: "exp_ptr list"
  delivered :: "exp_ptr list"
  lost :: "exp_ptr list"
  issued :: nat

datatype 'm event =
    AddParam exp_ptr 'm
  | GetDone
  | SetNoMoreExperiments
  | SetTotalCount u64
  | IncreaseTotalCount u64
  | SkipJobs u64
  | Accept
  | Io nat "'m io"

text \<open>The jobs a coroutine alone refers to while it is suspended.\<close>

fun held :: "coro \<Rightarrow> exp_ptr list" where
  "held (Send_work _ exp) = exp"
| "held (Send_jobs exp) = exp"
| "held (Requeue exp) = exp"
| "held (Receive msgs recvd) = map snd (found_entries msgs) @ map fst recvd"
| "held _ = []"

fun is_Requeue :: "coro \<Rightarrow> bool" where
  "is_Requeue (Requeue _) = True"
| "is_Requeue _ = False"

text \<open>
  A coroutine in the re-queueing loop does not give the thread away: while there is one, no
  other coroutine runs. The campaign allocates a fresh object for every \<open>addParam\<close>.
\<close>

definition comm_free :: "coro list \<Rightarrow> nat \<Rightarrow> bool" where
  "comm_free cs i \<longleftrightarrow> (\<forall>j < length cs. j \<noteq> i \<longrightarrow> \<not> is_Requeue (cs ! j))"

definition dropped :: "coro \<Rightarrow> 'm io \<Rightarrow> exp_ptr list" where
  "dropped c result = (case (c, result) of (Send_work _ exp, Send_fail) \<Rightarrow> exp | _ \<Rightarrow> [])"

fun newly_issued :: "coro \<Rightarrow> coro \<Rightarrow> nat" where
  "newly_issued Await_ctrl (Send_work _ exp) = length exp"
| "newly_issued _ _ = 0"

fun sys_step :: "'m sys \<Rightarrow> 'm event \<Rightarrow> 'm sys option" where
  "sys_step s (AddParam e m) =
     (if e \<in> set (added s) then None
      else map_option
        (\<lambda>js. s\<lparr>server := js\<lparr>exps := (exps js)(e := \<lparr>msg = m, m_workloadID = 0\<rparr>)\<rparr>,
               added := added s @ [e]\<rparr>)
        (addParam e (server s)))"
| "sys_step s GetDone =
     (case getDone (server s) of
        None \<Rightarrow> None
      | Some (None, js) \<Rightarrow> Some (s\<lparr>server := js\<rparr>)
      | Some (Some e, js) \<Rightarrow> Some (s\<lparr>server := js, delivered := delivered s @ [e]\<rparr>))"
| "sys_step s SetNoMoreExperiments = Some (s\<lparr>server := setNoMoreExperiments (server s)\<rparr>)"
| "sys_step s (SetTotalCount n) = Some (s\<lparr>server := setTotalCount n (server s)\<rparr>)"
| "sys_step s (IncreaseTotalCount n) = Some (s\<lparr>server := increaseTotalCount n (server s)\<rparr>)"
| "sys_step s (SkipJobs n) = Some (s\<lparr>server := skipJobs n (server s)\<rparr>)"
| "sys_step s Accept = Some (s\<lparr>coros := coros s @ [Await_ctrl]\<rparr>)"
| "sys_step s (Io i result) =
     (if i < length (coros s) \<and> comm_free (coros s) i then
        (case coro_step (server s) (coros s ! i) result of
           None \<Rightarrow> None
         | Some (js, c) \<Rightarrow>
             Some (s\<lparr>server := js, coros := (coros s)[i := c],
                     lost := lost s @ dropped (coros s ! i) result,
                     issued := issued s + newly_issued (coros s ! i) c\<rparr>))
      else None)"

definition sys_new :: "u64 \<Rightarrow> nat \<Rightarrow> 'm \<Rightarrow> 'm sys" where
  "sys_new runid out_queue_size m0 =
     \<lparr>server = JobServer_new runid out_queue_size m0, coros = [], added = [], delivered = [],
      lost = [], issued = 0\<rparr>"

fun sys_run :: "'m sys \<Rightarrow> 'm event list \<Rightarrow> 'm sys option" where
  "sys_run s [] = Some s"
| "sys_run s (ev # evs) = (case sys_step s ev of None \<Rightarrow> None | Some s' \<Rightarrow> sys_run s' evs)"

inductive server_step :: "'m sys \<Rightarrow> 'm sys \<Rightarrow> bool" where
  "sys_step s ev = Some s' \<Longrightarrow> server_step s s'"

inductive reachable :: "u64 \<Rightarrow> nat \<Rightarrow> 'm \<Rightarrow> 'm sys \<Rightarrow> bool" for runid cap m0 where
  start: "reachable runid cap m0 (sys_new runid cap m0)"
| step: "reachable runid cap m0 s \<Longrightarrow> server_step s s' \<Longrightarrow> reachable runid cap m0 s'"

lemma sys_run_reachable:
  "reachable runid cap m0 s \<Longrightarrow> sys_run s evs = Some s' \<Longrightarrow> reachable runid cap m0 s'"
proof (induction evs arbitrary: s)
  case (Cons ev evs)
  then obtain t where t: "sys_step s ev = Some t" "sys_run t evs = Some s'"
    by (auto split: option.splits)
  then have "reachable runid cap m0 t"
    using Cons.prems(1) by (blast intro: reachable.step server_step.intros)
  with t(2) show ?case using Cons.IH by blast
qed simp

section \<open>Taking fresh jobs\<close>

lemma fetch_jobs_drain:
  "fst (fetch_jobs n js) = fst (drain Dequeue_nb n (m_undoneJobs js)) \<and>
   m_undoneJobs (snd (snd (fetch_jobs n js))) = snd (drain Dequeue_nb n (m_undoneJobs js))"
  by (induction n arbitrary: js)
    (auto simp: case_prod_beta Let_def split: option.splits)

lemma fetch_jobs_step:
  assumes "Dequeue_nb (m_undoneJobs js) = Some (e, q)"
  defines "js1 \<equiv> js\<lparr>m_undoneJobs := q, m_counter := m_counter js + 1,
       exps := (exps js)(e := (exps js e)\<lparr>m_workloadID := m_counter js + 1\<rparr>)\<rparr>"
  shows "fetch_jobs (Suc n) js =
     (e # fst (fetch_jobs n js1), (m_counter js + 1) # fst (snd (fetch_jobs n js1)), snd (snd (fetch_jobs n js1)))"
  using assms by (simp add: case_prod_beta Let_def increment_def)

lemma fetch_jobs_frame:
  "m_runningJobs (snd (snd (fetch_jobs n js))) = m_runningJobs js \<and>
   m_doneJobs (snd (snd (fetch_jobs n js))) = m_doneJobs js \<and>
   noMoreExps (snd (snd (fetch_jobs n js))) = noMoreExps js \<and>
   m_runid (snd (snd (fetch_jobs n js))) = m_runid js \<and>
   m_DoneCount (snd (snd (fetch_jobs n js))) = m_DoneCount js \<and>
   length (fst (snd (fetch_jobs n js))) = length (fst (fetch_jobs n js)) \<and>
   m_counter (snd (snd (fetch_jobs n js))) = m_counter js + of_nat (length (fst (fetch_jobs n js)))"
proof (induction n arbitrary: js)
  case (Suc n)
  show ?case
  proof (cases "Dequeue_nb (m_undoneJobs js)")
    case (Some p)
    then show ?thesis
      using fetch_jobs_step [of js "fst p" "snd p" n] Suc.IH by simp
  qed simp
qed simp

lemma fetch_jobs_exps:
  "(e \<notin> set (fst (fetch_jobs n js)) \<longrightarrow> exps (snd (snd (fetch_jobs n js))) e = exps js e) \<and>
   msg (exps (snd (snd (fetch_jobs n js))) e) = msg (exps js e)"
proof (induction n arbitrary: js)
  case (Suc n)
  show ?case
  proof (cases "Dequeue_nb (m_undoneJobs js)")
    case (Some p)
    then show ?thesis
      using fetch_jobs_step [of js "fst p" "snd p" n] Suc.IH by simp
  qed simp
qed simp

lemma fetch_jobs_queue:
  "fst (fetch_jobs n js) = take n (m_queue (m_undoneJobs js))"
  "m_queue (m_undoneJobs (snd (snd (fetch_jobs n js)))) = drop n (m_queue (m_undoneJobs js))"
  "capacity (m_undoneJobs (snd (snd (fetch_jobs n js)))) = capacity (m_undoneJobs js)"
  by (simp_all add: fetch_jobs_drain sq.drain_take sq.drain_drop drain_Dequeue_nb_fields)

section \<open>Workload identifiers\<close>

abbreviation wid :: "(exp_ptr \<Rightarrow> 'm ExperimentData) \<Rightarrow> exp_ptr \<Rightarrow> u32" where
  "wid x e \<equiv> m_workloadID (x e)"

text \<open>The jobs in \<open>P\<close> carry pairwise different identifiers out of the first \<open>n\<close> given out.\<close>

definition ids_ok :: "(exp_ptr \<Rightarrow> 'm ExperimentData) \<Rightarrow> nat \<Rightarrow> exp_ptr set \<Rightarrow> bool" where
  "ids_ok x n P \<longleftrightarrow> inj_on (wid x) P \<and> (\<forall>e \<in> P. 1 \<le> unat (wid x e) \<and> unat (wid x e) \<le> n)"

lemma ids_ok_subset: "ids_ok x n P \<Longrightarrow> P' \<subseteq> P \<Longrightarrow> ids_ok x n P'"
  by (auto simp: ids_ok_def intro: inj_on_subset)

lemma ids_ok_cong: "(\<And>e. e \<in> P \<Longrightarrow> wid x e = wid y e) \<Longrightarrow> ids_ok x n P \<longleftrightarrow> ids_ok y n P"
  by (auto simp: ids_ok_def inj_on_def)

lemma ids_ok_fresh:
  assumes ok: "ids_ok x n P" and e: "e \<notin> P" and n: "Suc n < 2 ^ 32"
  shows "ids_ok (x(e := (x e)\<lparr>m_workloadID := of_nat n + 1\<rparr>)) (Suc n) (insert e P)"
proof -
  have u: "unat (of_nat n + 1 :: u32) = Suc n"
    using n unat_of_nat_u32 [of "Suc n"] by (simp add: add.commute)
  have ne: "wid x e' \<noteq> of_nat n + 1" if "e' \<in> P" for e'
  proof
    assume "wid x e' = of_nat n + 1"
    then have "unat (wid x e') = Suc n" using u by simp
    moreover have "unat (wid x e') \<le> n" using ok that by (simp add: ids_ok_def)
    ultimately show False by simp
  qed
  let ?y = "x(e := (x e)\<lparr>m_workloadID := of_nat n + 1\<rparr>)"
  have eq: "wid ?y e' = wid x e'" if "e' \<in> P" for e'
    using that e by auto
  have "inj_on (wid ?y) P"
    using ok inj_on_cong [of P "wid ?y" "wid x"] eq by (simp add: ids_ok_def)
  moreover have "wid ?y e \<notin> wid ?y ` P"
  proof
    assume "wid ?y e \<in> wid ?y ` P"
    then obtain e' where e': "e' \<in> P" "wid ?y e = wid ?y e'" by blast
    with eq [OF e'(1)] ne [OF e'(1)] show False by simp
  qed
  ultimately have inj: "inj_on (wid ?y) (insert e P)"
    using e by (simp add: inj_on_insert)
  have "1 \<le> unat (wid ?y e') \<and> unat (wid ?y e') \<le> Suc n" if "e' \<in> insert e P" for e'
  proof (cases "e' = e")
    case True
    then show ?thesis using u by simp
  next
    case False
    then show ?thesis using that ok by (simp add: ids_ok_def le_SucI)
  qed
  with inj show ?thesis by (simp add: ids_ok_def)
qed

lemma fetch_jobs_ids:
  assumes "ids_ok (exps js) n0 P" and "m_counter js = of_nat n0"
    and "distinct (m_queue (m_undoneJobs js))" and "set (m_queue (m_undoneJobs js)) \<inter> P = {}"
    and "n0 + length (fst (fetch_jobs n js)) < 2 ^ 32"
  shows "ids_ok (exps (snd (snd (fetch_jobs n js)))) (n0 + length (fst (fetch_jobs n js)))
           (P \<union> set (fst (fetch_jobs n js)))
     \<and> fst (snd (fetch_jobs n js)) = map (wid (exps (snd (snd (fetch_jobs n js))))) (fst (fetch_jobs n js))"
  using assms
proof (induction n arbitrary: js n0 P)
  case (Suc n)
  show ?case
  proof (cases "Dequeue_nb (m_undoneJobs js)")
    case None
    with Suc.prems show ?thesis by simp
  next
    case (Some p)
    obtain e q where p: "p = (e, q)" by fastforce
    have q: "m_queue (m_undoneJobs js) = e # m_queue q"
      using Some p by (auto dest: Dequeue_nb_SomeD)
    define js1 where "js1 = js\<lparr>m_undoneJobs := q, m_counter := m_counter js + 1,
       exps := (exps js)(e := (exps js e)\<lparr>m_workloadID := m_counter js + 1\<rparr>)\<rparr>"
    have step: "fetch_jobs (Suc n) js =
       (e # fst (fetch_jobs n js1), (m_counter js + 1) # fst (snd (fetch_jobs n js1)), snd (snd (fetch_jobs n js1)))"
      unfolding js1_def by (rule fetch_jobs_step) (simp add: Some p)
    have ok1: "ids_ok (exps js1) (Suc n0) (insert e P)"
      using ids_ok_fresh [OF Suc.prems(1), of e] Suc.prems(2,4,5) q step by (simp add: js1_def)
    have c1: "m_counter js1 = of_nat (Suc n0)" using Suc.prems(2) by (simp add: js1_def)
    have d1: "distinct (m_queue (m_undoneJobs js1))"
      and i1: "set (m_queue (m_undoneJobs js1)) \<inter> insert e P = {}"
      using Suc.prems(3,4) q by (auto simp: js1_def)
    have l1: "Suc n0 + length (fst (fetch_jobs n js1)) < 2 ^ 32"
      using Suc.prems(5) unfolding step by simp
    note IH = Suc.IH [OF ok1 c1 d1 i1 l1]
    have "e \<notin> set (fst (fetch_jobs n js1))"
      using Suc.prems(3) q by (auto simp: fetch_jobs_queue js1_def dest: in_set_takeD)
    then have "wid (exps (snd (snd (fetch_jobs n js1)))) e = m_counter js + 1"
      using fetch_jobs_exps [of e n js1] by (simp add: js1_def)
    with IH show ?thesis unfolding step by simp
  qed
qed simp

end
