(* ===== verification/Job_Ownership.thy ===== *)
theory Job_Ownership
  imports Job_Server
begin

text \<open>
  What the job server promises the campaign: every job that was added is in exactly one place
  (queued, held by one coroutine, running, done, handed back) until it is handed back, workload
  identifiers in use are pairwise different, and \<open>getDone\<close> ends the campaign only under the
  conditions proved here. The invariant \<open>sys_inv\<close> is established by rule induction over
  \<open>reachable\<close>; \<open>coro_outcome\<close> is the contract of one coroutine step.
\<close>

section \<open>Every job has one owner\<close>

definition running_jobs :: "'m JobServer \<Rightarrow> exp_ptr list" where
  "running_jobs js = map snd (m_map (m_runningJobs js))"

definition server_jobs :: "'m JobServer \<Rightarrow> exp_ptr multiset" where
  "server_jobs js =
     mset (m_queue (m_undoneJobs js)) + mset (running_jobs js) + mset (m_queue (m_doneJobs js))"

definition conserved :: "'m sys \<Rightarrow> bool" where
  "conserved s \<longleftrightarrow>
     distinct (added s) \<and>
     mset (added s) = server_jobs (server s) + mset (concat (map held (coros s)))
       + mset (delivered s) + mset (lost s)"

text \<open>The identifiers a receiving coroutine remembers are those of the jobs.\<close>

fun receive_ids_ok :: "(exp_ptr \<Rightarrow> 'm ExperimentData) \<Rightarrow> coro \<Rightarrow> bool" where
  "receive_ids_ok x (Receive msgs recvd) \<longleftrightarrow>
     (\<forall>(k, e) \<in> set (found_entries msgs). k = wid x e) \<and> (\<forall>(e, k, b) \<in> set recvd. k = wid x e)"
| "receive_ids_ok x _ \<longleftrightarrow> True"

definition running_ok :: "'m JobServer \<Rightarrow> bool" where
  "running_ok js \<longleftrightarrow> smap_inv (m_runningJobs js) \<and> capacity (m_doneJobs js) = 0 \<and>
     (\<forall>(k, e) \<in> set (m_map (m_runningJobs js)). k = wid (exps js) e)"

lemma insert_running:
  assumes ok: "running_ok js" and e: "e \<notin> set (running_jobs js)"
    and inj: "inj_on (wid (exps js)) (insert e (set (running_jobs js)))"
  defines "js' \<equiv> js\<lparr>m_runningJobs := snd (smap_insert (wid (exps js) e) e (m_runningJobs js))\<rparr>"
  shows "fst (smap_insert (wid (exps js) e) e (m_runningJobs js))"
    and "running_ok js'" and "mset (running_jobs js') = add_mset e (mset (running_jobs js))"
proof -
  let ?m = "m_runningJobs js"
  have look: "map_of (m_map ?m) (wid (exps js) e) = None"
  proof (rule ccontr)
    assume "map_of (m_map ?m) (wid (exps js) e) \<noteq> None"
    then obtain e' where e': "(wid (exps js) e, e') \<in> set (m_map ?m)"
      by (auto dest: map_of_SomeD)
    then have "wid (exps js) e = wid (exps js) e'" using ok by (auto simp: running_ok_def)
    moreover have "e' \<in> set (running_jobs js)" using e' by (force simp: running_jobs_def)
    ultimately show False using inj e by (auto simp: inj_on_def)
  qed
  have inv: "smap_inv ?m" using ok by (simp add: running_ok_def)
  note new = sm.ins_new [OF inv look, of e]
  show "fst (smap_insert (wid (exps js) e) e ?m)" using new by simp
  have ms: "mset (m_map (m_runningJobs js')) = add_mset (wid (exps js) e, e) (mset (m_map ?m))"
    using new by (simp add: js'_def)
  then show "mset (running_jobs js') = add_mset e (mset (running_jobs js))"
    by (simp add: running_jobs_def)
  have "set (m_map (m_runningJobs js')) = insert (wid (exps js) e, e) (set (m_map ?m))"
    using ms by (metis set_mset_mset set_mset_add_mset_insert)
  moreover have "smap_inv (m_runningJobs js')" using sm.ins_invar [OF inv] by (simp add: js'_def)
  ultimately show "running_ok js'" using ok by (auto simp: running_ok_def js'_def)
qed

lemma store_results_ok:
  assumes "store_results rs js = Some js'" and "running_ok js"
    and "distinct (running_jobs js @ map fst rs)"
    and "inj_on (wid (exps js)) (set (running_jobs js) \<union> fst ` set rs)"
    and "\<forall>(e, k, b) \<in> set rs. k = wid (exps js) e"
  shows "running_ok js' \<and> server_jobs js' = server_jobs js + mset (map fst rs) \<and>
    exps js' = exps js \<and> m_counter js' = m_counter js \<and>
    mset (running_jobs js') \<subseteq># mset (running_jobs js) + mset (map fst rs)"
  using assms
proof (induction rs arbitrary: js)
  case Nil
  then show ?case by simp
next
  case (Cons r rs)
  obtain e k b where r: "r = (e, k, b)" by (metis surj_pair)
  show ?case
  proof (cases b)
    case True
    with Cons.prems(1) r obtain q where q: "Enqueue e (m_doneJobs js) = Some q"
        and rest: "store_results rs (js\<lparr>m_doneJobs := q\<rparr>) = Some js'"
      by (auto split: option.splits)
    let ?js = "js\<lparr>m_doneJobs := q\<rparr>"
    have "m_queue q = m_queue (m_doneJobs js) @ [e]" "capacity q = capacity (m_doneJobs js)"
      using q by (auto dest: Enqueue_SomeD)
    then have sj: "server_jobs ?js = add_mset e (server_jobs js)" and ok: "running_ok ?js"
      and rj: "running_jobs ?js = running_jobs js"
      using Cons.prems(2) by (simp_all add: server_jobs_def running_ok_def running_jobs_def)
    have "inj_on (wid (exps ?js)) (set (running_jobs ?js) \<union> fst ` set rs)"
      using Cons.prems(4) rj by (auto intro: inj_on_subset)
    with Cons.IH [OF rest ok] Cons.prems(3,5) r rj sj show ?thesis
      by (auto intro: subset_mset.order_trans)
  next
    case False
    let ?js = "js\<lparr>m_runningJobs := snd (smap_insert k e (m_runningJobs js))\<rparr>"
    have k: "k = wid (exps js) e" and rest: "store_results rs ?js = Some js'"
      using Cons.prems(1,5) r False by auto
    have e: "e \<notin> set (running_jobs js)" using Cons.prems(3) r by auto
    have inj: "inj_on (wid (exps js)) (insert e (set (running_jobs js)))"
      using Cons.prems(4) r by (auto intro: inj_on_subset)
    note ins = insert_running [OF Cons.prems(2) e inj, folded k]
    have sj: "server_jobs ?js = add_mset e (server_jobs js)"
      using ins(3) by (simp add: server_jobs_def)
    have set_rj: "set (running_jobs ?js) = insert e (set (running_jobs js))"
      using ins(3) by (metis set_mset_mset set_mset_add_mset_insert)
    have "inj_on (wid (exps ?js)) (set (running_jobs ?js) \<union> fst ` set rs)"
      using Cons.prems(4) r set_rj by (auto intro: inj_on_subset)
    moreover have "distinct (running_jobs ?js @ map fst rs)"
    proof -
      have "distinct (e # running_jobs js)" using Cons.prems(3) e by simp
      then have "distinct (running_jobs ?js)"
        using ins(3) mset_eq_imp_distinct_iff [of "running_jobs ?js" "e # running_jobs js"] by simp
      then show ?thesis using Cons.prems(3) r set_rj by auto
    qed
    ultimately show ?thesis
      using Cons.IH [OF rest ins(2)] Cons.prems(5) r sj ins(3) by auto
  qed
qed

section \<open>One step of a coroutine\<close>

text \<open>
  What a coroutine's step does to the jobs: none disappears except those in \<open>d\<close>, the running
  map stays consistent, and no job outside the step changes its identifier.
\<close>

definition coro_outcome ::
  "'m JobServer \<Rightarrow> coro \<Rightarrow> 'm JobServer \<Rightarrow> coro \<Rightarrow> exp_ptr list \<Rightarrow> bool" where
  "coro_outcome js c js' c' d \<longleftrightarrow>
     running_ok js' \<and> receive_ids_ok (exps js') c' \<and>
     server_jobs js + mset (held c) = server_jobs js' + mset (held c') + mset d \<and>
     set (running_jobs js') \<union> set (held c') \<subseteq> set (running_jobs js) \<union> set (held c) \<and>
     (\<forall>e. wid (exps js') e = wid (exps js) e) \<and> m_counter js' = m_counter js"

definition coro_ready :: "'m JobServer \<Rightarrow> coro \<Rightarrow> bool" where
  "coro_ready js c \<longleftrightarrow>
     running_ok js \<and> receive_ids_ok (exps js) c \<and> distinct (running_jobs js @ held c) \<and>
     inj_on (wid (exps js)) (set (running_jobs js) \<union> set (held c))"

lemma receive_ids_ok_cong:
  "(\<And>e. e \<in> set (held c) \<Longrightarrow> wid y e = wid x e) \<Longrightarrow> receive_ids_ok y c = receive_ids_ok x c"
proof (cases c)
  case (Receive msgs recvd)
  assume eq: "\<And>e. e \<in> set (held c) \<Longrightarrow> wid y e = wid x e"
  have "wid y e = wid x e" if "(k, e) \<in> set (found_entries msgs)" for k e
    by (rule eq) (use that in \<open>force simp: Receive\<close>)
  then have "(\<forall>(k, e) \<in> set (found_entries msgs). k = wid y e) \<longleftrightarrow>
      (\<forall>(k, e) \<in> set (found_entries msgs). k = wid x e)"
    by (intro ball_cong) auto
  moreover have "wid y e = wid x e" if "(e, k, b) \<in> set recvd" for e k b
    by (rule eq) (use that in \<open>force simp: Receive\<close>)
  then have "(\<forall>(e, k, b) \<in> set recvd. k = wid y e) \<longleftrightarrow> (\<forall>(e, k, b) \<in> set recvd. k = wid x e)"
    by (intro ball_cong) auto
  ultimately show ?thesis by (simp add: Receive)
qed simp_all

lemma found_entries_Cons: "found_entries (p # ps) = found_entries [p] @ found_entries ps"
  by (cases p; cases "fst p") auto

lemma check_complete_frame [simp]:
  "m_runningJobs (check_complete js) = m_runningJobs js"
  "m_undoneJobs (check_complete js) = m_undoneJobs js"
  "m_queue (m_doneJobs (check_complete js)) = m_queue (m_doneJobs js)"
  "capacity (m_doneJobs (check_complete js)) = capacity (m_doneJobs js)"
  "exps (check_complete js) = exps js" "m_counter (check_complete js) = m_counter js"
  by (simp_all add: check_complete_def setIsFinished_def)

lemma receive_next_outcome:
  assumes "receive_next js msgs recvd = Some (js', c')" and ready: "coro_ready js (Receive msgs recvd)"
  shows "coro_outcome js (Receive msgs recvd) js' c' []"
proof (cases msgs)
  case (Cons p ps)
  then show ?thesis using assms by (auto simp: receive_next_def coro_outcome_def coro_ready_def)
next
  case Nil
  with assms(1) obtain js1 where js1: "store_results recvd js = Some js1"
      and js': "js' = check_complete js1" and c': "c' = Terminated"
    by (auto simp: receive_next_def)
  have st: "running_ok js1 \<and> server_jobs js1 = server_jobs js + mset (map fst recvd) \<and>
    exps js1 = exps js \<and> m_counter js1 = m_counter js \<and>
    mset (running_jobs js1) \<subseteq># mset (running_jobs js) + mset (map fst recvd)"
    using store_results_ok [OF js1] ready Nil by (simp add: coro_ready_def)
  then have "set (running_jobs js1) \<subseteq> set (running_jobs js) \<union> fst ` set recvd"
    using set_mset_mono by fastforce
  moreover have "running_ok js' = running_ok js1" "server_jobs js' = server_jobs js1"
      "running_jobs js' = running_jobs js1" "exps js' = exps js1" "m_counter js' = m_counter js1"
    by (simp_all add: js' running_ok_def server_jobs_def running_jobs_def)
  ultimately show ?thesis
    using c' Nil st by (simp add: coro_outcome_def)
qed

lemma receive_one_frame:
  assumes "receive_one exp w_id r js = Some (js1, rs)"
  shows "m_runningJobs js1 = m_runningJobs js \<and> m_undoneJobs js1 = m_undoneJobs js \<and>
    m_doneJobs js1 = m_doneJobs js \<and> m_counter js1 = m_counter js \<and>
    (\<forall>e. wid (exps js1) e = wid (exps js) e) \<and>
    map (\<lambda>(e, k, b). (k, e)) rs = found_entries [(exp, w_id)]"
  using assms by (auto simp: receive_one_def Let_def split: option.splits io.splits)

lemma receive_outcome:
  assumes "coro_step js (Receive msgs recvd) r = Some (js', c')"
    and ready: "coro_ready js (Receive msgs recvd)"
  shows "coro_outcome js (Receive msgs recvd) js' c' []"
proof -
  obtain exp w_id ps js1 rs where msgs: "msgs = (exp, w_id) # ps"
      and one: "receive_one exp w_id r js = Some (js1, rs)"
      and nxt: "receive_next js1 ps (recvd @ rs) = Some (js', c')"
    using assms(1) by (cases msgs) (auto split: option.splits)
  note fr = receive_one_frame [OF one]
  have fst_rs: "map fst rs = map snd (found_entries [(exp, w_id)])"
    using fr by (auto simp: case_prod_beta comp_def dest!: arg_cong [where f = "map snd"])
  have rs: "(k, e) \<in> set (found_entries [(exp, w_id)])" if "(e, k, b) \<in> set rs" for e k b
  proof -
    have "(k, e) \<in> set (map (\<lambda>(e, k, b). (k, e)) rs)" using that by force
    with fr show ?thesis by simp
  qed
  have held: "mset (held (Receive ps (recvd @ rs))) = mset (held (Receive msgs recvd))"
    by (simp add: msgs found_entries_Cons [of _ ps] fst_rs)
  have sets: "set (held (Receive ps (recvd @ rs))) = set (held (Receive msgs recvd))"
    using held by (metis set_mset_mset)
  have same: "server_jobs js1 = server_jobs js" "running_jobs js1 = running_jobs js"
    using fr by (simp_all add: server_jobs_def running_jobs_def)
  have "distinct (held (Receive ps (recvd @ rs)))"
    using ready held mset_eq_imp_distinct_iff [OF held] by (simp add: coro_ready_def)
  moreover have "receive_ids_ok (exps js1) (Receive ps (recvd @ rs))"
  proof -
    have ids: "\<forall>(k, e) \<in> set (found_entries [(exp, w_id)]). k = wid (exps js) e"
        "\<forall>(k, e) \<in> set (found_entries ps). k = wid (exps js) e"
        "\<forall>(e, k, b) \<in> set recvd. k = wid (exps js) e"
      using ready by (simp_all add: coro_ready_def msgs found_entries_Cons [of _ ps] ball_Un)
    have "\<forall>(e, k, b) \<in> set rs. k = wid (exps js) e"
      using rs ids(1) by fast
    with ids fr show ?thesis by (simp add: ball_Un)
  qed
  moreover have "running_ok js1" using ready fr by (simp add: coro_ready_def running_ok_def)
  moreover have "wid (exps js1) = wid (exps js)" using fr by (simp add: fun_eq_iff)
  ultimately have "coro_ready js1 (Receive ps (recvd @ rs))"
    using ready unfolding coro_ready_def distinct_append same sets by simp
  from receive_next_outcome [OF nxt this] fr show ?thesis
    unfolding coro_outcome_def same sets held by simp
qed

lemma fetch_jobs_none: "fst (fetch_jobs n js) = [] \<Longrightarrow> snd (snd (fetch_jobs n js)) = js"
  by (cases n) (auto simp: case_prod_beta Let_def split: option.splits)

lemma pickone_server:
  "running_ok js \<Longrightarrow> running_ok (js\<lparr>m_runningJobs := snd (pickone (m_runningJobs js))\<rparr>)"
  "running_jobs (js\<lparr>m_runningJobs := snd (pickone (m_runningJobs js))\<rparr>) = running_jobs js"
  "server_jobs (js\<lparr>m_runningJobs := snd (pickone (m_runningJobs js))\<rparr>) = server_jobs js"
  by (simp_all add: running_ok_def running_jobs_def server_jobs_def pickone_inv)

lemma pending_outcome:
  assumes "sendPendingExperimentData n js = (js', c')" and "newly_issued Await_ctrl c' = 0"
    and "running_ok js"
  shows "coro_outcome js Await_ctrl js' c' []"
proof -
  let ?m = "m_runningJobs js"
  have none: "fst (fetch_jobs (unat n) js) = []"
  proof (rule ccontr)
    assume "fst (fetch_jobs (unat n) js) \<noteq> []"
    then show False
      using assms(1,2) by (auto simp: sendPendingExperimentData_def Let_def case_prod_beta)
  qed
  note js1 = fetch_jobs_none [OF none]
  have "js' = js\<lparr>m_runningJobs := snd (pickone ?m)\<rparr> \<and> (\<exists>a b. c' = Send_second a b)"
    using assms(1) none js1
    by (cases "pickone ?m"; cases "fst (pickone ?m)")
      (auto simp: sendPendingExperimentData_def Let_def case_prod_beta)
  then show ?thesis
    using assms(3) by (auto simp: coro_outcome_def pickone_server)
qed

lemma results_outcome:
  assumes "receiveExperimentResults ctrlmsg js = Some (js', c')" and ready: "coro_ready js Await_ctrl"
  shows "coro_outcome js Await_ctrl js' c' []"
proof -
  let ?r = "take_ids smap_remove (workloadid ctrlmsg) (m_runningJobs js)"
  let ?js = "js\<lparr>m_runningJobs := snd ?r\<rparr>" and ?c = "Receive (fst ?r) []"
  have nxt: "receive_next ?js (fst ?r) [] = Some (js', c')"
    using assms(1) by (simp add: receiveExperimentResults_def case_prod_beta Let_def)
  have inv: "smap_inv (m_runningJobs js)" using ready by (simp add: coro_ready_def running_ok_def)
  note tk = sm.take_ids_entries [OF inv, of "workloadid ctrlmsg"]
  have ms: "mset (running_jobs ?js) + mset (held ?c) = mset (running_jobs js)"
    using tk by (simp add: running_jobs_def)
  have all: "set (running_jobs ?js) \<union> set (held ?c) = set (running_jobs js)"
    using arg_cong [OF ms, of set_mset] by simp
  have entries: "set (m_map (m_runningJobs js)) =
      set (found_entries (fst ?r)) \<union> set (m_map (m_runningJobs ?js))"
    using arg_cong [OF conjunct1 [OF tk], of set_mset] by simp
  have "distinct (running_jobs ?js @ held ?c)"
    using mset_eq_imp_distinct_iff [of "running_jobs ?js @ held ?c" "running_jobs js"] ms ready
    by (simp add: coro_ready_def)
  moreover have "running_ok ?js" "receive_ids_ok (exps ?js) ?c"
    using ready tk entries by (auto simp: coro_ready_def running_ok_def)
  moreover have "inj_on (wid (exps ?js)) (set (running_jobs ?js) \<union> set (held ?c))"
    using ready unfolding all by (simp add: coro_ready_def)
  ultimately have "coro_ready ?js ?c" by (simp add: coro_ready_def)
  from receive_next_outcome [OF nxt this]
  have out: "coro_outcome ?js ?c js' c' []" .
  have "server_jobs ?js + mset (held ?c) = server_jobs js"
    using ms by (simp add: server_jobs_def)
  with out all show ?thesis
    unfolding coro_outcome_def by simp
qed

lemma send_jobs_outcome:
  assumes step: "coro_step js (Send_jobs exp) r = Some (js', c')" and ready: "coro_ready js (Send_jobs exp)"
  shows "coro_outcome js (Send_jobs exp) js' c' []"
proof -
  obtain e es where exp: "exp = e # es" using step by (cases exp) auto
  have e: "e \<notin> set (running_jobs js)" and inj: "inj_on (wid (exps js)) (insert e (set (running_jobs js)))"
    using ready exp by (auto simp: coro_ready_def intro: inj_on_subset)
  have ok: "running_ok js" using ready by (simp add: coro_ready_def)
  define js1 where "js1 = js\<lparr>m_runningJobs := snd (smap_insert (wid (exps js) e) e (m_runningJobs js))\<rparr>"
  note ins = insert_running [OF ok e inj, folded js1_def]
  have fr: "exps js1 = exps js" "m_counter js1 = m_counter js" "server_jobs js1 = add_mset e (server_jobs js)"
    using ins(3) by (simp_all add: js1_def server_jobs_def)
  have set1: "set (running_jobs js1) = insert e (set (running_jobs js))"
    using arg_cong [OF ins(3), of set_mset] by simp
  have "r = Send_ok \<and> js' = js1 \<and> held c' = es \<and> receive_ids_ok (exps js') c' \<or>
      r = Send_fail \<and> js' = js \<and> c' = Requeue exp"
    using step by (auto simp: exp js1_def split: io.splits)
  then show ?thesis
  proof (elim disjE conjE)
    assume "r = Send_ok" "js' = js1" "held c' = es" "receive_ids_ok (exps js') c'"
    with ins(2) fr set1 exp show ?thesis by (auto simp: coro_outcome_def)
  next
    assume "r = Send_fail" "js' = js" "c' = Requeue exp"
    with ok exp show ?thesis by (auto simp: coro_outcome_def)
  qed
qed

lemma coro_step_outcome:
  assumes step: "coro_step js c r = Some (js', c')" and old: "newly_issued c c' = 0"
    and ready: "coro_ready js c"
  shows "coro_outcome js c js' c' (dropped c r)"
proof (cases c)
  case Await_ctrl
  have "dropped c r = []" by (simp add: dropped_def Await_ctrl)
  moreover have "coro_outcome js Await_ctrl js' c' []"
    using step ready old Await_ctrl pending_outcome [of _ js js' c'] results_outcome [of _ js js' c']
    by (auto simp: dispatch_def coro_ready_def coro_outcome_def
        split: io.splits Command.splits if_splits)
  ultimately show ?thesis using Await_ctrl by simp
next
  case (Send_jobs exp)
  then show ?thesis using send_jobs_outcome step ready by (simp add: dropped_def)
next
  case (Requeue exp)
  with step obtain e es where exp: "exp = e # es" by (cases exp) auto
  with step Requeue obtain q where q: "Enqueue e (m_undoneJobs js) = Some q"
      and js': "js' = js\<lparr>m_undoneJobs := q\<rparr>" and c': "c' = (if es = [] then Terminated else Requeue es)"
    by (auto split: option.splits if_splits)
  have "m_queue q = m_queue (m_undoneJobs js) @ [e]" using q by (auto dest: Enqueue_SomeD)
  then show ?thesis
    using ready Requeue exp js' c'
    by (auto simp: coro_outcome_def coro_ready_def server_jobs_def dropped_def running_ok_def running_jobs_def)
next
  case (Receive msgs recvd)
  then show ?thesis using receive_outcome step ready by (simp add: dropped_def)
qed (use step ready in \<open>auto simp: coro_outcome_def coro_ready_def dropped_def
       split: io.splits if_splits option.splits\<close>)

lemma fetch_outcome:
  fixes js :: "'m JobServer"
  assumes "coro_step js c r = Some (js', c')" and "newly_issued c c' \<noteq> 0"
  shows "\<exists>n. c = Await_ctrl \<and> js' = snd (snd (fetch_jobs n js)) \<and> held c' = fst (fetch_jobs n js) \<and>
    newly_issued c c' = length (fst (fetch_jobs n js)) \<and> (\<forall>y. receive_ids_ok (y :: exp_ptr \<Rightarrow> 'm ExperimentData) c')"
proof -
  have c: "c = Await_ctrl" using assms(2) by (cases c; cases c') auto
  then obtain n where "sendPendingExperimentData n js = (js', c')"
    using assms
    by (auto simp: dispatch_def receiveExperimentResults_def receive_next_def case_prod_beta Let_def
        split: io.splits Command.splits if_splits)
  with assms(2) c show ?thesis
    by (intro exI [of _ "unat n"])
      (auto simp: sendPendingExperimentData_def Let_def case_prod_beta split: if_splits prod.splits option.splits)
qed

section \<open>The invariant of the server\<close>

definition active :: "'m sys \<Rightarrow> exp_ptr set" where
  "active s = set (running_jobs (server s)) \<union> set (concat (map held (coros s)))"

definition sys_inv :: "'m sys \<Rightarrow> bool" where
  "sys_inv s \<longleftrightarrow>
     conserved s \<and> running_ok (server s) \<and>
     (\<forall>c \<in> set (coros s). receive_ids_ok (exps (server s)) c) \<and>
     ids_ok (exps (server s)) (issued s) (active s) \<and> m_counter (server s) = of_nat (issued s)"

lemma mset_transfer:
  fixes A :: "'a multiset"
  assumes "A + h = A' + h' + d" and "C' + h = C + h'"
  shows "A' + C' + d = A + C"
proof -
  have "(A' + C' + d) + h = A' + d + (C' + h)" by (simp add: ac_simps)
  also have "\<dots> = (A + h) + C" unfolding assms by (simp add: ac_simps)
  finally show ?thesis by (simp add: ac_simps)
qed

lemma distinct_subset_mset:
  assumes "distinct ys" and "mset xs \<subseteq># mset ys"
  shows "distinct xs"
proof -
  obtain zs where "mset ys = mset (xs @ zs)"
    using assms(2) by (metis ex_mset mset_append mset_subset_eq_exists_conv)
  with assms(1) show ?thesis using mset_eq_imp_distinct_iff [of ys "xs @ zs"] by simp
qed

lemma held_subset: "i < length cs \<Longrightarrow> mset (held (cs ! i)) \<subseteq># mset (concat (map held cs))"
proof (induction cs arbitrary: i)
  case (Cons c cs)
  then show ?case by (cases i) (auto intro: subset_mset.add_increasing)
qed simp

lemma conserved_distinct:
  assumes "conserved s"
  shows "distinct (m_queue (m_undoneJobs (server s)) @ running_jobs (server s) @ concat (map held (coros s)))"
proof -
  let ?xs = "m_queue (m_undoneJobs (server s)) @ running_jobs (server s) @ concat (map held (coros s))"
  have "mset (added s) = mset (?xs @ m_queue (m_doneJobs (server s)) @ delivered s @ lost s)"
    using assms by (simp add: conserved_def server_jobs_def ac_simps)
  then have "distinct (?xs @ m_queue (m_doneJobs (server s)) @ delivered s @ lost s)"
    using assms mset_eq_imp_distinct_iff by (metis conserved_def)
  then show ?thesis by (metis append_assoc distinct_append)
qed

lemma sys_inv_ready:
  assumes inv: "sys_inv s" and i: "i < length (coros s)"
  shows "coro_ready (server s) (coros s ! i)"
proof -
  let ?js = "server s" and ?c = "coros s ! i"
  have d: "distinct (running_jobs ?js @ concat (map held (coros s)))"
    using inv conserved_distinct [of s] by (simp add: sys_inv_def)
  moreover have "mset (running_jobs ?js @ held ?c) \<subseteq># mset (running_jobs ?js @ concat (map held (coros s)))"
    using held_subset [OF i] by simp
  ultimately have "distinct (running_jobs ?js @ held ?c)"
    by (rule distinct_subset_mset)
  moreover have "set (running_jobs ?js) \<union> set (held ?c) \<subseteq> active s"
    using nth_mem [OF i] by (auto simp: active_def)
  then have "inj_on (wid (exps ?js)) (set (running_jobs ?js) \<union> set (held ?c))"
    using inv by (auto simp: sys_inv_def ids_ok_def intro: inj_on_subset)
  ultimately show ?thesis
    using inv nth_mem [OF i] by (simp add: sys_inv_def coro_ready_def)
qed

abbreviation after_io :: "'m sys \<Rightarrow> nat \<Rightarrow> 'm JobServer \<Rightarrow> coro \<Rightarrow> exp_ptr list \<Rightarrow> 'm sys" where
  "after_io s i js c d \<equiv>
     s\<lparr>server := js, coros := (coros s)[i := c], lost := lost s @ d,
       issued := issued s + newly_issued (coros s ! i) c\<rparr>"

lemma conserved_after_io:
  assumes "conserved s" and "i < length (coros s)"
    and "server_jobs (server s) + mset (held (coros s ! i)) = server_jobs js + mset (held c) + mset d"
  shows "conserved (after_io s i js c d)"
proof -
  note upd = mset_concat_map_update [OF assms(2), of held c]
  show ?thesis
    using assms(1) mset_transfer [OF assms(3) upd] by (simp add: conserved_def ac_simps)
qed

lemma active_after_io:
  "active (after_io s i js c d) \<subseteq> set (running_jobs js) \<union> set (held c) \<union> set (concat (map held (coros s)))"
  by (auto simp: active_def dest!: subsetD [OF set_update_subset_insert])

lemma receive_ids_after_io:
  assumes "\<forall>c \<in> set (coros s). receive_ids_ok x c" and "receive_ids_ok x c"
  shows "\<forall>c \<in> set (coros (after_io s i js c d)). receive_ids_ok x c"
  using assms by (auto dest!: subsetD [OF set_update_subset_insert])

lemma io_old_inv:
  assumes inv: "sys_inv s" and i: "i < length (coros s)"
    and step: "coro_step (server s) (coros s ! i) r = Some (js, c)"
    and old: "newly_issued (coros s ! i) c = 0"
  shows "sys_inv (after_io s i js c (dropped (coros s ! i) r))"
proof -
  let ?s = "after_io s i js c (dropped (coros s ! i) r)"
  note out = coro_step_outcome [OF step old sys_inv_ready [OF inv i]]
  have wid: "wid (exps js) e = wid (exps (server s)) e" for e
    using out by (simp add: coro_outcome_def)
  have "set (held (coros s ! i)) \<subseteq> set (concat (map held (coros s)))"
    using nth_mem [OF i] by auto
  moreover have "set (running_jobs js) \<union> set (held c) \<subseteq> set (running_jobs (server s)) \<union> set (held (coros s ! i))"
    using out by (simp add: coro_outcome_def)
  ultimately have "active ?s \<subseteq> active s"
    unfolding active_def [of s] by (intro subset_trans [OF active_after_io]) blast
  then have "ids_ok (exps (server s)) (issued s) (active ?s)"
    by (rule ids_ok_subset [rotated]) (use inv in \<open>simp add: sys_inv_def\<close>)
  then have ids: "ids_ok (exps js) (issued s) (active ?s)"
    using ids_ok_cong [of "active ?s" "exps js" "exps (server s)"] wid by simp
  have "conserved ?s"
    by (rule conserved_after_io) (use inv i out in \<open>simp_all add: sys_inv_def coro_outcome_def\<close>)
  moreover have "\<forall>c \<in> set (coros ?s). receive_ids_ok (exps js) c"
    by (rule receive_ids_after_io)
      (use inv out receive_ids_ok_cong [OF wid] in \<open>simp_all add: sys_inv_def coro_outcome_def\<close>)
  ultimately show ?thesis
    using inv out old ids by (simp add: sys_inv_def coro_outcome_def)
qed

lemma io_new_inv:
  assumes inv: "sys_inv s" and i: "i < length (coros s)"
    and step: "coro_step (server s) (coros s ! i) r = Some (js, c)"
    and new: "newly_issued (coros s ! i) c \<noteq> 0"
    and bound: "issued s + newly_issued (coros s ! i) c < 2 ^ 32"
  shows "sys_inv (after_io s i js c (dropped (coros s ! i) r))"
proof -
  let ?js = "server s" and ?s = "after_io s i js c (dropped (coros s ! i) r)"
  obtain n where f: "coros s ! i = Await_ctrl" "js = snd (snd (fetch_jobs n ?js))"
      "held c = fst (fetch_jobs n ?js)"
      "newly_issued (coros s ! i) c = length (fst (fetch_jobs n ?js))"
      and rc: "receive_ids_ok (exps js) c"
    using fetch_outcome [OF step new] by fast
  have nodrop: "dropped (coros s ! i) r = []" by (simp add: dropped_def f(1))
  have q: "held c = take n (m_queue (m_undoneJobs ?js))" 
      "m_queue (m_undoneJobs js) = drop n (m_queue (m_undoneJobs ?js))"
    by (simp_all only: f fetch_jobs_queue)
  have fr: "m_runningJobs js = m_runningJobs ?js" "m_doneJobs js = m_doneJobs ?js"
      "m_counter js = m_counter ?js + of_nat (newly_issued (coros s ! i) c)"
    unfolding f(2,4) using fetch_jobs_frame [of n ?js] by simp_all
  have d: "distinct (m_queue (m_undoneJobs ?js))" "set (m_queue (m_undoneJobs ?js)) \<inter> active s = {}"
    using inv conserved_distinct [of s] by (auto simp: sys_inv_def active_def)
  have wid: "wid (exps js) e = wid (exps ?js) e" if "e \<in> active s" for e
  proof -
    have "e \<notin> set (held c)" using that d(2) q(1) by (auto dest: in_set_takeD)
    then show ?thesis using fetch_jobs_exps [of e n ?js] f(2,3) by simp
  qed
  have ids: "ids_ok (exps js) (issued s + newly_issued (coros s ! i) c) (active s \<union> set (held c))"
    unfolding f(2,3,4) by (rule conjunct1 [OF fetch_jobs_ids])
      (use inv d bound f(4) in \<open>simp_all add: sys_inv_def\<close>)
  have "mset (m_queue (m_undoneJobs ?js)) = mset (held c) + mset (m_queue (m_undoneJobs js))"
    unfolding q by (metis append_take_drop_id mset_append)
  then have "conserved (after_io s i js c [])"
    using inv i fr f(1)
    by (intro conserved_after_io) (simp_all add: sys_inv_def server_jobs_def running_jobs_def)
  moreover have "running_ok js"
  proof -
    have "k = wid (exps js) e" if "(k, e) \<in> set (m_map (m_runningJobs js))" for k e
    proof -
      have "e \<in> active s" using that fr(1) by (force simp: active_def running_jobs_def)
      with wid that inv fr(1) show ?thesis by (auto simp: sys_inv_def running_ok_def)
    qed
    with inv fr show ?thesis by (auto simp: sys_inv_def running_ok_def)
  qed
  moreover have "\<forall>c \<in> set (coros (after_io s i js c [])). receive_ids_ok (exps js) c"
  proof (rule receive_ids_after_io)
    show "\<forall>c \<in> set (coros s). receive_ids_ok (exps js) c"
    proof
      fix c' assume c': "c' \<in> set (coros s)"
      then have "wid (exps js) e = wid (exps ?js) e" if "e \<in> set (held c')" for e
        using that wid by (auto simp: active_def)
      from receive_ids_ok_cong [OF this] c' inv show "receive_ids_ok (exps js) c'"
        by (simp add: sys_inv_def)
    qed
  qed (rule rc)
  moreover have rj: "running_jobs js = running_jobs ?js" by (simp add: running_jobs_def fr)
  have sub: "active (after_io s i js c []) \<subseteq> active s \<union> set (held c)"
    by (rule subset_trans [OF active_after_io]) (auto simp: rj active_def [of s])
  note ids_ok_subset [OF ids sub]
  ultimately show ?thesis
    using inv fr nodrop by (simp add: sys_inv_def)
qed

lemma addParam_SomeD:
  "addParam e js = Some js' \<Longrightarrow>
     m_queue (m_undoneJobs js') = m_queue (m_undoneJobs js) @ [e] \<and> m_runningJobs js' = m_runningJobs js \<and>
     m_doneJobs js' = m_doneJobs js \<and> exps js' = exps js \<and> m_counter js' = m_counter js \<and>
     noMoreExps js' = noMoreExps js"
  by (auto simp: addParam_def split: option.splits dest: Enqueue_SomeD)

lemma getDone_SomeD:
  "getDone js = Some (r, js') \<Longrightarrow>
     m_queue (m_doneJobs js) = (case r of Some e \<Rightarrow> [e] | None \<Rightarrow> []) @ m_queue (m_doneJobs js') \<and>
     capacity (m_doneJobs js') = capacity (m_doneJobs js) \<and> finished (m_doneJobs js') = finished (m_doneJobs js) \<and>
     m_runningJobs js' = m_runningJobs js \<and> m_undoneJobs js' = m_undoneJobs js \<and>
     exps js' = exps js \<and> m_counter js' = m_counter js \<and> noMoreExps js' = noMoreExps js \<and>
     (r = None \<longrightarrow> finished (m_doneJobs js))"
  by (auto simp: getDone_def Dequeue_def split: option.splits list.splits if_splits)

lemma setNoMoreExperiments_frame:
  "m_queue (m_undoneJobs (setNoMoreExperiments js)) = m_queue (m_undoneJobs js)"
  "m_runningJobs (setNoMoreExperiments js) = m_runningJobs js"
  "m_queue (m_doneJobs (setNoMoreExperiments js)) = m_queue (m_doneJobs js)"
  "capacity (m_doneJobs (setNoMoreExperiments js)) = capacity (m_doneJobs js)"
  "exps (setNoMoreExperiments js) = exps js" "m_counter (setNoMoreExperiments js) = m_counter js"
  "noMoreExps (setNoMoreExperiments js)"
  by (simp_all add: setNoMoreExperiments_def Let_def setIsFinished_def)

lemma sys_inv_frame:
  assumes "sys_inv s" and "coros s' = coros s" and "added s' = added s" and "lost s' = lost s"
    and "issued s' = issued s" and "m_runningJobs (server s') = m_runningJobs (server s)"
    and "m_queue (m_undoneJobs (server s')) = m_queue (m_undoneJobs (server s))"
    and "mset (m_queue (m_doneJobs (server s'))) + mset (delivered s') =
      mset (m_queue (m_doneJobs (server s))) + mset (delivered s)"
    and "capacity (m_doneJobs (server s')) = capacity (m_doneJobs (server s))"
    and "exps (server s') = exps (server s)" and "m_counter (server s') = m_counter (server s)"
  shows "sys_inv s'"
proof -
  have "mset (added s) = (mset (m_queue (m_undoneJobs (server s))) + mset (running_jobs (server s))) +
     (mset (m_queue (m_doneJobs (server s))) + mset (delivered s)) + mset (concat (map held (coros s))) + mset (lost s)"
    using assms(1) by (simp add: sys_inv_def conserved_def server_jobs_def ac_simps)
  then have "conserved s'"
    unfolding assms(8) [symmetric] using assms(1-7)
    by (simp add: sys_inv_def conserved_def server_jobs_def running_jobs_def ac_simps)
  with assms show ?thesis
    by (simp add: sys_inv_def running_ok_def active_def running_jobs_def)
qed

lemma add_inv:
  fixes m :: 'm
  assumes inv: "sys_inv s" and e: "e \<notin> set (added s)" and add: "addParam e (server s) = Some js"
  defines "x \<equiv> (exps js)(e := \<lparr>msg = m, m_workloadID = 0\<rparr>)"
  shows "sys_inv (s\<lparr>server := js\<lparr>exps := x\<rparr>, added := added s @ [e]\<rparr>)"
proof -
  let ?s = "s\<lparr>server := js\<lparr>exps := x\<rparr>, added := added s @ [e]\<rparr>"
  note a = addParam_SomeD [OF add]
  have "set_mset (mset (added s)) = set_mset (server_jobs (server s) + mset (concat (map held (coros s)))
       + mset (delivered s) + mset (lost s))"
    using inv by (simp add: sys_inv_def conserved_def)
  then have "active s \<subseteq> set (added s)" by (auto simp: active_def server_jobs_def)
  then have wid: "wid x f = wid (exps (server s)) f" if "f \<in> active s" for f
    using that e a by (auto simp: x_def)
  have act: "active ?s = active s" using a by (simp add: active_def running_jobs_def)
  have "conserved ?s"
    using inv e a by (simp add: sys_inv_def conserved_def server_jobs_def running_jobs_def)
  moreover have "running_ok (server ?s)"
  proof -
    have "k = wid x f" if "(k, f) \<in> set (m_map (m_runningJobs (server s)))" for k f
    proof -
      have "f \<in> active s" using that by (force simp: active_def running_jobs_def)
      with wid that inv show ?thesis by (auto simp: sys_inv_def running_ok_def)
    qed
    with inv a show ?thesis by (auto simp: sys_inv_def running_ok_def)
  qed
  moreover have "receive_ids_ok x c" if "c \<in> set (coros s)" for c
  proof -
    have "receive_ids_ok x c = receive_ids_ok (exps (server s)) c"
      by (rule receive_ids_ok_cong, rule wid) (use that in \<open>auto simp: active_def\<close>)
    with inv that show ?thesis by (simp add: sys_inv_def)
  qed
  moreover have "ids_ok x (issued s) (active s)"
    using ids_ok_cong [OF wid, of "active s"] inv by (simp add: sys_inv_def)
  ultimately show ?thesis using inv a act by (simp add: sys_inv_def)
qed

lemma sys_step_inv:
  assumes inv: "sys_inv s" and step: "sys_step s ev = Some s'" and bound: "issued s' < 2 ^ 32"
  shows "sys_inv s'"
proof (cases ev)
  case (AddParam e m)
  then show ?thesis using step add_inv [OF inv] by (auto split: if_splits)
next
  case GetDone
  with step obtain r js where g: "getDone (server s) = Some (r, js)"
      and s': "s' = s\<lparr>server := js, delivered := delivered s @ (case r of Some e \<Rightarrow> [e] | None \<Rightarrow> [])\<rparr>"
    by (auto split: option.splits)
  show ?thesis
    by (rule sys_inv_frame [OF inv]) (use getDone_SomeD [OF g] s' in \<open>auto split: option.splits\<close>)
next
  case SetNoMoreExperiments
  then have s': "s' = s\<lparr>server := setNoMoreExperiments (server s)\<rparr>" using step by simp
  show ?thesis by (rule sys_inv_frame [OF inv]) (simp_all add: s' setNoMoreExperiments_frame)
next
  case Accept
  then have s': "s' = s\<lparr>coros := coros s @ [Await_ctrl]\<rparr>" using step by simp
  show ?thesis using inv by (simp add: s' sys_inv_def conserved_def active_def)
next
  case (Io i r)
  with step obtain js c where i: "i < length (coros s)"
      and st: "coro_step (server s) (coros s ! i) r = Some (js, c)"
      and s': "s' = after_io s i js c (dropped (coros s ! i) r)"
    by (auto split: option.splits if_splits)
  show ?thesis
  proof (cases "newly_issued (coros s ! i) c = 0")
    case True
    show ?thesis unfolding s' by (rule io_old_inv [OF inv i st True])
  next
    case False
    show ?thesis unfolding s' by (rule io_new_inv [OF inv i st False]) (use bound s' in simp)
  qed
qed (use step in \<open>auto intro!: sys_inv_frame [OF inv]
      simp: setTotalCount_def increaseTotalCount_def skipJobs_def\<close>)

lemma issued_mono: "sys_step s ev = Some s' \<Longrightarrow> issued s \<le> issued s'"
  by (cases ev) (auto split: option.splits if_splits)

lemma sys_inv_new: "sys_inv (sys_new runid cap m0)"
  by (simp add: sys_inv_def sys_new_def JobServer_new_def conserved_def server_jobs_def running_jobs_def
      running_ok_def active_def ids_ok_def smap_defs SynchronizedQueue_new_def)

lemma reachable_inv: "reachable runid cap m0 s \<Longrightarrow> issued s < 2 ^ 32 \<Longrightarrow> sys_inv s"
proof (induction rule: reachable.induct)
  case start
  show ?case by (rule sys_inv_new)
next
  case (step s s')
  then obtain ev where ev: "sys_step s ev = Some s'" by (auto elim: server_step.cases)
  have "issued s < 2 ^ 32" using issued_mono [OF ev] step.prems by (rule le_less_trans)
  then show ?case using sys_step_inv [OF _ ev step.prems] step.IH by blast
qed

section \<open>When the campaign is told that all results are in\<close>

lemma store_results_flags:
  "store_results rs js = Some js' \<Longrightarrow>
     finished (m_doneJobs js') = finished (m_doneJobs js) \<and> noMoreExps js' = noMoreExps js"
proof (induction rs js rule: store_results.induct)
  case (2 exp w_id received rs js)
  then show ?case by (fastforce split: if_splits option.splits dest: Enqueue_SomeD)
qed simp

lemma receive_next_flags:
  assumes "receive_next js msgs recvd = Some (js', c)"
  shows "noMoreExps js' = noMoreExps js"
    and "finished (m_doneJobs js') \<Longrightarrow> \<not> finished (m_doneJobs js) \<Longrightarrow>
      noMoreExps js' \<and> m_queue (m_undoneJobs js') = [] \<and> m_map (m_runningJobs js') = []"
  using assms store_results_flags [of recvd js]
  by (auto simp: receive_next_def check_complete_def noMoreExperiments_def setIsFinished_def Size_def
      smap_Size_def split: if_splits)

lemma fetch_jobs_id_list:
  "fst (snd (fetch_jobs n js)) =
     map (\<lambda>i. m_counter js + of_nat (Suc i)) [0..<length (fst (fetch_jobs n js))]"
proof (induction n arbitrary: js)
  case (Suc n)
  show ?case
  proof (cases "Dequeue_nb (m_undoneJobs js)")
    case (Some p)
    obtain e q where "Dequeue_nb (m_undoneJobs js) = Some (e, q)" using Some by (cases p) simp
    from fetch_jobs_step [OF this, of n] Suc.IH show ?thesis
      by (simp del: upt_Suc add: upt_conv_Cons map_Suc_upt [symmetric] ac_simps)
  qed simp
qed simp

lemma coro_step_flags:
  assumes "coro_step js c r = Some (js', c')"
  shows "noMoreExps js' = noMoreExps js"
    and "finished (m_doneJobs js') \<Longrightarrow> \<not> finished (m_doneJobs js) \<Longrightarrow>
      noMoreExps js' \<and> m_queue (m_undoneJobs js') = [] \<and> m_map (m_runningJobs js') = []"
proof -
  have pend: "noMoreExps (fst (sendPendingExperimentData n js)) = noMoreExps js \<and>
      m_doneJobs (fst (sendPendingExperimentData n js)) = m_doneJobs js" for n
    using fetch_jobs_frame [of "unat n" js]
    by (auto simp: sendPendingExperimentData_def Let_def case_prod_beta split: option.splits prod.splits)
  have one: "noMoreExps js1 = noMoreExps js \<and> m_doneJobs js1 = m_doneJobs js"
    if "receive_one e w r js = Some (js1, rs)" for e w js1 rs
    using that by (auto simp: receive_one_def Let_def split: option.splits io.splits)
  have "noMoreExps js' = noMoreExps js \<and> (finished (m_doneJobs js') \<longrightarrow> \<not> finished (m_doneJobs js) \<longrightarrow>
      noMoreExps js' \<and> m_queue (m_undoneJobs js') = [] \<and> m_map (m_runningJobs js') = [])"
  proof (cases c)
    case Await_ctrl
    then show ?thesis
      using assms receive_next_flags [of _ _ _ js' c']
      by (auto simp: dispatch_def receiveExperimentResults_def case_prod_beta Let_def
          dest!: arg_cong [of _ _ fst] simp: pend
          split: io.splits Command.splits if_splits)
  next
    case (Receive msgs recvd)
    then obtain e w js1 rs ps where "receive_one e w r js = Some (js1, rs)"
        "receive_next js1 ps (recvd @ rs) = Some (js', c')"
      using assms by (cases msgs) (auto split: option.splits)
    then show ?thesis using one receive_next_flags [of js1 ps "recvd @ rs" js' c'] by simp
  next
    case (Send_jobs exp)
    then show ?thesis using assms by (cases exp) (auto split: io.splits)
  next
    case (Requeue exp)
    then show ?thesis using assms by (cases exp) (auto split: if_splits option.splits)
  qed (use assms in \<open>auto split: io.splits if_splits\<close>)
  then show "noMoreExps js' = noMoreExps js"
    and "finished (m_doneJobs js') \<Longrightarrow> \<not> finished (m_doneJobs js) \<Longrightarrow>
      noMoreExps js' \<and> m_queue (m_undoneJobs js') = [] \<and> m_map (m_runningJobs js') = []"
    by blast+
qed

lemma sys_step_finish:
  assumes "sys_step s ev = Some s'"
    and "finished (m_doneJobs (server s'))" and "\<not> finished (m_doneJobs (server s))"
  shows "noMoreExps (server s') \<and> m_queue (m_undoneJobs (server s')) = [] \<and>
    m_map (m_runningJobs (server s')) = []"
proof (cases ev)
  case (AddParam e m)
  then show ?thesis using assms by (auto split: if_splits dest!: addParam_SomeD)
next
  case GetDone
  then show ?thesis using assms by (auto split: option.splits dest!: getDone_SomeD)
next
  case SetNoMoreExperiments
  then show ?thesis
    using assms by (auto simp: setNoMoreExperiments_def Let_def setIsFinished_def Size_def smap_Size_def
        split: if_splits)
next
  case (Io i r)
  then show ?thesis using assms by (auto split: if_splits option.splits dest!: coro_step_flags(2))
qed (use assms in \<open>auto simp: setTotalCount_def increaseTotalCount_def skipJobs_def\<close>)

lemma sys_step_noMore: "sys_step s ev = Some s' \<Longrightarrow> noMoreExps (server s) \<Longrightarrow> noMoreExps (server s')"
  by (cases ev) (auto simp: setTotalCount_def increaseTotalCount_def skipJobs_def setNoMoreExperiments_frame
      split: if_splits option.splits dest!: addParam_SomeD getDone_SomeD coro_step_flags(1))

lemma finished_noMore:
  "reachable runid cap m0 s \<Longrightarrow> finished (m_doneJobs (server s)) \<Longrightarrow> noMoreExps (server s)"
proof (induction rule: reachable.induct)
  case start
  then show ?case by (simp add: sys_new_def JobServer_new_def SynchronizedQueue_new_def)
next
  case (step s s')
  then obtain ev where ev: "sys_step s ev = Some s'" by (auto elim: server_step.cases)
  show ?case
    using step sys_step_finish [OF ev] sys_step_noMore [OF ev] by blast
qed

section \<open>What the server promises\<close>

text \<open>
  C1. No job is duplicated and none disappears. In every state the server can get into (up to
  \<open>2\<^sup>3\<^sup>2\<close> identifiers given out), the jobs the campaign added are exactly the jobs waiting in
  \<open>m_undoneJobs\<close>, held by one coroutine, in \<open>m_runningJobs\<close>, in \<open>m_doneJobs\<close>, handed back by
  \<open>getDone\<close>, or dropped with a failed announcement, each exactly once.
\<close>

theorem jobs_conserved:
  assumes "reachable runid cap m0 s" and "issued s < 2 ^ 32"
  shows "distinct (added s) \<and>
    mset (added s) =
      mset (m_queue (m_undoneJobs (server s))) + mset (concat (map held (coros s)))
      + mset (map snd (m_map (m_runningJobs (server s)))) + mset (m_queue (m_doneJobs (server s)))
      + mset (delivered s) + mset (lost s)"
  using reachable_inv [OF assms]
  by (simp add: sys_inv_def conserved_def server_jobs_def running_jobs_def ac_simps)

text \<open>A small campaign: two jobs are handed to one client, sending the second one fails.\<close>

definition demo_need :: FailControlMessage where
  "demo_need = \<lparr>command = NEED_WORK, workloadid = [], build_id = 42, run_id = Some 0, job_size = Some 2\<rparr>"

definition demo_events :: "nat event list" where
  "demo_events = [AddParam 10 1, AddParam 11 2, Accept, Io 0 (Rcv_ctrl demo_need), Io 0 Send_ok]"

definition demo :: "nat sys" where
  "demo = the (sys_run (sys_new 7 0 0) demo_events)"

definition demo_queued :: "nat sys" where
  "demo_queued = the (sys_run (sys_new 7 0 0) [AddParam 10 1, AddParam 11 2])"

lemma demo_run: "sys_run (sys_new 7 0 0) demo_events = Some demo"
proof -
  have "sys_run (sys_new 7 0 (0 :: nat)) demo_events \<noteq> None" by code_simp
  then show ?thesis by (simp add: demo_def)
qed

lemma demo_reachable: "reachable 7 0 0 demo"
  by (rule sys_run_reachable [OF reachable.start demo_run])

lemma demo_issued: "issued demo < 2 ^ 32"
proof -
  have "issued demo = 2" by code_simp
  then show ?thesis by simp
qed

theorem jobs_conserved_witness:
  "reachable 7 0 0 demo \<and> issued demo < 2 ^ 32 \<and> added demo = [10, 11] \<and>
   mset [10, 11] = mset (m_queue (m_undoneJobs (server demo))) + mset (concat (map held (coros demo)))
      + mset (map snd (m_map (m_runningJobs (server demo)))) + mset (m_queue (m_doneJobs (server demo)))
      + mset (delivered demo) + mset (lost demo)"
proof -
  have "added demo = [10, 11]" by code_simp
  with jobs_conserved [OF demo_reachable demo_issued] demo_reachable demo_issued
  show ?thesis by simp
qed

text \<open>
  C2. The workload identifiers of all jobs that are out (running or held by a coroutine) are
  pairwise different, the running map files each job under its own identifier, and therefore the
  insertion after a successful send never hits an existing key (the branch in which
  \<open>sendPendingExperimentData\<close> would log that the identifier is taken is unreachable).
\<close>

theorem workload_ids_unique:
  assumes "reachable runid cap m0 s" and "issued s < 2 ^ 32"
  shows "inj_on (\<lambda>e. m_workloadID (exps (server s) e))
      (snd ` set (m_map (m_runningJobs (server s))) \<union> set (concat (map held (coros s)))) \<and>
    (\<forall>(k, e) \<in> set (m_map (m_runningJobs (server s))). k = m_workloadID (exps (server s) e)) \<and>
    (\<forall>e es. Send_jobs (e # es) \<in> set (coros s) \<longrightarrow>
       fst (smap_insert (m_workloadID (exps (server s) e)) e (m_runningJobs (server s))))"
proof (intro conjI allI impI)
  note inv = reachable_inv [OF assms]
  show "inj_on (\<lambda>e. m_workloadID (exps (server s) e))
      (snd ` set (m_map (m_runningJobs (server s))) \<union> set (concat (map held (coros s))))"
    using inv by (simp add: sys_inv_def ids_ok_def active_def running_jobs_def)
  show "\<forall>(k, e) \<in> set (m_map (m_runningJobs (server s))). k = m_workloadID (exps (server s) e)"
    using inv by (simp add: sys_inv_def running_ok_def)
  fix e es assume "Send_jobs (e # es) \<in> set (coros s)"
  then obtain i where i: "i < length (coros s)" "coros s ! i = Send_jobs (e # es)"
    by (metis in_set_conv_nth)
  then have "coro_ready (server s) (Send_jobs (e # es))" using sys_inv_ready [OF inv i(1)] by simp
  then show "fst (smap_insert (m_workloadID (exps (server s) e)) e (m_runningJobs (server s)))"
    by (intro insert_running) (auto simp: coro_ready_def intro: inj_on_subset)
qed

theorem workload_ids_unique_witness:
  "reachable 7 0 0 demo \<and> issued demo < 2 ^ 32 \<and> Send_jobs [10, 11] \<in> set (coros demo) \<and>
   fst (smap_insert (m_workloadID (exps (server demo) 10)) 10 (m_runningJobs (server demo)))"
proof -
  have "coros demo = [Send_jobs [10, 11]]" by code_simp
  with workload_ids_unique [OF demo_reachable demo_issued] demo_reachable demo_issued
  show ?thesis by simp
qed

text \<open>
  C3. The results queue is declared finished, which is what ends the campaign's \<open>getDone\<close> loop,
  only by a step after which \<open>setNoMoreExperiments\<close> was called, \<open>m_undoneJobs\<close> and \<open>m_runningJobs\<close> are
  empty, and every added job is in \<open>m_doneJobs\<close>, was already handed back, is still held by a coroutine
  (which is announcing it, sending it, giving it back to \<open>m_undoneJobs\<close> or reading its result), or was
  dropped with a failed announcement.
\<close>

theorem finish_accounts_for_all_jobs:
  assumes "reachable runid cap m0 s" and "sys_step s ev = Some s'" and "issued s' < 2 ^ 32"
    and "\<not> finished (m_doneJobs (server s))" and "finished (m_doneJobs (server s'))"
  shows "noMoreExperiments (server s') \<and> m_queue (m_undoneJobs (server s')) = [] \<and> m_map (m_runningJobs (server s')) = [] \<and>
    mset (added s') = mset (m_queue (m_doneJobs (server s'))) + mset (delivered s')
      + mset (concat (map held (coros s'))) + mset (lost s')"
proof -
  have "reachable runid cap m0 s'"
    using assms(1,2) by (blast intro: reachable.step server_step.intros)
  from reachable_inv [OF this assms(3)] sys_step_finish [OF assms(2,5,4)]
  show ?thesis
    by (simp add: sys_inv_def conserved_def server_jobs_def running_jobs_def noMoreExperiments_def ac_simps)
qed

definition demo_result :: "u32 list \<Rightarrow> FailControlMessage" where
  "demo_result ids = \<lparr>command = RESULT_FOLLOWS, workloadid = ids, build_id = 42, run_id = Some 7, job_size = None\<rparr>"

definition demo_almost :: "nat sys" where
  "demo_almost = the (sys_run (sys_new 7 0 0)
     (demo_events @ [Io 0 Send_ok, Io 0 Send_ok, SetNoMoreExperiments, Accept,
                     Io 1 (Rcv_ctrl (demo_result [1, 2])), Io 1 (Rcv_msg 5)]))"

definition demo_finished :: "nat sys" where
  "demo_finished = the (sys_step demo_almost (Io 1 (Rcv_msg 6)))"

lemma demo_almost_reachable: "reachable 7 0 0 demo_almost"
proof (rule sys_run_reachable [OF reachable.start])
  have "sys_run (sys_new 7 0 (0 :: nat))
     (demo_events @ [Io 0 Send_ok, Io 0 Send_ok, SetNoMoreExperiments, Accept,
                     Io 1 (Rcv_ctrl (demo_result [1, 2])), Io 1 (Rcv_msg 5)]) \<noteq> None"
    by code_simp
  then show "sys_run (sys_new 7 0 (0 :: nat))
     (demo_events @ [Io 0 Send_ok, Io 0 Send_ok, SetNoMoreExperiments, Accept,
                     Io 1 (Rcv_ctrl (demo_result [1, 2])), Io 1 (Rcv_msg 5)]) = Some demo_almost"
    by (simp add: demo_almost_def)
qed

lemma demo_finished_step: "sys_step demo_almost (Io 1 (Rcv_msg 6)) = Some demo_finished"
proof -
  have "sys_step demo_almost (Io 1 (Rcv_msg 6)) \<noteq> None" by code_simp
  then show ?thesis unfolding demo_finished_def by (rule option.collapse [symmetric])
qed

theorem finish_accounts_for_all_jobs_witness:
  "reachable 7 0 0 demo_almost \<and> \<not> finished (m_doneJobs (server demo_almost)) \<and>
   finished (m_doneJobs (server demo_finished)) \<and> noMoreExperiments (server demo_finished)"
proof -
  have f: "\<not> finished (m_doneJobs (server demo_almost))" "finished (m_doneJobs (server demo_finished))"
    by code_simp+
  have "issued demo_finished = 2" by code_simp
  then have i: "issued demo_finished < 2 ^ 32" by simp
  from finish_accounts_for_all_jobs [OF demo_almost_reachable demo_finished_step i f]
  show ?thesis using f demo_almost_reachable by simp
qed

text \<open>
  C28. \<open>getDone\<close> returns no job only when the campaign has announced that no more experiments
  follow and no result is waiting; it returns jobs in the order their results were filed.
\<close>

theorem getDone_null_only_at_end:
  assumes "reachable runid cap m0 s" and "getDone (server s) = Some (r, js)"
  shows "(r = None \<longrightarrow> noMoreExperiments (server s) \<and> m_queue (m_doneJobs (server s)) = []) \<and>
    (\<forall>e. r = Some e \<longrightarrow> m_queue (m_doneJobs (server s)) = e # m_queue (m_doneJobs js))"
  using getDone_SomeD [OF assms(2)] finished_noMore [OF assms(1)] assms(2)
  by (auto simp: noMoreExperiments_def getDone_def Dequeue_def split: list.splits if_splits)

definition demo_end :: "nat sys" where
  "demo_end = the (sys_run demo_finished [GetDone, GetDone])"

lemma demo_end_reachable: "reachable 7 0 0 demo_end"
proof (rule sys_run_reachable)
  show "reachable 7 0 0 demo_finished"
    by (rule reachable.step [OF demo_almost_reachable server_step.intros [OF demo_finished_step]])
  have "sys_run demo_finished [GetDone, GetDone] \<noteq> None" by code_simp
  then show "sys_run demo_finished [GetDone, GetDone] = Some demo_end"
    unfolding demo_end_def by (rule option.collapse [symmetric])
qed

theorem getDone_null_only_at_end_witness:
  "reachable 7 0 0 demo_end \<and> map_option fst (getDone (server demo_end)) = Some None \<and>
   delivered demo_end = [10, 11] \<and> noMoreExperiments (server demo_end)"
proof -
  have g: "map_option fst (getDone (server demo_end)) = Some None" by code_simp
  then obtain js where js: "getDone (server demo_end) = Some (None, js)" by auto
  have "delivered demo_end = [10, 11]" by code_simp
  with getDone_null_only_at_end [OF demo_end_reachable js] g demo_end_reachable show ?thesis by simp
qed

text \<open>
  When fresh jobs are waiting, a client that asks for \<open>n\<close> jobs is announced the first
  \<open>min n (Size m_undoneJobs)\<close> of the queue, in queue order, with consecutive identifiers that
  continue the counter, the server's run id and the right count; the rest stays queued and the
  running map is untouched.
\<close>

theorem pending_takes_oldest:
  assumes "m_queue (m_undoneJobs js) \<noteq> []" and "0 < unat n"
  shows "\<exists>js' ctrlmsg exp. sendPendingExperimentData n js = (js', Send_work ctrlmsg exp) \<and>
    exp = take (unat n) (m_queue (m_undoneJobs js)) \<and>
    m_queue (m_undoneJobs js') = drop (unat n) (m_queue (m_undoneJobs js)) \<and>
    m_runningJobs js' = m_runningJobs js \<and> m_doneJobs js' = m_doneJobs js \<and>
    command ctrlmsg = WORK_FOLLOWS \<and> run_id ctrlmsg = Some (m_runid js) \<and>
    job_size ctrlmsg = Some (of_nat (length exp)) \<and>
    workloadid ctrlmsg = map (\<lambda>i. m_counter js + of_nat (Suc i)) [0..<length exp]"
proof -
  let ?f = "fetch_jobs (unat n) js"
  have "fst ?f \<noteq> []" using assms by (simp add: fetch_jobs_queue)
  then have "sendPendingExperimentData n js =
      (snd (snd ?f), Send_work \<lparr>command = WORK_FOLLOWS, workloadid = fst (snd ?f), build_id = 42,
         run_id = Some (m_runid js), job_size = Some (of_nat (length (fst ?f)))\<rparr> (fst ?f))"
    by (simp add: sendPendingExperimentData_def Let_def case_prod_beta)
  then show ?thesis
    using fetch_jobs_frame [of "unat n" js] fetch_jobs_queue [where n = "unat n" and js = js] fetch_jobs_id_list [of "unat n" js]
    by simp
qed

theorem pending_takes_oldest_witness:
  "m_queue (m_undoneJobs (server demo_queued)) = [10, 11] \<and>
   (\<exists>js' ctrlmsg. sendPendingExperimentData 1 (server demo_queued) = (js', Send_work ctrlmsg [10]) \<and>
      workloadid ctrlmsg = [1])"
proof -
  have q: "m_queue (m_undoneJobs (server demo_queued)) = [10, 11]" by code_simp
  have c: "m_counter (server demo_queued) = 0" by code_simp
  show ?thesis
    using pending_takes_oldest [of "server demo_queued" 1] q c by auto
qed

text \<open>
  When no fresh job is waiting, the client gets a job that is already running a second time
  (its result has not come back), and only if none is running either it is told to come again or,
  once the campaign has announced the end, to terminate. Queues and map contents do not change.
\<close>

theorem pending_second_choice:
  assumes "m_queue (m_undoneJobs js) = []" and "sendPendingExperimentData n js = (js', c)"
  shows "m_map (m_runningJobs js') = m_map (m_runningJobs js) \<and> m_undoneJobs js' = m_undoneJobs js \<and>
    m_doneJobs js' = m_doneJobs js \<and> m_counter js' = m_counter js \<and>
    (if m_map (m_runningJobs js) = []
     then \<exists>ctrlmsg. c = Send_second ctrlmsg None \<and>
       command ctrlmsg = (if noMoreExperiments js then DIE else COME_AGAIN)
     else \<exists>ctrlmsg k e. c = Send_second ctrlmsg (Some e) \<and> (k, e) \<in> set (m_map (m_runningJobs js)) \<and>
       command ctrlmsg = WORK_FOLLOWS \<and> workloadid ctrlmsg = [m_workloadID (exps js e)] \<and>
       job_size ctrlmsg = Some 1)"
proof -
  let ?m = "m_runningJobs js"
  have none: "fst (fetch_jobs (unat n) js) = []" using assms(1) by (simp add: fetch_jobs_queue)
  note js1 = fetch_jobs_none [OF none]
  show ?thesis
  proof (cases "fst (pickone ?m)")
    case None
    then show ?thesis
      using assms(2) none js1 pickone_None [of ?m] pickone_map [of ?m]
      by (cases "pickone ?m") (auto simp: sendPendingExperimentData_def Let_def case_prod_beta)
  next
    case (Some e)
    then show ?thesis
      using assms(2) none js1 pickone_None [of ?m] pickone_Some [OF Some] pickone_map [of ?m]
      by (cases "pickone ?m") (auto simp: sendPendingExperimentData_def Let_def case_prod_beta)
  qed
qed

theorem pending_second_choice_witness:
  "m_queue (m_undoneJobs (server demo_almost)) = [] \<and>
   m_map (m_runningJobs (server demo_almost)) = [] \<and>
   (\<exists>ctrlmsg. snd (sendPendingExperimentData 1 (server demo_almost)) = Send_second ctrlmsg None \<and>
      command ctrlmsg = DIE)"
proof -
  have q: "m_queue (m_undoneJobs (server demo_almost)) = []" "m_map (m_runningJobs (server demo_almost)) = []"
    "noMoreExperiments (server demo_almost)"
    by code_simp+
  from pending_second_choice [OF q(1) prod.collapse [symmetric], of 1] q show ?thesis by simp
qed

section \<open>How jobs can get lost\<close>

lemma lost_mono: "sys_step s ev = Some s' \<Longrightarrow> set (lost s) \<subseteq> set (lost s')"
  by (cases ev) (auto split: if_splits option.splits prod.splits)

lemma lost_run_mono: "sys_run s evs = Some s' \<Longrightarrow> set (lost s) \<subseteq> set (lost s')"
proof (induction evs arbitrary: s)
  case (Cons ev evs)
  then show ?case by (auto split: option.splits dest: lost_mono)
qed simp

text \<open>A job is in one place only.\<close>

lemma one_place:
  assumes "reachable runid cap m0 s" and "issued s < 2 ^ 32"
  shows "e \<in> set (lost s) \<Longrightarrow> e \<in> set (added s) \<and> e \<notin># server_jobs (server s) \<and> e \<notin> set (concat (map held (coros s))) \<and> e \<notin> set (delivered s)"
    and "e \<in> set (concat (map held (coros s))) \<Longrightarrow> e \<in> set (added s) \<and> e \<notin># server_jobs (server s) \<and> e \<notin> set (delivered s) \<and> e \<notin> set (lost s)"
proof -
  have c: "distinct (added s)" "mset (added s) = server_jobs (server s) + mset (concat (map held (coros s))) + mset (delivered s) + mset (lost s)"
    using reachable_inv [OF assms] by (simp_all add: sys_inv_def conserved_def)
  have "count (mset (added s)) e \<le> 1" using c(1) by (simp add: distinct_count_atmost_1)
  then have le: "count (server_jobs (server s)) e + count (mset (concat (map held (coros s)))) e + count (mset (delivered s)) e + count (mset (lost s)) e \<le> 1"
    unfolding c(2) by simp
  have sum: "count (mset (added s)) e = count (server_jobs (server s)) e + count (mset (concat (map held (coros s)))) e + count (mset (delivered s)) e + count (mset (lost s)) e"
    unfolding c(2) by simp
  have pos: "x \<in> set xs \<longleftrightarrow> 0 < count (mset xs) x" "y \<in># M \<longleftrightarrow> 0 < count M y" for x y :: exp_ptr and xs M
    using set_mset_mset [of xs] by (metis count_greater_zero_iff) simp
  show "e \<in> set (lost s) \<Longrightarrow> e \<in> set (added s) \<and> e \<notin># server_jobs (server s) \<and> e \<notin> set (concat (map held (coros s))) \<and> e \<notin> set (delivered s)"
    using le unfolding pos sum by (intro conjI) linarith+
  show "e \<in> set (concat (map held (coros s))) \<Longrightarrow> e \<in> set (added s) \<and> e \<notin># server_jobs (server s) \<and> e \<notin> set (delivered s) \<and> e \<notin> set (lost s)"
    using le unfolding pos sum by (intro conjI) linarith+
qed

text \<open>
  C32. A send failure while jobs are announced drops them for good. Whatever happens afterwards, a job of
  the announcement is never in \<open>m_undoneJobs\<close>, \<open>m_runningJobs\<close> or \<open>m_doneJobs\<close> again, no coroutine holds it,
  and \<open>getDone\<close> never returns it; and if nothing else is queued or running and no result is waiting,
  \<open>setNoMoreExperiments\<close> ends the campaign at once: \<open>getDone\<close> returns a null pointer.
\<close>

theorem failed_announcement_loses_jobs:
  assumes "reachable runid cap m0 s" and "coros s ! i = Send_work ctrlmsg exp" and "sys_step s (Io i Send_fail) = Some s1"
    and "sys_run s1 evs = Some s2" and "issued s2 < 2 ^ 32" and "e \<in> set exp"
  shows "e \<in> set (added s2) \<and> e \<notin> set (m_queue (m_undoneJobs (server s2))) \<and> e \<notin> snd ` set (m_map (m_runningJobs (server s2))) \<and>
    e \<notin> set (m_queue (m_doneJobs (server s2))) \<and> e \<notin> set (concat (map held (coros s2))) \<and> e \<notin> set (delivered s2) \<and>
    (m_queue (m_undoneJobs (server s1)) = [] \<and> m_map (m_runningJobs (server s1)) = [] \<and> m_queue (m_doneJobs (server s1)) = [] \<longrightarrow>
       (\<exists>js. getDone (setNoMoreExperiments (server s1)) = Some (None, js)))"
proof -
  have r: "reachable runid cap m0 s2"
    using sys_run_reachable [OF reachable.step [OF assms(1) server_step.intros [OF assms(3)]] assms(4)] .
  have "e \<in> set (lost s1)" using assms(2,3,6) by (auto simp: dropped_def split: if_splits)
  then have "e \<in> set (lost s2)" using lost_run_mono [OF assms(4)] by blast
  from one_place(1) [OF r assms(5) this] show ?thesis
    by (auto simp: server_jobs_def running_jobs_def getDone_def setNoMoreExperiments_def Let_def queue_defs smap_Size_def)
qed

definition demo_announced :: "nat sys" where
  "demo_announced = the (sys_run (sys_new 7 0 0) [AddParam 10 1, AddParam 11 2, Accept, Io 0 (Rcv_ctrl demo_need)])"

definition demo_dropped :: "nat sys" where
  "demo_dropped = the (sys_step demo_announced (Io 0 Send_fail))"

lemma demo_announced_reachable: "reachable 7 0 0 demo_announced"
proof (rule sys_run_reachable [OF reachable.start])
  have "sys_run (sys_new 7 0 (0 :: nat)) [AddParam 10 1, AddParam 11 2, Accept, Io 0 (Rcv_ctrl demo_need)] \<noteq> None" by code_simp
  then show "sys_run (sys_new 7 0 (0 :: nat)) [AddParam 10 1, AddParam 11 2, Accept, Io 0 (Rcv_ctrl demo_need)] = Some demo_announced"
    by (simp add: demo_announced_def)
qed

theorem failed_announcement_loses_jobs_witness:
  "10 \<in> set (added demo_dropped) \<and> 10 \<notin> set (m_queue (m_undoneJobs (server demo_dropped))) \<and> 10 \<notin> set (delivered demo_dropped) \<and>
   (\<exists>js. getDone (setNoMoreExperiments (server demo_dropped)) = Some (None, js))"
proof -
  have "map_option held (case coros demo_announced of [c] \<Rightarrow> Some c | _ \<Rightarrow> None) = Some [10, 11]"
    "case coros demo_announced of [Send_work m e] \<Rightarrow> True | _ \<Rightarrow> False" by code_simp+
  then obtain ctrlmsg where c: "coros demo_announced ! 0 = Send_work ctrlmsg [10, 11]" by (auto split: list.splits coro.splits)
  have "sys_step demo_announced (Io 0 Send_fail) \<noteq> None" by code_simp
  then have s1: "sys_step demo_announced (Io 0 Send_fail) = Some demo_dropped" unfolding demo_dropped_def by (rule option.collapse [symmetric])
  have run: "sys_run demo_dropped [] = Some demo_dropped" by simp
  have "issued demo_dropped = 2" by code_simp
  then have i: "issued demo_dropped < 2 ^ 32" by simp
  have q: "m_queue (m_undoneJobs (server demo_dropped)) = []" "m_map (m_runningJobs (server demo_dropped)) = []"
    "m_queue (m_doneJobs (server demo_dropped)) = []" by code_simp+
  show ?thesis using failed_announcement_loses_jobs [OF demo_announced_reachable c s1 run i, of 10] q by simp
qed

text \<open>Filing results that were all read, and emptying the finished results queue.\<close>

lemma store_all_results:
  "store_results rs js = Some js' \<Longrightarrow> \<forall>(e, k, b) \<in> set rs. b \<Longrightarrow>
     m_undoneJobs js' = m_undoneJobs js \<and> m_runningJobs js' = m_runningJobs js \<and> noMoreExps js' = noMoreExps js"
  by (induction rs js rule: store_results.induct) (auto split: option.splits)

lemma drain_done:
  "finished (m_doneJobs (server s)) \<Longrightarrow> m_queue (m_doneJobs (server s)) = es \<Longrightarrow>
    \<exists>s' js. sys_run s (replicate (length es) GetDone) = Some s' \<and> delivered s' = delivered s @ es \<and>
      coros s' = coros s \<and> issued s' = issued s \<and> added s' = added s \<and> getDone (server s') = Some (None, js)"
proof (induction es arbitrary: s)
  case Nil
  then show ?case by (simp add: getDone_def Dequeue_def)
next
  case (Cons e es)
  have g: "getDone (server s) = Some (Some e, (server s)\<lparr>m_doneJobs := (m_doneJobs (server s))\<lparr>m_queue := es\<rparr>,
      m_inOutCounter := snd (decrement (m_inOutCounter (server s)))\<rparr>)" (is "_ = Some (_, ?js)")
    using Cons.prems by (simp add: getDone_def Dequeue_def)
  from Cons.IH [of "s\<lparr>server := ?js, delivered := delivered s @ [e]\<rparr>"] Cons.prems show ?case by (simp add: g)
qed

text \<open>
  C34. The results can be declared complete too early. When \<open>setNoMoreExperiments\<close> was called, no job is
  queued or in the running map, and a coroutine whose other results were all read reads its last one,
  the results queue is finished although another coroutine still holds jobs (whose results it is
  reading, say): a campaign that now asks for results gets those already filed and then a null
  pointer, while the held job has not been handed back.
\<close>

theorem finish_can_be_premature:
  assumes "reachable runid cap m0 s" and "issued s < 2 ^ 32" and "noMoreExperiments (server s)"
    and "m_queue (m_undoneJobs (server s)) = []" and "m_map (m_runningJobs (server s)) = []"
    and "coros s ! i = Receive [x] recvd" and "\<forall>(e', k, received) \<in> set recvd. received"
    and "j < length (coros s)" and "j \<noteq> i" and "e \<in> set (held (coros s ! j))"
    and "sys_step s (Io i (Rcv_msg m)) = Some s1"
  shows "\<exists>s2 js. sys_run s1 (replicate (length (m_queue (m_doneJobs (server s1)))) GetDone) = Some s2 \<and>
    getDone (server s2) = Some (None, js) \<and> e \<in> set (added s2) \<and> e \<notin> set (delivered s2) \<and> e \<in> set (held (coros s2 ! j))"
proof -
  obtain exp w_id where x: "x = (exp, w_id)" by (cases x)
  obtain js' r where one: "receive_one exp w_id (Rcv_msg m) (server s) = Some (js', r)" by (cases exp) (simp_all add: receive_one_def Let_def)
  then have js': "m_undoneJobs js' = m_undoneJobs (server s)" "m_runningJobs js' = m_runningJobs (server s)" "noMoreExps js' = noMoreExps (server s)"
      "\<forall>(e', k, b) \<in> set r. b"
    by (auto simp: receive_one_def Let_def split: option.splits)
  obtain js'' where st: "store_results (recvd @ r) js' = Some js''" "server s1 = check_complete js''"
      "coros s1 = (coros s)[i := Terminated]" "issued s1 = issued s" "added s1 = added s"
    using assms(6,11) one by (auto simp: x receive_next_def split: if_splits option.splits)
  have "\<forall>(e', k, b) \<in> set (recvd @ r). b" using assms(7) js'(4) by auto
  from store_all_results [OF st(1) this] have fin: "finished (m_doneJobs (server s1))"
    unfolding st(2) using js' assms(3-5) by (simp add: check_complete_def noMoreExperiments_def Size_def smap_Size_def setIsFinished_def)
  from drain_done [OF fin refl] obtain s2 js where s2: "sys_run s1 (replicate (length (m_queue (m_doneJobs (server s1)))) GetDone) = Some s2"
      "coros s2 = coros s1" "issued s2 = issued s1" "getDone (server s2) = Some (None, js)" by blast
  have h: "e \<in> set (held (coros s2 ! j))" using assms(8-10) unfolding s2(2) st(3) by simp
  have "coros s2 ! j \<in> set (coros s2)" using assms(8) unfolding s2(2) st(3) by (intro nth_mem) simp
  then have "e \<in> set (concat (map held (coros s2)))" using h by auto
  moreover have "reachable runid cap m0 s2" "issued s2 < 2 ^ 32"
    using sys_run_reachable [OF reachable.step [OF assms(1) server_step.intros [OF assms(11)]] s2(1)] s2(3) st(4) assms(2) by simp_all
  ultimately show ?thesis using one_place(2) [of runid cap m0 s2 e] s2 h by blast
qed

definition demo_two_readers :: "nat sys" where
  "demo_two_readers = the (sys_run (sys_new 7 0 0)
     (demo_events @ [Io 0 Send_ok, Io 0 Send_ok, SetNoMoreExperiments, Accept, Accept,
        Io 1 (Rcv_ctrl (demo_result [1])), Io 2 (Rcv_ctrl (demo_result [2]))]))"

lemma demo_two_readers_reachable: "reachable 7 0 0 demo_two_readers"
proof (rule sys_run_reachable [OF reachable.start])
  let ?evs = "demo_events @ [Io 0 Send_ok, Io 0 Send_ok, SetNoMoreExperiments, Accept, Accept,
        Io 1 (Rcv_ctrl (demo_result [1])), Io 2 (Rcv_ctrl (demo_result [2]))]"
  have "sys_run (sys_new 7 0 (0 :: nat)) ?evs \<noteq> None" by code_simp
  then show "sys_run (sys_new 7 0 (0 :: nat)) ?evs = Some demo_two_readers" by (simp add: demo_two_readers_def)
qed

theorem finish_can_be_premature_witness:
  "\<exists>s1 s2 js. sys_step demo_two_readers (Io 1 (Rcv_msg 5)) = Some s1 \<and>
     sys_run s1 (replicate (length (m_queue (m_doneJobs (server s1)))) GetDone) = Some s2 \<and> getDone (server s2) = Some (None, js) \<and>
     11 \<notin> set (delivered s2) \<and> 11 \<in> set (held (coros s2 ! 2))"
proof -
  have c: "coros demo_two_readers = [Terminated, Receive [(Some 10, 1)] [], Receive [(Some 11, 2)] []]" by code_simp
  have "issued demo_two_readers = 2" by code_simp
  then have i: "issued demo_two_readers < 2 ^ 32" by simp
  have q: "noMoreExperiments (server demo_two_readers)" "m_queue (m_undoneJobs (server demo_two_readers)) = []"
    "m_map (m_runningJobs (server demo_two_readers)) = []" by code_simp+
  have "sys_step demo_two_readers (Io 1 (Rcv_msg 5)) \<noteq> None" by code_simp
  then obtain s1 where s1: "sys_step demo_two_readers (Io 1 (Rcv_msg 5)) = Some s1" by blast
  have h: "coros demo_two_readers ! 1 = Receive [(Some 10, 1)] []" "2 < length (coros demo_two_readers)"
    "11 \<in> set (held (coros demo_two_readers ! 2))" unfolding c by simp_all
  from finish_can_be_premature [OF demo_two_readers_reachable i q h(1) _ h(2) _ h(3) s1] s1 show ?thesis by auto
qed

end
