(* ===== verification/Database_Layer.thy ===== *)
theory Database_Layer
  imports Fail_Prelude
begin

text \<open>
  The tables the tools work on, with the SQL statements they use as list operations, and the
  insert cache \<open>Database::insert_multiple\<close> of \<^verbatim>\<open>src/core/util/Database.cc\<close>.

  A table is the list of its rows. \<open>fsppilot\<close> has an auto-increment key; \<open>fspgroup\<close> has the primary
  key (variant, data address, instr2, method), so an \<open>INSERT\<close> stops with an error at the first
  duplicate and, the tables being MyISAM, keeps the rows before it. Numbers in rows are \<open>nat\<close>.
\<close>

section \<open>Tables\<close>

datatype access = R | W

record trace_row =
  t_variant :: nat
  t_instr1 :: nat
  t_instr1_absolute :: "nat option"
  t_instr2 :: nat
  t_instr2_absolute :: "nat option"
  t_time1 :: nat
  t_time2 :: nat
  t_data_address :: nat
  t_width :: nat
  t_accesstype :: access

record pilot_row =
  known_outcome :: bool
  p_variant :: nat
  p_instr2 :: nat
  injection_instr :: nat
  injection_instr_absolute :: "nat option"
  p_data_address :: nat
  data_width :: nat
  p_method :: nat

record group_row =
  g_variant :: nat
  g_instr2 :: nat
  g_data_address :: nat
  g_method :: nat
  pilot_id :: nat
  weight :: "nat option"

record database =
  trace :: "trace_row list"
  fsppilot :: "(nat \<times> pilot_row) list"
  next_pilot_id :: nat
  fspgroup :: "group_row list"

type_synonym row_key = "nat \<times> nat \<times> nat"

definition trace_key :: "trace_row \<Rightarrow> row_key" where
  "trace_key t = (t_variant t, t_data_address t, t_instr2 t)"

definition pilot_key :: "pilot_row \<Rightarrow> row_key" where
  "pilot_key p = (p_variant p, p_data_address p, p_instr2 p)"

definition group_key :: "group_row \<Rightarrow> row_key \<times> nat" where
  "group_key g = ((g_variant g, g_data_address g, g_instr2 g), g_method g)"

definition insert_pilots :: "pilot_row list \<Rightarrow> database \<Rightarrow> database" where
  "insert_pilots ps db =
     db\<lparr>fsppilot := fsppilot db @ zip [next_pilot_id db..<next_pilot_id db + length ps] ps,
        next_pilot_id := next_pilot_id db + length ps\<rparr>"

fun insert_groups :: "group_row list \<Rightarrow> database \<Rightarrow> bool \<times> database" where
  "insert_groups [] db = (True, db)"
| "insert_groups (g # gs) db =
     (if group_key g \<in> group_key ` set (fspgroup db) then (False, db)
      else insert_groups gs (db\<lparr>fspgroup := fspgroup db @ [g]\<rparr>))"

definition replace_groups :: "group_row list \<Rightarrow> database \<Rightarrow> database" where
  "replace_groups gs db =
     foldl (\<lambda>d g. d\<lparr>fspgroup := filter (\<lambda>h. group_key h \<noteq> group_key g) (fspgroup d) @ [g]\<rparr>) db gs"

section \<open>Well-formed databases\<close>

definition db_ok :: "database \<Rightarrow> bool" where
  "db_ok db \<longleftrightarrow>
     distinct (map trace_key (trace db)) \<and> distinct (map group_key (fspgroup db)) \<and>
     distinct (map fst (fsppilot db)) \<and> (\<forall>(i, p) \<in> set (fsppilot db). i < next_pilot_id db)"

lemma insert_pilots_ok:
  assumes "db_ok db"
  shows "db_ok (insert_pilots ps db)" and "trace (insert_pilots ps db) = trace db"
    and "fspgroup (insert_pilots ps db) = fspgroup db"
    and "map snd (fsppilot (insert_pilots ps db)) = map snd (fsppilot db) @ ps"
  using assms
  by (auto simp: db_ok_def insert_pilots_def map_fst_zip map_snd_zip dest: set_zip_leftD)

lemma insert_groups_ok:
  "db_ok db \<Longrightarrow> db_ok (snd (insert_groups gs db))"
  by (induction gs db rule: insert_groups.induct) (auto simp: db_ok_def)

lemma insert_groups_fresh:
  assumes "distinct (map group_key gs)" and "group_key ` set gs \<inter> group_key ` set (fspgroup db) = {}"
  shows "insert_groups gs db = (True, db\<lparr>fspgroup := fspgroup db @ gs\<rparr>)"
  using assms
proof (induction gs db rule: insert_groups.induct)
  case (2 g gs db)
  have "insert_groups gs (db\<lparr>fspgroup := fspgroup db @ [g]\<rparr>)
      = (True, db\<lparr>fspgroup := (fspgroup db @ [g]) @ gs\<rparr>)"
    using 2 by auto
  with 2 show ?case by auto
qed simp

lemma insert_groups_frame:
  "trace (snd (insert_groups gs db)) = trace db \<and> fsppilot (snd (insert_groups gs db)) = fsppilot db \<and>
   next_pilot_id (snd (insert_groups gs db)) = next_pilot_id db"
  by (induction gs db rule: insert_groups.induct) auto

section \<open>The insert cache\<close>

text \<open>
  \<open>executed\<close> is the history of the multi-value statements sent, with whether the server accepted
  them; the server's answer is the argument \<open>answer\<close>.
\<close>

record 'v insert_cache =
  m_insertquery :: string
  m_insertquery_values :: "'v list"
  executed :: "(string \<times> 'v list) list"

definition cache_new :: "'v insert_cache" where
  "cache_new = \<lparr>m_insertquery = [], m_insertquery_values = [], executed = []\<rparr>"

definition flush_limit :: nat where
  "flush_limit = 2048"

definition send_values :: "(string \<times> 'v list \<Rightarrow> bool) \<Rightarrow> 'v insert_cache \<Rightarrow> bool \<times> 'v insert_cache" where
  "send_values answer c =
     (answer (m_insertquery c, m_insertquery_values c),
      c\<lparr>m_insertquery_values := [], executed := executed c @ [(m_insertquery c, m_insertquery_values c)]\<rparr>)"

definition insert_flush :: "(string \<times> 'v list \<Rightarrow> bool) \<Rightarrow> 'v insert_cache \<Rightarrow> bool \<times> 'v insert_cache" where
  "insert_flush answer c =
     (if m_insertquery c = [] then (False, c)
      else if m_insertquery_values c \<noteq> [] then send_values answer c else (True, c))"

definition insert_multiple ::
  "(string \<times> 'v list \<Rightarrow> bool) \<Rightarrow> string \<Rightarrow> 'v \<Rightarrow> 'v insert_cache \<Rightarrow> bool \<times> 'v insert_cache" where
  "insert_multiple answer insertquery values c =
     (let c1 = (if m_insertquery c \<noteq> insertquery \<and> m_insertquery_values c \<noteq> []
                then snd (insert_flush answer c) else c);
          c2 = c1\<lparr>m_insertquery := insertquery, m_insertquery_values := m_insertquery_values c1 @ [values]\<rparr>
      in if flush_limit \<le> length (m_insertquery_values c2) then send_values answer c2 else (True, c2))"

fun insert_all :: "(string \<times> 'v list \<Rightarrow> bool) \<Rightarrow> (string \<times> 'v) list \<Rightarrow> 'v insert_cache \<Rightarrow> 'v insert_cache" where
  "insert_all answer [] c = c"
| "insert_all answer ((q, v) # calls) c = insert_all answer calls (snd (insert_multiple answer q v c))"

definition statement_rows :: "(string \<times> 'v list) list \<Rightarrow> (string \<times> 'v) list" where
  "statement_rows sts = concat (map (\<lambda>(q, vs). map (Pair q) vs) sts)"

definition cache_rows :: "'v insert_cache \<Rightarrow> (string \<times> 'v) list" where
  "cache_rows c = statement_rows (executed c) @ map (Pair (m_insertquery c)) (m_insertquery_values c)"

definition cache_ok :: "'v insert_cache \<Rightarrow> bool" where
  "cache_ok c \<longleftrightarrow> length (m_insertquery_values c) < flush_limit \<and>
     (m_insertquery_values c \<noteq> [] \<longrightarrow> m_insertquery c \<noteq> []) \<and>
     (\<forall>(q, vs) \<in> set (executed c). 0 < length vs \<and> length vs \<le> flush_limit)"

lemma insert_flush_rows:
  assumes "cache_ok c"
  shows "cache_ok (snd (insert_flush answer c))" and "cache_rows (snd (insert_flush answer c)) = cache_rows c"
    and "m_insertquery_values (snd (insert_flush answer c)) = []"
  using assms
  by (auto simp: insert_flush_def send_values_def cache_ok_def cache_rows_def statement_rows_def
      flush_limit_def)

lemma insert_multiple_rows:
  assumes "cache_ok c" and "q \<noteq> []"
  shows "cache_ok (snd (insert_multiple answer q v c)) \<and>
    cache_rows (snd (insert_multiple answer q v c)) = cache_rows c @ [(q, v)]"
proof -
  define c1 where "c1 = (if m_insertquery c \<noteq> q \<and> m_insertquery_values c \<noteq> []
                then snd (insert_flush answer c) else c)"
  have c1: "cache_ok c1" "cache_rows c1 = cache_rows c"
      "m_insertquery_values c1 \<noteq> [] \<Longrightarrow> m_insertquery c1 = q"
    using assms insert_flush_rows [OF assms(1)] by (auto simp: c1_def)
  have "map (Pair (m_insertquery c1)) (m_insertquery_values c1) = map (Pair q) (m_insertquery_values c1)"
    using c1(3) by (cases "m_insertquery_values c1") auto
  then show ?thesis
    using c1(1,2) assms(2) unfolding insert_multiple_def c1_def [symmetric]
    by (auto simp: Let_def send_values_def cache_ok_def cache_rows_def statement_rows_def)
qed

lemma insert_all_rows:
  "cache_ok c \<Longrightarrow> \<forall>(q, v) \<in> set calls. q \<noteq> [] \<Longrightarrow>
     cache_ok (insert_all answer calls c) \<and> cache_rows (insert_all answer calls c) = cache_rows c @ calls"
proof (induction answer calls c rule: insert_all.induct)
  case (2 answer q v calls c)
  then show ?case using insert_multiple_rows [of c q answer v] by auto
qed simp

text \<open>
  Batched inserts lose and reorder nothing: after any sequence of \<open>insert_multiple\<close> calls and
  the closing flush, the statements sent carry exactly the given values under the given queries, in
  order, in batches of 1 to 2048 rows, and the cache is empty. This holds however the calls
  alternate between different queries.
\<close>

theorem insert_multiple_sends_all:
  fixes answer calls
  defines "c \<equiv> snd (insert_flush answer (insert_all answer calls cache_new))"
  assumes "\<forall>(q, v) \<in> set calls. q \<noteq> []"
  shows "statement_rows (executed c) = calls \<and> m_insertquery_values c = [] \<and>
    (\<forall>(q, vs) \<in> set (executed c). 0 < length vs \<and> length vs \<le> 2048)"
proof -
  have new: "cache_ok cache_new" "cache_rows cache_new = []"
    by (simp_all add: cache_ok_def cache_new_def cache_rows_def statement_rows_def flush_limit_def)
  from insert_all_rows [OF new(1) assms(2), of answer]
  have ok: "cache_ok (insert_all answer calls cache_new)"
      "cache_rows (insert_all answer calls cache_new) = calls"
    by (simp_all add: new(2))
  from insert_flush_rows [OF ok(1), of answer] ok(2) show ?thesis
    unfolding c_def [symmetric] by (auto simp: cache_rows_def cache_ok_def flush_limit_def)
qed

theorem insert_multiple_sends_all_witness:
  "statement_rows (executed (snd (insert_flush (\<lambda>_. True)
     (insert_all (\<lambda>_. True) [(''a'', 1), (''b'', 2), (''a'', 3 :: nat)] cache_new))))
   = [(''a'', 1), (''b'', 2), (''a'', 3)]"
  using insert_multiple_sends_all [of "[(''a'', 1), (''b'', 2), (''a'', 3 :: nat)]" "\<lambda>_. True"] by simp

end
