(* ===== verification/Pruning_Basic.thy ===== *)
theory Pruning_Basic
  imports Database_Layer
begin

text \<open>
  The pruning tool's common part (\<^verbatim>\<open>tools/prune-trace/Pruner.cc\<close>) and the basic def/use pruner
  (\<^verbatim>\<open>tools/prune-trace/BasicPruner.cc\<close>). Every SQL statement is one list comprehension. The pilots
  stand for equivalence classes: pruning is sound when every trace row of the selected variants is
  represented by exactly one \<open>fspgroup\<close> row that leads to a pilot.
\<close>

section \<open>Pruner\<close>

definition has_pruning_data :: "database \<Rightarrow> nat \<Rightarrow> nat \<Rightarrow> bool" where
  "has_pruning_data db m_method_id v \<longleftrightarrow>
     (\<exists>(i, p) \<in> set (fsppilot db). p_variant p = v \<and> p_method p = m_method_id) \<or>
     (\<exists>g \<in> set (fspgroup db). g_variant g = v \<and> g_method g = m_method_id)"

definition Pruner_init :: "database \<Rightarrow> nat \<Rightarrow> nat list \<Rightarrow> bool \<Rightarrow> bool \<Rightarrow> nat list option" where
  "Pruner_init db m_method_id variants overwrite incremental =
     (if m_method_id = 0 then None
      else let m_variants = (if \<not> overwrite \<and> \<not> incremental
                             then filter (\<lambda>v. \<not> has_pruning_data db m_method_id v) variants
                             else variants)
           in if m_variants = [] then None else Some m_variants)"

definition clear_database :: "nat \<Rightarrow> nat list \<Rightarrow> database \<Rightarrow> database" where
  "clear_database m_method_id m_variants db =
     db\<lparr>fsppilot := filter (\<lambda>(i, p). \<not> (p_variant p \<in> set m_variants \<and> p_method p = m_method_id)) (fsppilot db),
        fspgroup := filter (\<lambda>g. \<not> (g_variant g \<in> set m_variants \<and> g_method g = m_method_id)) (fspgroup db)\<rparr>"

section \<open>BasicPruner\<close>

definition pilot_of :: "bool \<Rightarrow> nat \<Rightarrow> bool \<Rightarrow> trace_row \<Rightarrow> pilot_row" where
  "pilot_of use_instr1 m_method_id known t =
     \<lparr>known_outcome = known, p_variant = t_variant t, p_instr2 = t_instr2 t,
      injection_instr = (if use_instr1 then t_instr1 t else t_instr2 t),
      injection_instr_absolute = (if use_instr1 then t_instr1_absolute t else t_instr2_absolute t),
      p_data_address = t_data_address t, data_width = t_width t, p_method = m_method_id\<rparr>"

definition group_of :: "row_key \<Rightarrow> nat \<Rightarrow> nat \<Rightarrow> group_row" where
  "group_of k m_method_id i =
     \<lparr>g_variant = fst k, g_instr2 = snd (snd k), g_data_address = fst (snd k),
      g_method = m_method_id, pilot_id = i, weight = None\<rparr>"

text \<open>\<open>SELECT ... WHERE accesstype = 'W' ORDER BY instr2 ASC LIMIT 1\<close>\<close>

definition first_write :: "database \<Rightarrow> nat \<Rightarrow> trace_row list" where
  "first_write db v =
     take 1 (sort_key t_instr2 (filter (\<lambda>t. t_variant t = v \<and> t_accesstype t = W) (trace db)))"

definition BasicPruner_prune_all :: "bool \<Rightarrow> nat \<Rightarrow> nat list \<Rightarrow> database \<Rightarrow> bool \<times> database" where
  "BasicPruner_prune_all use_instr1 m_method_id m_variants db =
     (let db1 = insert_pilots
            [pilot_of use_instr1 m_method_id False t. t \<leftarrow> trace db,
               t_variant t \<in> set m_variants \<and> t_accesstype t = R] db;
          db2 = foldl (\<lambda>d v. insert_pilots (map (pilot_of use_instr1 m_method_id True) (first_write d v)) d)
                  db1 m_variants;
          (ok, db3) = insert_groups
            [group_of (pilot_key p) (p_method p) i. (i, p) \<leftarrow> fsppilot db2,
               \<not> known_outcome p \<and> p_method p = m_method_id \<and> p_variant p \<in> set m_variants,
               t \<leftarrow> trace db2, trace_key t = pilot_key p] db2
      in if \<not> ok then (False, db3)
         else insert_groups
            [group_of (trace_key t) (p_method p) i. (i, p) \<leftarrow> fsppilot db3,
               p_method p = m_method_id \<and> known_outcome p,
               t \<leftarrow> trace db3, t_variant t = p_variant p \<and> t_variant t \<in> set m_variants \<and> t_accesstype t = W] db3)"

section \<open>What the statements compute\<close>

lemma select_if: "concat (map (\<lambda>t. if P t then [f t] else []) ts) = map f (filter P ts)"
  by (induction ts) auto

lemma filter_key_singleton:
  "distinct (map f xs) \<Longrightarrow> x \<in> set xs \<Longrightarrow> filter (\<lambda>y. f y = f x) xs = [x]"
proof (induction xs)
  case (Cons y ys)
  then have fresh: "f y \<noteq> f z" if "z \<in> set ys" for z using that by (auto simp: image_iff)
  show ?case
  proof (cases "x = y")
    case True
    then have "filter (\<lambda>z. f z = f x) ys = []" using fresh by (auto simp: filter_empty_conv dest: sym)
    with True show ?thesis by simp
  next
    case False
    with Cons fresh [of x] show ?thesis by auto
  qed
qed simp

lemma insert_pilots_append: "insert_pilots qs (insert_pilots ps db) = insert_pilots (ps @ qs) db"
proof -
  let ?n = "next_pilot_id db"
  have "[?n..<?n + length (ps @ qs)] = [?n..<?n + length ps] @ [?n + length ps..<?n + length ps + length qs]"
    using upt_add_eq_append [of ?n "?n + length ps" "length qs"] by (simp add: add.assoc)
  then show ?thesis by (simp only: insert_pilots_def) simp
qed

lemma first_write_cong: "trace d = trace db \<Longrightarrow> first_write d v = first_write db v"
  by (simp add: first_write_def)

lemma fold_insert_pilots:
  "foldl (\<lambda>d v. insert_pilots (map f (first_write d v)) d) (insert_pilots ps db) vs =
     insert_pilots (ps @ concat (map (\<lambda>v. map f (first_write db v)) vs)) db"
proof (induction vs arbitrary: ps)
  case (Cons v vs)
  have "first_write (insert_pilots ps db) v = first_write db v"
    by (rule first_write_cong) (simp add: insert_pilots_def)
  then show ?case using Cons [of "ps @ map f (first_write db v)"] by (simp add: insert_pilots_append)
qed simp

lemma first_write_rows:
  "t \<in> set (first_write db v) \<Longrightarrow> t \<in> set (trace db) \<and> t_variant t = v \<and> t_accesstype t = W"
  "length (first_write db v) = (if \<exists>t \<in> set (trace db). t_variant t = v \<and> t_accesstype t = W then 1 else 0)"
proof -
  show "t \<in> set (first_write db v) \<Longrightarrow> t \<in> set (trace db) \<and> t_variant t = v \<and> t_accesstype t = W"
    by (auto simp: first_write_def dest!: in_set_takeD)
  have "filter (\<lambda>t. t_variant t = v \<and> t_accesstype t = W) (trace db) = [] \<longleftrightarrow>
      \<not> (\<exists>t \<in> set (trace db). t_variant t = v \<and> t_accesstype t = W)"
    by (auto simp: filter_empty_conv)
  then show "length (first_write db v) =
      (if \<exists>t \<in> set (trace db). t_variant t = v \<and> t_accesstype t = W then 1 else 0)"
    by (cases "filter (\<lambda>t. t_variant t = v \<and> t_accesstype t = W) (trace db)") (simp_all add: first_write_def)
qed

abbreviation read_rows :: "database \<Rightarrow> nat list \<Rightarrow> trace_row list" where
  "read_rows db vs \<equiv> filter (\<lambda>t. t_variant t \<in> set vs \<and> t_accesstype t = R) (trace db)"

abbreviation write_rows :: "database \<Rightarrow> nat \<Rightarrow> trace_row list" where
  "write_rows db v \<equiv> filter (\<lambda>t. t_variant t = v \<and> t_accesstype t = W) (trace db)"

definition read_groups :: "nat \<Rightarrow> database \<Rightarrow> nat list \<Rightarrow> group_row list" where
  "read_groups m db vs =
     map (\<lambda>(i, t). group_of (trace_key t) m i)
       (zip [next_pilot_id db..<next_pilot_id db + length (read_rows db vs)] (read_rows db vs))"

definition write_groups :: "nat \<Rightarrow> nat \<Rightarrow> database \<Rightarrow> trace_row list \<Rightarrow> group_row list" where
  "write_groups n m db ws =
     concat (map (\<lambda>(i, w). map (\<lambda>t. group_of (trace_key t) m i) (write_rows db (t_variant w))) (zip [n..<n + length ws] ws))"

lemma pilot_of_sel [simp]:
  "known_outcome (pilot_of u m k t) = k" "p_variant (pilot_of u m k t) = t_variant t"
  "p_method (pilot_of u m k t) = m" "pilot_key (pilot_of u m k t) = trace_key t"
  by (simp_all add: pilot_of_def pilot_key_def trace_key_def)

lemma group_of_key [simp]: "group_key (group_of k m i) = (k, m)" "pilot_id (group_of k m i) = i"
  by (simp_all add: group_of_def group_key_def)

lemma concat_map_nil: "(\<And>x. x \<in> set xs \<Longrightarrow> f x = []) \<Longrightarrow> concat (map f xs) = []"
  by (induction xs) auto

lemma concat_map_single: "(\<And>x. x \<in> set xs \<Longrightarrow> f x = [g x]) \<Longrightarrow> concat (map f xs) = map g xs"
  by (induction xs) auto

definition pruned_pilots :: "bool \<Rightarrow> nat \<Rightarrow> database \<Rightarrow> nat list \<Rightarrow> pilot_row list" where
  "pruned_pilots u m db vs =
     map (pilot_of u m False) (read_rows db vs) @ map (pilot_of u m True) (concat (map (first_write db) vs))"

lemma fsppilot_pruned:
  "fsppilot (insert_pilots (pruned_pilots u m db vs) db) =
     fsppilot db @
     map (\<lambda>(i, t). (i, pilot_of u m False t))
       (zip [next_pilot_id db..<next_pilot_id db + length (read_rows db vs)] (read_rows db vs)) @
     map (\<lambda>(i, t). (i, pilot_of u m True t))
       (zip [next_pilot_id db + length (read_rows db vs)..<next_pilot_id db + length (read_rows db vs)
              + length (concat (map (first_write db) vs))] (concat (map (first_write db) vs)))"
proof -
  let ?n = "next_pilot_id db" and ?rs = "read_rows db vs" and ?ws = "concat (map (first_write db) vs)"
  have "[?n..<?n + length (pruned_pilots u m db vs)] =
      [?n..<?n + length ?rs] @ [?n + length ?rs..<?n + length ?rs + length ?ws]"
    using upt_add_eq_append [of ?n "?n + length ?rs" "length ?ws"]
    by (simp add: pruned_pilots_def add.assoc)
  then show ?thesis
    by (simp only: insert_pilots_def) (simp add: pruned_pilots_def zip_map2 del: map_concat)
qed

lemma fresh_pilot:
  "\<forall>v \<in> set vs. \<not> has_pruning_data db m v \<Longrightarrow> (i, p) \<in> set (fsppilot db) \<Longrightarrow> p_variant p \<in> set vs \<Longrightarrow>
     p_method p \<noteq> m"
  unfolding has_pruning_data_def by (metis (mono_tags, lifting) case_prodI)

lemma read_groups_select:
  fixes u :: bool
  assumes ok: "db_ok db" and fresh: "\<forall>v \<in> set vs. \<not> has_pruning_data db m v"
  defines "db2 \<equiv> insert_pilots (pruned_pilots u m db vs) db"
  shows "[group_of (pilot_key p) (p_method p) i. (i, p) \<leftarrow> fsppilot db2,
            \<not> known_outcome p \<and> p_method p = m \<and> p_variant p \<in> set vs,
            t \<leftarrow> trace db2, trace_key t = pilot_key p] = read_groups m db vs"
proof -
  let ?f = "\<lambda>(i, p). if \<not> known_outcome p \<and> p_method p = m \<and> p_variant p \<in> set vs
      then concat (map (\<lambda>t. if trace_key t = pilot_key p then [group_of (pilot_key p) (p_method p) i] else []) (trace db2))
      else []"
  have tr: "trace db2 = trace db" by (simp add: db2_def insert_pilots_def)
  have old: "concat (map ?f (fsppilot db)) = []"
    by (intro concat_map_nil) (auto dest: fresh_pilot [OF fresh])
  have reads: "concat (map ?f (map (\<lambda>(i, t). (i, pilot_of u m False t)) (zip is (read_rows db vs))))
      = map (\<lambda>(i, t). group_of (trace_key t) m i) (zip is (read_rows db vs))" for "is"
    unfolding map_map
  proof (rule concat_map_single, goal_cases)
    case (1 x)
    obtain i t where x: "x = (i, t)" by (cases x)
    have t: "t \<in> set (read_rows db vs)" using 1 unfolding x by (rule set_zip_rightD)
    have "filter (\<lambda>t'. trace_key t' = trace_key t) (trace db) = [t]"
      using ok t by (intro filter_key_singleton) (auto simp: db_ok_def)
    then show ?case using x t by (simp add: tr select_if)
  qed
  have writes: "concat (map ?f (map (\<lambda>(i, t). (i, pilot_of u m True t)) xs)) = []" for xs
    by (intro concat_map_nil) auto
  show ?thesis
    unfolding fsppilot_pruned [of u m db vs, folded db2_def] map_append concat_append old reads writes
    by (simp add: read_groups_def)
qed

lemma write_groups_select:
  fixes u :: bool and gs
  assumes fresh: "\<forall>v \<in> set vs. \<not> has_pruning_data db m v"
  defines "db3 \<equiv> insert_pilots (pruned_pilots u m db vs) db\<lparr>fspgroup := gs\<rparr>"
  shows "[group_of (trace_key t) (p_method p) i. (i, p) \<leftarrow> fsppilot db3,
            p_method p = m \<and> known_outcome p,
            t \<leftarrow> trace db3, t_variant t = p_variant p \<and> t_variant t \<in> set vs \<and> t_accesstype t = W]
      = write_groups (next_pilot_id db + length (read_rows db vs)) m db (concat (map (first_write db) vs))"
proof -
  let ?f = "\<lambda>(i, p). if p_method p = m \<and> known_outcome p
      then concat (map (\<lambda>t. if t_variant t = p_variant p \<and> t_variant t \<in> set vs \<and> t_accesstype t = W
                             then [group_of (trace_key t) (p_method p) i] else []) (trace db3))
      else []"
  have tr: "trace db3 = trace db" by (simp add: db3_def insert_pilots_def)
  have old: "concat (map ?f (fsppilot db)) = []"
    by (intro concat_map_nil) (use fresh_pilot [OF fresh] in fastforce)
  have reads: "concat (map ?f (map (\<lambda>(i, t). (i, pilot_of u m False t)) xs)) = []" for xs
    by (intro concat_map_nil) auto
  have writes: "map ?f (map (\<lambda>(i, t). (i, pilot_of u m True t)) (zip is ws)) =
      map (\<lambda>(i, w). map (\<lambda>t. group_of (trace_key t) m i) (write_rows db (t_variant w))) (zip is ws)"
    if sub: "set ws \<subseteq> (\<Union>v \<in> set vs. set (first_write db v))" for "is" ws
    unfolding map_map
  proof (rule map_cong [OF refl], goal_cases)
    case (1 x)
    obtain i w where x: "x = (i, w)" by (cases x)
    have "w \<in> set ws" using 1 unfolding x by (rule set_zip_rightD)
    then obtain v where "v \<in> set vs" "w \<in> set (first_write db v)" using sub by blast
    then have "t_variant w \<in> set vs" using first_write_rows(1) by blast
    then have "filter (\<lambda>t. t_variant t = t_variant w \<and> t_variant t \<in> set vs \<and> t_accesstype t = W) (trace db)
        = write_rows db (t_variant w)" by (intro filter_cong) auto
    then show ?case by (simp add: x tr select_if)
  qed
  have pil: "fsppilot db3 = fsppilot (insert_pilots (pruned_pilots u m db vs) db)" by (simp add: db3_def)
  have ws: "set (concat (map (first_write db) vs)) \<subseteq> (\<Union>v \<in> set vs. set (first_write db v))" by auto
  show ?thesis
    unfolding pil fsppilot_pruned map_append concat_append old reads writes [OF ws]
    by (simp add: write_groups_def)
qed

lemma key_variant: "trace_key t = trace_key t' \<Longrightarrow> t_variant t = t_variant t'"
  by (simp add: trace_key_def)

lemma map_zip_snd: "length is = length xs \<Longrightarrow> map (\<lambda>p. f (snd p)) (zip is xs) = map f xs"
  by (induction "is" xs rule: list_induct2) simp_all

lemma read_groups_keys:
  "map group_key (read_groups m db vs) = map (\<lambda>t. (trace_key t, m)) (read_rows db vs)"
  by (simp add: read_groups_def comp_def case_prod_beta
      map_zip_snd [where f = "\<lambda>t. (trace_key t, m)"])

lemma write_groups_keys:
  "map group_key (write_groups n m db ws) =
     concat (map (\<lambda>w. map (\<lambda>t. (trace_key t, m)) (write_rows db (t_variant w))) ws)"
  by (simp add: write_groups_def map_concat comp_def case_prod_beta
      map_zip_snd [where f = "\<lambda>w. map (\<lambda>t. (trace_key t, m)) (write_rows db (t_variant w))"])

lemma first_writes_variants:
  "distinct vs \<Longrightarrow> distinct (map t_variant (concat (map (first_write db) vs)))"
proof (induction vs)
  case (Cons v vs)
  have "distinct (map t_variant (first_write db v))"
    using first_write_rows(2) [of db v] by (cases "first_write db v") (auto split: if_splits)
  with Cons show ?case by (auto dest!: first_write_rows(1))
qed simp

lemma write_keys_distinct:
  assumes "distinct (map trace_key (trace db))" and "distinct (map t_variant ws)"
  shows "distinct (concat (map (\<lambda>w. map (\<lambda>t. (trace_key t, m)) (write_rows db (t_variant w))) ws))"
  using assms(2)
proof (induction ws)
  case (Cons w ws)
  have "distinct (map trace_key (write_rows db (t_variant w)))"
    using assms(1) by (rule distinct_map_filter)
  then have "distinct (map (\<lambda>t. (trace_key t, m)) (write_rows db (t_variant w)))"
    by (simp add: distinct_map inj_on_def)
  with Cons show ?case by (force dest!: key_variant)
qed simp

lemma prune_result:
  assumes ok: "db_ok db" and vs: "distinct vs" and fresh: "\<forall>v \<in> set vs. \<not> has_pruning_data db m v"
  defines "rs \<equiv> read_groups m db vs"
    and "ws \<equiv> write_groups (next_pilot_id db + length (read_rows db vs)) m db (concat (map (first_write db) vs))"
  shows "BasicPruner_prune_all u m vs db =
    (True, insert_pilots (pruned_pilots u m db vs) db\<lparr>fspgroup := fspgroup db @ rs @ ws\<rparr>)"
proof -
  let ?db2 = "insert_pilots (pruned_pilots u m db vs) db"
  have db2: "foldl (\<lambda>d v. insert_pilots (map (pilot_of u m True) (first_write d v)) d)
      (insert_pilots [pilot_of u m False t. t \<leftarrow> trace db, t_variant t \<in> set vs \<and> t_accesstype t = R] db) vs = ?db2"
    by (simp add: fold_insert_pilots pruned_pilots_def select_if map_concat comp_def)
  have tk: "distinct (map trace_key (trace db))" using ok by (simp add: db_ok_def)
  have keys: "map group_key (rs @ ws) = map (\<lambda>t. (trace_key t, m)) (read_rows db vs) @
      concat (map (\<lambda>w. map (\<lambda>t. (trace_key t, m)) (write_rows db (t_variant w))) (concat (map (first_write db) vs)))"
    by (simp only: rs_def ws_def map_append read_groups_keys write_groups_keys)
  have rd: "distinct (map (\<lambda>t. (trace_key t, m)) (read_rows db vs))"
    using distinct_map_filter [OF tk] by (simp add: distinct_map inj_on_def)
  have "distinct (map group_key (rs @ ws))"
    unfolding keys distinct_append
    using rd write_keys_distinct [OF tk first_writes_variants [OF vs]] tk
    by (force simp: distinct_map inj_on_def)
  then have d: "distinct (map group_key rs)" "distinct (map group_key ws)"
      "set (map group_key rs) \<inter> set (map group_key ws) = {}" by auto
  have new: "\<exists>t. k = (trace_key t, m) \<and> t_variant t \<in> set vs" if "k \<in> set (map group_key (rs @ ws))" for k
    using that unfolding keys by (auto dest!: first_write_rows(1))
  have fr: "set (map group_key (rs @ ws)) \<inter> group_key ` set (fspgroup db) = {}"
  proof -
    have "k \<notin> group_key ` set (fspgroup db)" if "k \<in> set (map group_key (rs @ ws))" for k
      using new [OF that] fresh by (auto simp: has_pruning_data_def group_key_def trace_key_def)
    then show ?thesis by blast
  qed
  have g1: "insert_groups rs ?db2 = (True, ?db2\<lparr>fspgroup := fspgroup db @ rs\<rparr>)"
    using insert_groups_fresh [OF d(1), of ?db2] fr by (auto simp: insert_pilots_def)
  have g2: "insert_groups ws (?db2\<lparr>fspgroup := fspgroup db @ rs\<rparr>) = (True, ?db2\<lparr>fspgroup := fspgroup db @ rs @ ws\<rparr>)"
    using insert_groups_fresh [OF d(2), of "?db2\<lparr>fspgroup := fspgroup db @ rs\<rparr>"] fr d(3) by auto
  show ?thesis
    unfolding BasicPruner_prune_all_def Let_def db2
    by (simp only: read_groups_select [OF ok fresh] rs_def [symmetric] g1 prod.case
        write_groups_select [OF fresh] ws_def [symmetric] g2) simp
qed

lemma prune_ok:
  assumes "db_ok db"
  shows "db_ok (snd (BasicPruner_prune_all u m vs db)) \<and> trace (snd (BasicPruner_prune_all u m vs db)) = trace db"
proof -
  let ?db2 = "foldl (\<lambda>d v. insert_pilots (map (pilot_of u m True) (first_write d v)) d)
      (insert_pilots [pilot_of u m False t. t \<leftarrow> trace db, t_variant t \<in> set vs \<and> t_accesstype t = R] db) vs"
  have "db_ok ?db2 \<and> trace ?db2 = trace db"
    unfolding fold_insert_pilots using insert_pilots_ok [OF assms] by blast
  then show ?thesis
    unfolding BasicPruner_prune_all_def Let_def
    by (auto simp: case_prod_beta insert_groups_ok insert_groups_frame)
qed

text \<open>
  The pilot a row is grouped with: for a read its own one, for a write the one pilot with a known outcome
  that the variant has.
\<close>

definition known_pilots :: "database \<Rightarrow> nat \<Rightarrow> nat \<Rightarrow> (nat \<times> pilot_row) set" where
  "known_pilots db m v = {(i, p) \<in> set (fsppilot db). p_method p = m \<and> p_variant p = v \<and> known_outcome p}"

definition represented :: "bool \<Rightarrow> nat \<Rightarrow> database \<Rightarrow> trace_row \<Rightarrow> group_row \<Rightarrow> bool" where
  "represented u m db t g \<longleftrightarrow>
     (\<exists>p. (pilot_id g, p) \<in> set (fsppilot db) \<and> p_method p = m \<and> p_variant p = t_variant t \<and>
        (known_outcome p \<longleftrightarrow> t_accesstype t = W) \<and>
        (t_accesstype t = R \<longrightarrow> pilot_key p = trace_key t \<and>
           injection_instr p = (if u then t_instr1 t else t_instr2 t)) \<and>
        (t_accesstype t = W \<longrightarrow> known_pilots db m (t_variant t) = {(pilot_id g, p)}))"

lemma read_row_represented:
  assumes "t \<in> set (read_rows db vs)"
  shows "\<exists>g \<in> set (read_groups m db vs). group_key g = (trace_key t, m) \<and>
    represented u m (insert_pilots (pruned_pilots u m db vs) db\<lparr>fspgroup := gs\<rparr>) t g"
proof -
  let ?is = "[next_pilot_id db..<next_pilot_id db + length (read_rows db vs)]"
  have t: "t \<in> set (trace db)" "t_variant t \<in> set vs" "t_accesstype t = R" using assms by simp_all
  obtain j where j: "j < length (read_rows db vs)" "read_rows db vs ! j = t"
    using assms unfolding in_set_conv_nth by blast
  let ?i = "next_pilot_id db + j"
  have z: "(?i, t) \<in> set (zip ?is (read_rows db vs))"
    unfolding in_set_zip using j by (intro exI [of _ j]) simp
  have "group_of (trace_key t) m ?i \<in> set (read_groups m db vs)"
    unfolding read_groups_def set_map by (rule image_eqI [OF _ z]) simp
  moreover have "(?i, pilot_of u m False t) \<in> set (fsppilot (insert_pilots (pruned_pilots u m db vs) db))"
    unfolding fsppilot_pruned set_append set_map by (intro UnI2 UnI1 image_eqI [OF _ z]) simp
  moreover have "injection_instr (pilot_of u m False t) = (if u then t_instr1 t else t_instr2 t)"
    by (simp add: pilot_of_def)
  ultimately show ?thesis
    using t by (intro bexI [of _ "group_of (trace_key t) m ?i"]) (auto simp: represented_def)
qed

lemma known_pilots_pruned:
  fixes u :: bool
  assumes "distinct vs" and "\<forall>v \<in> set vs. \<not> has_pruning_data db m v"
    and "j < length (concat (map (first_write db) vs))" and "concat (map (first_write db) vs) ! j = w"
  shows "known_pilots (insert_pilots (pruned_pilots u m db vs) db) m (t_variant w) =
    {(next_pilot_id db + length (read_rows db vs) + j, pilot_of u m True w)}"
proof -
  define ws where "ws = concat (map (first_write db) vs)"
  let ?n = "next_pilot_id db + length (read_rows db vs)"
  note j = assms(3,4) [folded ws_def]
  have "w \<in> set ws" using nth_mem [OF j(1)] j(2) by simp
  then have v: "t_variant w \<in> set vs" unfolding ws_def by (auto dest: first_write_rows(1))
  have d: "distinct (map t_variant ws)" unfolding ws_def by (rule first_writes_variants [OF assms(1)])
  have same: "k = j" if "k < length ws" "t_variant (ws ! k) = t_variant w" for k
    using d that j unfolding distinct_conv_nth by (metis length_map nth_map)
  have writes: "(i, p) \<in> set (map (\<lambda>(i, t). (i, pilot_of u m True t)) (zip [?n..<?n + length ws] ws)) \<longleftrightarrow>
      (\<exists>k < length ws. i = ?n + k \<and> p = pilot_of u m True (ws ! k))" for i p
    by (force simp: in_set_conv_nth)
  have old: "p_method p \<noteq> m" if "(i, p) \<in> set (fsppilot db)" "p_variant p = t_variant w" for i p
    using fresh_pilot [OF assms(2) that(1)] that(2) v by simp
  have reads: "\<not> known_outcome p" if "(i, p) \<in> set (map (\<lambda>(i, t). (i, pilot_of u m False t)) z)" for i p z
    using that by auto
  have mem: "(i, p) \<in> known_pilots (insert_pilots (pruned_pilots u m db vs) db) m (t_variant w) \<longleftrightarrow>
      (\<exists>k < length ws. i = ?n + k \<and> p = pilot_of u m True (ws ! k)) \<and> p_method p = m \<and> p_variant p = t_variant w \<and> known_outcome p" for i p
    unfolding known_pilots_def fsppilot_pruned ws_def [symmetric] set_append Un_iff writes mem_Collect_eq prod.case
    using old [of i p] reads [of i p "zip [next_pilot_id db..<?n] (read_rows db vs)"] by argo
  show ?thesis
  proof (intro set_eqI iffI)
    fix x assume "x \<in> known_pilots (insert_pilots (pruned_pilots u m db vs) db) m (t_variant w)"
    moreover obtain i p where x: "x = (i, p)" by (cases x)
    ultimately obtain k where k: "k < length ws" "i = ?n + k" "p = pilot_of u m True (ws ! k)" "p_variant p = t_variant w" using mem by blast
    then have "k = j" by (intro same) simp_all
    then show "x \<in> {(?n + j, pilot_of u m True w)}" using k j(2) x by simp
  next
    fix x assume "x \<in> {(?n + j, pilot_of u m True w)}"
    then have x: "x = (?n + j, pilot_of u m True (ws ! j))" using j(2) by simp
    show "x \<in> known_pilots (insert_pilots (pruned_pilots u m db vs) db) m (t_variant w)"
      unfolding x mem using j by auto
  qed
qed

lemma write_row_represented:
  assumes "t \<in> set (trace db)" and "t_variant t \<in> set vs" and "t_accesstype t = W"
    and "distinct vs" and "\<forall>v \<in> set vs. \<not> has_pruning_data db m v"
  shows "\<exists>g \<in> set (write_groups (next_pilot_id db + length (read_rows db vs)) m db (concat (map (first_write db) vs))).
    group_key g = (trace_key t, m) \<and>
    represented u m (insert_pilots (pruned_pilots u m db vs) db\<lparr>fspgroup := gs\<rparr>) t g"
proof -
  let ?n = "next_pilot_id db + length (read_rows db vs)" and ?ws = "concat (map (first_write db) vs)"
  have "length (first_write db (t_variant t)) = 1" using assms first_write_rows(2) by auto
  then obtain w where w: "first_write db (t_variant t) = [w]" by (cases "first_write db (t_variant t)") auto
  then have v: "t_variant w = t_variant t" using first_write_rows(1) [of w db "t_variant t"] by simp
  have "w \<in> set ?ws" using w assms(2) by force
  then obtain j where j: "j < length ?ws" "?ws ! j = w" unfolding in_set_conv_nth by blast
  have z: "(?n + j, w) \<in> set (zip [?n..<?n + length ?ws] ?ws)"
    unfolding in_set_zip using j by (intro exI [of _ j]) (simp del: length_concat)
  have "group_of (trace_key t) m (?n + j) \<in> set (write_groups ?n m db ?ws)"
    unfolding write_groups_def set_concat set_map
    by (rule UN_I [OF imageI [OF z]]) (use assms v in auto)
  moreover have "(?n + j, pilot_of u m True w) \<in> set (fsppilot (insert_pilots (pruned_pilots u m db vs) db))"
    unfolding fsppilot_pruned set_append set_map by (intro UnI2 image_eqI [OF _ z]) simp
  moreover have "known_pilots (insert_pilots (pruned_pilots u m db vs) db\<lparr>fspgroup := gs\<rparr>) m (t_variant t) = {(?n + j, pilot_of u m True w)}"
    using known_pilots_pruned [OF assms(4,5) j, of u] v by (simp add: known_pilots_def)
  ultimately show ?thesis
    using assms v by (intro bexI [of _ "group_of (trace_key t) m (?n + j)"]) (auto simp: represented_def)
qed

section \<open>What pruning promises\<close>

text \<open>
  C14. The basic pruner represents every equivalence class exactly once. On a well-formed database
  without earlier data of this method for the selected variants, pruning succeeds, and afterwards
  every trace row of these variants has exactly one \<open>fspgroup\<close> row; it leads to a pilot of the same
  variant that is to be injected (for a read, at the row's own coordinates and at its left or right
  boundary as configured) or has a known outcome (for a write). All writes of a variant share this pilot:
  it is the only one of the method with a known outcome that the variant has.
\<close>

theorem basic_pruning_covers_trace:
  assumes "db_ok db" and "distinct m_variants"
    and "\<forall>v \<in> set m_variants. \<not> has_pruning_data db m_method_id v"
    and "BasicPruner_prune_all use_instr1 m_method_id m_variants db = (ok, db')"
  shows "ok \<and> db_ok db' \<and> trace db' = trace db \<and>
    (\<forall>t \<in> set (trace db). t_variant t \<in> set m_variants \<longrightarrow>
       (\<exists>!g. g \<in> set (fspgroup db') \<and> group_key g = (trace_key t, m_method_id)) \<and>
       (\<forall>g \<in> set (fspgroup db'). group_key g = (trace_key t, m_method_id) \<longrightarrow>
          represented use_instr1 m_method_id db' t g))"
proof -
  let ?rs = "read_groups m_method_id db m_variants"
  let ?ws = "write_groups (next_pilot_id db + length (read_rows db m_variants)) m_method_id db
      (concat (map (first_write db) m_variants))"
  have r: "ok" "db' = insert_pilots (pruned_pilots use_instr1 m_method_id db m_variants) db
      \<lparr>fspgroup := fspgroup db @ ?rs @ ?ws\<rparr>"
    using prune_result [OF assms(1-3), of use_instr1] assms(4) by simp_all
  have ok: "db_ok db'" "trace db' = trace db"
    using prune_ok [OF assms(1), of use_instr1 m_method_id m_variants] assms(4) by simp_all
  have ex: "\<exists>g \<in> set (fspgroup db'). group_key g = (trace_key t, m_method_id) \<and>
      represented use_instr1 m_method_id db' t g"
    if t: "t \<in> set (trace db)" "t_variant t \<in> set m_variants" for t
  proof (cases "t_accesstype t")
    case R
    then have "t \<in> set (read_rows db m_variants)" using t by simp
    from read_row_represented [OF this, of m_method_id use_instr1] show ?thesis unfolding r(2) by fastforce
  next
    case W
    from write_row_represented [OF t this assms(2,3), of use_instr1] show ?thesis unfolding r(2) by fastforce
  qed
  have uniq: "g = h" if "g \<in> set (fspgroup db')" "h \<in> set (fspgroup db')" "group_key g = group_key h" for g h
    using ok(1) that by (simp add: db_ok_def distinct_map inj_on_def)
  show ?thesis using r(1) ok ex uniq by metis
qed

definition demo_trace :: "trace_row list" where
  "demo_trace =
     [\<lparr>t_variant = 1, t_instr1 = 0, t_instr1_absolute = None, t_instr2 = 3, t_instr2_absolute = Some 40,
       t_time1 = 0, t_time2 = 3, t_data_address = 7, t_width = 1, t_accesstype = R\<rparr>,
      \<lparr>t_variant = 1, t_instr1 = 4, t_instr1_absolute = Some 40, t_instr2 = 9, t_instr2_absolute = None,
       t_time1 = 4, t_time2 = 9, t_data_address = 7, t_width = 1, t_accesstype = W\<rparr>]"

definition demo_db :: database where
  "demo_db = \<lparr>trace = demo_trace, fsppilot = [], next_pilot_id = 1, fspgroup = []\<rparr>"

theorem basic_pruning_covers_trace_witness:
  "db_ok demo_db \<and> \<not> has_pruning_data demo_db 5 1 \<and>
   fst (BasicPruner_prune_all False 5 [1] demo_db) \<and>
   db_ok (snd (BasicPruner_prune_all False 5 [1] demo_db))"
proof -
  have a: "db_ok demo_db" "\<forall>v \<in> set [1]. \<not> has_pruning_data demo_db 5 v"
    by (simp_all add: db_ok_def demo_db_def demo_trace_def trace_key_def has_pruning_data_def)
  have "distinct [1 :: nat]" by simp
  from basic_pruning_covers_trace [OF a(1) this a(2) prod.collapse [symmetric], of False] a show ?thesis by simp
qed

text \<open>
  The preconditions are established by the tool: without \<open>--overwrite\<close> and \<open>--incremental\<close>,
  \<open>init\<close> only lets variants through that have no data of this method, and \<open>clear_database\<close> removes
  exactly the data of this method and these variants, so pruning can run again.
\<close>

theorem pruner_preconditions:
  shows "(Pruner_init db m_method_id variants False False = Some vs \<longrightarrow>
      vs \<noteq> [] \<and> set vs = {v \<in> set variants. \<not> has_pruning_data db m_method_id v} \<and>
      (distinct variants \<longrightarrow> distinct vs)) \<and>
    (db_ok db \<longrightarrow> db_ok (clear_database m_method_id vs db)) \<and>
    (\<forall>v m. has_pruning_data (clear_database m_method_id vs db) m v \<longleftrightarrow>
       has_pruning_data db m v \<and> \<not> (v \<in> set vs \<and> m = m_method_id))"
proof (intro conjI allI)
  show "Pruner_init db m_method_id variants False False = Some vs \<longrightarrow>
      vs \<noteq> [] \<and> set vs = {v \<in> set variants. \<not> has_pruning_data db m_method_id v} \<and>
      (distinct variants \<longrightarrow> distinct vs)"
    by (auto simp: Pruner_init_def Let_def split: if_splits)
  show "db_ok db \<longrightarrow> db_ok (clear_database m_method_id vs db)"
    by (auto simp: db_ok_def clear_database_def distinct_map_filter)
  show "has_pruning_data (clear_database m_method_id vs db) m v \<longleftrightarrow>
       has_pruning_data db m v \<and> \<not> (v \<in> set vs \<and> m = m_method_id)" for v m
    by (fastforce simp: has_pruning_data_def clear_database_def)
qed

theorem pruner_preconditions_witness:
  "Pruner_init demo_db 5 [1] False False = Some [1] \<and>
   set [1] = {v \<in> set [1]. \<not> has_pruning_data demo_db 5 v} \<and> db_ok (clear_database 5 [1] demo_db)"
proof -
  have "Pruner_init demo_db 5 [1] False False = Some [1]" by code_simp
  moreover have "db_ok demo_db" by (simp add: db_ok_def demo_db_def demo_trace_def trace_key_def)
  ultimately show ?thesis using pruner_preconditions [of demo_db 5 "[1]" "[1]"] by blast
qed

end
