(* ===== verification/Sum_Tree.thy ===== *)
theory Sum_Tree
  imports Fail_Prelude
begin

text \<open>
  \<open>SumTree\<close> of \<^verbatim>\<open>src/core/util/SumTree.hpp\<close>, the tree of buckets the sampling pruners pick
  pilots from with probability proportional to their size. The template parameters are
  arguments: \<open>B\<close> is \<open>BUCKETSIZE\<close>, \<open>sz\<close> the element type's \<open>size()\<close>, a \<open>uint64_t\<close>. Failed
  assertions are \<open>None\<close>. The reference is the linear scan the header comment calls the naive
  approach, \<open>naive_pick\<close>.
\<close>

section \<open>The tree\<close>

datatype 'a Bucket = Bucket (bsize: u64) (children: "'a Bucket list") (elements: "'a list")

record 'a SumTree =
  m_root :: "'a Bucket"
  m_depth :: nat

definition Bucket_new :: "'a Bucket" where
  "Bucket_new = Bucket 0 [] []"

definition SumTree_new :: "'a SumTree" where
  "SumTree_new = \<lparr>m_root = Bucket_new, m_depth = 0\<rparr>"

definition get_size :: "'a SumTree \<Rightarrow> u64" where
  "get_size t = bsize (m_root t)"

fun add_node :: "nat \<Rightarrow> ('a \<Rightarrow> u64) \<Rightarrow> 'a \<Rightarrow> nat \<Rightarrow> 'a Bucket \<Rightarrow> bool \<times> 'a Bucket" where
  "add_node B sz x 0 (Bucket s cs es) =
     (if length es < B then (True, Bucket (s + sz x) cs (es @ [x]))
      else (False, Bucket s cs es))"
| "add_node B sz x (Suc depth_remaining) (Bucket s cs es) =
     (let cs1 = (if cs = [] then [Bucket_new] else cs);
          (added, b) = add_node B sz x depth_remaining (last cs1);
          cs2 = butlast cs1 @ [b]
      in if added then (True, Bucket (s + sz x) cs2 es)
         else if length cs2 < B
         then (True, Bucket (s + sz x) (cs2 @ [snd (add_node B sz x depth_remaining Bucket_new)]) es)
         else (False, Bucket s cs2 es))"

definition add :: "nat \<Rightarrow> ('a \<Rightarrow> u64) \<Rightarrow> 'a \<Rightarrow> 'a SumTree \<Rightarrow> 'a SumTree" where
  "add B sz element t =
     (if sz element = 0 then t
      else let (added, r) = add_node B sz element (m_depth t) (m_root t) in
        if added then t\<lparr>m_root := r\<rparr>
        else let b = Bucket (bsize r) [r] [] in
          \<lparr>m_root = snd (add_node B sz element (Suc (m_depth t)) b), m_depth = Suc (m_depth t)\<rparr>)"

text \<open>The second loop of \<open>get\<close> and \<open>remove\<close>, over the elements of a leaf.\<close>

fun scan :: "('a \<Rightarrow> u64) \<Rightarrow> u64 \<Rightarrow> 'a list \<Rightarrow> u64 \<Rightarrow> nat option" where
  "scan sz pos [] acc = None"
| "scan sz pos (x # xs) acc =
     (if acc + sz x \<le> pos then map_option Suc (scan sz pos xs (acc + sz x)) else Some 0)"

text \<open>
  \<open>get\<close> returns a reference, so the caller can change the element in place: \<open>get_node f\<close>
  returns the element found and the bucket in which \<open>f\<close> was applied to it.
\<close>

fun get_node :: "('a \<Rightarrow> u64) \<Rightarrow> ('a \<Rightarrow> 'a) \<Rightarrow> u64 \<Rightarrow> 'a Bucket \<Rightarrow> u64 \<Rightarrow> ('a \<times> 'a Bucket) option"
  and get_children :: "('a \<Rightarrow> u64) \<Rightarrow> ('a \<Rightarrow> 'a) \<Rightarrow> u64 \<Rightarrow> 'a Bucket list \<Rightarrow> 'a list \<Rightarrow> u64
    \<Rightarrow> ('a \<times> 'a Bucket list \<times> 'a list) option" where
  "get_node sz f pos (Bucket s cs es) acc =
     (if acc \<le> pos \<and> pos < acc + s
      then map_option (\<lambda>(e, cs', es'). (e, Bucket s cs' es')) (get_children sz f pos cs es acc)
      else None)"
| "get_children sz f pos [] es acc =
     map_option (\<lambda>i. (es ! i, [], es[i := f (es ! i)])) (scan sz pos es acc)"
| "get_children sz f pos (c # cs) es acc =
     (let acc1 = acc + bsize c in
      if acc1 \<le> pos
      then map_option (\<lambda>(e, cs', es'). (e, c # cs', es')) (get_children sz f pos cs es acc1)
      else map_option (\<lambda>(e, c'). (e, c' # cs, es)) (get_node sz f pos c (acc1 - bsize c)))"

definition get :: "('a \<Rightarrow> u64) \<Rightarrow> ('a \<Rightarrow> 'a) \<Rightarrow> u64 \<Rightarrow> 'a SumTree \<Rightarrow> ('a \<times> 'a SumTree) option" where
  "get sz f pos t = map_option (\<lambda>(e, r). (e, t\<lparr>m_root := r\<rparr>)) (get_node sz f pos (m_root t) 0)"

fun remove_node :: "('a \<Rightarrow> u64) \<Rightarrow> u64 \<Rightarrow> 'a Bucket \<Rightarrow> u64 \<Rightarrow> ('a \<times> 'a Bucket) option"
  and remove_children :: "('a \<Rightarrow> u64) \<Rightarrow> u64 \<Rightarrow> 'a Bucket list \<Rightarrow> 'a list \<Rightarrow> u64
    \<Rightarrow> ('a \<times> 'a Bucket list \<times> 'a list) option" where
  "remove_node sz pos (Bucket s cs es) acc =
     (if acc \<le> pos \<and> pos < acc + s
      then map_option (\<lambda>(e, cs', es'). (e, Bucket (s - sz e) cs' es')) (remove_children sz pos cs es acc)
      else None)"
| "remove_children sz pos [] es acc =
     map_option (\<lambda>i. (es ! i, [], take i es @ drop (Suc i) es)) (scan sz pos es acc)"
| "remove_children sz pos (c # cs) es acc =
     (let acc1 = acc + bsize c in
      if acc1 \<le> pos
      then map_option (\<lambda>(e, cs', es'). (e, c # cs', es')) (remove_children sz pos cs es acc1)
      else map_option (\<lambda>(e, c'). (e, if bsize c' = 0 then cs else c' # cs, es))
             (remove_node sz pos c (acc1 - bsize c)))"

definition remove :: "('a \<Rightarrow> u64) \<Rightarrow> u64 \<Rightarrow> 'a SumTree \<Rightarrow> ('a \<times> 'a SumTree) option" where
  "remove sz pos t = map_option (\<lambda>(e, r). (e, t\<lparr>m_root := r\<rparr>)) (remove_node sz pos (m_root t) 0)"

text \<open>
  The iterator is the stack of buckets with the index in each, innermost first; the empty stack
  is \<open>end()\<close>.
\<close>

type_synonym 'a TreeIterator = "('a Bucket \<times> nat) list"

fun descend :: "'a Bucket \<Rightarrow> 'a TreeIterator \<Rightarrow> 'a TreeIterator" where
  "descend (Bucket s (c # cs) []) hierarchy = descend c ((Bucket s (c # cs) [], 0) # hierarchy)"
| "descend b hierarchy = (b, 0) # hierarchy"

definition iter_begin :: "'a SumTree \<Rightarrow> 'a TreeIterator" where
  "iter_begin t = descend (m_root t) []"

definition iter_end :: "'a TreeIterator" where
  "iter_end = []"

fun ascend :: "'a TreeIterator \<Rightarrow> 'a TreeIterator" where
  "ascend [] = []"
| "ascend ((b, i) # hierarchy) =
     (if length (children b) \<le> Suc i then ascend hierarchy else (b, Suc i) # hierarchy)"

fun iter_next :: "'a TreeIterator \<Rightarrow> 'a TreeIterator" where
  "iter_next [] = []"
| "iter_next ((b, i) # hierarchy) =
     (if Suc i < length (elements b) then (b, Suc i) # hierarchy
      else case ascend hierarchy of
             [] \<Rightarrow> []
           | (b', j) # hierarchy' \<Rightarrow> descend (children b' ! j) ((b', j) # hierarchy'))"

fun iter_deref :: "'a TreeIterator \<Rightarrow> 'a option" where
  "iter_deref [] = None"
| "iter_deref ((b, i) # hierarchy) = (if i < length (elements b) then Some (elements b ! i) else None)"

section \<open>The naive reference\<close>

fun flatten :: "'a Bucket \<Rightarrow> 'a list" where
  "flatten (Bucket s cs es) = concat (map flatten cs) @ es"

definition tree_elements :: "'a SumTree \<Rightarrow> 'a list" where
  "tree_elements t = flatten (m_root t)"

definition total_size :: "('a \<Rightarrow> u64) \<Rightarrow> 'a list \<Rightarrow> nat" where
  "total_size sz xs = sum_list (map (\<lambda>x. unat (sz x)) xs)"

fun naive_pick :: "('a \<Rightarrow> u64) \<Rightarrow> nat \<Rightarrow> 'a list \<Rightarrow> nat option" where
  "naive_pick sz pos [] = None"
| "naive_pick sz pos (x # xs) =
     (if pos < unat (sz x) then Some 0 else map_option Suc (naive_pick sz (pos - unat (sz x)) xs))"

lemma total_size_simps [simp]:
  "total_size sz [] = 0" "total_size sz (x # xs) = unat (sz x) + total_size sz xs"
  "total_size sz (xs @ ys) = total_size sz xs + total_size sz ys"
  by (simp_all add: total_size_def)

lemma naive_pick_append:
  "naive_pick sz pos (xs @ ys) =
     (if pos < total_size sz xs then naive_pick sz pos xs
      else map_option ((+) (length xs)) (naive_pick sz (pos - total_size sz xs) ys))"
proof (induction xs arbitrary: pos)
  case Nil
  then show ?case by (cases "naive_pick sz pos ys") simp_all
next
  case (Cons x xs)
  show ?case
  proof (cases "pos < unat (sz x)")
    case False
    then have "pos - unat (sz x) < total_size sz xs \<longleftrightarrow> pos < unat (sz x) + total_size sz xs" by linarith
    with False Cons.IH [of "pos - unat (sz x)"] show ?thesis
      by (auto simp: option.map_comp intro: map_option_cong)
  qed simp
qed

lemma naive_pick_Some:
  "pos < total_size sz xs \<Longrightarrow> \<exists>i < length xs. naive_pick sz pos xs = Some i"
proof (induction xs arbitrary: pos)
  case (Cons x xs)
  show ?case
  proof (cases "pos < unat (sz x)")
    case False
    then have "pos - unat (sz x) < total_size sz xs" using Cons.prems by simp
    from Cons.IH [OF this] False show ?thesis by auto
  qed simp
qed simp

lemma naive_pick_correct:
  "naive_pick sz pos xs = Some i \<Longrightarrow>
     i < length xs \<and> total_size sz (take i xs) \<le> pos \<and> pos < total_size sz (take (Suc i) xs)"
proof (induction xs arbitrary: pos i)
  case (Cons x xs)
  show ?case
  proof (cases "pos < unat (sz x)")
    case True
    with Cons.prems show ?thesis by simp
  next
    case False
    with Cons.prems obtain j where j: "naive_pick sz (pos - unat (sz x)) xs = Some j" "i = Suc j" by auto
    from Cons.IH [OF j(1)] False j(2) show ?thesis by auto
  qed
qed simp

section \<open>The invariant\<close>

text \<open>
  Below a bucket of depth \<open>d\<close> all leaves are at the same depth, \<open>bsize\<close> is the sum of the sizes
  of the elements (modulo the width of \<open>uint64_t\<close>), and no child is empty.
\<close>

fun bucket_ok :: "('a \<Rightarrow> u64) \<Rightarrow> nat \<Rightarrow> 'a Bucket \<Rightarrow> bool" where
  "bucket_ok sz 0 (Bucket s cs es) \<longleftrightarrow>
     cs = [] \<and> s = of_nat (total_size sz es) \<and> (\<forall>e \<in> set es. sz e \<noteq> 0)"
| "bucket_ok sz (Suc d) (Bucket s cs es) \<longleftrightarrow>
     es = [] \<and> s = of_nat (total_size sz (concat (map flatten cs))) \<and>
     (\<forall>c \<in> set cs. bucket_ok sz d c \<and> flatten c \<noteq> [])"

definition sumtree_inv :: "('a \<Rightarrow> u64) \<Rightarrow> 'a SumTree \<Rightarrow> bool" where
  "sumtree_inv sz t \<longleftrightarrow> bucket_ok sz (m_depth t) (m_root t) \<and> total_size sz (tree_elements t) < 2 ^ 64"

lemma bucket_ok_bsize: "bucket_ok sz d b \<Longrightarrow> bsize b = of_nat (total_size sz (flatten b))"
  by (cases b; cases d) auto

lemma bucket_ok_nonzero: "bucket_ok sz d b \<Longrightarrow> e \<in> set (flatten b) \<Longrightarrow> sz e \<noteq> 0"
proof (induction d arbitrary: b)
  case 0
  then show ?case by (cases b) auto
next
  case (Suc d)
  then show ?case by (cases b) auto
qed

lemma bucket_ok_unat:
  "bucket_ok sz d b \<Longrightarrow> total_size sz (flatten b) < 2 ^ 64 \<Longrightarrow> unat (bsize b) = total_size sz (flatten b)"
  by (simp add: bucket_ok_bsize unat_of_nat_u64)

lemma bucket_ok_new [simp]: "bucket_ok sz d Bucket_new" "flatten Bucket_new = []"
  by (cases d; simp add: Bucket_new_def)+

lemma bucket_ok_empty: "bucket_ok sz d b \<Longrightarrow> flatten b = [] \<Longrightarrow> b = Bucket_new"
  by (cases b; cases d) (auto simp: Bucket_new_def)

section \<open>Adding\<close>

lemma add_node_new: "0 < B \<Longrightarrow> fst (add_node B sz x d Bucket_new)"
  by (induction d) (auto simp: Bucket_new_def Let_def case_prod_beta)

lemma add_node_ok:
  assumes "bucket_ok sz d b" and "0 < B" and "sz x \<noteq> 0"
  shows "bucket_ok sz d (snd (add_node B sz x d b)) \<and>
    flatten (snd (add_node B sz x d b)) = flatten b @ (if fst (add_node B sz x d b) then [x] else [])"
  using assms(1)
proof (induction d arbitrary: b)
  case 0
  then show ?case using assms(3) by (cases b) auto
next
  case (Suc d)
  obtain s cs es where b: "b = Bucket s cs es" by (cases b)
  define cs1 where "cs1 = (if cs = [] then [Bucket_new] else cs)"
  have es: "es = []" and s: "s = of_nat (total_size sz (concat (map flatten cs)))"
    and cs: "\<forall>c \<in> set cs. bucket_ok sz d c \<and> flatten c \<noteq> []"
    using Suc.prems by (simp_all add: b)
  obtain ys y where ys: "cs1 = ys @ [y]" by (cases cs1 rule: rev_cases) (auto simp: cs1_def split: if_splits)
  have ok: "\<forall>c \<in> set ys. bucket_ok sz d c \<and> flatten c \<noteq> []" "bucket_ok sz d y"
    and fl: "concat (map flatten ys) @ flatten y = concat (map flatten cs)"
    and y: "y = Bucket_new \<or> flatten y \<noteq> []"
    using cs ys by (auto simp: cs1_def split: if_splits)
  let ?r = "add_node B sz x d y" and ?n = "add_node B sz x d Bucket_new"
  have IH: "bucket_ok sz d (snd ?r)" "flatten (snd ?r) = flatten y @ (if fst ?r then [x] else [])"
    using Suc.IH [OF ok(2)] by auto
  have new: "bucket_ok sz d (snd ?n)" "flatten (snd ?n) = [x]"
    using Suc.IH [of Bucket_new] add_node_new [OF assms(2)] by auto
  have full: "\<not> fst ?r \<Longrightarrow> flatten y \<noteq> []" using y add_node_new [OF assms(2), of sz x d] by auto
  have t: "total_size sz (concat (map flatten cs)) = total_size sz (concat (map flatten ys)) + total_size sz (flatten y)"
    using fl by (metis total_size_simps(3))
  have step: "add_node B sz x (Suc d) b =
     (if fst ?r then (True, Bucket (s + sz x) (ys @ [snd ?r]) es)
      else if Suc (length ys) < B then (True, Bucket (s + sz x) (ys @ [snd ?r, snd ?n]) es)
      else (False, Bucket s (ys @ [snd ?r]) es))"
    unfolding b add_node.simps cs1_def [symmetric] by (simp add: ys Let_def case_prod_beta)
  show ?case
    unfolding step using IH new full ok s t fl by (auto simp: es b)
qed

lemma add_ok:
  assumes inv: "sumtree_inv sz t" and B: "2 \<le> B" and fits: "total_size sz (tree_elements t) + unat (sz x) < 2 ^ 64"
  shows "sumtree_inv sz (add B sz x t)"
    and "tree_elements (add B sz x t) = tree_elements t @ (if sz x = 0 then [] else [x])"
proof -
  let ?r = "add_node B sz x (m_depth t) (m_root t)"
  let ?b = "Bucket (bsize (snd ?r)) [snd ?r] []"
  let ?r2 = "add_node B sz x (Suc (m_depth t)) ?b"
  have ok: "bucket_ok sz (m_depth t) (m_root t)" using inv by (simp add: sumtree_inv_def)
  have B0: "0 < B" using B by simp
  have "sumtree_inv sz (add B sz x t) \<and>
      tree_elements (add B sz x t) = tree_elements t @ (if sz x = 0 then [] else [x])"
  proof (cases "sz x = 0")
    case True
    with inv show ?thesis by (simp add: add_def)
  next
    case x: False
    note r = add_node_ok [OF ok B0 x]
    show ?thesis
    proof (cases "fst ?r")
      case True
      with r x fits show ?thesis
        by (simp add: add_def case_prod_beta Let_def sumtree_inv_def tree_elements_def)
    next
      case False
      then have same: "flatten (snd ?r) = tree_elements t" using r by (simp add: tree_elements_def)
      have "m_root t \<noteq> Bucket_new" using False add_node_new [OF B0] by metis
      then have "flatten (snd ?r) \<noteq> []"
        using bucket_ok_empty [OF ok] same by (auto simp: tree_elements_def)
      then have "bucket_ok sz (Suc (m_depth t)) ?b"
        using r bucket_ok_bsize [of sz "m_depth t" "snd ?r"] by simp
      note r2 = add_node_ok [OF this B0 x]
      have "fst ?r2" using B by (simp add: Let_def case_prod_beta)
      with r2 False x fits same show ?thesis
        by (simp add: add_def case_prod_beta Let_def sumtree_inv_def tree_elements_def)
    qed
  qed
  then show "sumtree_inv sz (add B sz x t)"
    and "tree_elements (add B sz x t) = tree_elements t @ (if sz x = 0 then [] else [x])" by auto
qed

section \<open>Picking\<close>

definition naive_get :: "('a \<Rightarrow> u64) \<Rightarrow> ('a \<Rightarrow> 'a) \<Rightarrow> nat \<Rightarrow> 'a list \<Rightarrow> ('a \<times> 'a list) option" where
  "naive_get sz f pos xs = map_option (\<lambda>i. (xs ! i, xs[i := f (xs ! i)])) (naive_pick sz pos xs)"

definition naive_remove :: "('a \<Rightarrow> u64) \<Rightarrow> nat \<Rightarrow> 'a list \<Rightarrow> ('a \<times> 'a list) option" where
  "naive_remove sz pos xs = map_option (\<lambda>i. (xs ! i, take i xs @ drop (Suc i) xs)) (naive_pick sz pos xs)"

lemma naive_get_append:
  "naive_get sz f pos (xs @ ys) =
     (if pos < total_size sz xs then map_option (\<lambda>(e, xs'). (e, xs' @ ys)) (naive_get sz f pos xs)
      else map_option (\<lambda>(e, ys'). (e, xs @ ys')) (naive_get sz f (pos - total_size sz xs) ys))"
  using naive_pick_Some [of pos sz xs]
  by (auto simp: naive_get_def naive_pick_append option.map_comp comp_def nth_append list_update_append
      intro!: map_option_cong)

lemma naive_remove_append:
  "naive_remove sz pos (xs @ ys) =
     (if pos < total_size sz xs then map_option (\<lambda>(e, xs'). (e, xs' @ ys)) (naive_remove sz pos xs)
      else map_option (\<lambda>(e, ys'). (e, xs @ ys')) (naive_remove sz (pos - total_size sz xs) ys))"
  using naive_pick_Some [of pos sz xs]
  by (auto simp: naive_remove_def naive_pick_append option.map_comp comp_def nth_append
      intro!: map_option_cong)

lemma naive_remove_SomeD:
  assumes "naive_remove sz pos xs = Some (e, xs')"
  shows "mset xs = add_mset e (mset xs')" and "total_size sz xs = unat (sz e) + total_size sz xs'"
    and "set xs' \<subseteq> set xs" and "e \<in> set xs"
proof -
  obtain i where i: "naive_pick sz pos xs = Some i" "e = xs ! i" "xs' = take i xs @ drop (Suc i) xs"
    using assms by (auto simp: naive_remove_def)
  have "i < length xs" using naive_pick_correct [OF i(1)] by simp
  then have xs: "xs = take i xs @ e # drop (Suc i) xs" using i(2) by (simp add: id_take_nth_drop)
  show "mset xs = add_mset e (mset xs')" by (subst xs) (simp add: i(3))
  show "total_size sz xs = unat (sz e) + total_size sz xs'" by (subst xs) (simp add: i(3))
  show "set xs' \<subseteq> set xs" by (auto simp: i(3) dest: in_set_takeD in_set_dropD)
  show "e \<in> set xs" by (subst xs) simp
qed

lemma unat_plus_u64: "unat a + unat b < 2 ^ 64 \<Longrightarrow> unat (a + b :: u64) = unat a + unat b"
  by (simp add: unat_word_ariths)

lemma scan_naive:
  "unat acc + total_size sz es < 2 ^ 64 \<Longrightarrow> unat acc \<le> unat pos \<Longrightarrow>
     scan sz pos es acc = naive_pick sz (unat pos - unat acc) es"
proof (induction es arbitrary: acc)
  case (Cons x es)
  then have u: "unat (acc + sz x) = unat acc + unat (sz x)" by (intro unat_plus_u64) simp
  show ?case
  proof (cases "acc + sz x \<le> pos")
    case True
    then have le: "unat acc + unat (sz x) \<le> unat pos" using u by (simp add: word_le_nat_alt)
    with True u Cons.IH [of "acc + sz x"] Cons.prems show ?thesis by (auto simp: diff_diff_add)
  next
    case False
    then have "\<not> unat acc + unat (sz x) \<le> unat pos" using u by (simp add: word_le_nat_alt)
    with False Cons.prems show ?thesis by auto
  qed
qed simp

abbreviation children_ok :: "('a \<Rightarrow> u64) \<Rightarrow> nat \<Rightarrow> 'a Bucket list \<Rightarrow> bool" where
  "children_ok sz d cs \<equiv> \<forall>c \<in> set cs. bucket_ok sz d c \<and> flatten c \<noteq> []"

abbreviation in_range :: "('a \<Rightarrow> u64) \<Rightarrow> u64 \<Rightarrow> u64 \<Rightarrow> 'a list \<Rightarrow> bool" where
  "in_range sz pos acc xs \<equiv> unat acc + total_size sz xs < 2 ^ 64 \<and> unat acc \<le> unat pos \<and>
     unat pos < unat acc + total_size sz xs"

text \<open>One bucket is jumped over, or contains the position: the step the two loops share.\<close>

lemma child_step:
  assumes "bucket_ok sz d c" and "in_range sz pos acc (flatten c @ xs)"
  shows "unat (acc + bsize c) = unat acc + total_size sz (flatten c)"
    and "acc + bsize c \<le> pos \<longleftrightarrow> \<not> unat pos - unat acc < total_size sz (flatten c)"
    and "acc + bsize c \<le> pos \<Longrightarrow> in_range sz pos (acc + bsize c) xs"
    and "\<not> acc + bsize c \<le> pos \<Longrightarrow> in_range sz pos acc (flatten c)"
proof -
  have "total_size sz (flatten c) < 2 ^ 64" using assms(2) by simp
  then have b: "unat (bsize c) = total_size sz (flatten c)" by (rule bucket_ok_unat [OF assms(1)])
  then show u: "unat (acc + bsize c) = unat acc + total_size sz (flatten c)"
    using assms(2) unat_plus_u64 [of acc "bsize c"] by simp
  then show c: "acc + bsize c \<le> pos \<longleftrightarrow> \<not> unat pos - unat acc < total_size sz (flatten c)"
    using assms(2) by (auto simp: word_le_nat_alt)
  show "acc + bsize c \<le> pos \<Longrightarrow> in_range sz pos (acc + bsize c) xs"
    using assms(2) u by (auto simp: word_le_nat_alt)
  show "\<not> acc + bsize c \<le> pos \<Longrightarrow> in_range sz pos acc (flatten c)"
    using assms(2) u by (auto simp: word_le_nat_alt)
qed

lemma scan_in_range:
  assumes "in_range sz pos acc es"
  obtains i where "i < length es" and "scan sz pos es acc = Some i"
    and "naive_pick sz (unat pos - unat acc) es = Some i"
proof -
  have "unat pos - unat acc < total_size sz es" using assms by (auto simp: less_diff_conv2)
  with naive_pick_Some [OF this] scan_naive [of acc sz es pos] assms that show ?thesis by auto
qed

lemma remove_leaf_ok:
  assumes "in_range sz pos acc es"
  shows "\<exists>e es'. remove_children sz pos [] es acc = Some (e, [], es') \<and>
    naive_remove sz (unat pos - unat acc) es = Some (e, es')"
  by (rule scan_in_range [OF assms]) (simp add: naive_remove_def)

lemma get_leaf_ok:
  assumes "in_range sz pos acc es"
  shows "\<exists>e es'. get_children sz f pos [] es acc = Some (e, [], es') \<and>
    naive_get sz f (unat pos - unat acc) es = Some (e, es')"
  by (rule scan_in_range [OF assms]) (simp add: naive_get_def)

lemma remove_children_ok:
  assumes node: "\<And>c acc. bucket_ok sz d c \<Longrightarrow> in_range sz pos acc (flatten c) \<Longrightarrow>
      \<exists>e c'. remove_node sz pos c acc = Some (e, c') \<and>
        naive_remove sz (unat pos - unat acc) (flatten c) = Some (e, flatten c') \<and> bucket_ok sz d c'"
    and "children_ok sz d cs" and "in_range sz pos acc (concat (map flatten cs) @ es)"
  shows "\<exists>e cs' es'. remove_children sz pos cs es acc = Some (e, cs', es') \<and>
    naive_remove sz (unat pos - unat acc) (concat (map flatten cs) @ es) =
      Some (e, concat (map flatten cs') @ es') \<and> children_ok sz d cs' \<and>
    set es' \<subseteq> set es \<and> (cs = [] \<longrightarrow> cs' = [])"
  using assms(2,3)
proof (induction cs arbitrary: acc)
  case Nil
  then have "in_range sz pos acc es" by simp
  from remove_leaf_ok [OF this] show ?case using naive_remove_SomeD(3) by fastforce
next
  case (Cons c cs)
  let ?rest = "concat (map flatten cs) @ es"
  have ok: "bucket_ok sz d c" and rng: "in_range sz pos acc (flatten c @ ?rest)"
    using Cons.prems by simp_all
  note st = child_step [OF ok rng]
  show ?case
  proof (cases "acc + bsize c \<le> pos")
    case True
    have d: "unat pos - (unat acc + total_size sz (flatten c)) = unat pos - unat acc - total_size sz (flatten c)"
      by simp
    obtain e cs' es' where IH: "remove_children sz pos cs es (acc + bsize c) = Some (e, cs', es')"
        "naive_remove sz (unat pos - unat acc - total_size sz (flatten c)) ?rest
          = Some (e, concat (map flatten cs') @ es')"
        "children_ok sz d cs'" "set es' \<subseteq> set es"
      using Cons.IH [OF _ st(3) [OF True]] Cons.prems(1) unfolding st(1) d by auto
    have "naive_remove sz (unat pos - unat acc) (flatten c @ ?rest) =
        Some (e, concat (map flatten (c # cs')) @ es')"
      using True st(2) IH(2) by (simp only: naive_remove_append [of sz _ "flatten c"]) simp
    then show ?thesis using True IH Cons.prems(1) by simp
  next
    case False
    obtain e c' where c': "remove_node sz pos c acc = Some (e, c')"
        "naive_remove sz (unat pos - unat acc) (flatten c) = Some (e, flatten c')" "bucket_ok sz d c'"
      using node [OF ok st(4) [OF False]] by blast
    have nr: "naive_remove sz (unat pos - unat acc) (flatten c @ ?rest) = Some (e, flatten c' @ ?rest)"
      using False st(2) c'(2) by (simp only: naive_remove_append [of sz _ "flatten c"]) simp
    have "total_size sz (flatten c') < 2 ^ 64"
      using naive_remove_SomeD(2) [OF c'(2)] st(4) [OF False] by simp
    then have "bsize c' = 0 \<longleftrightarrow> total_size sz (flatten c') = 0"
      using bucket_ok_unat [OF c'(3)] by (metis unat_eq_zero)
    also have "\<dots> \<longleftrightarrow> flatten c' = []"
      using bucket_ok_nonzero [OF c'(3)] by (cases "flatten c'") (auto simp: unat_eq_zero)
    finally have "bsize c' = 0 \<longleftrightarrow> flatten c' = []" .
    then show ?thesis using False c' nr Cons.prems(1) by auto
  qed
qed

lemma node_range:
  assumes "bucket_ok sz d (Bucket s cs es)" and "in_range sz pos acc (flatten (Bucket s cs es))"
  shows "acc \<le> pos \<and> pos < acc + s"
proof -
  have "unat s = total_size sz (flatten (Bucket s cs es))"
    using bucket_ok_unat [OF assms(1)] assms(2) by simp
  then show ?thesis
    using assms(2) unat_plus_u64 [of acc s] by (simp add: word_le_nat_alt word_less_nat_alt)
qed

lemma remove_node_ok:
  "bucket_ok sz d b \<Longrightarrow> in_range sz pos acc (flatten b) \<Longrightarrow>
     \<exists>e b'. remove_node sz pos b acc = Some (e, b') \<and>
       naive_remove sz (unat pos - unat acc) (flatten b) = Some (e, flatten b') \<and> bucket_ok sz d b'"
proof (induction d arbitrary: b acc)
  case 0
  obtain s es where b: "b = Bucket s [] es" and s: "s = of_nat (total_size sz es)"
      and nz: "\<forall>e \<in> set es. sz e \<noteq> 0"
    using 0(1) by (cases b) auto
  note rng = node_range [OF 0(1)[unfolded b] 0(2)[unfolded b]]
  have "in_range sz pos acc es" using 0(2) by (simp add: b)
  then obtain e es' where r: "remove_children sz pos [] es acc = Some (e, [], es')"
      "naive_remove sz (unat pos - unat acc) es = Some (e, es')"
    using remove_leaf_ok by blast
  have "remove_node sz pos b acc = Some (e, Bucket (s - sz e) [] es')"
    using rng by (simp only: b remove_node.simps r) simp
  moreover have "s - sz e = of_nat (total_size sz es')" using naive_remove_SomeD(2) [OF r(2)] by (simp add: s)
  moreover have "\<forall>e \<in> set es'. sz e \<noteq> 0" using nz naive_remove_SomeD(3) [OF r(2)] by blast
  ultimately show ?case using r(2) by (simp add: b)
next
  case (Suc d)
  obtain s cs where b: "b = Bucket s cs []" and s: "s = of_nat (total_size sz (concat (map flatten cs)))"
      and cs: "children_ok sz d cs"
    using Suc.prems(1) by (cases b) auto
  note rng = node_range [OF Suc.prems(1)[unfolded b] Suc.prems(2)[unfolded b]]
  obtain e cs' where r: "remove_children sz pos cs [] acc = Some (e, cs', [])"
      "naive_remove sz (unat pos - unat acc) (concat (map flatten cs)) = Some (e, concat (map flatten cs'))"
      "children_ok sz d cs'"
    using remove_children_ok [OF Suc.IH cs, of acc "[]"] Suc.prems(2) unfolding b by fastforce
  from naive_remove_SomeD(2) [OF r(2)]
  have "s - sz e = of_nat (total_size sz (concat (map flatten cs')))" by (simp add: s)
  then show ?case using rng r unfolding b by auto
qed

lemma get_children_ok:
  assumes node: "\<And>c acc. bucket_ok sz d c \<Longrightarrow> in_range sz pos acc (flatten c) \<Longrightarrow>
      \<exists>e c'. get_node sz f pos c acc = Some (e, c') \<and>
        naive_get sz f (unat pos - unat acc) (flatten c) = Some (e, flatten c') \<and> bucket_ok sz d c'"
    and "children_ok sz d cs" and "in_range sz pos acc (concat (map flatten cs) @ es)"
  shows "\<exists>e cs' es'. get_children sz f pos cs es acc = Some (e, cs', es') \<and>
    naive_get sz f (unat pos - unat acc) (concat (map flatten cs) @ es) =
      Some (e, concat (map flatten cs') @ es') \<and> children_ok sz d cs' \<and>
    (es = [] \<longrightarrow> es' = []) \<and> (cs = [] \<longrightarrow> cs' = [])"
  using assms(2,3)
proof (induction cs arbitrary: acc)
  case Nil
  then have "in_range sz pos acc es" by simp
  from get_leaf_ok [OF this, of f] show ?case by (auto simp: naive_get_def)
next
  case (Cons c cs)
  let ?rest = "concat (map flatten cs) @ es"
  have ok: "bucket_ok sz d c" and rng: "in_range sz pos acc (flatten c @ ?rest)"
    using Cons.prems by simp_all
  note st = child_step [OF ok rng]
  show ?case
  proof (cases "acc + bsize c \<le> pos")
    case True
    have d: "unat pos - (unat acc + total_size sz (flatten c)) = unat pos - unat acc - total_size sz (flatten c)"
      by simp
    obtain e cs' es' where IH: "get_children sz f pos cs es (acc + bsize c) = Some (e, cs', es')"
        "naive_get sz f (unat pos - unat acc - total_size sz (flatten c)) ?rest
          = Some (e, concat (map flatten cs') @ es')"
        "children_ok sz d cs'" "es = [] \<longrightarrow> es' = []"
      using Cons.IH [OF _ st(3) [OF True]] Cons.prems(1) unfolding st(1) d by auto
    have "naive_get sz f (unat pos - unat acc) (flatten c @ ?rest) =
        Some (e, concat (map flatten (c # cs')) @ es')"
      using True st(2) IH(2) by (simp only: naive_get_append [of sz _ _ "flatten c"]) simp
    then show ?thesis using True IH Cons.prems(1) by simp
  next
    case False
    obtain e c' where c': "get_node sz f pos c acc = Some (e, c')"
        "naive_get sz f (unat pos - unat acc) (flatten c) = Some (e, flatten c')" "bucket_ok sz d c'"
      using node [OF ok st(4) [OF False]] by blast
    have nr: "naive_get sz f (unat pos - unat acc) (flatten c @ ?rest) = Some (e, flatten c' @ ?rest)"
      using False st(2) c'(2) by (simp only: naive_get_append [of sz _ _ "flatten c"]) simp
    have "flatten c' \<noteq> []" using c'(2) Cons.prems(1) by (auto simp: naive_get_def)
    then show ?thesis using False c' nr Cons.prems(1) by auto
  qed
qed

lemma naive_get_SomeD:
  assumes "naive_get sz f pos xs = Some (e, xs')" and "\<And>x. sz (f x) = sz x"
  shows "total_size sz xs' = total_size sz xs" and "length xs' = length xs"
    and "(\<forall>x \<in> set xs. sz x \<noteq> 0) \<Longrightarrow> (\<forall>x \<in> set xs'. sz x \<noteq> 0)"
proof -
  obtain i where i: "naive_pick sz pos xs = Some i" "xs' = xs[i := f (xs ! i)]"
    using assms by (auto simp: naive_get_def)
  have len: "i < length xs" using naive_pick_correct [OF i(1)] by simp
  have "map (\<lambda>x. unat (sz x)) xs' = (map (\<lambda>x. unat (sz x)) xs)[i := unat (sz (xs ! i))]"
    by (simp add: i(2) map_update assms(2))
  also have "\<dots> = map (\<lambda>x. unat (sz x)) xs" using len by (simp add: list_update_same_conv)
  finally show "total_size sz xs' = total_size sz xs" by (simp add: total_size_def)
  show "length xs' = length xs" by (simp add: i(2))
  show "(\<forall>x \<in> set xs. sz x \<noteq> 0) \<Longrightarrow> (\<forall>x \<in> set xs'. sz x \<noteq> 0)"
    using set_update_subset_insert [of xs i "f (xs ! i)"] nth_mem [OF len] by (auto simp: i(2) assms(2))
qed

lemma get_node_ok:
  assumes f: "\<And>x. sz (f x) = sz x"
  shows "bucket_ok sz d b \<Longrightarrow> in_range sz pos acc (flatten b) \<Longrightarrow>
     \<exists>e b'. get_node sz f pos b acc = Some (e, b') \<and>
       naive_get sz f (unat pos - unat acc) (flatten b) = Some (e, flatten b') \<and> bucket_ok sz d b'"
proof (induction d arbitrary: b acc)
  case 0
  obtain s es where b: "b = Bucket s [] es" and s: "s = of_nat (total_size sz es)"
      and nz: "\<forall>e \<in> set es. sz e \<noteq> 0"
    using 0(1) by (cases b) auto
  note rng = node_range [OF 0(1)[unfolded b] 0(2)[unfolded b]]
  have "in_range sz pos acc es" using 0(2) by (simp add: b)
  then obtain e es' where r: "get_children sz f pos [] es acc = Some (e, [], es')"
      "naive_get sz f (unat pos - unat acc) es = Some (e, es')"
    using get_leaf_ok by blast
  have "get_node sz f pos b acc = Some (e, Bucket s [] es')"
    using rng by (simp only: b get_node.simps r) simp
  then show ?case using r(2) nz s naive_get_SomeD [OF r(2) f] by (simp add: b)
next
  case (Suc d)
  obtain s cs where b: "b = Bucket s cs []" and s: "s = of_nat (total_size sz (concat (map flatten cs)))"
      and cs: "children_ok sz d cs"
    using Suc.prems(1) by (cases b) auto
  note rng = node_range [OF Suc.prems(1)[unfolded b] Suc.prems(2)[unfolded b]]
  obtain e cs' where r: "get_children sz f pos cs [] acc = Some (e, cs', [])"
      "naive_get sz f (unat pos - unat acc) (concat (map flatten cs)) = Some (e, concat (map flatten cs'))"
      "children_ok sz d cs'"
    using get_children_ok [OF Suc.IH cs, of acc "[]"] Suc.prems(2) unfolding b by fastforce
  have "get_node sz f pos b acc = Some (e, Bucket s cs' [])"
    using rng by (simp only: b get_node.simps r) simp
  then show ?case using r(2,3) s naive_get_SomeD(1) [OF r(2) f] by (simp add: b)
qed

lemma get_size_total: "sumtree_inv sz t \<Longrightarrow> unat (get_size t) = total_size sz (tree_elements t)"
  unfolding sumtree_inv_def get_size_def tree_elements_def using bucket_ok_unat by blast

lemma remove_refines:
  assumes inv: "sumtree_inv sz t" and pos: "pos < get_size t"
  shows "\<exists>e t'. remove sz pos t = Some (e, t') \<and>
    naive_remove sz (unat pos) (tree_elements t) = Some (e, tree_elements t') \<and> sumtree_inv sz t'"
proof -
  have "in_range sz pos 0 (flatten (m_root t))"
    using inv pos get_size_total [OF inv] by (simp add: sumtree_inv_def tree_elements_def word_less_nat_alt)
  moreover have ok: "bucket_ok sz (m_depth t) (m_root t)" using inv by (simp add: sumtree_inv_def)
  ultimately obtain e b where r: "remove_node sz pos (m_root t) 0 = Some (e, b)"
      "naive_remove sz (unat pos) (flatten (m_root t)) = Some (e, flatten b)" "bucket_ok sz (m_depth t) b"
    using remove_node_ok [of sz "m_depth t" "m_root t" 0 pos] by auto
  have "total_size sz (flatten b) < 2 ^ 64"
    using naive_remove_SomeD(2) [OF r(2)] inv by (simp add: sumtree_inv_def tree_elements_def)
  with r show ?thesis by (simp add: remove_def tree_elements_def sumtree_inv_def)
qed

lemma get_refines:
  assumes inv: "sumtree_inv sz t" and pos: "pos < get_size t" and f: "\<And>x. sz (f x) = sz x"
  shows "\<exists>e t'. get sz f pos t = Some (e, t') \<and>
    naive_get sz f (unat pos) (tree_elements t) = Some (e, tree_elements t') \<and> sumtree_inv sz t'"
proof -
  have "in_range sz pos 0 (flatten (m_root t))"
    using inv pos get_size_total [OF inv] by (simp add: sumtree_inv_def tree_elements_def word_less_nat_alt)
  moreover have ok: "bucket_ok sz (m_depth t) (m_root t)" using inv by (simp add: sumtree_inv_def)
  ultimately obtain e b where r: "get_node sz f pos (m_root t) 0 = Some (e, b)"
      "naive_get sz f (unat pos) (flatten (m_root t)) = Some (e, flatten b)" "bucket_ok sz (m_depth t) b"
    using get_node_ok [of sz f "m_depth t" "m_root t" 0 pos] f by auto
  have "total_size sz (flatten b) < 2 ^ 64"
    using naive_get_SomeD(1) [OF r(2) f] inv by (simp add: sumtree_inv_def tree_elements_def)
  with r show ?thesis by (simp add: get_def tree_elements_def sumtree_inv_def)
qed

lemma sumtree_inv_new: "sumtree_inv sz SumTree_new" "tree_elements SumTree_new = []"
  by (simp_all add: sumtree_inv_def SumTree_new_def tree_elements_def)

section \<open>Iterating\<close>

fun pending :: "'a TreeIterator \<Rightarrow> 'a list" where
  "pending [] = []"
| "pending ((b, i) # hierarchy) = concat (map flatten (drop (Suc i) (children b))) @ pending hierarchy"

fun remaining :: "'a TreeIterator \<Rightarrow> 'a list" where
  "remaining [] = []"
| "remaining ((b, i) # hierarchy) = drop i (elements b) @ pending hierarchy"

definition inner_ok :: "('a \<Rightarrow> u64) \<Rightarrow> 'a Bucket \<times> nat \<Rightarrow> bool" where
  "inner_ok sz p \<longleftrightarrow> (\<exists>d. children_ok sz d (children (fst p)))"

fun iter_ok :: "('a \<Rightarrow> u64) \<Rightarrow> 'a TreeIterator \<Rightarrow> bool" where
  "iter_ok sz [] \<longleftrightarrow> True"
| "iter_ok sz ((b, i) # hierarchy) \<longleftrightarrow> i < length (elements b) \<and> (\<forall>p \<in> set hierarchy. inner_ok sz p)"

lemma descend_ok:
  assumes "bucket_ok sz d b" and "flatten b \<noteq> []" and "\<forall>p \<in> set h. inner_ok sz p"
  shows "iter_ok sz (descend b h) \<and> remaining (descend b h) = flatten b @ pending h \<and> descend b h \<noteq> []"
  using assms
proof (induction d arbitrary: b h)
  case 0
  then obtain s es where "b = Bucket s [] es" by (cases b) auto
  with 0 show ?case by simp
next
  case (Suc d)
  then obtain s c cs where b: "b = Bucket s (c # cs) []" by (cases b; cases "children b") auto
  have "inner_ok sz (b, 0)" using Suc.prems(1) by (auto simp: b inner_ok_def)
  with Suc.IH [of c "(b, 0) # h"] Suc.prems show ?case by (auto simp: b)
qed

lemma ascend_ok:
  assumes "\<forall>p \<in> set h. inner_ok sz p"
  shows "(case ascend h of
      [] \<Rightarrow> pending h = []
    | (b, j) # h' \<Rightarrow> pending h = flatten (children b ! j) @ pending ((b, j) # h') \<and>
        (\<exists>d. bucket_ok sz d (children b ! j)) \<and> flatten (children b ! j) \<noteq> [] \<and>
        (\<forall>p \<in> set ((b, j) # h'). inner_ok sz p))"
  using assms
proof (induction h rule: ascend.induct)
  case (2 b i h)
  show ?case
  proof (cases "length (children b) \<le> Suc i")
    case True
    with 2 show ?thesis by (auto split: list.splits)
  next
    case False
    then have i: "Suc i < length (children b)" by simp
    moreover obtain d where "children_ok sz d (children b)" using 2 by (auto simp: inner_ok_def)
    ultimately have "bucket_ok sz d (children b ! Suc i) \<and> flatten (children b ! Suc i) \<noteq> []" by simp
    moreover have "drop (Suc i) (children b) = children b ! Suc i # drop (Suc (Suc i)) (children b)"
      by (rule Cons_nth_drop_Suc [symmetric, OF i])
    ultimately show ?thesis using False 2 by (auto simp: inner_ok_def)
  qed
qed simp

lemma iter_next_ok:
  assumes "iter_ok sz it" and "it \<noteq> []"
  shows "iter_ok sz (iter_next it)" and "remaining (iter_next it) = tl (remaining it)"
    and "iter_deref it = Some (hd (remaining it))" and "remaining it \<noteq> []"
proof -
  obtain b i h where it: "it = (b, i) # h" using assms(2) by (metis list.exhaust surj_pair)
  have i: "i < length (elements b)" and h: "\<forall>p \<in> set h. inner_ok sz p" using assms(1) it by auto
  have hd: "drop i (elements b) = elements b ! i # drop (Suc i) (elements b)"
    by (rule Cons_nth_drop_Suc [symmetric, OF i])
  show "iter_deref it = Some (hd (remaining it))" "remaining it \<noteq> []" using i by (simp_all add: it hd)
  have "iter_ok sz (iter_next it) \<and> remaining (iter_next it) = tl (remaining it)"
  proof (cases "Suc i < length (elements b)")
    case True
    then show ?thesis using h by (simp add: it hd)
  next
    case False
    then have e: "drop (Suc i) (elements b) = []" by simp
    show ?thesis
    proof (cases "ascend h")
      case Nil
      with False e ascend_ok [OF h] show ?thesis by (simp add: it hd)
    next
      case (Cons p h')
      obtain b' j where p: "p = (b', j)" by fastforce
      have a: "pending h = flatten (children b' ! j) @ pending ((b', j) # h')"
          "\<exists>d. bucket_ok sz d (children b' ! j)" "flatten (children b' ! j) \<noteq> []"
          "\<forall>p \<in> set ((b', j) # h'). inner_ok sz p"
        using ascend_ok [OF h] Cons p by auto
      then obtain d where "bucket_ok sz d (children b' ! j)" by blast
      from descend_ok [OF this a(3,4)] False e Cons p a(1) show ?thesis by (simp add: it hd)
    qed
  qed
  then show "iter_ok sz (iter_next it)" "remaining (iter_next it) = tl (remaining it)" by auto
qed

section \<open>What the tree promises\<close>

definition load :: "nat \<Rightarrow> ('a \<Rightarrow> u64) \<Rightarrow> 'a list \<Rightarrow> 'a SumTree" where
  "load B sz xs = foldl (\<lambda>t x. add B sz x t) SumTree_new xs"

lemma load_ok:
  assumes "2 \<le> B" and "total_size sz xs < 2 ^ 64"
  shows "sumtree_inv sz (load B sz xs) \<and> tree_elements (load B sz xs) = filter (\<lambda>x. sz x \<noteq> 0) xs"
  using assms(2)
proof (induction xs rule: rev_induct)
  case Nil
  show ?case by (simp add: load_def sumtree_inv_new)
next
  case (snoc x xs)
  let ?t = "load B sz xs"
  have IH: "sumtree_inv sz ?t" "tree_elements ?t = filter (\<lambda>x. sz x \<noteq> 0) xs" using snoc by auto
  have "total_size sz (filter (\<lambda>x. sz x \<noteq> 0) ys) = total_size sz ys" for ys
    by (induction ys) auto
  then have "total_size sz (tree_elements ?t) + unat (sz x) < 2 ^ 64" using snoc.prems IH(2) by simp
  from add_ok [OF IH(1) assms(1) this] IH(2) show ?case by (simp add: load_def)
qed

lemma total_size_filter: "total_size sz (filter (\<lambda>x. sz x \<noteq> 0) xs) = total_size sz xs"
  by (induction xs) auto

text \<open>
  Filling the tree. Whatever the bucket size (at least 2) and however the tree grew, it holds
  exactly the elements of non-zero size in the order they were added, and \<open>get_size\<close> is their
  total size, as long as that fits \<open>uint64_t\<close>.
\<close>

theorem sumtree_load:
  assumes "2 \<le> B" and "sum_list (map (\<lambda>x. unat (sz x)) xs) < 2 ^ 64"
  shows "tree_elements (load B sz xs) = filter (\<lambda>x. sz x \<noteq> 0) xs \<and>
    unat (get_size (load B sz xs)) = sum_list (map (\<lambda>x. unat (sz x)) xs)"
  using load_ok [OF assms(1), of sz xs] assms(2) get_size_total [of sz "load B sz xs"]
  by (simp add: total_size_def [symmetric] total_size_filter)

theorem sumtree_load_witness:
  "tree_elements (load 2 (\<lambda>x. x) [3, 0, 4, 5, 1, 2 :: u64]) = [3, 4, 5, 1, 2] \<and>
   unat (get_size (load 2 (\<lambda>x. x) [3, 0, 4, 5, 1, 2 :: u64])) = 15"
  using sumtree_load [of 2 "\<lambda>x. x" "[3, 0, 4, 5, 1, 2]"] by simp

text \<open>
  C24. Sampling without replacement is the naive scan. For every position below \<open>get_size\<close>,
  \<open>remove\<close> on any well-formed tree passes its assertions, returns the element the linear scan over
  all elements finds, and leaves a well-formed tree with exactly that element taken out.
\<close>

theorem sumtree_remove_is_naive_scan:
  assumes "sumtree_inv sz t" and "pos < get_size t"
  shows "\<exists>t' i. remove sz pos t = Some (tree_elements t ! i, t') \<and> i < length (tree_elements t) \<and>
    sum_list (map (\<lambda>x. unat (sz x)) (take i (tree_elements t))) \<le> unat pos \<and>
    unat pos < sum_list (map (\<lambda>x. unat (sz x)) (take (Suc i) (tree_elements t))) \<and>
    tree_elements t' = take i (tree_elements t) @ drop (Suc i) (tree_elements t) \<and> sumtree_inv sz t'"
proof -
  obtain e t' where r: "remove sz pos t = Some (e, t')" "sumtree_inv sz t'"
      "naive_remove sz (unat pos) (tree_elements t) = Some (e, tree_elements t')"
    using remove_refines [OF assms] by blast
  then obtain i where i: "naive_pick sz (unat pos) (tree_elements t) = Some i" "e = tree_elements t ! i"
      "tree_elements t' = take i (tree_elements t) @ drop (Suc i) (tree_elements t)"
    by (auto simp: naive_remove_def)
  from naive_pick_correct [OF i(1)] r i show ?thesis unfolding total_size_def by blast
qed

lemma demo_tree_inv: "sumtree_inv (\<lambda>x. x) (load 2 (\<lambda>x. x) [3, 0, 4, 5, 1, 2 :: u64])"
  using load_ok [of 2 "\<lambda>x. x" "[3, 0, 4, 5, 1, 2 :: u64]"] by simp

theorem sumtree_remove_is_naive_scan_witness:
  "\<exists>t'. remove (\<lambda>x. x) 7 (load 2 (\<lambda>x. x) [3, 0, 4, 5, 1, 2 :: u64]) = Some (5, t') \<and>
     sumtree_inv (\<lambda>x. x) t'"
proof -
  let ?t = "load 2 (\<lambda>x. x) [3, 0, 4, 5, 1, 2 :: u64]"
  have "7 < get_size ?t" by code_simp
  from sumtree_remove_is_naive_scan [OF demo_tree_inv this]
  obtain t' i where r: "remove (\<lambda>x. x) 7 ?t = Some (tree_elements ?t ! i, t')" "sumtree_inv (\<lambda>x. x) t'" by blast
  have "map_option fst (remove (\<lambda>x. x) 7 ?t) = Some 5" by code_simp
  with r show ?thesis by simp
qed

text \<open>
  Sampling with replacement is the naive scan, too: \<open>get\<close> returns a reference to the element
  the linear scan finds, and changing that element through the reference (without changing its
  size) changes exactly this element of the tree.
\<close>

theorem sumtree_get_is_naive_scan:
  assumes "sumtree_inv sz t" and "pos < get_size t" and "\<And>x. sz (f x) = sz x"
  shows "\<exists>t' i. get sz f pos t = Some (tree_elements t ! i, t') \<and> i < length (tree_elements t) \<and>
    sum_list (map (\<lambda>x. unat (sz x)) (take i (tree_elements t))) \<le> unat pos \<and>
    unat pos < sum_list (map (\<lambda>x. unat (sz x)) (take (Suc i) (tree_elements t))) \<and>
    tree_elements t' = (tree_elements t)[i := f (tree_elements t ! i)] \<and> sumtree_inv sz t'"
proof -
  obtain e t' where r: "get sz f pos t = Some (e, t')" "sumtree_inv sz t'"
      "naive_get sz f (unat pos) (tree_elements t) = Some (e, tree_elements t')"
    using get_refines [OF assms(1,2), of f] assms(3) by blast
  then obtain i where i: "naive_pick sz (unat pos) (tree_elements t) = Some i" "e = tree_elements t ! i"
      "tree_elements t' = (tree_elements t)[i := f (tree_elements t ! i)]"
    by (auto simp: naive_get_def)
  from naive_pick_correct [OF i(1)] r i show ?thesis unfolding total_size_def by blast
qed

theorem sumtree_get_is_naive_scan_witness:
  "\<exists>t'. get (\<lambda>x. x) (\<lambda>x. x) 7 (load 2 (\<lambda>x. x) [3, 0, 4, 5, 1, 2 :: u64]) = Some (5, t') \<and>
     sumtree_inv (\<lambda>x. x) t'"
proof -
  let ?t = "load 2 (\<lambda>x. x) [3, 0, 4, 5, 1, 2 :: u64]"
  have "7 < get_size ?t" by code_simp
  from sumtree_get_is_naive_scan [OF demo_tree_inv this, of "\<lambda>x. x"]
  obtain t' i where r: "get (\<lambda>x. x) (\<lambda>x. x) 7 ?t = Some (tree_elements ?t ! i, t')" "sumtree_inv (\<lambda>x. x) t'"
    by blast
  have "map_option fst (get (\<lambda>x. x) (\<lambda>x. x) 7 ?t) = Some 5" by code_simp
  with r show ?thesis by simp
qed

lemma iter_next_power:
  "iter_ok sz it \<Longrightarrow> iter_ok sz ((iter_next ^^ n) it) \<and> remaining ((iter_next ^^ n) it) = drop n (remaining it)"
proof (induction n)
  case (Suc n)
  let ?it = "(iter_next ^^ n) it"
  show ?case
  proof (cases "?it = []")
    case True
    with Suc show ?thesis by (simp add: drop_Suc tl_drop [symmetric])
  next
    case False
    with iter_next_ok [of sz ?it] Suc show ?thesis by (simp add: drop_Suc tl_drop)
  qed
qed simp

text \<open>
  A loop from \<open>begin()\<close> to \<open>end()\<close> over a non-empty tree visits every element once, in
  insertion order, dereferences only valid positions, and ends after the last one.
\<close>

theorem iteration_visits_all:
  assumes "sumtree_inv sz t" and "tree_elements t \<noteq> []"
  shows "(\<forall>n < length (tree_elements t).
      (iter_next ^^ n) (iter_begin t) \<noteq> iter_end \<and>
      iter_deref ((iter_next ^^ n) (iter_begin t)) = Some (tree_elements t ! n)) \<and>
    (iter_next ^^ length (tree_elements t)) (iter_begin t) = iter_end"
proof -
  let ?xs = "tree_elements t"
  have b: "iter_ok sz (iter_begin t)" "remaining (iter_begin t) = ?xs"
    using descend_ok [of sz "m_depth t" "m_root t" "[]"] assms
    by (simp_all add: sumtree_inv_def tree_elements_def iter_begin_def)
  have nx: "iter_ok sz ((iter_next ^^ n) (iter_begin t))"
      "remaining ((iter_next ^^ n) (iter_begin t)) = drop n ?xs" for n
    using iter_next_power [OF b(1), of n] b(2) by auto
  have "(iter_next ^^ n) (iter_begin t) \<noteq> [] \<and>
      iter_deref ((iter_next ^^ n) (iter_begin t)) = Some (?xs ! n)" if n: "n < length ?xs" for n
  proof -
    have "(iter_next ^^ n) (iter_begin t) \<noteq> []" using nx(2) [of n] n by auto
    from iter_next_ok(3) [OF nx(1) this] nx(2) [of n] n this show ?thesis by (simp add: hd_drop_conv_nth)
  qed
  moreover have "(iter_next ^^ length ?xs) (iter_begin t) = []"
    using iter_next_ok(4) [OF nx(1), of "length ?xs"] nx(2) [of "length ?xs"] by auto
  ultimately show ?thesis by (simp add: iter_end_def)
qed

theorem iteration_visits_all_witness:
  "iter_deref ((iter_next ^^ 2) (iter_begin (load 2 (\<lambda>x. x) [3, 0, 4, 5, 1, 2 :: u64]))) = Some 5"
proof -
  let ?t = "load 2 (\<lambda>x. x) [3, 0, 4, 5, 1, 2 :: u64]"
  have xs: "tree_elements ?t = [3, 4, 5, 1, 2]" by code_simp
  from iteration_visits_all [OF demo_tree_inv] xs
  have "iter_deref ((iter_next ^^ 2) (iter_begin ?t)) = Some (tree_elements ?t ! 2)" by simp
  then show ?thesis by (simp add: xs)
qed

text \<open>
  On an empty tree \<open>begin()\<close> differs from \<open>end()\<close>, and dereferencing it reads past the end of
  an empty vector: the loops of the sampling pruner are not safe for an empty population.
\<close>

theorem empty_tree_begin_is_not_end:
  "iter_begin (SumTree_new :: 'a SumTree) \<noteq> iter_end \<and> iter_deref (iter_begin (SumTree_new :: 'a SumTree)) = None"
  by (simp add: iter_begin_def SumTree_new_def Bucket_new_def iter_end_def)

end
