(* ===== verification/Pruning_Sampling.thy ===== *)
theory Pruning_Sampling
  imports Sum_Tree Pruning_Basic
begin

text \<open>
  The sampling pruners (\<^verbatim>\<open>tools/prune-trace/FESamplingPruner.cc\<close>, \<^verbatim>\<open>SamplingPruner.cc\<close>) and their
  random number routine \<open>my_rand\<close>. The words read from \<^verbatim>\<open>/dev/urandom\<close> are an argument, a list that is
  consumed from the front; a loop that needs more words than there are is \<open>Entropy_pending\<close>, which is
  not a result of the program but says that it is still running.

  What the pruners need of the population is the locale \<open>weighted_bag\<close>, interpreted by the
  \<open>SumTree\<close>.
\<close>

datatype sample_error = Null_column | Assertion_failed | Invalid_iterator | Entropy_pending | Query_failed

section \<open>Random numbers\<close>

text \<open>\<open>while (limit >> bitpos) bitpos++\<close>\<close>

function bitpos_loop :: "u64 \<Rightarrow> nat \<Rightarrow> nat" where
  "bitpos_loop limit bitpos = (if drop_bit bitpos limit = 0 then bitpos else bitpos_loop limit (Suc bitpos))"
  by pat_completeness auto
termination
proof (relation "measure (\<lambda>(limit, bitpos). 64 - bitpos)", goal_cases)
  case (2 limit bitpos)
  have "bitpos < 64"
  proof (rule ccontr)
    assume "\<not> bitpos < 64"
    then have "drop_bit bitpos limit = 0" by (simp add: bit_eq_iff bit_simps impossible_bit)
    with 2 show False by simp
  qed
  then show ?case by simp
qed simp

declare bitpos_loop.simps [simp del]

fun rand_loop :: "u64 \<Rightarrow> u64 \<Rightarrow> u64 list \<Rightarrow> (u64 \<times> u64 list) option" where
  "rand_loop msk limit [] = None"
| "rand_loop msk limit (w # ws) =
     (let retval = and w msk in if limit < retval then rand_loop msk limit ws else Some (retval, ws))"

definition rand_mask :: "u64 \<Rightarrow> u64" where
  "rand_mask limit = push_bit (bitpos_loop limit 0) 1 - 1"

definition my_rand :: "u64 \<Rightarrow> u64 list \<Rightarrow> (u64 \<times> u64 list) option" where
  "my_rand limit ws = rand_loop (rand_mask limit) limit ws"

section \<open>Drawing from a population\<close>

text \<open>The loop \<open>for (i = 0; i < n; ++i) { pos = my_rand(size - 1); p = op(pos); ... }\<close> of both pruners.\<close>

fun draw :: "('t \<Rightarrow> u64) \<Rightarrow> (u64 \<Rightarrow> 't \<Rightarrow> ('a \<times> 't) option) \<Rightarrow> nat \<Rightarrow> 't \<Rightarrow> u64 list
    \<Rightarrow> sample_error + 'a list \<times> 't \<times> u64 list" where
  "draw siz op 0 pop ws = Inr ([], pop, ws)"
| "draw siz op (Suc n) pop ws =
     (case my_rand (siz pop - 1) ws of
        None \<Rightarrow> Inl Entropy_pending
      | Some (pos, ws1) \<Rightarrow>
          (case op pos pop of
             None \<Rightarrow> Inl Assertion_failed
           | Some (p, pop1) \<Rightarrow>
               (case draw siz op n pop1 ws1 of
                  Inl err \<Rightarrow> Inl err
                | Inr (ps, pop2, ws2) \<Rightarrow> Inr (p # ps, pop2, ws2))))"

section \<open>Random numbers are uniform\<close>

lemma bitpos_loop_spec:
  "drop_bit (bitpos_loop limit b) limit = 0 \<and> b \<le> bitpos_loop limit b \<and>
   (\<forall>c. b \<le> c \<longrightarrow> c < bitpos_loop limit b \<longrightarrow> drop_bit c limit \<noteq> 0)"
proof (induction limit b rule: bitpos_loop.induct)
  case (1 limit b)
  show ?case
  proof (cases "drop_bit b limit = 0")
    case True
    then show ?thesis by (simp add: bitpos_loop.simps [of limit b])
  next
    case False
    then have e: "bitpos_loop limit b = bitpos_loop limit (Suc b)" by (simp add: bitpos_loop.simps [of limit b])
    have "drop_bit c limit \<noteq> 0" if "b \<le> c" "c < bitpos_loop limit (Suc b)" for c
      using that 1 [OF False] False by (cases "c = b") auto
    then show ?thesis using 1 [OF False] unfolding e by auto
  qed
qed

lemma drop_bit_zero_iff: "drop_bit n (x :: u64) = 0 \<longleftrightarrow> unat x < 2 ^ n"
proof -
  have "drop_bit n x = 0 \<longleftrightarrow> unat (drop_bit n x) = 0" by (simp add: unat_eq_zero)
  also have "\<dots> \<longleftrightarrow> unat x div 2 ^ n = 0" unfolding unat_drop_bit_eq by (simp add: drop_bit_eq_div)
  finally show ?thesis by (simp add: div_eq_0_iff)
qed

lemma bitpos_bounds:
  fixes limit :: u64
  defines "n \<equiv> bitpos_loop limit 0"
  shows "unat limit < 2 ^ n" and "0 < n \<Longrightarrow> 2 ^ (n - 1) \<le> unat limit" and "n \<le> 64"
proof -
  note spec = bitpos_loop_spec [of limit 0, folded n_def]
  show lt: "unat limit < 2 ^ n" using spec by (simp add: drop_bit_zero_iff)
  show le: "2 ^ (n - 1) \<le> unat limit" if "0 < n"
  proof -
    have "drop_bit (n - 1) limit \<noteq> 0" using spec that by simp
    then show ?thesis by (simp add: drop_bit_zero_iff)
  qed
  show "n \<le> 64"
  proof (rule ccontr)
    assume "\<not> n \<le> 64"
    then have "(2 :: nat) ^ 64 \<le> 2 ^ (n - 1)" by (intro power_increasing) auto
    also have "\<dots> \<le> unat limit" using le \<open>\<not> n \<le> 64\<close> by simp
    finally show False using unat_less_u64 [of limit] by simp
  qed
qed

lemma rand_mask_mask: "and w (rand_mask limit) = take_bit (bitpos_loop limit 0) w"
  by (simp add: rand_mask_def take_bit_eq_mask mask_eq_exp_minus_1)

lemma my_rand_le: "my_rand limit ws = Some (v, ws') \<Longrightarrow> v \<le> limit"
proof -
  have "rand_loop msk limit ws = Some (v, ws') \<Longrightarrow> v \<le> limit" for msk
    by (induction ws) (auto simp: Let_def split: if_splits)
  then show "my_rand limit ws = Some (v, ws') \<Longrightarrow> v \<le> limit" by (simp add: my_rand_def)
qed

lemma my_rand_Cons:
  "my_rand limit (w # ws) =
     (if take_bit (bitpos_loop limit 0) w \<le> limit then Some (take_bit (bitpos_loop limit 0) w, ws) else my_rand limit ws)"
  by (auto simp: my_rand_def rand_mask_mask Let_def)

lemma my_rand_None: "my_rand limit ws = None \<longleftrightarrow> (\<forall>w \<in> set ws. limit < take_bit (bitpos_loop limit 0) w)"
proof (induction ws)
  case Nil
  show ?case by (simp add: my_rand_def)
next
  case (Cons w ws)
  then show ?case by (auto simp: my_rand_Cons not_le)
qed

lemma card_take_bit:
  assumes "n \<le> 64" and v: "unat v < 2 ^ n"
  shows "card {w :: u64. take_bit n w = v} = 2 ^ (64 - n)"
proof -
  let ?f = "\<lambda>k :: nat. of_nat (k * 2 ^ n + unat v) :: u64"
  have split: "(2 :: nat) ^ 64 = 2 ^ (64 - n) * 2 ^ n" using assms(1) by (simp add: power_add [symmetric])
  have u: "unat (?f k) = k * 2 ^ n + unat v" if "k < 2 ^ (64 - n)" for k
  proof -
    have "k * 2 ^ n + unat v < (k + 1) * 2 ^ n" using v by simp
    also have "\<dots> \<le> 2 ^ (64 - n) * 2 ^ n" using that by (intro mult_right_mono) auto
    finally show ?thesis using split by (intro unat_of_nat_u64) simp
  qed
  have tb: "take_bit n w = v \<longleftrightarrow> unat w mod 2 ^ n = unat v" for w :: u64
    unfolding word_unat_eq_iff unsigned_take_bit_eq by (simp add: take_bit_eq_mod)
  have "{w. take_bit n w = v} = ?f ` {..<2 ^ (64 - n)}"
  proof (intro equalityI subsetI)
    fix w assume "w \<in> {w. take_bit n w = v}"
    then have m: "unat w mod 2 ^ n = unat v" by (simp add: tb)
    have "unat w div 2 ^ n < 2 ^ (64 - n)"
      using unat_less_u64 [of w] split by (simp add: less_mult_imp_div_less)
    moreover have "unat w div 2 ^ n * 2 ^ n + unat v = unat w" using m div_mult_mod_eq [of "unat w" "2 ^ n"] by simp
    then have "w = ?f (unat w div 2 ^ n)" by simp
    ultimately show "w \<in> ?f ` {..<2 ^ (64 - n)}" by blast
  next
    fix w assume "w \<in> ?f ` {..<2 ^ (64 - n)}"
    then obtain k where k: "k < 2 ^ (64 - n)" "w = ?f k" by blast
    then show "w \<in> {w. take_bit n w = v}" using u [OF k(1)] v by (simp add: tb)
  qed
  moreover have "inj_on ?f {..<2 ^ (64 - n)}"
  proof (rule inj_onI)
    fix j k assume "j \<in> {..<2 ^ (64 - n)}" "k \<in> {..<2 ^ (64 - n)}" "?f j = ?f k"
    then have "j * 2 ^ n + unat v = k * 2 ^ n + unat v" using u by (metis lessThan_iff)
    then show "j = k" by simp
  qed
  ultimately show ?thesis by (simp add: card_image)
qed

section \<open>Populations\<close>

text \<open>The successive values of an element that is hit \<open>h\<close> times.\<close>

definition hit_states :: "('a \<Rightarrow> 'a) \<Rightarrow> nat \<times> 'a \<Rightarrow> 'a list" where
  "hit_states f p = map (\<lambda>j. (f ^^ Suc j) (snd p)) [0..<fst p]"

lemma hit_states_Suc: "hit_states f (Suc h, x) = f x # hit_states f (h, f x)"
proof -
  have "map (\<lambda>j. (f ^^ Suc j) x) [Suc 0..<Suc h] = map (\<lambda>j. (f ^^ Suc (Suc j)) x) [0..<h]"
    unfolding map_Suc_upt [symmetric] by (simp add: comp_def del: upt_Suc)
  moreover have "[0..<Suc h] = 0 # [Suc 0..<Suc h]" by (simp add: upt_conv_Cons del: upt_Suc)
  ultimately show ?thesis by (simp add: hit_states_def funpow_swap1 del: upt_Suc)
qed


lemma hits_update:
  fixes f :: "'a \<Rightarrow> 'a"
  assumes i: "i < length xs" and len: "length hits = length xs"
  defines "hits' \<equiv> hits[i := Suc (hits ! i)]" and "xs1 \<equiv> xs[i := f (xs ! i)]"
  shows "length hits' = length xs \<and> sum_list hits' = Suc (sum_list hits) \<and>
    map (\<lambda>(h, x). (f ^^ h) x) (zip hits' xs) = map (\<lambda>(h, x). (f ^^ h) x) (zip hits xs1) \<and>
    mset (concat (map (hit_states f) (zip hits' xs))) =
      add_mset (f (xs ! i)) (mset (concat (map (hit_states f) (zip hits xs1))))"
proof -
  let ?z = "zip hits xs1" and ?c = "(Suc (hits ! i), xs ! i)"
  have z: "zip hits' xs = ?z[i := ?c]"
    by (simp add: update_zip hits'_def xs1_def)
  have iz: "i < length ?z" using i len by (simp add: xs1_def)
  have zi: "?z ! i = (hits ! i, f (xs ! i))" using i len by (simp add: xs1_def)
  have "map (\<lambda>(h, x). (f ^^ h) x) (zip hits' xs) = (map (\<lambda>(h, x). (f ^^ h) x) ?z)[i := (f ^^ hits ! i) (f (xs ! i))]"
    by (simp add: z map_update funpow_swap1)
  also have "\<dots> = map (\<lambda>(h, x). (f ^^ h) x) ?z"
    using iz zi by (simp add: list_update_same_conv)
  finally have "map (\<lambda>(h, x). (f ^^ h) x) (zip hits' xs) = map (\<lambda>(h, x). (f ^^ h) x) ?z" .
  moreover have "mset (concat (map (hit_states f) (zip hits' xs))) =
      add_mset (f (xs ! i)) (mset (concat (map (hit_states f) ?z)))"
    using mset_concat_map_update [OF iz, of "hit_states f" ?c] unfolding z zi hit_states_Suc by simp
  moreover have "sum_list hits' = Suc (sum_list hits)"
    using i len member_le_sum_list [of "hits ! i" hits] by (simp add: hits'_def sum_list_update)
  ultimately show ?thesis by (simp add: hits'_def len)
qed

text \<open>The random positions of \<open>n\<close> draws from a population whose size stays the same.\<close>

fun positions :: "nat \<Rightarrow> u64 \<Rightarrow> u64 list \<Rightarrow> (u64 list \<times> u64 list) option" where
  "positions 0 limit ws = Some ([], ws)"
| "positions (Suc n) limit ws =
     (case my_rand limit ws of
        None \<Rightarrow> None
      | Some (pos, ws1) \<Rightarrow> map_option (\<lambda>(ps, ws2). (pos # ps, ws2)) (positions n limit ws1))"

text \<open>How often positions fall on element \<open>i\<close> when the population is scanned from the front.\<close>

definition hit_count :: "('a \<Rightarrow> u64) \<Rightarrow> 'a list \<Rightarrow> u64 list \<Rightarrow> nat \<Rightarrow> nat" where
  "hit_count sz xs ps i = length (filter (\<lambda>pos. naive_pick sz (unat pos) xs = Some i) ps)"

lemma naive_pick_cong: "map sz xs = map sz ys \<Longrightarrow> naive_pick sz pos xs = naive_pick sz pos ys"
proof (induction xs arbitrary: ys pos)
  case (Cons x xs)
  then obtain y ys' where "ys = y # ys'" "sz x = sz y" "map sz xs = map sz ys'" by (cases ys) auto
  with Cons.IH [of ys'] show ?case by simp
qed simp

text \<open>The population after all hits, and an element right after the hit number \<open>j\<close>.\<close>

definition after_hits :: "('a \<Rightarrow> u64) \<Rightarrow> ('a \<Rightarrow> 'a) \<Rightarrow> u64 list \<Rightarrow> 'a list \<Rightarrow> 'a list" where
  "after_hits sz f ps xs = map (\<lambda>i. (f ^^ hit_count sz xs ps i) (xs ! i)) [0..<length xs]"

definition hit_at :: "('a \<Rightarrow> u64) \<Rightarrow> ('a \<Rightarrow> 'a) \<Rightarrow> u64 list \<Rightarrow> 'a list \<Rightarrow> nat \<Rightarrow> 'a \<Rightarrow> bool" where
  "hit_at sz f ps xs j e \<longleftrightarrow>
     (\<exists>i. naive_pick sz (unat (ps ! j)) xs = Some i \<and> e = (f ^^ hit_count sz xs (take (Suc j) ps) i) (xs ! i))"

lemma hit_step:
  assumes f: "\<And>x. sz (f x) = sz x" and i: "naive_pick sz (unat pos) xs = Some i"
  defines "xs1 \<equiv> xs[i := f (xs ! i)]"
  shows "(f ^^ hit_count sz xs1 ps k) (xs1 ! k) = (f ^^ hit_count sz xs (pos # ps) k) (xs ! k)"
    and "after_hits sz f ps xs1 = after_hits sz f (pos # ps) xs"
    and "hit_at sz f (pos # ps) xs 0 (f (xs ! i))"
    and "hit_at sz f ps xs1 j e \<Longrightarrow> hit_at sz f (pos # ps) xs (Suc j) e"
proof -
  have il: "i < length xs" using naive_pick_correct [OF i] by simp
  have "map sz xs1 = map sz xs" using il unfolding xs1_def map_update f by (simp add: list_update_same_conv)
  from naive_pick_cong [OF this] have n: "naive_pick sz p xs1 = naive_pick sz p xs" for p by blast
  have c: "hit_count sz xs (pos # qs) k = (if k = i then Suc (hit_count sz xs qs k) else hit_count sz xs qs k)"
      "hit_count sz xs1 qs = hit_count sz xs qs" for qs k
    using i by (auto simp: hit_count_def n)
  show step: "(f ^^ hit_count sz xs1 ps k) (xs1 ! k) = (f ^^ hit_count sz xs (pos # ps) k) (xs ! k)" for ps k
    unfolding c using il by (simp add: xs1_def funpow_swap1)
  show "after_hits sz f ps xs1 = after_hits sz f (pos # ps) xs"
    unfolding after_hits_def using step by (simp add: xs1_def)
  show "hit_at sz f (pos # ps) xs 0 (f (xs ! i))" using i by (simp add: hit_at_def hit_count_def)
  show "hit_at sz f (pos # ps) xs (Suc j) e" if "hit_at sz f ps xs1 j e"
    using that step [of "take (Suc j) ps"] unfolding hit_at_def n by auto
qed

locale weighted_bag =
  fixes sz :: "'a \<Rightarrow> u64" and siz :: "'t \<Rightarrow> u64" and rem :: "u64 \<Rightarrow> 't \<Rightarrow> ('a \<times> 't) option"
    and pick :: "('a \<Rightarrow> 'a) \<Rightarrow> u64 \<Rightarrow> 't \<Rightarrow> ('a \<times> 't) option"
    and els :: "'t \<Rightarrow> 'a list" and invar :: "'t \<Rightarrow> bool"
  assumes siz_els: "invar t \<Longrightarrow> unat (siz t) = total_size sz (els t)"
    and nonzero: "invar t \<Longrightarrow> x \<in> set (els t) \<Longrightarrow> sz x \<noteq> 0"
    and rem_ok: "invar t \<Longrightarrow> pos < siz t \<Longrightarrow>
      \<exists>e t'. rem pos t = Some (e, t') \<and> mset (els t) = add_mset e (mset (els t')) \<and> invar t'"
    and pick_ok: "invar t \<Longrightarrow> pos < siz t \<Longrightarrow> (\<And>x. sz (f x) = sz x) \<Longrightarrow>
      \<exists>t' i. naive_pick sz (unat pos) (els t) = Some i \<and> pick f pos t = Some (els t ! i, t') \<and>
        els t' = (els t)[i := f (els t ! i)] \<and> invar t'"
begin

lemma siz_pos:
  assumes "invar t" and "els t \<noteq> []"
  shows "0 < siz t"
proof -
  obtain x xs where xs: "els t = x # xs" using assms(2) by (cases "els t") auto
  then have "unat (sz x) \<noteq> 0" using nonzero [OF assms(1), of x] by (simp add: unat_eq_zero)
  then have "unat (siz t) \<noteq> 0" using siz_els [OF assms(1)] xs by simp
  then show ?thesis by (simp add: word_gt_0 unat_eq_zero)
qed

lemma rand_in_range:
  assumes "invar t" and "els t \<noteq> []" and "my_rand (siz t - 1) ws = Some (pos, ws')"
  shows "pos < siz t"
proof -
  have z: "siz t \<noteq> 0" using siz_pos [OF assms(1,2)] by auto
  then have "unat (siz t - 1) = unat (siz t) - 1" by (rule unat_minus_one)
  moreover have "unat pos \<le> unat (siz t - 1)" using my_rand_le [OF assms(3)] by (simp add: word_le_nat_alt)
  moreover have "0 < unat (siz t)" using z by (simp add: unat_gt_0)
  ultimately show ?thesis by (simp add: word_less_nat_alt)
qed

lemma draw_removes:
  "invar t \<Longrightarrow> n \<le> length (els t) \<Longrightarrow>
   (case draw siz rem n t ws of
      Inl err \<Rightarrow> err = Entropy_pending
    | Inr (ps, t', ws') \<Rightarrow> length ps = n \<and> mset (els t) = mset ps + mset (els t') \<and> invar t')"
proof (induction n arbitrary: t ws)
  case (Suc n)
  have ne: "els t \<noteq> []" using Suc.prems(2) by auto
  show ?case
  proof (cases "my_rand (siz t - 1) ws")
    case None
    then show ?thesis by simp
  next
    case (Some p)
    obtain pos ws1 where p: "p = (pos, ws1)" by fastforce
    from rand_in_range [OF Suc.prems(1) ne] Some p have "pos < siz t" by simp
    from rem_ok [OF Suc.prems(1) this] obtain e t1 where
      e: "rem pos t = Some (e, t1)" "mset (els t) = add_mset e (mset (els t1))" "invar t1" by blast
    have "length (els t) = Suc (length (els t1))" using arg_cong [OF e(2), of size] by simp
    then have "n \<le> length (els t1)" using Suc.prems(2) by simp
    from Suc.IH [OF e(3) this, of ws1] Some p e show ?thesis
      by (auto split: sum.splits)
  qed
qed simp

lemma draw_picks:
  assumes f: "\<And>x. sz (f x) = sz x"
  shows "invar t \<Longrightarrow> els t \<noteq> [] \<Longrightarrow> siz t = k \<Longrightarrow>
   (case draw (\<lambda>_. k) (\<lambda>pos t. map_option (\<lambda>(e, t'). (f e, t')) (pick f pos t)) n t ws of
      Inl err \<Rightarrow> err = Entropy_pending
    | Inr (ps, t', ws') \<Rightarrow> invar t' \<and>
        (\<exists>hits. length hits = length (els t) \<and> sum_list hits = n \<and>
           els t' = map (\<lambda>(h, x). (f ^^ h) x) (zip hits (els t)) \<and>
           mset ps = mset (concat (map (hit_states f) (zip hits (els t))))))"
proof (induction n arbitrary: t ws)
  case 0
  have "map (\<lambda>(h, x). (f ^^ h) x) (zip (replicate (length xs) 0) xs) = xs \<and>
      concat (map (hit_states f) (zip (replicate (length xs) 0) xs)) = []" for xs
    by (induction xs) (simp_all add: hit_states_def)
  then show ?case using 0 by (auto intro!: exI [of _ "replicate (length (els t)) 0"] simp: sum_list_replicate)
next
  case (Suc n)
  show ?case
  proof (cases "my_rand (k - 1) ws")
    case None
    then show ?thesis by simp
  next
    case (Some p)
    obtain pos ws1 where p: "p = (pos, ws1)" by fastforce
    from rand_in_range [OF Suc.prems(1,2)] Some p Suc.prems(3) have "pos < siz t" by simp
    from pick_ok [OF Suc.prems(1) this f] obtain i t1 where
      "naive_pick sz (unat pos) (els t) = Some i" and i': "pick f pos t = Some (els t ! i, t1)"
        "els t1 = (els t)[i := f (els t ! i)]" "invar t1" by blast
    then have i: "i < length (els t)" "pick f pos t = Some (els t ! i, t1)" "els t1 = (els t)[i := f (els t ! i)]" "invar t1"
      using naive_pick_correct [of sz "unat pos" "els t" i] by simp_all
    have "map (\<lambda>x. unat (sz x)) (els t1) = map (\<lambda>x. unat (sz x)) (els t)"
      using i(1) by (simp add: i(3) map_update f list_update_same_conv)
    then have "unat (siz t1) = unat (siz t)"
      unfolding siz_els [OF i(4)] siz_els [OF Suc.prems(1)] total_size_def by simp
    then have k1: "siz t1 = k" using Suc.prems(3) by (simp add: word_unat_eq_iff)
    have ne1: "els t1 \<noteq> []" using i(1,3) by auto
    note IH = Suc.IH [OF i(4) ne1 k1, of ws1]
    show ?thesis
    proof (cases "draw (\<lambda>_. k) (\<lambda>pos t. map_option (\<lambda>(e, t'). (f e, t')) (pick f pos t)) n t1 ws1")
      case (Inl err)
      with IH Some p i(2) show ?thesis by simp
    next
      case (Inr r)
      obtain ps t' ws' where r: "r = (ps, t', ws')" by (cases r) auto
      obtain hits where h: "invar t'" "length hits = length (els t)" "sum_list hits = n"
          "els t' = map (\<lambda>(h, x). (f ^^ h) x) (zip hits (els t1))"
          "mset ps = mset (concat (map (hit_states f) (zip hits (els t1))))"
        using IH Inr r i(3) by auto
      note upd = hits_update [OF i(1) h(2), of f, folded i(3)]
      show ?thesis
        using Some p i(2) Inr r h upd by (auto intro!: exI [of _ "hits[i := Suc (hits ! i)]"])
    qed
  qed
qed

lemma draw_positions:
  assumes f: "\<And>x. sz (f x) = sz x"
  shows "invar t \<Longrightarrow> els t \<noteq> [] \<Longrightarrow> siz t = k \<Longrightarrow>
   (case positions n (k - 1) ws of
      None \<Rightarrow> draw (\<lambda>_. k) (\<lambda>pos t. map_option (\<lambda>(e, t'). (f e, t')) (pick f pos t)) n t ws = Inl Entropy_pending
    | Some (ps, ws') \<Rightarrow> \<exists>es t'. draw (\<lambda>_. k) (\<lambda>pos t. map_option (\<lambda>(e, t'). (f e, t')) (pick f pos t)) n t ws = Inr (es, t', ws') \<and>
        els t' = after_hits sz f ps (els t) \<and> length es = n \<and> (\<forall>j < n. hit_at sz f ps (els t) j (es ! j)))"
proof (induction n arbitrary: t ws)
  case 0
  have "map (\<lambda>i. els t ! i) [0..<length (els t)] = els t" by (rule map_nth)
  then show ?case by (simp add: after_hits_def hit_count_def)
next
  case (Suc n)
  show ?case
  proof (cases "my_rand (k - 1) ws")
    case (Some p)
    obtain pos ws1 where p: "p = (pos, ws1)" by fastforce
    from rand_in_range [OF Suc.prems(1,2)] Some p Suc.prems(3) have "pos < siz t" by simp
    from pick_ok [OF Suc.prems(1) this f] obtain i t1 where i: "naive_pick sz (unat pos) (els t) = Some i"
        "pick f pos t = Some (els t ! i, t1)" "els t1 = (els t)[i := f (els t ! i)]" "invar t1" by blast
    have il: "i < length (els t)" using naive_pick_correct [OF i(1)] by simp
    have "map (\<lambda>x. unat (sz x)) (els t1) = map (\<lambda>x. unat (sz x)) (els t)"
      using il by (simp add: i(3) map_update f list_update_same_conv)
    then have "unat (siz t1) = unat (siz t)"
      unfolding siz_els [OF i(4)] siz_els [OF Suc.prems(1)] total_size_def by simp
    then have k1: "siz t1 = k" using Suc.prems(3) by (simp add: word_unat_eq_iff)
    have ne1: "els t1 \<noteq> []" using il i(3) by auto
    note IH = Suc.IH [OF i(4) ne1 k1, of ws1]
    note st = hit_step [of sz f, OF f i(1), folded i(3)]
    show ?thesis
    proof (cases "positions n (k - 1) ws1")
      case None
      with IH Some p i(2) show ?thesis by simp
    next
      case (Some r)
      obtain ps ws' where r: "r = (ps, ws')" by (cases r)
      obtain es t' where d: "draw (\<lambda>_. k) (\<lambda>pos t. map_option (\<lambda>(e, t'). (f e, t')) (pick f pos t)) n t1 ws1 = Inr (es, t', ws')"
          "els t' = after_hits sz f ps (els t1)" "length es = n" "\<forall>j < n. hit_at sz f ps (els t1) j (es ! j)"
        using IH by (auto simp: Some r)
      have "\<forall>j < Suc n. hit_at sz f (pos # ps) (els t) j ((f (els t ! i) # es) ! j)"
        using st(3,4) d(4) by (auto simp: less_Suc_eq_0_disj)
      then show ?thesis using \<open>my_rand (k - 1) ws = Some p\<close> p i(2) d st(2) by (simp add: Some r)
    qed
  qed simp
qed

end

interpretation st: weighted_bag sz get_size "remove sz" "get sz" tree_elements "sumtree_inv sz"
  for sz :: "'a \<Rightarrow> u64"
proof (unfold_locales, goal_cases)
  case (1 t)
  then show ?case by (rule get_size_total)
next
  case (2 t x)
  then show ?case by (auto simp: sumtree_inv_def tree_elements_def dest: bucket_ok_nonzero)
next
  case (3 t pos)
  then show ?case using remove_refines [of sz t pos] naive_remove_SomeD(1) by fastforce
next
  case (4 t pos f)
  then obtain e t' where "get sz f pos t = Some (e, t')" "sumtree_inv sz t'"
      "naive_get sz f (unat pos) (tree_elements t) = Some (e, tree_elements t')"
    using get_refines [of sz t pos f] by blast
  then show ?case by (auto simp: naive_get_def)
qed

section \<open>FESamplingPruner\<close>

record Pilot =
  fp_duration :: u64
  fp_instr2 :: u32
  fp_union :: u32  \<comment> \<open>the anonymous union of \<open>instr2_absolute\<close> and \<open>id\<close>\<close>
  fp_data_address :: u32

definition BUCKETSIZE :: nat where
  "BUCKETSIZE = 1024"

text \<open>\<open>time2-time1+1\<close>\<close>

definition row_duration :: "trace_row \<Rightarrow> nat" where
  "row_duration t = t_time2 t + 1 - t_time1 t"

text \<open>
  \<open>instr2_absolute\<close> can be \<open>NULL\<close>, which the client library reports as a null pointer that
  \<open>strtoul\<close> would read; the result is \<open>None\<close> then.
\<close>

definition fe_trace_pilot :: "bool \<Rightarrow> trace_row \<Rightarrow> Pilot option" where
  "fe_trace_pilot m_weighting t =
     map_option (\<lambda>a. \<lparr>fp_duration = (if m_weighting then of_nat (row_duration t) else 1),
                      fp_instr2 = of_nat (t_instr2 t), fp_union = of_nat a,
                      fp_data_address = of_nat (t_data_address t)\<rparr>) (t_instr2_absolute t)"

definition fe_known_pilot :: "bool \<Rightarrow> nat \<Rightarrow> pilot_row \<Rightarrow> trace_row \<Rightarrow> Pilot" where
  "fe_known_pilot m_weighting i p t =
     \<lparr>fp_duration = (if m_weighting then of_nat (row_duration t) else 1),
      fp_instr2 = of_nat (p_instr2 p), fp_union = of_nat i, fp_data_address = of_nat (p_data_address p)\<rparr>"

definition fe_rows :: "bool \<Rightarrow> bool \<Rightarrow> nat \<Rightarrow> nat \<Rightarrow> database \<Rightarrow> Pilot option list" where
  "fe_rows m_use_known_results m_weighting basic_id variant db =
     (if \<not> m_use_known_results
      then [fe_trace_pilot m_weighting t. t \<leftarrow> trace db, t_variant t = variant \<and> t_accesstype t = R]
      else [Some (fe_known_pilot m_weighting i p t). (i, p) \<leftarrow> fsppilot db,
              p_method p = basic_id \<and> p_variant p = variant \<and> \<not> known_outcome p,
              t \<leftarrow> trace db, trace_key t = pilot_key p])"

definition fe_draw :: "nat \<Rightarrow> Pilot list \<Rightarrow> u64 list \<Rightarrow> sample_error + Pilot list \<times> Pilot SumTree \<times> u64 list" where
  "fe_draw m_samplesize ps ws =
     (let pop = load BUCKETSIZE fp_duration ps;
          pilotcount = length ps;
          samplerows = min pilotcount m_samplesize
      in draw get_size (remove fp_duration) samplerows pop ws)"

definition fe_pilot_row :: "nat \<Rightarrow> nat \<Rightarrow> Pilot \<Rightarrow> pilot_row" where
  "fe_pilot_row variant m_method_id p =
     \<lparr>known_outcome = False, p_variant = variant, p_instr2 = unat (fp_instr2 p),
      injection_instr = unat (fp_instr2 p), injection_instr_absolute = Some (unat (fp_union p)),
      p_data_address = unat (fp_data_address p), data_width = 1, p_method = m_method_id\<rparr>"

definition fe_group_row :: "nat \<Rightarrow> nat \<Rightarrow> Pilot \<Rightarrow> group_row" where
  "fe_group_row variant m_method_id p =
     group_of (variant, unat (fp_data_address p), unat (fp_instr2 p)) m_method_id (unat (fp_union p))"

text \<open>Rows sent through \<open>insert_multiple\<close>, one statement per batch, with its result ignored.\<close>

fun chunks :: "nat \<Rightarrow> 'a list \<Rightarrow> 'a list list" where
  "chunks n xs = (if n = 0 \<or> xs = [] then [] else take n xs # chunks n (drop n xs))"

declare chunks.simps [simp del]

definition insert_group_batches :: "group_row list \<Rightarrow> database \<Rightarrow> database" where
  "insert_group_batches gs db = foldl (\<lambda>d b. snd (insert_groups b d)) db (chunks flush_limit gs)"

definition FESampling_prune ::
  "bool \<Rightarrow> bool \<Rightarrow> nat \<Rightarrow> nat \<Rightarrow> nat \<Rightarrow> nat \<Rightarrow> database \<Rightarrow> u64 list \<Rightarrow> sample_error + database \<times> u64 list" where
  "FESampling_prune m_use_known_results m_weighting m_samplesize m_method_id basic_id variant db ws =
     (case those (fe_rows m_use_known_results m_weighting basic_id variant db) of
        None \<Rightarrow> Inl Null_column
      | Some ps \<Rightarrow>
          (case fe_draw m_samplesize ps ws of
             Inl err \<Rightarrow> Inl err
           | Inr (sel, pop, ws1) \<Rightarrow>
               (let (ok1, db1, known_pilot_method_id) =
                  (if \<not> m_use_known_results
                   then let d1 = insert_pilots (map (fe_pilot_row variant m_method_id) sel) db;
                            d2 = insert_pilots (map (pilot_of False m_method_id True) (first_write d1 variant)) d1;
                            (ok, d3) = insert_groups
                              [group_of (pilot_key p) (p_method p) i. (i, p) \<leftarrow> fsppilot d2,
                                 \<not> known_outcome p \<and> p_method p = m_method_id \<and> p_variant p = variant] d2
                        in (ok, d3, m_method_id)
                   else (True, insert_group_batches (map (fe_group_row variant m_method_id) sel) db, basic_id));
                    (ok2, db2) = insert_groups
                      [group_of (pilot_key p) m_method_id i. (i, p) \<leftarrow> fsppilot db1,
                         p_variant p = variant \<and> known_outcome p \<and> p_method p = known_pilot_method_id] db1
                in if \<not> ok1 then Inl Query_failed
                   else if \<not> ok2 then Inl Query_failed
                   else Inr (db2, ws1))))"

section \<open>SamplingPruner\<close>

record WeightedPilot =
  wp_duration :: u64
  wp_id :: u32
  wp_instr2 :: u32
  wp_instr2_absolute :: u32
  wp_data_address :: u32
  wp_weight :: u32

definition find_group :: "nat \<Rightarrow> row_key \<Rightarrow> database \<Rightarrow> group_row option" where
  "find_group m_method_id k db = find (\<lambda>g. group_key g = (k, m_method_id)) (fspgroup db)"

definition group_weight :: "group_row option \<Rightarrow> nat" where
  "group_weight g = (case g of None \<Rightarrow> 0 | Some g \<Rightarrow> (case weight g of None \<Rightarrow> 0 | Some w \<Rightarrow> w))"

definition sp_trace_pilot :: "bool \<Rightarrow> bool \<Rightarrow> nat \<Rightarrow> database \<Rightarrow> trace_row \<Rightarrow> WeightedPilot option" where
  "sp_trace_pilot m_incremental m_weighting m_method_id db t =
     (let g = find_group m_method_id (trace_key t) db in
      map_option (\<lambda>a. \<lparr>wp_duration = (if m_weighting then of_nat (row_duration t) else 1),
           wp_id = (if m_incremental then of_nat (case g of None \<Rightarrow> 0 | Some g \<Rightarrow> pilot_id g) else 0),
           wp_instr2 = of_nat (t_instr2 t), wp_instr2_absolute = of_nat a,
           wp_data_address = of_nat (t_data_address t),
           wp_weight = (if m_incremental then of_nat (group_weight g) else 0)\<rparr>) (t_instr2_absolute t))"

definition sp_known_pilot :: "bool \<Rightarrow> bool \<Rightarrow> nat \<Rightarrow> database \<Rightarrow> nat \<Rightarrow> pilot_row \<Rightarrow> trace_row \<Rightarrow> WeightedPilot" where
  "sp_known_pilot m_incremental m_weighting m_method_id db i p t =
     \<lparr>wp_duration = (if m_weighting then of_nat (row_duration t) else 1), wp_id = of_nat i,
      wp_instr2 = of_nat (p_instr2 p), wp_instr2_absolute = 0, wp_data_address = of_nat (p_data_address p),
      wp_weight = (if m_incremental then of_nat (group_weight (find_group m_method_id (trace_key t) db)) else 0)\<rparr>"

definition sp_rows :: "bool \<Rightarrow> bool \<Rightarrow> bool \<Rightarrow> nat \<Rightarrow> nat \<Rightarrow> nat \<Rightarrow> database \<Rightarrow> WeightedPilot option list" where
  "sp_rows m_use_known_results m_incremental m_weighting m_method_id basic_id variant db =
     (if \<not> m_use_known_results
      then [sp_trace_pilot m_incremental m_weighting m_method_id db t. t \<leftarrow> trace db,
              t_variant t = variant \<and> t_accesstype t = R]
      else [Some (sp_known_pilot m_incremental m_weighting m_method_id db i p t). (i, p) \<leftarrow> fsppilot db,
              p_method p = basic_id \<and> p_variant p = variant \<and> \<not> known_outcome p,
              t \<leftarrow> trace db, trace_key t = pilot_key p])"

definition hit :: "WeightedPilot \<Rightarrow> WeightedPilot" where
  "hit p = p\<lparr>wp_weight := wp_weight p + 1\<rparr>"

text \<open>The sampling loop; the list holds the pilots as they are right after each hit.\<close>

definition sp_draw ::
  "nat \<Rightarrow> WeightedPilot list \<Rightarrow> u64 list \<Rightarrow> sample_error + WeightedPilot list \<times> WeightedPilot SumTree \<times> u64 list" where
  "sp_draw m_samplesize ps ws =
     (let pop = load BUCKETSIZE wp_duration ps;
          popsize = get_size pop
      in draw (\<lambda>_. popsize) (\<lambda>pos t. map_option (\<lambda>(p, t'). (hit p, t')) (get wp_duration hit pos t))
           m_samplesize pop ws)"

definition sp_pilot_row :: "nat \<Rightarrow> nat \<Rightarrow> WeightedPilot \<Rightarrow> pilot_row" where
  "sp_pilot_row variant m_method_id p =
     \<lparr>known_outcome = False, p_variant = variant, p_instr2 = unat (wp_instr2 p),
      injection_instr = unat (wp_instr2 p), injection_instr_absolute = Some (unat (wp_instr2_absolute p)),
      p_data_address = unat (wp_data_address p), data_width = 1, p_method = m_method_id\<rparr>"

definition sp_key :: "nat \<Rightarrow> WeightedPilot \<Rightarrow> row_key" where
  "sp_key variant p = (variant, unat (wp_data_address p), unat (wp_instr2 p))"

definition update_weight :: "nat \<Rightarrow> nat \<Rightarrow> database \<Rightarrow> WeightedPilot \<Rightarrow> database" where
  "update_weight variant m_method_id db p =
     (if wp_weight p \<le> 1 then db
      else db\<lparr>fspgroup := map (\<lambda>g. if group_key g = (sp_key variant p, m_method_id)
                                     then g\<lparr>weight := Some (unat (wp_weight p))\<rparr> else g) (fspgroup db)\<rparr>)"

text \<open>A loop over the whole population; dereferencing an invalid iterator is \<open>None\<close>.\<close>

fun iter_collect :: "nat \<Rightarrow> 'a TreeIterator \<Rightarrow> 'a list option" where
  "iter_collect fuel [] = Some []"
| "iter_collect 0 it = None"
| "iter_collect (Suc fuel) it =
     (case iter_deref it of
        None \<Rightarrow> None
      | Some x \<Rightarrow> map_option ((#) x) (iter_collect fuel (iter_next it)))"

definition population :: "WeightedPilot SumTree \<Rightarrow> WeightedPilot list option" where
  "population pop = iter_collect (length (tree_elements pop)) (iter_begin pop)"

definition Sampling_prune ::
  "bool \<Rightarrow> bool \<Rightarrow> bool \<Rightarrow> nat \<Rightarrow> nat \<Rightarrow> nat \<Rightarrow> nat \<Rightarrow> database \<Rightarrow> u64 list
   \<Rightarrow> sample_error + database \<times> u64 list" where
  "Sampling_prune m_use_known_results m_incremental m_weighting m_samplesize m_method_id basic_id variant db ws =
     (case those (sp_rows m_use_known_results m_incremental m_weighting m_method_id basic_id variant db) of
        None \<Rightarrow> Inl Null_column
      | Some ps \<Rightarrow>
          (case sp_draw m_samplesize ps ws of
             Inl err \<Rightarrow> Inl err
           | Inr (sel, pop, ws1) \<Rightarrow>
               if \<not> m_use_known_results
               then (let d1 = insert_pilots (map (sp_pilot_row variant m_method_id) (filter (\<lambda>p. wp_weight p = 1) sel)) db;
                         gs = [(group_of (pilot_key p) m_method_id i)\<lparr>weight := Some 1\<rparr>. (i, p) \<leftarrow> fsppilot d1,
                                 \<not> known_outcome p \<and> p_method p = m_method_id \<and> p_variant p = variant];
                         (ok, d2) = (if m_incremental then (True, replace_groups gs d1) else insert_groups gs d1)
                     in if \<not> ok then Inl Query_failed
                        else case population pop of
                               None \<Rightarrow> Inl Invalid_iterator
                             | Some es \<Rightarrow> Inr (foldl (update_weight variant m_method_id) d2 es, ws1))
               else (case population pop of
                       None \<Rightarrow> Inl Invalid_iterator
                     | Some es \<Rightarrow>
                         (let gs = [(group_of (sp_key variant p) m_method_id (unat (wp_id p)))\<lparr>weight := Some (unat (wp_weight p))\<rparr>.
                                      p \<leftarrow> es, wp_weight p \<noteq> 0]
                          in Inr (if m_incremental then replace_groups gs db else insert_group_batches gs db, ws1)))))"

section \<open>What sampling promises\<close>

lemma iter_collect_all:
  "iter_ok sz it \<Longrightarrow> length (remaining it) \<le> n \<Longrightarrow> iter_collect n it = Some (remaining it)"
proof (induction n arbitrary: it)
  case 0
  then show ?case using iter_next_ok(4) [of sz it] by (cases it) auto
next
  case (Suc n)
  show ?case
  proof (cases it)
    case (Cons p h)
    have ne: "it \<noteq> []" using Cons by simp
    note nx = iter_next_ok [OF Suc.prems(1) ne]
    have "length (remaining (iter_next it)) \<le> n" using nx(2) Suc.prems(2) by simp
    from Suc.IH [OF nx(1) this] nx have "iter_collect (Suc n) it = Some (hd (remaining it) # tl (remaining it))"
      by (simp add: Cons)
    with nx(4) show ?thesis by simp
  qed simp
qed

lemma population_elements:
  assumes "sumtree_inv wp_duration pop" and "tree_elements pop \<noteq> []"
  shows "population pop = Some (tree_elements pop)"
proof -
  have "iter_ok wp_duration (iter_begin pop)" "remaining (iter_begin pop) = tree_elements pop"
    using descend_ok [of wp_duration "m_depth pop" "m_root pop" "[]"] assms
    by (simp_all add: sumtree_inv_def tree_elements_def iter_begin_def)
  then show ?thesis using iter_collect_all [of wp_duration "iter_begin pop"] by (simp add: population_def)
qed

lemma hit_power: "(hit ^^ h) p = p\<lparr>wp_weight := wp_weight p + of_nat h\<rparr>"
  by (induction h) (simp_all add: hit_def add.assoc)

lemma first_hits:
  assumes "wp_weight p = 0" and "h < 2 ^ 32"
  shows "filter (\<lambda>q. wp_weight q = 1) (hit_states hit (h, p)) = (if h = 0 then [] else [p\<lparr>wp_weight := 1\<rparr>])"
proof -
  have one: "wp_weight ((hit ^^ Suc j) p) = 1 \<longleftrightarrow> j = 0" if "j < h" for j
  proof -
    have u: "unat (of_nat (Suc j) :: u32) = Suc j" using that assms(2) by (intro unat_of_nat_u32) simp
    have "(of_nat (Suc j) :: u32) = 1 \<longleftrightarrow> j = 0"
      unfolding word_unat_eq_iff u by simp
    then show ?thesis
      using assms(1) unfolding hit_power by (simp del: of_nat_Suc)
  qed
  have "filter ((\<lambda>q. wp_weight q = 1) \<circ> (\<lambda>j. (hit ^^ Suc j) p)) [0..<h] = filter (\<lambda>j. j = 0) [0..<h]"
    by (rule filter_cong [OF refl]) (simp only: comp_apply set_upt atLeastLessThan_iff one)
  then have "filter (\<lambda>q. wp_weight q = 1) (hit_states hit (h, p)) =
      map (\<lambda>j. (hit ^^ Suc j) p) (filter (\<lambda>j. j = 0) [0..<h])"
    by (simp only: hit_states_def filter_map fst_conv snd_conv)
  also have "filter (\<lambda>j. j = 0) [0..<h] = (if h = 0 then [] else [0])"
    by (cases h) (auto simp: upt_conv_Cons filter_empty_conv simp del: upt_Suc)
  finally have eq: "filter (\<lambda>q. wp_weight q = 1) (hit_states hit (h, p)) =
      map (\<lambda>j. (hit ^^ Suc j) p) (if h = 0 then [] else [0])" .
  show ?thesis unfolding eq using assms(1) by (simp add: hit_def)
qed

text \<open>
  \<open>my_rand(limit)\<close> is uniform. Every value up to \<open>limit\<close> is returned for the same number of
  random words, no other value is returned, at least every second word is accepted (so the loop
  ends as soon as one acceptable word comes), and the result never exceeds \<open>limit\<close>. The shifts of
  the C++ code are defined as long as \<open>limit\<close> is below \<open>2\<^sup>6\<^sup>3\<close>.
\<close>

theorem my_rand_uniform:
  assumes "limit < 2 ^ 63"
  shows "(\<forall>ws v ws'. my_rand limit ws = Some (v, ws') \<longrightarrow> v \<le> limit) \<and>
    (\<forall>v \<le> limit. card {w. my_rand limit [w] = Some (v, [])} = 2 ^ (64 - bitpos_loop limit 0)) \<and>
    bitpos_loop limit 0 < 64 \<and> unat (rand_mask limit) \<le> 2 * unat limit \<and>
    (\<forall>ws. my_rand limit ws = None \<longleftrightarrow> (\<forall>w \<in> set ws. my_rand limit [w] = None))"
proof (intro conjI allI impI)
  let ?n = "bitpos_loop limit 0"
  show "v \<le> limit" if "my_rand limit ws = Some (v, ws')" for ws v ws' using my_rand_le that .
  show "card {w. my_rand limit [w] = Some (v, [])} = 2 ^ (64 - ?n)" if v: "v \<le> limit" for v
  proof -
    have "{w. my_rand limit [w] = Some (v, [])} = {w. take_bit ?n w = v}"
      using v by (auto simp: my_rand_Cons my_rand_None split: if_splits) (auto simp: my_rand_def)
    moreover have "unat v < 2 ^ ?n"
      using v bitpos_bounds(1) [of limit] by (simp add: word_le_nat_alt)
    ultimately show ?thesis using card_take_bit [OF bitpos_bounds(3)] by simp
  qed
  have "unat limit < 2 ^ 63" using assms by (simp add: word_less_nat_alt)
  show n: "?n < 64"
  proof (rule ccontr)
    assume "\<not> ?n < 64"
    then have "?n = 64" using bitpos_bounds(3) [of limit] by simp
    then have "2 ^ 63 \<le> unat limit" using bitpos_bounds(2) [of limit] by simp
    with \<open>unat limit < 2 ^ 63\<close> show False by simp
  qed
  have "unat (rand_mask limit) = 2 ^ ?n - 1"
  proof -
    have rm: "rand_mask limit = of_nat (2 ^ ?n - 1)" by (simp add: rand_mask_def of_nat_diff)
    have "(2 :: nat) ^ ?n \<le> 2 ^ 64" using n by (intro power_increasing) auto
    then have lt: "2 ^ ?n - 1 < (2 :: nat) ^ 64" by (simp add: less_imp_diff_less)
    show ?thesis unfolding rm by (rule unat_of_nat_u64 [OF lt])
  qed
  then show "unat (rand_mask limit) \<le> 2 * unat limit"
    using bitpos_bounds(2) [of limit] by (cases ?n) auto
  show "my_rand limit ws = None \<longleftrightarrow> (\<forall>w \<in> set ws. my_rand limit [w] = None)" for ws
    by (simp add: my_rand_None)
qed

theorem my_rand_uniform_witness:
  "(4 :: u64) < 2 ^ 63 \<and> card {w. my_rand 4 [w] = Some (2, [])} = 2 ^ 61 \<and> unat (rand_mask 4) \<le> 8"
proof -
  have a: "(4 :: u64) < 2 ^ 63" by simp
  have n: "bitpos_loop 4 0 = 3" by code_simp
  from my_rand_uniform [OF a] have "\<forall>v \<le> (4 :: u64). card {w. my_rand 4 [w] = Some (v, [])} = 2 ^ (64 - bitpos_loop 4 0)"
      "unat (rand_mask 4) \<le> 2 * unat (4 :: u64)" by blast+
  then have "card {w. my_rand 4 [w] = Some (2, [])} = 2 ^ (64 - 3)" "unat (rand_mask 4) \<le> 8" using n by auto
  with a show ?thesis by simp
qed

text \<open>
  C20. Sampling with fault expansion draws without replacement. For a population of pilots of
  non-zero duration whose total fits \<open>uint64_t\<close>, no assertion fails, and when the drawing is over
  exactly \<open>min(pilotcount, samplesize)\<close> pilots were taken, no pilot more often than it is in the
  population; in particular a sample size of at least the population takes every pilot once.
\<close>

theorem fe_sampling_without_replacement:
  assumes "sum_list (map (\<lambda>p. unat (fp_duration p)) ps) < 2 ^ 64" and "\<forall>p \<in> set ps. fp_duration p \<noteq> 0"
  shows "case fe_draw m_samplesize ps ws of
      Inl err \<Rightarrow> err = Entropy_pending
    | Inr (sel, pop, ws') \<Rightarrow>
        length sel = min (length ps) m_samplesize \<and> mset ps = mset sel + mset (tree_elements pop) \<and>
        (length ps \<le> m_samplesize \<longrightarrow> mset sel = mset ps)"
proof -
  let ?pop = "load BUCKETSIZE fp_duration ps" and ?n = "min (length ps) m_samplesize"
  have "sumtree_inv fp_duration ?pop \<and> tree_elements ?pop = filter (\<lambda>x. fp_duration x \<noteq> 0) ps"
    by (rule load_ok) (use assms(1) in \<open>simp_all add: BUCKETSIZE_def total_size_def\<close>)
  moreover have "filter (\<lambda>x. fp_duration x \<noteq> 0) ps = ps" using assms(2) by (simp add: filter_id_conv)
  ultimately have pop: "sumtree_inv fp_duration ?pop" "tree_elements ?pop = ps" by simp_all
  have "?n \<le> length (tree_elements ?pop)" using pop(2) by simp
  note d = st.draw_removes [OF pop(1) this, of ws]
  show ?thesis
  proof (cases "draw get_size (remove fp_duration) ?n ?pop ws")
    case (Inl err)
    with d show ?thesis by (simp add: fe_draw_def Let_def)
  next
    case (Inr r)
    obtain sel pop' ws' where r: "r = (sel, pop', ws')" by (cases r) auto
    have s: "length sel = ?n" "mset ps = mset sel + mset (tree_elements pop')" using d Inr r pop(2) by auto
    have "mset sel = mset ps" if "length ps \<le> m_samplesize"
    proof -
      have "size (mset ps) = size (mset sel) + size (mset (tree_elements pop'))" using s(2) by (metis size_union)
      with s(1) that have "tree_elements pop' = []" by simp
      with s(2) show ?thesis by simp
    qed
    with s Inr r show ?thesis by (simp add: fe_draw_def Let_def)
  qed
qed

definition demo_pilots :: "Pilot list" where
  "demo_pilots = map (\<lambda>k. \<lparr>fp_duration = of_nat k, fp_instr2 = of_nat k, fp_union = 0, fp_data_address = 7\<rparr>) [1, 2, 3]"

theorem fe_sampling_without_replacement_witness:
  "\<exists>sel pop. fe_draw 2 demo_pilots [5, 2, 9] = Inr (sel, pop, [9]) \<and> length sel = 2 \<and>
     mset demo_pilots = mset sel + mset (tree_elements pop)"
proof -
  have "(case fe_draw 2 demo_pilots [5, 2, 9] of Inl _ \<Rightarrow> None | Inr (sel, pop, ws') \<Rightarrow> Some ws') = Some [9]"
    by code_simp
  then obtain sel pop where r: "fe_draw 2 demo_pilots [5, 2, 9] = Inr (sel, pop, [9])"
    by (auto split: sum.splits)
  have "sum_list (map (\<lambda>p. unat (fp_duration p)) demo_pilots) = 6" by code_simp
  then have a: "sum_list (map (\<lambda>p. unat (fp_duration p)) demo_pilots) < 2 ^ 64" by simp
  have b: "\<forall>p \<in> set demo_pilots. fp_duration p \<noteq> 0" and l: "length demo_pilots = 3" by code_simp+
  from fe_sampling_without_replacement [OF a b, of 2 "[5, 2, 9]"] r l show ?thesis by simp
qed

lemma weights_after_hits:
  assumes "length hits = length ps" and "\<forall>p \<in> set ps. wp_weight p = 0" and "sum_list hits < 2 ^ 32"
  defines "es \<equiv> map (\<lambda>(h, x). (hit ^^ h) x) (zip hits ps)"
  shows "map (\<lambda>p. unat (wp_weight p)) es = hits" and "map (\<lambda>p. p\<lparr>wp_weight := 0\<rparr>) es = ps"
    and "filter (\<lambda>q. wp_weight q = 1) (concat (map (hit_states hit) (zip hits ps))) =
      map (\<lambda>p. p\<lparr>wp_weight := 1\<rparr>) (filter (\<lambda>p. wp_weight p \<noteq> 0) es)"
  using assms(1-3) unfolding es_def
proof (induction hits ps rule: list_induct2)
  case (Cons h hits p ps)
  {
    case 1
    then show ?case using Cons by (simp add: hit_power unat_of_nat_u32)
  next
    case 2
    then show ?case using Cons by (simp add: hit_power)
  next
    case 3
    have h: "h < 2 ^ 32" using 3 by simp
    then have "unat (of_nat h :: u32) = h" by (rule unat_of_nat_u32)
    then have "(of_nat h :: u32) = 0 \<longleftrightarrow> h = 0" by (metis unat_eq_zero)
    with 3 Cons first_hits [OF _ h, of p] show ?case by (simp add: hit_power)
  }
qed simp_all

text \<open>
  C21. Sampling with replacement adds one to the weight of a pilot for every drawn position that falls on
  it. For a non-empty population of pilots of non-zero duration (total below \<open>2\<^sup>6\<^sup>4\<close>) and any initial
  weights, no assertion fails; let the drawn positions be the results of \<open>my_rand\<close>, and let a position
  belong to the pilot that a scan of the durations from the front finds there. After the loop the
  population is the same but for the weights, each of which has grown by the number of positions of
  its pilot (modulo \<open>2\<^sup>3\<^sup>2\<close>); each hit sees its pilot with the hits so far; the closing loop over
  the population sees every pilot; and from unhit pilots and fewer than \<open>2\<^sup>3\<^sup>2\<close> samples, the pilots to be
  written to \<open>fsppilot\<close> are those with a hit, each once.
\<close>

theorem sampling_with_replacement:
  assumes "sum_list (map (\<lambda>p. unat (wp_duration p)) ps) < 2 ^ 64" and "\<forall>p \<in> set ps. wp_duration p \<noteq> 0" and "ps \<noteq> []"
  shows "case positions m_samplesize (of_nat (sum_list (map (\<lambda>p. unat (wp_duration p)) ps)) - 1) ws of
      None \<Rightarrow> sp_draw m_samplesize ps ws = Inl Entropy_pending
    | Some (poss, ws') \<Rightarrow> \<exists>sel pop. sp_draw m_samplesize ps ws = Inr (sel, pop, ws') \<and>
        population pop = Some (map (\<lambda>i. (ps ! i)\<lparr>wp_weight := wp_weight (ps ! i) + of_nat (hit_count wp_duration ps poss i)\<rparr>) [0..<length ps]) \<and>
        length sel = m_samplesize \<and>
        (\<forall>j < m_samplesize. \<exists>i. naive_pick wp_duration (unat (poss ! j)) ps = Some i \<and>
           sel ! j = (ps ! i)\<lparr>wp_weight := wp_weight (ps ! i) + of_nat (hit_count wp_duration ps (take (Suc j) poss) i)\<rparr>) \<and>
        ((\<forall>p \<in> set ps. wp_weight p = 0) \<and> m_samplesize < 2 ^ 32 \<longrightarrow>
           mset (filter (\<lambda>p. wp_weight p = 1) sel) =
             mset (map (\<lambda>p. p\<lparr>wp_weight := 1\<rparr>) (filter (\<lambda>p. wp_weight p \<noteq> 0) (tree_elements pop))))"
proof -
  let ?pop = "load BUCKETSIZE wp_duration ps"
  let ?op = "\<lambda>pos t. map_option (\<lambda>(p, t'). (hit p, t')) (get wp_duration hit pos t)"
  have "sumtree_inv wp_duration ?pop \<and> tree_elements ?pop = filter (\<lambda>x. wp_duration x \<noteq> 0) ps"
    by (rule load_ok) (use assms(1) in \<open>simp_all add: BUCKETSIZE_def total_size_def\<close>)
  moreover have "filter (\<lambda>x. wp_duration x \<noteq> 0) ps = ps" using assms(2) by (simp add: filter_id_conv)
  ultimately have pop: "sumtree_inv wp_duration ?pop" "tree_elements ?pop = ps" by simp_all
  have ne: "tree_elements ?pop \<noteq> []" using pop(2) assms(3) by simp
  have f: "wp_duration (hit x) = wp_duration x" for x by (simp add: hit_def)
  have "unat (get_size ?pop) = sum_list (map (\<lambda>p. unat (wp_duration p)) ps)"
    using get_size_total [OF pop(1)] pop(2) by (simp add: total_size_def)
  then have k: "of_nat (sum_list (map (\<lambda>p. unat (wp_duration p)) ps)) = get_size ?pop" using unat_of_nat_u64 [OF assms(1)] by (simp add: word_unat_eq_iff)
  note d = st.draw_picks [where f = hit, OF f pop(1) ne refl, of m_samplesize ws]
    and e = st.draw_positions [where f = hit, OF f pop(1) ne refl, of m_samplesize ws]
  show ?thesis
  proof (cases "positions m_samplesize (get_size ?pop - 1) ws")
    case None
    with e show ?thesis unfolding k by (simp add: sp_draw_def Let_def)
  next
    case (Some r)
    obtain poss ws' where r: "r = (poss, ws')" by (cases r)
    obtain sel pop' where s: "draw (\<lambda>_. get_size ?pop) ?op m_samplesize ?pop ws = Inr (sel, pop', ws')"
        "tree_elements pop' = after_hits wp_duration hit poss ps" "length sel = m_samplesize"
        "\<forall>j < m_samplesize. hit_at wp_duration hit poss ps j (sel ! j)"
      using e pop(2) by (auto simp: Some r)
    obtain hits where h: "sumtree_inv wp_duration pop'" "length hits = length ps" "sum_list hits = m_samplesize"
        "tree_elements pop' = map (\<lambda>(h, x). (hit ^^ h) x) (zip hits ps)"
        "mset sel = mset (concat (map (hit_states hit) (zip hits ps)))"
      using d s(1) pop(2) by auto
    have "mset (filter (\<lambda>p. wp_weight p = 1) sel) =
        mset (map (\<lambda>p. p\<lparr>wp_weight := 1\<rparr>) (filter (\<lambda>p. wp_weight p \<noteq> 0) (tree_elements pop')))"
      if "\<forall>p \<in> set ps. wp_weight p = 0" "m_samplesize < 2 ^ 32"
      using weights_after_hits(3) [OF h(2) that(1)] that(2) unfolding mset_filter h(5) h(3) h(4) [symmetric] by (simp flip: mset_filter)
    moreover have "tree_elements pop' \<noteq> []" using s(2) assms(3) by (simp add: after_hits_def)
    then have "population pop' = Some (after_hits wp_duration hit poss ps)" using population_elements [OF h(1)] s(2) by simp
    ultimately show ?thesis using s unfolding k Some r by (simp add: sp_draw_def Let_def hit_at_def after_hits_def hit_power)
  qed
qed

definition demo_weighted :: "WeightedPilot list" where
  "demo_weighted = map (\<lambda>k. \<lparr>wp_duration = of_nat k, wp_id = 0, wp_instr2 = of_nat k, wp_instr2_absolute = 0,
      wp_data_address = 7, wp_weight = 0\<rparr>) [1, 2, 3]"

theorem sampling_with_replacement_witness:
  "\<exists>sel pop. sp_draw 3 demo_weighted [5, 2, 4, 9] = Inr (sel, pop, [9]) \<and>
     map_option (map wp_weight) (population pop) = Some [0, 1, 2]"
proof -
  have t: "sum_list (map (\<lambda>p. unat (wp_duration p)) demo_weighted) = 6" by code_simp
  then have a: "sum_list (map (\<lambda>p. unat (wp_duration p)) demo_weighted) < 2 ^ 64" by simp
  have b: "\<forall>p \<in> set demo_weighted. wp_duration p \<noteq> 0" "demo_weighted \<noteq> []" by code_simp+
  have p: "positions 3 5 [5, 2, 4, 9] = Some ([5, 2, 4], [9])" by code_simp
  define es where "es = map (\<lambda>i. (demo_weighted ! i)\<lparr>wp_weight := wp_weight (demo_weighted ! i) +
      of_nat (hit_count wp_duration demo_weighted [5, 2, 4] i)\<rparr>) [0..<length demo_weighted]"
  have w: "map wp_weight es = [0, 1, 2]" unfolding es_def by code_simp
  have l: "of_nat (sum_list (map (\<lambda>p. unat (wp_duration p)) demo_weighted)) - 1 = (5 :: u64)" unfolding t by simp
  have "\<exists>sel pop. sp_draw 3 demo_weighted [5, 2, 4, 9] = Inr (sel, pop, [9]) \<and> population pop = Some es"
    using sampling_with_replacement [OF a b, of 3 "[5, 2, 4, 9]", unfolded l p option.case prod.case, folded es_def] by blast
  then show ?thesis using w by auto
qed

end
