(* ===== verification/Proto_Stream.thy ===== *)
theory Proto_Stream
  imports Fail_Prelude
begin

text \<open>
  Length-prefixed message streams: the trace files of \<^verbatim>\<open>src/core/util/ProtoStream.cc\<close>, and the
  \<open>Trace_Event\<close> message of \<^verbatim>\<open>src/core/comm/TracePlugin.proto\<close> they hold. The same framing is used on the
  sockets between server and client. Serialisation of a message is a parameter (Protocol Buffers);
  what the code relies on is that parsing a serialised message gives the message back.
\<close>

section \<open>Trace events\<close>

datatype AccessType = READ | WRITE

record Trace_Event_Extended =
  ext_data :: u64
  ext_registers :: "(u32 \<times> u64 option \<times> u32 option) list"

record Trace_Event =
  ip :: u64
  time_delta :: "int option"
  memaddr :: "u64 option"
  width :: u32
  accesstype :: AccessType
  trace_ext :: "Trace_Event_Extended option"

section \<open>Framing\<close>

text \<open>\<open>htonl\<close> and the four bytes of the result in memory order, and back.\<close>

definition htonl_bytes :: "u32 \<Rightarrow> u8 list" where
  "htonl_bytes n = [ucast (drop_bit 24 n), ucast (drop_bit 16 n), ucast (drop_bit 8 n), ucast n]"

fun ntohl_bytes :: "u8 list \<Rightarrow> u32" where
  "ntohl_bytes [a, b, c, d] =
     or (push_bit 24 (ucast a)) (or (push_bit 16 (ucast b)) (or (push_bit 8 (ucast c)) (ucast d)))"
| "ntohl_bytes _ = 0"

definition writeMessage :: "('m \<Rightarrow> u8 list) \<Rightarrow> 'm \<Rightarrow> u8 list \<Rightarrow> u8 list" where
  "writeMessage serialize m outfile =
     outfile @ htonl_bytes (of_nat (length (serialize m))) @ serialize m"

text \<open>
  \<open>None\<close> is the return value false: the stream ended before the length or the message was complete.
  The return value of \<open>ParseFromString\<close> is ignored, so \<open>parse\<close> is what the message holds afterwards.
\<close>

definition getNext :: "(u8 list \<Rightarrow> 'm) \<Rightarrow> u8 list \<Rightarrow> ('m \<times> u8 list) option" where
  "getNext parse infile =
     (if length infile < 4 then None
      else let m_size = unat (ntohl_bytes (take 4 infile));
               rest = drop 4 infile
           in if length rest < m_size then None
              else Some (parse (take m_size rest), drop m_size rest))"

text \<open>\<open>while (ps.getNext(&ev))\<close>\<close>

function readAll :: "(u8 list \<Rightarrow> 'm) \<Rightarrow> u8 list \<Rightarrow> 'm list" where
  "readAll parse infile =
     (case getNext parse infile of None \<Rightarrow> [] | Some (m, rest) \<Rightarrow> m # readAll parse rest)"
  by pat_completeness auto
termination
  by (relation "measure (\<lambda>(parse, infile). length infile)") (auto simp: getNext_def Let_def split: if_splits)

declare readAll.simps [simp del]

section \<open>Round trip\<close>

lemma ntohl_htonl: "ntohl_bytes (htonl_bytes n) = n"
proof (rule bit_word_eqI)
  fix k assume "k < LENGTH(32)"
  then have k: "k < 32" by simp
  consider "k < 8" | "8 \<le> k" "k < 16" | "16 \<le> k" "k < 24" | "24 \<le> k" using k by linarith
  then show "bit (ntohl_bytes (htonl_bytes n)) k = bit n k"
    using k by cases (auto simp: htonl_bytes_def bit_simps)
qed

lemma length_htonl [simp]: "length (htonl_bytes n) = 4"
  by (simp add: htonl_bytes_def)

lemma getNext_message:
  assumes "length (serialize m) < 2 ^ 32"
  shows "getNext parse (htonl_bytes (of_nat (length (serialize m))) @ serialize m @ rest)
    = Some (parse (serialize m), rest)"
  using unat_of_nat_u32 [OF assms] by (simp add: getNext_def ntohl_htonl Let_def)

lemma getNext_progress: "getNext parse s = Some (m, rest) \<Longrightarrow> length rest < length s"
  by (auto simp: getNext_def Let_def split: if_splits)

text \<open>
  C29. Writing messages to a stream and reading the stream back gives the messages, in order and
  complete, for any messages shorter than 4 GiB that survive serialising and parsing; a stream cut
  off in the middle of the last message yields the messages before it.
\<close>

theorem proto_stream_round_trip:
  assumes "\<forall>m \<in> set ms. length (serialize m) < 2 ^ 32 \<and> parse (serialize m) = m"
    and "length (serialize m') < 2 ^ 32"
    and "n < 4 + length (serialize m')"
  shows "readAll parse (foldl (\<lambda>out m. writeMessage serialize m out) [] ms
      @ take n (writeMessage serialize m' [])) = ms"
proof -
  let ?tail = "take n (writeMessage serialize m' [])"
  have "getNext parse ?tail = None"
  proof (cases "n < 4")
    case False
    then have "take 4 ?tail = htonl_bytes (of_nat (length (serialize m')))"
      by (simp add: writeMessage_def min_def)
    with False assms(2,3) unat_of_nat_u32 [OF assms(2)] show ?thesis
      by (simp add: getNext_def ntohl_htonl Let_def writeMessage_def)
  qed (simp add: getNext_def min_less_iff_disj)
  then have base: "readAll parse ?tail = []" by (simp add: readAll.simps [of parse ?tail])
  have out: "foldl (\<lambda>out m. writeMessage serialize m out) acc ms =
      acc @ concat (map (\<lambda>m. writeMessage serialize m []) ms)" for acc
    by (induction ms arbitrary: acc) (simp_all add: writeMessage_def)
  show ?thesis
    using assms(1) unfolding out
  proof (induction ms)
    case Nil
    show ?case using base by simp
  next
    case (Cons m ms)
    let ?rest = "concat (map (\<lambda>m. writeMessage serialize m []) ms) @ ?tail"
    have "getNext parse (writeMessage serialize m [] @ ?rest) = Some (m, ?rest)"
      using Cons.prems getNext_message [of serialize m parse ?rest] by (simp add: writeMessage_def)
    with Cons show ?case by (simp add: readAll.simps [of parse "writeMessage serialize m [] @ ?rest"])
  qed
qed

theorem proto_stream_round_trip_witness:
  "readAll hd (foldl (\<lambda>out m. writeMessage (\<lambda>b. [b]) m out) [] [3, 7 :: u8]
      @ take 2 (writeMessage (\<lambda>b. [b]) 9 [])) = [3, 7]"
  using proto_stream_round_trip [of "[3, 7 :: u8]" "\<lambda>b. [b]" hd 9 2] by simp

end
