(* ===== verification/Pruning_Regions.thy ===== *)
theory Pruning_Regions
  imports Proto_Stream Database_Layer "HOL-Library.Sublist"
begin

text \<open>
  The region pruners: \<open>BasicBlockPruner\<close> and \<open>CallRegionPruner\<close> of \<^verbatim>\<open>tools/prune-trace\<close>. They cut the
  dynamic instruction trace into regions that start at leader addresses. The two pruners differ in
  the virtual method \<open>inSameRegion\<close>, which is the argument \<open>same\<close> here. Looking up an address that is
  not in the disassembly throws, which is \<open>None\<close>.
\<close>

section \<open>Traces of instructions\<close>

record trace_event_t =
  static_instr :: u64
  dynamic_instr :: u32
  dynamic_time :: u64

text \<open>
  What successive calls of \<open>trace_stream::next\<close> deliver; \<open>None\<close> is the failed assertion on a negative
  time difference.
\<close>

fun trace_events :: "u32 \<Rightarrow> u64 \<Rightarrow> Trace_Event list \<Rightarrow> trace_event_t list option" where
  "trace_events instr curtime [] = Some []"
| "trace_events instr curtime (ev # evs) =
     (case time_delta ev of
        Some d \<Rightarrow>
          if d < 0 then None
          else (let t = curtime + of_int d in
                if memaddr ev = None
                then map_option ((#) \<lparr>static_instr = ip ev, dynamic_instr = instr, dynamic_time = t\<rparr>)
                       (trace_events (instr + 1) t evs)
                else trace_events instr t evs)
      | None \<Rightarrow>
          if memaddr ev = None
          then map_option ((#) \<lparr>static_instr = ip ev, dynamic_instr = instr, dynamic_time = curtime\<rparr>)
                 (trace_events (instr + 1) curtime evs)
          else trace_events instr curtime evs)"

section \<open>Disassembly\<close>

type_synonym widths = "u64 \<Rightarrow> u8 option"

definition importObjdump :: "(u64 \<times> u8 \<times> string) list \<Rightarrow> widths option" where
  "importObjdump rows =
     (if rows = [] then None else Some (foldl (\<lambda>m (pc, w, disas). m(pc \<mapsto> w)) Map.empty rows))"

definition starts_with :: "string \<Rightarrow> string \<Rightarrow> bool" where
  "starts_with pre s \<longleftrightarrow> take (length pre) s = pre"

definition call_or_ret :: "(u64 \<times> u8 \<times> string) list \<Rightarrow> u64 set" where
  "call_or_ret rows =
     set [pc. (pc, w, disas) \<leftarrow> rows,
       starts_with ''call'' disas \<or> starts_with ''ret'' disas \<or> starts_with ''repz ret'' disas]"

definition bb_inSameRegion :: "widths \<Rightarrow> u64 \<Rightarrow> u64 \<Rightarrow> bool" where
  "bb_inSameRegion instructions previous next =
     (case instructions previous of None \<Rightarrow> False | Some w \<Rightarrow> previous + ucast w = next)"

definition call_inSameRegion :: "u64 set \<Rightarrow> u64 \<Rightarrow> u64 \<Rightarrow> bool" where
  "call_inSameRegion cor previous next \<longleftrightarrow> previous \<notin> cor"

section \<open>Leaders\<close>

text \<open>
  The loop of \<open>findRegionLeaders\<close>. When the next instruction starts within the previous one, the
  event after it becomes the next \<open>previous\<close>.
\<close>

fun leaders_loop :: "widths \<Rightarrow> (u64 \<Rightarrow> u64 \<Rightarrow> bool) \<Rightarrow> u64 \<Rightarrow> trace_event_t list \<Rightarrow> u64 set \<Rightarrow> u64 set option" where
  "leaders_loop instructions same previous [] leaders = Some leaders"
| "leaders_loop instructions same previous (n # evs) leaders =
     (case instructions previous of
        None \<Rightarrow> None
      | Some w \<Rightarrow>
          (let next = static_instr n in
           if previous < next \<and> next < previous + ucast w
           then (case evs of
                   [] \<Rightarrow> Some leaders
                 | n2 # evs2 \<Rightarrow> leaders_loop instructions same (static_instr n2) evs2 leaders)
           else if \<not> same previous next
           then leaders_loop instructions same next evs (insert (previous + ucast w) (insert next leaders))
           else leaders_loop instructions same next evs leaders))"

definition findRegionLeaders :: "widths \<Rightarrow> (u64 \<Rightarrow> u64 \<Rightarrow> bool) \<Rightarrow> trace_event_t list \<Rightarrow> u64 set option" where
  "findRegionLeaders instructions same evs =
     (case evs of
        [] \<Rightarrow> None
      | e # evs' \<Rightarrow> leaders_loop instructions same (static_instr e) evs' {static_instr e})"

section \<open>Regions\<close>

record region =
  region_id :: u32
  region_begin :: trace_event_t
  region_end :: trace_event_t
  instruction_count :: u32

definition appendInstruction :: "trace_event_t \<Rightarrow> region \<Rightarrow> region" where
  "appendInstruction e r = r\<lparr>region_end := e, instruction_count := instruction_count r + 1\<rparr>"

fun region_loop :: "u64 set \<Rightarrow> region \<Rightarrow> trace_event_t list \<Rightarrow> region \<times> trace_event_t list" where
  "region_loop leaders r [] = (r, [])"
| "region_loop leaders r (e # evs) =
     (if static_instr e \<in> leaders then (r, e # evs)
      else region_loop leaders (appendInstruction e r) evs)"

lemma region_loop_length: "length (snd (region_loop leaders r evs)) \<le> length evs"
  by (induction leaders r evs rule: region_loop.induct) auto

function findRegions :: "u64 set \<Rightarrow> u32 \<Rightarrow> trace_event_t list \<Rightarrow> region list" where
  "findRegions leaders dynamic_regions [] = []"
| "findRegions leaders dynamic_regions (e # evs) =
     (let r0 = \<lparr>region_id = dynamic_regions, region_begin = e, region_end = e, instruction_count = 0\<rparr>;
          (r, rest) = region_loop leaders (appendInstruction e r0) evs
      in r # findRegions leaders (dynamic_regions + 1) rest)"
  by pat_completeness auto
termination
  by (relation "measure (\<lambda>(l, n, evs). length evs)")
    (auto, metis region_loop_length snd_conv le_imp_less_Suc)

text \<open>
  \<open>prune_all\<close> over several variants: \<open>instructions\<close> and \<open>leaders\<close> are cleared for every variant, the
  \<open>call_or_ret\<close> set of the call-region pruner is a member that only grows.
\<close>

fun call_prune_all ::
  "u64 set \<Rightarrow> trace_event_t list \<Rightarrow> (u64 \<times> u8 \<times> string) list list \<Rightarrow> region list list option" where
  "call_prune_all cor evs [] = Some []"
| "call_prune_all cor evs (rows # variants) =
     (let cor1 = cor \<union> call_or_ret rows in
      case importObjdump rows of
        None \<Rightarrow> None
      | Some instructions \<Rightarrow>
          (case findRegionLeaders instructions (call_inSameRegion cor1) evs of
             None \<Rightarrow> None
           | Some leaders \<Rightarrow> map_option ((#) (findRegions leaders 0 evs)) (call_prune_all cor1 evs variants)))"

fun bb_prune_all ::
  "trace_event_t list \<Rightarrow> (u64 \<times> u8 \<times> string) list list \<Rightarrow> region list list option" where
  "bb_prune_all evs [] = Some []"
| "bb_prune_all evs (rows # variants) =
     (case importObjdump rows of
        None \<Rightarrow> None
      | Some instructions \<Rightarrow>
          (case findRegionLeaders instructions (bb_inSameRegion instructions) evs of
             None \<Rightarrow> None
           | Some leaders \<Rightarrow> map_option ((#) (findRegions leaders 0 evs)) (bb_prune_all evs variants)))"

section \<open>Export\<close>

record fspregion_row =
  rg_id :: nat
  rg_tag :: u64
  rg_instr1 :: u32
  rg_instr2 :: u32
  rg_time1 :: nat
  rg_time2 :: nat
  weight_inner :: nat
  weight_outer :: nat
  count_inner :: nat
  count_outer :: nat

definition region_reads :: "nat \<Rightarrow> database \<Rightarrow> region \<Rightarrow> trace_row list" where
  "region_reads variant db r =
     filter (\<lambda>t. t_accesstype t = R \<and> t_variant t = variant \<and>
        unat (dynamic_time (region_begin r)) \<le> t_time1 t \<and> t_time1 t \<le> unat (dynamic_time (region_end r))) (trace db)"

definition export_region :: "nat \<Rightarrow> database \<Rightarrow> region \<Rightarrow> fspregion_row" where
  "export_region variant db r =
     (let ts = region_reads variant db r;
          e = unat (dynamic_time (region_end r));
          inner = filter (\<lambda>t. t_time2 t \<le> e) ts;
          outer = filter (\<lambda>t. e < t_time2 t) ts;
          dur = (\<lambda>t. t_time2 t + 1 - t_time1 t)
      in \<lparr>rg_id = unat (region_id r), rg_tag = static_instr (region_begin r),
          rg_instr1 = dynamic_instr (region_begin r), rg_instr2 = dynamic_instr (region_end r),
          rg_time1 = unat (dynamic_time (region_begin r)), rg_time2 = e,
          weight_inner = sum_list (map dur inner), weight_outer = sum_list (map dur outer),
          count_inner = length inner, count_outer = length outer\<rparr>)"

definition exportRegions :: "nat \<Rightarrow> database \<Rightarrow> region list \<Rightarrow> fspregion_row list" where
  "exportRegions variant db rs = map (export_region variant db) rs"

section \<open>Regions partition the trace\<close>

text \<open>The instructions of each region; a region is the summary of its block.\<close>

function blocks :: "u64 set \<Rightarrow> trace_event_t list \<Rightarrow> trace_event_t list list" where
  "blocks leaders [] = []"
| "blocks leaders (e # evs) =
     (e # takeWhile (\<lambda>x. static_instr x \<notin> leaders) evs) # blocks leaders (dropWhile (\<lambda>x. static_instr x \<notin> leaders) evs)"
  by pat_completeness auto
termination
  by (relation "measure (\<lambda>(l, evs). length evs)") (auto simp: le_imp_less_Suc length_dropWhile_le)

definition summary :: "nat \<Rightarrow> trace_event_t list \<Rightarrow> region" where
  "summary i b = \<lparr>region_id = of_nat i, region_begin = hd b, region_end = last b, instruction_count = of_nat (length b)\<rparr>"

lemma region_loop_block:
  "region_loop leaders r evs =
     (r\<lparr>region_end := last (region_end r # takeWhile (\<lambda>x. static_instr x \<notin> leaders) evs),
        instruction_count := instruction_count r + of_nat (length (takeWhile (\<lambda>x. static_instr x \<notin> leaders) evs))\<rparr>,
      dropWhile (\<lambda>x. static_instr x \<notin> leaders) evs)"
  by (induction leaders r evs rule: region_loop.induct) (auto simp: appendInstruction_def add.assoc)

lemma findRegions_blocks:
  "findRegions leaders (of_nat n) evs = map2 summary [n..<n + length (blocks leaders evs)] (blocks leaders evs)"
proof (induction leaders evs arbitrary: n rule: blocks.induct)
  case (2 leaders e evs)
  let ?b = "takeWhile (\<lambda>x. static_instr x \<notin> leaders) evs" and ?rest = "dropWhile (\<lambda>x. static_instr x \<notin> leaders) evs"
  have "findRegions leaders (of_nat n + 1) ?rest = map2 summary [n + 1..<n + 1 + length (blocks leaders ?rest)] (blocks leaders ?rest)"
    using 2 [of "n + 1"] by (simp add: add.commute)
  then show ?case
    by (simp add: region_loop_block appendInstruction_def summary_def upt_conv_Cons del: upt_Suc)
qed simp

lemma findRegions_summaries:
  "findRegions leaders 0 evs = map2 summary [0..<length (blocks leaders evs)] (blocks leaders evs)"
  using findRegions_blocks [of leaders 0 evs] by simp

lemma region_begins: "region_begin ` set (findRegions leaders 0 evs) = hd ` set (blocks leaders evs)"
proof -
  have "map region_begin (findRegions leaders 0 evs) = map hd (blocks leaders evs)"
    by (rule nth_equalityI) (simp_all add: findRegions_summaries summary_def)
  then show ?thesis by (metis set_map)
qed

lemma concat_blocks: "concat (blocks leaders evs) = evs"
  by (induction leaders evs rule: blocks.induct) auto

lemma blocks_nonempty: "b \<in> set (blocks leaders evs) \<Longrightarrow> b \<noteq> []"
  by (induction leaders evs rule: blocks.induct) auto

lemma blocks_inner: "b \<in> set (blocks leaders evs) \<Longrightarrow> e \<in> set (tl b) \<Longrightarrow> static_instr e \<notin> leaders"
  by (induction leaders evs rule: blocks.induct) (auto dest: set_takeWhileD)

lemma blocks_heads:
  "b \<in> set (tl (blocks leaders evs)) \<Longrightarrow> static_instr (hd b) \<in> leaders"
proof (induction leaders evs rule: blocks.induct)
  case (2 leaders e evs)
  let ?rest = "dropWhile (\<lambda>x. static_instr x \<notin> leaders) evs"
  have "b \<in> set (blocks leaders ?rest)" using 2 by simp
  moreover have "static_instr (hd (hd (blocks leaders ?rest))) \<in> leaders" if "?rest \<noteq> []"
    using that hd_dropWhile [of "\<lambda>x. static_instr x \<notin> leaders" evs] by (cases ?rest) auto
  ultimately show ?case using 2 by (cases ?rest) auto
qed simp

section \<open>Regions are straight-line code\<close>

definition within :: "widths \<Rightarrow> trace_event_t \<Rightarrow> trace_event_t \<Rightarrow> bool" where
  "within instructions a b =
     (case instructions (static_instr a) of
        None \<Rightarrow> False
      | Some w \<Rightarrow> static_instr a < static_instr b \<and> static_instr b < static_instr a + ucast w)"

lemma leaders_loop_mono: "leaders_loop instructions same p evs leaders = Some L \<Longrightarrow> leaders \<subseteq> L"
proof (induction instructions same p evs leaders rule: leaders_loop.induct)
  case (2 instructions same previous n evs leaders)
  then show ?case by (auto simp: Let_def split: option.splits if_splits list.splits)
qed simp

lemma first_leader:
  assumes "findRegionLeaders instructions same evs = Some L"
  shows "evs \<noteq> [] \<and> static_instr (hd evs) \<in> L"
  using assms by (auto simp: findRegionLeaders_def split: list.splits dest: leaders_loop_mono)

lemma all_blocks_heads:
  assumes "static_instr (hd evs) \<in> leaders" and "b \<in> set (blocks leaders evs)"
  shows "static_instr (hd b) \<in> leaders"
proof (cases evs)
  case (Cons e evs')
  then show ?thesis using assms blocks_heads [of b leaders evs] by auto
qed (use assms in simp)

lemma leaders_loop_breaks:
  assumes "leaders_loop instructions same (static_instr e) evs leaders = Some L"
    and "successively (\<lambda>a b. \<not> within instructions a b) (e # evs)"
  shows "leaders \<subseteq> L \<and> successively (\<lambda>a b. same (static_instr a) (static_instr b) \<or> static_instr b \<in> L) (e # evs)"
  using assms
proof (induction evs arbitrary: e leaders)
  case (Cons n evs)
  obtain w where w: "instructions (static_instr e) = Some w" using Cons.prems(1) by (auto split: option.splits)
  have nw: "\<not> (static_instr e < static_instr n \<and> static_instr n < static_instr e + ucast w)"
    and rest: "successively (\<lambda>a b. \<not> within instructions a b) (n # evs)"
    using Cons.prems(2) w by (auto simp: within_def)
  show ?case
  proof (cases "same (static_instr e) (static_instr n)")
    case True
    then have "leaders_loop instructions same (static_instr n) evs leaders = Some L"
      using Cons.prems(1) w nw by (auto simp: Let_def split: if_splits)
    from Cons.IH [OF this rest] True show ?thesis by simp
  next
    case False
    then have "leaders_loop instructions same (static_instr n) evs
        (insert (static_instr e + ucast w) (insert (static_instr n) leaders)) = Some L"
      using Cons.prems(1) w nw by (auto simp: Let_def split: if_splits)
    from Cons.IH [OF this rest] show ?thesis by auto
  qed
qed simp

lemma blocks_successively:
  "successively P evs \<Longrightarrow> b \<in> set (blocks leaders evs) \<Longrightarrow> successively P b"
proof (induction leaders evs rule: blocks.induct)
  case (2 leaders e evs)
  let ?t = "takeWhile (\<lambda>x. static_instr x \<notin> leaders) evs" and ?d = "dropWhile (\<lambda>x. static_instr x \<notin> leaders) evs"
  have "successively P ((e # ?t) @ ?d)" using 2(2) by simp
  then have "successively P (e # ?t)" "successively P ?d" unfolding successively_append_iff by blast+
  with 2 show ?case by auto
qed simp

lemma successively_sharpen:
  "successively (\<lambda>a b. P a b \<or> Q b) xs \<Longrightarrow> \<forall>x \<in> set (tl xs). \<not> Q x \<Longrightarrow> successively P xs"
proof (induction xs rule: induct_list012)
  case (3 x y zs)
  then show ?case by (auto simp: successively_Cons)
qed simp_all

lemma regions_straight_line:
  assumes "findRegionLeaders instructions same evs = Some L"
    and "successively (\<lambda>a b. \<not> within instructions a b) evs" and "b \<in> set (blocks L evs)"
  shows "successively (\<lambda>x y. same (static_instr x) (static_instr y)) b"
proof -
  obtain e evs' where evs: "evs = e # evs'"
      and l: "leaders_loop instructions same (static_instr e) evs' {static_instr e} = Some L"
    using assms(1) by (auto simp: findRegionLeaders_def split: list.splits)
  have "successively (\<lambda>a b. same (static_instr a) (static_instr b) \<or> static_instr b \<in> L) evs"
    using leaders_loop_breaks [OF l] assms(2) evs by simp
  from blocks_successively [OF this assms(3)] show ?thesis
    by (rule successively_sharpen) (use blocks_inner [OF assms(3)] in blast)
qed

lemma fall_through_prefix:
  assumes "successively (\<lambda>x y. bb_inSameRegion ins (static_instr x) (static_instr y)) (x # xs)"
    and "successively (\<lambda>x y. bb_inSameRegion ins (static_instr x) (static_instr y)) (y # ys)"
    and "static_instr x = static_instr y" and "length xs \<le> length ys"
  shows "prefix (map static_instr (x # xs)) (map static_instr (y # ys))"
  using assms
proof (induction xs arbitrary: x y ys)
  case (Cons x' xs)
  obtain y' ys' where ys: "ys = y' # ys'" using Cons.prems(4) by (cases ys) auto
  have "bb_inSameRegion ins (static_instr x) (static_instr x')" "bb_inSameRegion ins (static_instr y) (static_instr y')"
    using Cons.prems(1,2) ys by auto
  then have "static_instr x' = static_instr y'"
    using Cons.prems(3) by (auto simp: bb_inSameRegion_def split: option.splits)
  with Cons.IH [of x' y' ys'] Cons.prems ys show ?case by auto
qed simp

text \<open>
  C31. For the leaders that \<open>findRegionLeaders\<close> collects, with either pruner's \<open>inSameRegion\<close>, the regions
  partition the dynamic trace: they are numbered from 0, each one runs from its first to its last
  instruction and counts them (numbers and counts are 32-bit and wrap), together and in order they
  are the whole trace, every region starts at a leader, and a leader occurs nowhere else.
\<close>

theorem regions_partition_trace:
  assumes "findRegionLeaders instructions same evs = Some leaders"
  shows "\<exists>bs. concat bs = evs \<and> length bs = length (findRegions leaders 0 evs) \<and>
    (\<forall>i < length bs. bs ! i \<noteq> [] \<and>
       findRegions leaders 0 evs ! i = \<lparr>region_id = of_nat i, region_begin = hd (bs ! i), region_end = last (bs ! i),
          instruction_count = of_nat (length (bs ! i))\<rparr> \<and>
       static_instr (hd (bs ! i)) \<in> leaders \<and>
       (\<forall>e \<in> set (tl (bs ! i)). static_instr e \<notin> leaders))"
proof (intro exI conjI allI impI)
  let ?bs = "blocks leaders evs"
  show "concat ?bs = evs" by (rule concat_blocks)
  show "length ?bs = length (findRegions leaders 0 evs)" by (simp add: findRegions_summaries)
  fix i assume i: "i < length ?bs"
  show "?bs ! i \<noteq> []" using blocks_nonempty i by (metis nth_mem)
  show "findRegions leaders 0 evs ! i = \<lparr>region_id = of_nat i, region_begin = hd (?bs ! i), region_end = last (?bs ! i),
      instruction_count = of_nat (length (?bs ! i))\<rparr>"
    using i by (simp add: findRegions_summaries summary_def)
  show "static_instr (hd (?bs ! i)) \<in> leaders"
    using all_blocks_heads [OF _ nth_mem [OF i]] first_leader [OF assms] by blast
  show "\<forall>e \<in> set (tl (?bs ! i)). static_instr e \<notin> leaders"
    using blocks_inner nth_mem [OF i] by blast
qed

definition demo_objdump :: "(u64 \<times> u8 \<times> string) list" where
  "demo_objdump = [(100, 2, ''mov''), (102, 1, ''jne''), (103, 2, ''call''), (105, 1, ''nop'')]"

definition demo_region_events :: "trace_event_t list" where
  "demo_region_events = map2 (\<lambda>i a. \<lparr>static_instr = a, dynamic_instr = of_nat i, dynamic_time = of_nat i\<rparr>)
     [0..<7] [100, 102, 100, 102, 103, 105, 100]"

definition demo_widths :: widths where
  "demo_widths = the (importObjdump demo_objdump)"

lemma demo_leaders:
  "findRegionLeaders demo_widths (bb_inSameRegion demo_widths) demo_region_events = Some {100, 103, 106}"
  by code_simp

theorem regions_partition_trace_witness:
  "length (findRegions {100, 103, 106} 0 demo_region_events) = 4 \<and>
   (\<exists>bs. concat bs = demo_region_events \<and> length bs = 4 \<and> bs ! 0 \<noteq> [] \<and> bs ! 3 \<noteq> [] \<and>
      static_instr (hd (bs ! 2)) \<in> {100, 103, 106})"
proof -
  have l: "length (findRegions {100, 103, 106} 0 demo_region_events) = 4" by code_simp
  obtain bs where "concat bs = demo_region_events" "length bs = length (findRegions {100, 103, 106} 0 demo_region_events)"
      "\<forall>i < length bs. bs ! i \<noteq> [] \<and> static_instr (hd (bs ! i)) \<in> {100, 103, 106}"
    using regions_partition_trace [OF demo_leaders] by blast
  with l show ?thesis by (intro conjI exI [of _ bs]) simp_all
qed

text \<open>
  Basic-block regions are straight-line code. On a trace in which no instruction starts inside
  the previous one, every instruction of a region is the fall-through successor of the one before,
  and two executions of regions that start at the same address run through the same instructions
  as far as the shorter one goes.
\<close>

theorem basic_blocks_straight_line:
  assumes "findRegionLeaders instructions (bb_inSameRegion instructions) evs = Some leaders"
    and "successively (\<lambda>a b. \<not> within instructions a b) evs"
  shows "\<exists>bs. concat bs = evs \<and>
    map (\<lambda>b. (hd b, last b, of_nat (length b))) bs =
      map (\<lambda>r. (region_begin r, region_end r, instruction_count r)) (findRegions leaders 0 evs) \<and>
    (\<forall>b \<in> set bs. \<forall>i. Suc i < length b \<longrightarrow>
       (\<exists>w. instructions (static_instr (b ! i)) = Some w \<and>
          static_instr (b ! Suc i) = static_instr (b ! i) + ucast w)) \<and>
    (\<forall>b \<in> set bs. \<forall>c \<in> set bs. static_instr (hd b) = static_instr (hd c) \<longrightarrow> length b \<le> length c \<longrightarrow>
       prefix (map static_instr b) (map static_instr c))"
proof (rule exI [of _ "blocks leaders evs"], intro conjI ballI allI impI)
  let ?bs = "blocks leaders evs"
  note line = regions_straight_line [OF assms]
  show "concat ?bs = evs" by (rule concat_blocks)
  show "map (\<lambda>b. (hd b, last b, of_nat (length b))) ?bs =
      map (\<lambda>r. (region_begin r, region_end r, instruction_count r)) (findRegions leaders 0 evs)"
    by (rule nth_equalityI) (simp_all add: findRegions_summaries summary_def)
  fix b assume b: "b \<in> set ?bs"
  show "\<exists>w. instructions (static_instr (b ! i)) = Some w \<and> static_instr (b ! Suc i) = static_instr (b ! i) + ucast w"
    if "Suc i < length b" for i
    using line [OF b] that by (auto simp: successively_conv_nth bb_inSameRegion_def split: option.splits)
  fix c assume c: "c \<in> set ?bs" and same: "static_instr (hd b) = static_instr (hd c)" "length b \<le> length c"
  obtain x xs y ys where "b = x # xs" "c = y # ys"
    using blocks_nonempty [OF b] blocks_nonempty [OF c] by (meson neq_Nil_conv)
  with line [OF b] line [OF c] same show "prefix (map static_instr b) (map static_instr c)"
    using fall_through_prefix [of instructions x xs y ys] by simp
qed

theorem basic_blocks_straight_line_witness:
  "findRegionLeaders demo_widths (bb_inSameRegion demo_widths) demo_region_events = Some {100, 103, 106} \<and>
   successively (\<lambda>a b. \<not> within demo_widths a b) demo_region_events \<and>
   (\<exists>bs. concat bs = demo_region_events \<and> map (\<lambda>b. static_instr (hd b)) bs = [100, 100, 103, 100] \<and>
      (\<forall>b \<in> set bs. \<forall>c \<in> set bs. static_instr (hd b) = static_instr (hd c) \<longrightarrow> length b \<le> length c \<longrightarrow>
         prefix (map static_instr b) (map static_instr c)))"
proof -
  have s: "successively (\<lambda>a b. \<not> within demo_widths a b) demo_region_events" by code_simp
  have heads: "map (\<lambda>r. static_instr (region_begin r)) (findRegions {100, 103, 106} 0 demo_region_events) = [100, 100, 103, 100]"
    by code_simp
  obtain bs where bs: "concat bs = demo_region_events"
      "map (\<lambda>b. (hd b, last b, of_nat (length b))) bs =
         map (\<lambda>r. (region_begin r, region_end r, instruction_count r)) (findRegions {100, 103, 106} 0 demo_region_events)"
      "\<forall>b \<in> set bs. \<forall>c \<in> set bs. static_instr (hd b) = static_instr (hd c) \<longrightarrow> length b \<le> length c \<longrightarrow>
         prefix (map static_instr b) (map static_instr c)"
    using basic_blocks_straight_line [OF demo_leaders s] by blast
  have "map (\<lambda>b. static_instr (hd b)) bs = [100, 100, 103, 100]"
    using arg_cong [OF bs(2), of "map (static_instr \<circ> fst)"] heads by (simp add: comp_def)
  with demo_leaders s bs(1,3) show ?thesis by (intro conjI exI [of _ bs])
qed

section \<open>Several variants\<close>

text \<open>An event whose address is a leader starts a region.\<close>

lemma leader_starts_block:
  assumes "e \<in> set evs" and "static_instr e \<in> leaders"
  shows "e \<in> hd ` set (blocks leaders evs)"
proof -
  have "e \<in> set (concat (blocks leaders evs))" unfolding concat_blocks by (rule assms(1))
  then obtain b where b: "b \<in> set (blocks leaders evs)" "e \<in> set b" by auto
  then have "e \<notin> set (tl b)" using blocks_inner assms(2) by blast
  with b(2) have "e = hd b" by (cases b) auto
  with b(1) show ?thesis by blast
qed

definition other_objdump :: "(u64 \<times> u8 \<times> string) list" where
  "other_objdump = [(100, 2, ''call''), (102, 1, ''ret''), (103, 2, ''mov''), (105, 1, ''nop'')]"

text \<open>
  C39. The call-region pruner carries the call and return addresses of one variant into the next. Let an
  address hold a call or return in the first variant, and let an instruction follow it in the trace
  that is no region leader of the second variant by itself (and let no instruction of the trace start
  within the one before). Then that instruction starts a region of the second variant when it is
  pruned after the first one, and none when it is pruned alone.
\<close>

theorem call_region_variants_interfere:
  assumes "importObjdump rows = Some instructions" and "successively (\<lambda>a b. \<not> within instructions a b) evs"
    and "Suc i < length evs" and "static_instr (evs ! i) \<in> call_or_ret earlier"
    and "findRegionLeaders instructions (call_inSameRegion (call_or_ret rows)) evs = Some leaders"
    and "static_instr (evs ! Suc i) \<notin> leaders" and "call_prune_all {} evs [earlier, rows] = Some [rs, after]"
  shows "\<exists>alone. call_prune_all {} evs [rows] = Some [alone] \<and>
    evs ! Suc i \<in> region_begin ` set after \<and> evs ! Suc i \<notin> region_begin ` set alone"
proof -
  let ?same = "call_inSameRegion (call_or_ret earlier \<union> call_or_ret rows)"
  have alone: "call_prune_all {} evs [rows] = Some [findRegions leaders 0 evs]" using assms(1,5) by simp
  have "evs ! Suc i \<notin> region_begin ` set (findRegions leaders 0 evs)"
    unfolding region_begins using all_blocks_heads [OF conjunct2 [OF first_leader [OF assms(5)]]] assms(6) by (metis image_iff)
  moreover obtain leaders' where l: "findRegionLeaders instructions ?same evs = Some leaders'" "after = findRegions leaders' 0 evs"
    using assms(1,7) by (auto simp: Let_def split: option.splits)
  obtain e evs' where evs: "evs = e # evs'" using assms(3) by (cases evs) auto
  have "leaders_loop instructions ?same (static_instr e) evs' {static_instr e} = Some leaders'"
    using l(1) by (simp add: findRegionLeaders_def evs)
  from leaders_loop_breaks [OF this] have "successively (\<lambda>a b. ?same (static_instr a) (static_instr b) \<or> static_instr b \<in> leaders') evs"
    using assms(2) by (simp add: evs)
  then have "static_instr (evs ! Suc i) \<in> leaders'"
    using assms(3,4) by (auto simp: successively_conv_nth call_inSameRegion_def)
  then have "evs ! Suc i \<in> region_begin ` set after"
    unfolding l(2) region_begins using assms(3) by (intro leader_starts_block nth_mem) simp_all
  ultimately show ?thesis using alone by blast
qed

theorem call_region_variants_interfere_witness:
  "\<exists>rs after alone. call_prune_all {} demo_region_events [other_objdump, demo_objdump] = Some [rs, after] \<and>
     call_prune_all {} demo_region_events [demo_objdump] = Some [alone] \<and>
     demo_region_events ! 1 \<in> region_begin ` set after \<and> demo_region_events ! 1 \<notin> region_begin ` set alone"
proof -
  have "importObjdump demo_objdump \<noteq> None" by code_simp
  then have w: "importObjdump demo_objdump = Some demo_widths" unfolding demo_widths_def by (rule option.collapse [symmetric])
  have s: "successively (\<lambda>a b. \<not> within demo_widths a b) demo_region_events" "Suc 0 < length demo_region_events"
    "static_instr (demo_region_events ! 0) \<in> call_or_ret other_objdump" by code_simp+
  have l: "findRegionLeaders demo_widths (call_inSameRegion (call_or_ret demo_objdump)) demo_region_events = Some {100, 105}"
    "static_instr (demo_region_events ! Suc 0) \<notin> {100, 105}" by code_simp+
  have "map_option length (call_prune_all {} demo_region_events [other_objdump, demo_objdump]) = Some 2" by code_simp
  then obtain rs after where r: "call_prune_all {} demo_region_events [other_objdump, demo_objdump] = Some [rs, after]"
    by (auto simp: numeral_2_eq_2 length_Suc_conv)
  from call_region_variants_interfere [OF w s l r] r show ?thesis by auto
qed

end
