(* ===== verification/Trace_Import.thy ===== *)
theory Trace_Import
  imports Proto_Stream Database_Layer "HOL-Library.RBT" "HOL-Library.Monad_Syntax"
begin

text \<open>
  Trace import: the template \<open>Importer\<close> of \<^verbatim>\<open>tools/import-trace/Importer.cc\<close>, which turns a stream of
  trace events into the equivalence classes (ECs) of the table \<open>trace\<close>, with the importers that
  specialise it. An importer is a record of the virtual methods; \<open>None\<close> is the return value false (or
  an assertion or exception that ends the program). The map of open ECs, a \<open>std::map\<close>, is a
  red-black tree. \<open>inserted\<close> is the sequence of rows given to \<open>Database::insert_multiple\<close>.
\<close>

section \<open>State\<close>

record margin_info_t =
  mi_dyninstr :: u32
  mi_ip :: u64
  mi_time :: u64

record access_info_t =
  access_type :: access
  ai_data_address :: u64
  ai_data_width :: u32

text \<open>
  A row of the trace table with the extended-trace columns (data value, and value and
  dereferenced value of each configured register) and the additional columns of a specialised
  importer.
\<close>

record 'x imported_row =
  im_row :: trace_row
  im_ext :: "(u32 \<times> (u32 option \<times> u32 option) list) option"
  im_extra :: 'x

text \<open>A memory map: the membership test and the addresses in iteration order.\<close>

record MemoryMap =
  isMatching :: "u64 \<Rightarrow> bool"
  mm_elements :: "u64 list"

record 'x Importer =
  m_variant_id :: nat
  m_elf :: bool
  m_mm :: "MemoryMap option"
  m_faultspace_rightmargin :: access
  m_sanitychecks :: bool
  m_import_write_ecs :: bool
  m_extended_trace :: bool
  m_extended_trace_regs :: "u32 list"
  m_row_count :: u32
  m_time_trace_start :: u64
  m_open_ecs :: "(u64, margin_info_t) rbt"
  m_last_ip :: u64
  m_last_instr :: u32
  m_last_time :: u64
  inserted :: "'x imported_row list"

definition no_margin :: margin_info_t where
  "no_margin = \<lparr>mi_dyninstr = 0, mi_ip = 0, mi_time = 0\<rparr>"

text \<open>\<open>m_open_ecs[data_address]\<close> creates the entry when there is none.\<close>

definition getOpenEC :: "u64 \<Rightarrow> ('x, 'z) Importer_scheme \<Rightarrow> margin_info_t \<times> ('x, 'z) Importer_scheme" where
  "getOpenEC data_address st =
     (let (ec, st1) =
        (case RBT.lookup (m_open_ecs st) data_address of
           Some ec \<Rightarrow> (ec, st)
         | None \<Rightarrow> (no_margin, st\<lparr>m_open_ecs := RBT.insert data_address no_margin (m_open_ecs st)\<rparr>))
      in (if mi_time ec = 0 then ec\<lparr>mi_time := m_time_trace_start st\<rparr> else ec, st1))"

definition newOpenEC ::
  "u64 \<Rightarrow> u64 \<Rightarrow> u32 \<Rightarrow> u64 \<Rightarrow> ('x, 'z) Importer_scheme \<Rightarrow> ('x, 'z) Importer_scheme" where
  "newOpenEC data_address t dyninstr i st =
     st\<lparr>m_open_ecs := RBT.insert data_address
          \<lparr>mi_dyninstr = dyninstr, mi_ip = i, mi_time = t\<rparr> (m_open_ecs st)\<rparr>"

section \<open>Rows\<close>

definition register_value :: "Trace_Event_Extended \<Rightarrow> u32 \<Rightarrow> u32 option \<times> u32 option" where
  "register_value e r =
     (case map_of (rev (ext_registers e)) r of
        None \<Rightarrow> (None, None)
      | Some (v, d) \<Rightarrow> (map_option ucast v, d))"

definition row_of :: "nat \<Rightarrow> margin_info_t \<Rightarrow> margin_info_t \<Rightarrow> Trace_Event \<Rightarrow> bool \<Rightarrow> trace_row" where
  "row_of variant b e ev is_fake =
     \<lparr>t_variant = variant,
      t_instr1 = unat (mi_dyninstr b),
      t_instr1_absolute = (if mi_ip b = 0 \<or> is_fake then None else Some (unat (mi_ip b))),
      t_instr2 = unat (mi_dyninstr e),
      t_instr2_absolute = (if mi_ip e = 0 \<or> is_fake then None else Some (unat (mi_ip e))),
      t_time1 = unat (mi_time b), t_time2 = unat (mi_time e),
      t_data_address = unat (ucast (case memaddr ev of None \<Rightarrow> 0 | Some a \<Rightarrow> a) :: u32),
      t_width = 1,
      t_accesstype = (if accesstype ev = READ then R else W)\<rparr>"

text \<open>
  \<open>add_trace_event\<close>; \<open>data\<close> is the virtual method \<open>database_insert_data\<close>.
\<close>

definition add_trace_event ::
  "(Trace_Event \<Rightarrow> bool \<Rightarrow> ('x, 'z) Importer_scheme \<Rightarrow> 'x option) \<Rightarrow>
   margin_info_t \<Rightarrow> margin_info_t \<Rightarrow> Trace_Event \<Rightarrow> bool \<Rightarrow> ('x, 'z) Importer_scheme \<Rightarrow> ('x, 'z) Importer_scheme option" where
  "add_trace_event data b e ev is_fake st =
     (if \<not> m_import_write_ecs st \<and> accesstype ev = WRITE then Some st
      else do {
        extra \<leftarrow> data ev is_fake st;
        let ext = (if m_extended_trace st
                   then map_option (\<lambda>x. (ucast (ext_data x), map (register_value x) (m_extended_trace_regs st))) (trace_ext ev)
                   else None);
        Some (st\<lparr>m_row_count := m_row_count st + 1,
                 inserted := inserted st @
                   [\<lparr>im_row = row_of (m_variant_id st) b e ev is_fake, im_ext = ext, im_extra = extra\<rparr>]\<rparr>)
      })"

definition access_event :: "margin_info_t \<Rightarrow> access_info_t \<Rightarrow> Trace_Event" where
  "access_event e acc =
     \<lparr>ip = mi_ip e, time_delta = None, memaddr = Some (ai_data_address acc), width = ai_data_width acc,
      accesstype = (if access_type acc = R then READ else WRITE), trace_ext = None\<rparr>"

section \<open>The template\<close>

record 's importer_class =
  handle_ip_event :: "u64 \<Rightarrow> u32 \<Rightarrow> Trace_Event \<Rightarrow> 's \<Rightarrow> 's option"
  handle_mem_event :: "u64 \<Rightarrow> u32 \<Rightarrow> Trace_Event \<Rightarrow> 's \<Rightarrow> 's option"
  trace_end_reached :: "'s \<Rightarrow> 's option"
  open_unused :: "'s \<Rightarrow> 's"
  virtual_add :: "margin_info_t \<Rightarrow> margin_info_t \<Rightarrow> Trace_Event \<Rightarrow> bool \<Rightarrow> 's \<Rightarrow> 's option"

fun fold_option :: "('a \<Rightarrow> 's \<Rightarrow> 's option) \<Rightarrow> 'a list \<Rightarrow> 's \<Rightarrow> 's option" where
  "fold_option f [] s = Some s"
| "fold_option f (x # xs) s = (case f x s of None \<Rightarrow> None | Some s' \<Rightarrow> fold_option f xs s')"

text \<open>The time bookkeeping at the head of the event loop.\<close>

definition advance_clock :: "Trace_Event \<Rightarrow> u64 \<Rightarrow> ('x, 'z) Importer_scheme \<Rightarrow> (u64 \<times> ('x, 'z) Importer_scheme) option" where
  "advance_clock ev curtime st =
     (case time_delta ev of
        None \<Rightarrow> Some (curtime, st)
      | Some d \<Rightarrow>
          if d < 0 then None
          else Some (curtime + of_int d,
            (if m_time_trace_start st = 0 then st\<lparr>m_time_trace_start := of_int d\<rparr> else st)))"

fun import_events ::
  "('x, 'z) Importer_scheme importer_class \<Rightarrow> Trace_Event list \<Rightarrow> u64 \<Rightarrow> u32 \<Rightarrow> u32 \<Rightarrow> ('x, 'z) Importer_scheme \<Rightarrow>
   (u64 \<times> u32 \<times> ('x, 'z) Importer_scheme) option" where
  "import_events c [] curtime instr instr_memaccess st = Some (curtime, instr, st)"
| "import_events c (ev # evs) curtime instr instr_memaccess st =
     (case advance_clock ev curtime st of
        None \<Rightarrow> None
      | Some (now, st1) \<Rightarrow>
          if memaddr ev = None then
            if instr = 0xFFFFFFFF then None
            else (case handle_ip_event c now instr ev st1 of
                    None \<Rightarrow> None
                  | Some st2 \<Rightarrow> import_events c evs now (instr + 1) instr st2)
          else (case handle_mem_event c now instr_memaccess ev st1 of
                  None \<Rightarrow> None
                | Some st2 \<Rightarrow> import_events c evs now instr instr_memaccess st2))"

definition open_unused_ec_intervals :: "('x, 'z) Importer_scheme \<Rightarrow> ('x, 'z) Importer_scheme" where
  "open_unused_ec_intervals st =
     (case m_mm st of
        None \<Rightarrow> st
      | Some mm \<Rightarrow>
          foldl (\<lambda>s a. if RBT.lookup (m_open_ecs s) a = None then newOpenEC a (m_time_trace_start s) 0 0 s else s)
            st (mm_elements mm))"

definition close_ec :: "('x, 'z) Importer_scheme importer_class \<Rightarrow> u64 \<times> margin_info_t \<Rightarrow>
    ('x, 'z) Importer_scheme \<Rightarrow> ('x, 'z) Importer_scheme option" where
  "close_ec c = (\<lambda>(a, left_margin) st.
     (let right_margin = \<lparr>mi_dyninstr = m_last_instr st, mi_ip = m_last_ip st, mi_time = m_last_time st\<rparr>;
          acc = \<lparr>access_type = m_faultspace_rightmargin st, ai_data_address = a, ai_data_width = 1\<rparr>
      in if mi_dyninstr left_margin > mi_dyninstr right_margin then Some st
         else virtual_add c left_margin right_margin (access_event right_margin acc) True st))"

definition close_ec_intervals ::
  "('x, 'z) Importer_scheme importer_class \<Rightarrow> ('x, 'z) Importer_scheme \<Rightarrow> ('x, 'z) Importer_scheme option" where
  "close_ec_intervals c st = fold_option (close_ec c) (RBT.entries (m_open_ecs st)) st"

section \<open>Sanity checks\<close>

text \<open>
  The queries of the sanity checks over the rows of the table; a check passes when its query returns
  no row. \<open>lo\<close> and \<open>hi\<close> select the columns \<open>instr1\<close> and \<open>instr2\<close>, or \<open>time1\<close> and \<open>time2\<close>. A negative result
  of the unsigned subtraction is an error, and an error fails the check.
\<close>

definition variant_rows :: "nat \<Rightarrow> trace_row list \<Rightarrow> trace_row list" where
  "variant_rows v rows = filter (\<lambda>t. t_variant t = v) rows"

definition ec_overlaps :: "(trace_row \<Rightarrow> nat) \<Rightarrow> (trace_row \<Rightarrow> nat) \<Rightarrow> nat \<Rightarrow> trace_row list \<Rightarrow> bool" where
  "ec_overlaps lo hi v rows \<longleftrightarrow>
     (\<exists>t1 \<in> set (variant_rows v rows). \<exists>t2 \<in> set (variant_rows v rows).
        t_data_address t1 = t_data_address t2 \<and> (lo t1 \<noteq> lo t2 \<or> hi t2 \<noteq> hi t2) \<and>
        (lo t2 \<le> lo t1 \<and> lo t1 \<le> hi t2 \<or> lo t2 \<le> hi t1 \<and> hi t1 \<le> hi t2 \<or> lo t1 < lo t2 \<and> hi t2 < hi t1))"

definition sub_unsigned :: "nat \<Rightarrow> nat \<Rightarrow> nat option" where
  "sub_unsigned a b = (if b \<le> a then Some (a - b) else None)"

fun sum_widths :: "(trace_row \<Rightarrow> nat) \<Rightarrow> (trace_row \<Rightarrow> nat) \<Rightarrow> trace_row list \<Rightarrow> nat option" where
  "sum_widths lo hi [] = Some 0"
| "sum_widths lo hi (t # ts) =
     (case sub_unsigned (hi t) (lo t) of
        None \<Rightarrow> None
      | Some d \<Rightarrow> map_option ((+) (d + 1)) (sum_widths lo hi ts))"

definition address_rows :: "nat \<Rightarrow> trace_row list \<Rightarrow> trace_row list" where
  "address_rows a rows = filter (\<lambda>t. t_data_address t = a) rows"

definition ec_covered :: "(trace_row \<Rightarrow> nat) \<Rightarrow> (trace_row \<Rightarrow> nat) \<Rightarrow> nat \<Rightarrow> trace_row list \<Rightarrow> bool" where
  "ec_covered lo hi v rows \<longleftrightarrow>
     (let vr = variant_rows v rows in
      \<forall>a \<in> t_data_address ` set vr.
        (case sub_unsigned (Max (hi ` set vr)) (Min (lo ` set vr)) of
           None \<Rightarrow> False
         | Some d \<Rightarrow> sum_widths lo hi (address_rows a vr) = Some (d + 1)))"

definition ec_rectangular :: "(trace_row \<Rightarrow> nat) \<Rightarrow> (trace_row \<Rightarrow> nat) \<Rightarrow> nat \<Rightarrow> trace_row list \<Rightarrow> bool" where
  "ec_rectangular lo hi v rows \<longleftrightarrow>
     (let vr = variant_rows v rows in
      \<forall>a \<in> t_data_address ` set vr.
        Min (lo ` set (address_rows a vr)) = Min (lo ` set vr) \<and>
        Max (hi ` set (address_rows a vr)) = Max (hi ` set vr))"

definition sanity_checks :: "nat \<Rightarrow> trace_row list \<Rightarrow> bool" where
  "sanity_checks v rows \<longleftrightarrow>
     \<not> ec_overlaps t_instr1 t_instr2 v rows \<and> \<not> ec_overlaps t_time1 t_time2 v rows \<and>
     ec_covered t_instr1 t_instr2 v rows \<and> ec_covered t_time1 t_time2 v rows \<and>
     ec_rectangular t_instr1 t_instr2 v rows \<and> ec_rectangular t_time1 t_time2 v rows"

section \<open>Importing a trace\<close>

text \<open>
  \<open>table\<close> holds the rows the trace table has already, after \<open>clear_database\<close> those of other variants.
\<close>

definition importer_clear_database :: "nat \<Rightarrow> trace_row list \<Rightarrow> trace_row list" where
  "importer_clear_database variant table = filter (\<lambda>t. t_variant t \<noteq> variant) table"

definition import_trace ::
  "('x, 'z) Importer_scheme importer_class \<Rightarrow> Trace_Event list \<Rightarrow> ('x, 'z) Importer_scheme \<Rightarrow> ('x, 'z) Importer_scheme option" where
  "import_trace c evs st = do {
     (curtime, instr, st1) \<leftarrow> import_events c evs 0 0 0 st;
     st2 \<leftarrow> trace_end_reached c st1;
     let st3 = st2\<lparr>m_last_time := curtime, m_last_instr := instr - 1,
       m_last_ip := (if evs = [] then 0 else ip (last evs))\<rparr>;
     close_ec_intervals c (open_unused c st3)
   }"

text \<open>Every insert succeeds: the return of \<open>false\<close> after a failing statement of the database is left out.\<close>

definition copy_to_database ::
  "('x, 'z) Importer_scheme importer_class \<Rightarrow> trace_row list \<Rightarrow> Trace_Event list \<Rightarrow>
   ('x, 'z) Importer_scheme \<Rightarrow> ('x, 'z) Importer_scheme option" where
  "copy_to_database c table evs st = do {
     st1 \<leftarrow> import_trace c evs st;
     if m_sanitychecks st1 \<and> \<not> sanity_checks (m_variant_id st1) (table @ map im_row (inserted st1))
     then None else Some st1
   }"

section \<open>Loops over addresses\<close>

text \<open>\<open>for (address_t a = from; a < to; ++a)\<close>\<close>

lemma unat_plus_one:
  assumes "(a :: 'a :: len word) < b"
  shows "unat (a + 1) = unat a + 1"
proof -
  have "unat a + 1 < 2 ^ LENGTH('a)"
  proof -
    have "unat a < unat b" using assms by (simp only: word_less_nat_alt)
    moreover have "unat b < 2 ^ LENGTH('a)" by (rule unsigned_less)
    ultimately show ?thesis by linarith
  qed
  then show ?thesis by (simp add: unat_word_ariths)
qed

function addr_loop :: "(u64 \<Rightarrow> 's \<Rightarrow> 's option) \<Rightarrow> u64 \<Rightarrow> u64 \<Rightarrow> 's \<Rightarrow> 's option" where
  "addr_loop body a to s =
     (if a < to then (case body a s of None \<Rightarrow> None | Some s' \<Rightarrow> addr_loop body (a + 1) to s') else Some s)"
  by pat_completeness auto
termination
proof (relation "measure (\<lambda>(body, a, to, s). unat to - unat a)")
  show "((body, a + 1, to, s'), body, a, to, s) \<in> measure (\<lambda>(body, a, to, s). unat to - unat a)"
    if "a < to" for body :: "u64 \<Rightarrow> 's \<Rightarrow> 's option" and a to s s'
  proof -
    have "unat a < unat to" using that by (simp add: word_less_nat_alt)
    moreover note unat_plus_one [OF that]
    ultimately show ?thesis by simp
  qed
qed simp

declare addr_loop.simps [simp del]

end
