(* ===== verification/Register_Info.thy ===== *)
theory Register_Info
  imports Fail_Prelude
begin

unbundle bit_operations_syntax

text \<open>
  Registers as linear data addresses: \<open>reginfo_t\<close> of \<^verbatim>\<open>CapstoneToFailTranslator.hpp\<close> with the access to
  the bits of a (sub-)register in \<^verbatim>\<open>CapstoneToFailTranslator.cpp\<close>. An \<open>int\<close> is a 32-bit word; the
  content of the machine register is an argument.
\<close>

record reginfo_t =
  ri_id :: u32
  ri_width :: u32
  ri_mask :: u64
  ri_offset :: u8

definition reginfo :: "u32 \<Rightarrow> u32 \<Rightarrow> u8 \<Rightarrow> reginfo_t" where
  "reginfo i w offs =
     \<lparr>ri_id = i, ri_width = w,
      ri_mask = (if 64 \<le> w then - 1 else push_bit (unat offs) (push_bit (unat w) 1 - 1)),
      ri_offset = offs\<rparr>"

definition toDataAddress :: "reginfo_t \<Rightarrow> u32" where
  "toDataAddress r = (push_bit 4 (ri_id r)) OR ucast (ri_offset r div 8)"

definition fromDataAddress :: "u32 \<Rightarrow> u32 \<Rightarrow> reginfo_t" where
  "fromDataAddress addr w = reginfo (signed_drop_bit 4 addr) (w * 8) (ucast (addr AND 0xf) * 8)"

definition getRegisterContent :: "u64 \<Rightarrow> reginfo_t \<Rightarrow> u64" where
  "getRegisterContent content r = drop_bit (unat (ri_offset r)) (content AND ri_mask r)"

definition setRegisterContent :: "u64 \<Rightarrow> reginfo_t \<Rightarrow> u64 \<Rightarrow> u64" where
  "setRegisterContent content r v =
     (push_bit (unat (ri_offset r)) v AND ri_mask r) OR (content AND NOT (ri_mask r))"

text \<open>Sub-registers: whole bytes that lie within the 64 bits of the register.\<close>

definition sub_register :: "u32 \<Rightarrow> u8 \<Rightarrow> bool" where
  "sub_register w offs \<longleftrightarrow> unat offs + unat w \<le> 64 \<and> 8 dvd unat offs \<and> 8 dvd unat w"

section \<open>Access to the bits\<close>

lemma bit_low_mask: "bit (2 ^ w - 1 :: u64) k \<longleftrightarrow> k < w \<and> k < 64"
  by (simp add: mask_eq_exp_minus_1 [symmetric] bit_mask_iff conj_commute)

lemma bit_mask_reginfo:
  assumes "sub_register w offs"
  shows "bit (ri_mask (reginfo i w offs)) k \<longleftrightarrow> unat offs \<le> k \<and> k < unat offs + unat w"
proof (cases "64 \<le> w")
  case True
  then have "64 \<le> unat w" by (simp add: word_le_nat_alt)
  with assms have "unat w = 64" "unat offs = 0" by (auto simp: sub_register_def)
  with True show ?thesis by (auto simp: reginfo_def)
next
  case False
  with assms show ?thesis
    by (auto simp: reginfo_def bit_push_bit_iff bit_low_mask sub_register_def word_le_nat_alt)
qed

lemma bit_setRegisterContent:
  assumes "sub_register w offs"
  shows "bit (setRegisterContent c (reginfo i w offs) v) k =
    (if unat offs \<le> k \<and> k < unat offs + unat w then bit v (k - unat offs) else bit c k)"
proof -
  have "unat offs + unat w \<le> 64" using assms by (simp add: sub_register_def)
  moreover have "ri_offset (reginfo i w offs) = offs" by (simp add: reginfo_def)
  ultimately show ?thesis
    by (auto simp: setRegisterContent_def bit_mask_reginfo [OF assms] bit_or_iff bit_and_iff
        bit_not_iff bit_push_bit_iff dest: bit_imp_le_length)
qed

lemma bit_getRegisterContent:
  assumes "sub_register w offs"
  shows "bit (getRegisterContent c (reginfo i w offs)) k \<longleftrightarrow> k < unat w \<and> bit c (unat offs + k)"
proof -
  have "ri_offset (reginfo i w offs) = offs" by (simp add: reginfo_def)
  then show ?thesis by (auto simp: getRegisterContent_def bit_drop_bit_eq bit_and_iff bit_mask_reginfo [OF assms])
qed

text \<open>
  Writing a sub-register changes exactly its own bits of the machine register: bit \<open>k\<close> becomes bit
  \<open>k - offset\<close> of the value inside the sub-register and stays what it was outside, and reading the
  sub-register back gives the value cut to its width.
\<close>

theorem sub_register_access:
  assumes "sub_register w offs"
  shows "(\<forall>k. bit (setRegisterContent c (reginfo i w offs) v) k =
        (if unat offs \<le> k \<and> k < unat offs + unat w then bit v (k - unat offs) else bit c k)) \<and>
    getRegisterContent (setRegisterContent c (reginfo i w offs) v) (reginfo i w offs) = take_bit (unat w) v"
proof (intro conjI allI)
  show "bit (setRegisterContent c (reginfo i w offs) v) k =
      (if unat offs \<le> k \<and> k < unat offs + unat w then bit v (k - unat offs) else bit c k)" for k
    by (rule bit_setRegisterContent [OF assms])
  show "getRegisterContent (setRegisterContent c (reginfo i w offs) v) (reginfo i w offs) = take_bit (unat w) v"
    by (rule bit_word_eqI)
      (auto simp: bit_getRegisterContent [OF assms] bit_setRegisterContent [OF assms] bit_take_bit_iff)
qed

theorem sub_register_access_witness:
  "sub_register 8 8 \<and>
   getRegisterContent (setRegisterContent 0x1122334455667788 (reginfo 0 8 8) 0xAB) (reginfo 0 8 8) = 0xAB \<and>
   setRegisterContent 0x1122334455667788 (reginfo 0 8 8) 0xAB = 0x112233445566AB88"
proof -
  have s: "sub_register 8 8" by code_simp
  have "take_bit 8 (0xAB :: u64) = 0xAB" by code_simp
  moreover have "setRegisterContent 0x1122334455667788 (reginfo 0 8 8) 0xAB = 0x112233445566AB88" by code_simp
  ultimately show ?thesis
    using s sub_register_access [OF s, of "0x1122334455667788" 0 "0xAB"] by simp
qed

section \<open>Data addresses\<close>

lemma byte_offset:
  assumes "8 dvd unat (offs :: u8)" and "unat offs \<le> 64"
  shows "unat (offs div 8) < 16" and "offs div 8 * 8 = offs"
proof -
  have d: "unat (offs div 8) = unat offs div 8" by (simp add: unat_div)
  show "unat (offs div 8) < 16" using assms(2) d by simp
  have "unat (offs div 8 * 8) = (unat offs div 8 * 8) mod 256" by (simp add: unat_word_ariths d mod_mult_left_eq)
  also have "\<dots> = unat offs" using assms by simp
  finally show "offs div 8 * 8 = offs" by (simp add: word_unat_eq_iff)
qed

lemma bit_below:
  assumes "bit (x :: 'a :: len word) k" and "unat x < 2 ^ n"
  shows "k < n"
proof (rule ccontr)
  assume "\<not> k < n"
  then have "(2 :: nat) ^ n \<le> 2 ^ k" by simp
  with assms(2) have "unat x < 2 ^ k" by (rule less_le_trans)
  then have "unat x div 2 ^ k = 0" by (rule div_less)
  moreover have "bit (unat x) k" using assms(1) by (simp add: bit_unsigned_iff bit_imp_possible_bit)
  ultimately show False by (simp add: bit_iff_odd)
qed

text \<open>
  Data addresses identify sub-registers: reading the address of a sub-register back, with its
  width in bytes, gives the same register, bits and mask.
\<close>

theorem register_address_round_trip:
  assumes "sub_register w offs" and "unat i < 2 ^ 27"
  shows "fromDataAddress (toDataAddress (reginfo i w offs)) (w div 8) = reginfo i w offs"
proof -
  let ?o = "ucast (offs div 8) :: u32" and ?a = "push_bit 4 i OR ucast (offs div 8) :: u32"
  have offs: "8 dvd unat offs" "unat offs \<le> 64" and w: "8 dvd unat w" "unat w \<le> 64"
    using assms(1) by (auto simp: sub_register_def)
  note off = byte_offset [OF offs]
  have o: "bit ?o k \<Longrightarrow> k < 4" for k using bit_below [of "offs div 8" k 4] off(1) by (auto simp: bit_ucast_iff)
  have i: "bit i k \<Longrightarrow> k < 27" for k using bit_below [of i k 27] assms(2) by auto
  have "signed_drop_bit 4 ?a = i"
    by (rule bit_word_eqI) (auto simp: bit_signed_drop_bit_iff bit_or_iff bit_push_bit_iff dest: o i)
  moreover have "ucast (?a AND 0xf) * 8 = offs"
  proof -
    have "?a AND mask 4 = ?o"
      by (rule bit_word_eqI) (auto simp: bit_and_iff bit_mask_iff bit_or_iff bit_push_bit_iff dest: o)
    then have "ucast (?a AND 0xf) = offs div 8" by (simp add: mask_eq_exp_minus_1 ucast_down_ucast_id is_down)
    with off(2) show ?thesis by simp
  qed
  moreover have "w div 8 * 8 = w" using w by (simp add: word_unat_eq_iff unat_word_ariths unat_div)
  ultimately show ?thesis by (simp add: fromDataAddress_def toDataAddress_def reginfo_def)
qed

theorem register_address_round_trip_witness:
  "sub_register 8 8 \<and> toDataAddress (reginfo 3 8 8) = 0x31 \<and> fromDataAddress 0x31 1 = reginfo 3 8 8"
proof -
  have s: "sub_register 8 8" by code_simp
  have a: "toDataAddress (reginfo 3 8 8) = 0x31" by code_simp
  have "fromDataAddress (toDataAddress (reginfo 3 8 8)) (8 div 8) = reginfo 3 8 8"
    by (rule register_address_round_trip [OF s]) simp
  then have "fromDataAddress 0x31 1 = reginfo 3 8 8" unfolding a by simp
  with s a show ?thesis by simp
qed

lemma unat_toDataAddress:
  assumes "sub_register w offs" and "unat i < 2 ^ 27"
  shows "unat (toDataAddress (reginfo i w offs)) = 16 * unat i + unat offs div 8"
proof -
  let ?o = "ucast (offs div 8) :: u32"
  have off: "unat (offs div 8) < 16" using byte_offset(1) assms(1) by (auto simp: sub_register_def)
  then have o: "unat ?o = unat offs div 8" by (simp add: unat_div unsigned_ucast_eq take_bit_nat_eq_self)
  have "push_bit 4 i OR ?o = push_bit 4 i + ?o"
  proof (rule disjunctive_add [symmetric])
    show "\<not> bit (push_bit 4 i) k \<or> \<not> bit ?o k" for k
      using bit_below [of "offs div 8" k 4] off by (auto simp: bit_push_bit_iff bit_ucast_iff)
  qed
  moreover have "unat (push_bit 4 i) = 16 * unat i"
    using assms(2) by (simp add: push_bit_eq_mult unat_word_ariths)
  moreover have "16 * unat i + unat offs div 8 < 2 ^ 32" using assms(2) off by (simp add: unat_div)
  ultimately show ?thesis using o by (simp add: toDataAddress_def reginfo_def unat_word_ariths)
qed

definition split_addresses :: "reginfo_t \<Rightarrow> nat set" where
  "split_addresses r = {unat (toDataAddress r)..<unat (toDataAddress r) + unat (ri_width r) div 8}"

text \<open>
  The data addresses of the bytes of two sub-registers overlap exactly when the sub-registers
  share bits of the same machine register.
\<close>

theorem register_bytes_overlap:
  assumes "sub_register w offs" and "unat i < 2 ^ 27" and "sub_register w' offs'" and "unat i' < 2 ^ 27"
  shows "split_addresses (reginfo i w offs) \<inter> split_addresses (reginfo i' w' offs') \<noteq> {} \<longleftrightarrow>
    i = i' \<and> (\<exists>k. bit (ri_mask (reginfo i w offs)) k \<and> bit (ri_mask (reginfo i' w' offs')) k)"
proof -
  obtain o1 o2 w1 w2 where o: "unat offs = 8 * o1" "unat offs' = 8 * o2" "unat w = 8 * w1" "unat w' = 8 * w2"
      and le: "o1 + w1 \<le> 8" "o2 + w2 \<le> 8"
    using assms(1,3) by (auto simp: sub_register_def dvd_def)
  have bits: "(\<exists>k. bit (ri_mask (reginfo i w offs)) k \<and> bit (ri_mask (reginfo i' w' offs')) k) \<longleftrightarrow>
      (\<exists>k. 8 * o1 \<le> k \<and> k < 8 * o1 + 8 * w1 \<and> 8 * o2 \<le> k \<and> k < 8 * o2 + 8 * w2)"
    by (auto simp: bit_mask_reginfo [OF assms(1)] bit_mask_reginfo [OF assms(3)] o)
  have "split_addresses (reginfo i w offs) \<inter> split_addresses (reginfo i' w' offs') \<noteq> {} \<longleftrightarrow>
      (\<exists>a. 16 * unat i + o1 \<le> a \<and> a < 16 * unat i + o1 + w1 \<and> 16 * unat i' + o2 \<le> a \<and> a < 16 * unat i' + o2 + w2)"
  proof -
    have "split_addresses (reginfo i w offs) = {16 * unat i + o1..<16 * unat i + o1 + w1}"
      "split_addresses (reginfo i' w' offs') = {16 * unat i' + o2..<16 * unat i' + o2 + w2}"
      using assms by (simp_all add: split_addresses_def unat_toDataAddress o) (simp_all add: reginfo_def o)
    then show ?thesis unfolding ex_in_conv [symmetric] Int_iff by (simp only: atLeastLessThan_iff conj_assoc)
  qed
  also have "\<dots> \<longleftrightarrow> unat i = unat i' \<and> max o1 o2 < min (o1 + w1) (o2 + w2)"
  proof (cases "unat i = unat i'")
    case True
    have "16 * unat i + max o1 o2 < 16 * unat i + min (o1 + w1) (o2 + w2)"
      if "max o1 o2 < min (o1 + w1) (o2 + w2)" using that by simp
    with True show ?thesis by (auto intro!: exI [of _ "16 * unat i + max o1 o2"])
  qed (use le in auto)
  also have "max o1 o2 < min (o1 + w1) (o2 + w2) \<longleftrightarrow>
      (\<exists>k. 8 * o1 \<le> k \<and> k < 8 * o1 + 8 * w1 \<and> 8 * o2 \<le> k \<and> k < 8 * o2 + 8 * w2)"
    by (auto intro!: exI [of _ "8 * max o1 o2"])
  finally show ?thesis using bits by (simp add: word_unat_eq_iff)
qed

theorem register_bytes_overlap_witness:
  "split_addresses (reginfo 3 8 8) \<inter> split_addresses (reginfo 3 16 0) \<noteq> {}"
proof -
  have s: "sub_register 8 8" "sub_register 16 0" by code_simp+
  have "bit (ri_mask (reginfo 3 8 8)) 8" "bit (ri_mask (reginfo 3 16 0)) 8" by code_simp+
  then show ?thesis using register_bytes_overlap [OF s(1) _ s(2), of 3 3] by auto
qed

end
