(* ===== verification/Trace_Importers.thy ===== *)
theory Trace_Importers
  imports Trace_Import Register_Info
begin

text \<open>
  The importers of \<^verbatim>\<open>tools/import-trace\<close> as instances of the template: \<open>MemoryImporter\<close>,
  \<open>InstructionImporter\<close>, \<open>RegisterImporter\<close>, \<open>RandomJumpImporter\<close> and \<open>FullTraceImporter\<close>. The disassembler
  is a parameter: the map from (32-bit) addresses to decoded instructions, as in the Capstone build.
  Its keys in iteration order are a second parameter where the code iterates over it.
\<close>

section \<open>One access\<close>

definition no_columns :: "Trace_Event \<Rightarrow> bool \<Rightarrow> (unit, 'z) Importer_scheme \<Rightarrow> unit option" where
  "no_columns ev is_fake st = Some ()"

definition mm_skips :: "u64 \<Rightarrow> ('x, 'z) Importer_scheme \<Rightarrow> bool" where
  "mm_skips a st = (case m_mm st of None \<Rightarrow> False | Some mm \<Rightarrow> \<not> isMatching mm a)"

text \<open>
  The body of the byte loops: close the open EC of the address with the event and open the next one
  at the following instruction, unless the EC would be empty.
\<close>

definition record_access ::
  "(margin_info_t \<Rightarrow> margin_info_t \<Rightarrow> Trace_Event \<Rightarrow> bool \<Rightarrow> ('x, 'z) Importer_scheme \<Rightarrow> ('x, 'z) Importer_scheme option) \<Rightarrow>
   u64 \<Rightarrow> u32 \<Rightarrow> u64 \<Rightarrow> Trace_Event \<Rightarrow> ('x, 'z) Importer_scheme \<Rightarrow> ('x, 'z) Importer_scheme option" where
  "record_access addev curtime instr data_address ev st =
     (let (left_margin, st1) = getOpenEC data_address st;
          right_margin = \<lparr>mi_dyninstr = instr, mi_ip = ip ev, mi_time = curtime\<rparr>
      in if mi_dyninstr left_margin > mi_dyninstr right_margin then Some st1
         else map_option (newOpenEC data_address (curtime + 1) (instr + 1) (ip ev))
                (addev left_margin right_margin (ev\<lparr>memaddr := Some data_address\<rparr>) False st1))"

section \<open>Memory accesses\<close>

definition memory_handle_mem_event ::
  "(Trace_Event \<Rightarrow> bool \<Rightarrow> ('x, 'z) Importer_scheme \<Rightarrow> 'x option) \<Rightarrow>
   u64 \<Rightarrow> u32 \<Rightarrow> Trace_Event \<Rightarrow> ('x, 'z) Importer_scheme \<Rightarrow> ('x, 'z) Importer_scheme option" where
  "memory_handle_mem_event data curtime instr ev st =
     (let from = (case memaddr ev of None \<Rightarrow> 0 | Some a \<Rightarrow> a)
      in addr_loop (\<lambda>a s. if mm_skips a s then Some s
                          else record_access (add_trace_event data) curtime instr a (ev\<lparr>width := 1\<rparr>) s)
           from (from + ucast (width ev)) st)"

definition MemoryImporter :: "(unit, 'z) Importer_scheme importer_class" where
  "MemoryImporter =
     \<lparr>handle_ip_event = (\<lambda>curtime instr ev st. Some st),
      handle_mem_event = memory_handle_mem_event no_columns,
      trace_end_reached = Some, open_unused = open_unused_ec_intervals,
      virtual_add = add_trace_event no_columns\<rparr>"

section \<open>Instruction fetches\<close>

record Instr =
  opcode :: u32
  i_address :: u32
  i_length :: u8
  conditional_branch :: bool
  reg_uses :: "16 word list"
  reg_defs :: "16 word list"

type_synonym instr_map = "u32 \<Rightarrow> Instr option"

definition instruction_handle_ip_event ::
  "instr_map \<Rightarrow> u64 \<Rightarrow> u32 \<Rightarrow> Trace_Event \<Rightarrow> (unit, 'z) Importer_scheme \<Rightarrow> (unit, 'z) Importer_scheme option" where
  "instruction_handle_ip_event imap curtime instr ev st =
     (if \<not> m_elf st then None
      else (case imap (ucast (ip ev)) of
              None \<Rightarrow> Some st
            | Some oc \<Rightarrow>
                addr_loop (\<lambda>a s. if mm_skips a s then Some s
                                 else record_access (add_trace_event no_columns) curtime instr a
                                        (ev\<lparr>accesstype := READ, width := 1\<rparr>) s)
                  (ip ev) (ip ev + ucast (i_length oc)) st))"

definition InstructionImporter :: "instr_map \<Rightarrow> (unit, 'z) Importer_scheme importer_class" where
  "InstructionImporter imap =
     \<lparr>handle_ip_event = instruction_handle_ip_event imap,
      handle_mem_event = (\<lambda>curtime instr ev st. Some st),
      trace_end_reached = Some, open_unused = open_unused_ec_intervals,
      virtual_add = add_trace_event no_columns\<rparr>"

section \<open>Register accesses\<close>

record 'x RegisterImporter_state = "'x Importer" +
  isDisassembled :: bool
  do_ip :: bool
  do_split_registers :: bool
  m_register_ids :: "u32 set"
  m_ip_register_id :: u32
  m_regnotfound :: "16 word \<Rightarrow> (nat \<times> u64 set) option"

text \<open>The command line and the register sets of the architecture.\<close>

record register_options =
  NO_GP :: bool
  FLAGS :: bool
  IP :: bool
  NO_SPLIT :: bool
  rt_ip :: u32
  rt_gp :: "u32 list"
  rt_st :: "u32 list"

definition register_setup :: "register_options \<Rightarrow> unit RegisterImporter_state \<Rightarrow> unit RegisterImporter_state option" where
  "register_setup cmd st =
     (if isDisassembled st then Some st
      else let ids = m_register_ids st \<union> (if NO_GP cmd then {} else set (rt_gp cmd))
                       \<union> (if FLAGS cmd then set (rt_st cmd) else {})
           in if \<not> m_elf st then None
              else Some (st\<lparr>do_ip := IP cmd, do_split_registers := \<not> NO_SPLIT cmd, m_ip_register_id := rt_ip cmd,
                            m_register_ids := ids, isDisassembled := True\<rparr>))"

definition addRegisterTrace ::
  "u64 \<Rightarrow> u32 \<Rightarrow> Trace_Event \<Rightarrow> reginfo_t \<Rightarrow> AccessType \<Rightarrow> unit RegisterImporter_state \<Rightarrow> unit RegisterImporter_state option" where
  "addRegisterTrace curtime instr ev info acc st =
     (let from = scast (toDataAddress info);
          to = (if do_split_registers st then ucast (toDataAddress info + ri_width info div 8) else from + 1);
          chunk_width = (if do_split_registers st then 1 else ri_width info div 8)
      in addr_loop (\<lambda>a s. if mm_skips (ip ev) s then Some s
                          else record_access (add_trace_event no_columns) curtime instr a
                                 (ev\<lparr>width := chunk_width, accesstype := acc\<rparr>) s) from to st)"

definition register_use ::
  "(16 word \<Rightarrow> reginfo_t option) \<Rightarrow> u64 \<Rightarrow> u32 \<Rightarrow> Trace_Event \<Rightarrow> AccessType \<Rightarrow> 16 word \<Rightarrow>
   unit RegisterImporter_state \<Rightarrow> unit RegisterImporter_state option" where
  "register_use ctof curtime instr ev acc r st =
     (case ctof r of
        None \<Rightarrow>
          let (n, as) = (case m_regnotfound st r of None \<Rightarrow> (0, {}) | Some e \<Rightarrow> e)
          in Some (st\<lparr>m_regnotfound := (m_regnotfound st)(r \<mapsto> (n + 1, insert (ip ev) as))\<rparr>)
      | Some info \<Rightarrow>
          if ri_id info \<notin> m_register_ids st then Some st
          else addRegisterTrace curtime instr ev info acc st)"

definition register_handle_ip_event ::
  "register_options \<Rightarrow> instr_map \<Rightarrow> (16 word \<Rightarrow> reginfo_t option) \<Rightarrow>
   u64 \<Rightarrow> u32 \<Rightarrow> Trace_Event \<Rightarrow> unit RegisterImporter_state \<Rightarrow> unit RegisterImporter_state option" where
  "register_handle_ip_event cmd imap ctof curtime instr ev st = do {
     st1 \<leftarrow> register_setup cmd st;
     let info_pc = reginfo (m_ip_register_id st1) 32 0;
     st2 \<leftarrow> (if do_ip st1
             then Option.bind (addRegisterTrace curtime instr ev info_pc READ st1)
                    (addRegisterTrace curtime instr ev info_pc WRITE)
             else Some st1);
     (case imap (ucast (ip ev)) of
        None \<Rightarrow> Some st2
      | Some oc \<Rightarrow>
          Option.bind (fold_option (register_use ctof curtime instr ev READ) (reg_uses oc) st2)
            (fold_option (register_use ctof curtime instr ev WRITE) (reg_defs oc)))
   }"

definition RegisterImporter ::
  "register_options \<Rightarrow> instr_map \<Rightarrow> (16 word \<Rightarrow> reginfo_t option) \<Rightarrow> unit RegisterImporter_state importer_class" where
  "RegisterImporter cmd imap ctof =
     \<lparr>handle_ip_event = register_handle_ip_event cmd imap ctof,
      handle_mem_event = (\<lambda>curtime instr ev st. Some st),
      trace_end_reached = Some, open_unused = (\<lambda>st. st),
      virtual_add = add_trace_event no_columns\<rparr>"

section \<open>Random jumps\<close>

record 'x RandomJumpImporter_state = "'x Importer" +
  jump_binary :: bool
  m_jump_to_addresses :: "u64 list"

definition collect_jump_targets :: "MemoryMap \<Rightarrow> u32 list \<Rightarrow> u64 list" where
  "collect_jump_targets mm_to addresses = filter (isMatching mm_to) (map ucast addresses)"

definition random_jump_setup ::
  "MemoryMap option \<Rightarrow> u32 list \<Rightarrow> unit RandomJumpImporter_state \<Rightarrow> unit RandomJumpImporter_state option" where
  "random_jump_setup jump_to addresses st =
     (if jump_binary st then Some st
      else (case jump_to of
              None \<Rightarrow> None
            | Some mm \<Rightarrow>
                if \<not> m_elf st then None
                else Some (st\<lparr>m_jump_to_addresses := m_jump_to_addresses st @ collect_jump_targets mm addresses,
                              jump_binary := True\<rparr>)))"

definition random_jump_handle_ip_event ::
  "MemoryMap option \<Rightarrow> MemoryMap option \<Rightarrow> u32 list \<Rightarrow>
   u64 \<Rightarrow> u32 \<Rightarrow> Trace_Event \<Rightarrow> unit RandomJumpImporter_state \<Rightarrow> unit RandomJumpImporter_state option" where
  "random_jump_handle_ip_event jump_from jump_to addresses curtime instr ev st = do {
     st1 \<leftarrow> random_jump_setup jump_to addresses st;
     let margin = \<lparr>mi_dyninstr = instr, mi_ip = ip ev, mi_time = curtime\<rparr>;
     if mm_skips (ip ev) st1 \<or> (case jump_from of None \<Rightarrow> False | Some mm \<Rightarrow> \<not> isMatching mm (ip ev)) then Some st1
     else fold_option (\<lambda>to_addr s.
            if to_addr = ip ev then Some s
            else add_trace_event no_columns margin margin
                   (ev\<lparr>accesstype := READ, memaddr := Some to_addr, width := 4\<rparr>) False s)
          (m_jump_to_addresses st1) st1
   }"

definition RandomJumpImporter ::
  "MemoryMap option \<Rightarrow> MemoryMap option \<Rightarrow> u32 list \<Rightarrow> unit RandomJumpImporter_state importer_class" where
  "RandomJumpImporter jump_from jump_to addresses =
     \<lparr>handle_ip_event = random_jump_handle_ip_event jump_from jump_to addresses,
      handle_mem_event = (\<lambda>curtime instr ev st. Some st),
      trace_end_reached = Some, open_unused = (\<lambda>st. st),
      virtual_add = add_trace_event no_columns\<rparr>"

section \<open>Full traces\<close>

record fulltrace_row =
  f_variant :: nat
  f_instr :: nat
  f_instr_absolute :: nat

record 'x FullTraceImporter_state = "'x Importer" +
  fulltrace :: "fulltrace_row list"

definition full_add_trace_event ::
  "margin_info_t \<Rightarrow> margin_info_t \<Rightarrow> Trace_Event \<Rightarrow> bool \<Rightarrow> unit FullTraceImporter_state \<Rightarrow> unit FullTraceImporter_state option" where
  "full_add_trace_event b e ev is_fake st =
     (if is_fake then Some st
      else Some (st\<lparr>fulltrace := fulltrace st @ [\<lparr>f_variant = m_variant_id st, f_instr = unat (mi_dyninstr e),
                     f_instr_absolute = unat (mi_ip e)\<rparr>], m_row_count := m_row_count st + 1\<rparr>))"

definition full_handle_ip_event ::
  "u64 \<Rightarrow> u32 \<Rightarrow> Trace_Event \<Rightarrow> unit FullTraceImporter_state \<Rightarrow> unit FullTraceImporter_state option" where
  "full_handle_ip_event curtime instr ev st =
     (let right_margin = \<lparr>mi_dyninstr = instr, mi_ip = ip ev, mi_time = curtime\<rparr>
      in full_add_trace_event right_margin right_margin ev False st)"

text \<open>The flush of \<open>insert_multiple\<close> returns false when no row was ever given to it.\<close>

definition full_trace_end_reached :: "unit FullTraceImporter_state \<Rightarrow> unit FullTraceImporter_state option" where
  "full_trace_end_reached st = (if fulltrace st = [] then None else Some st)"

definition FullTraceImporter :: "unit FullTraceImporter_state importer_class" where
  "FullTraceImporter =
     \<lparr>handle_ip_event = full_handle_ip_event,
      handle_mem_event = (\<lambda>curtime instr ev st. Some st),
      trace_end_reached = full_trace_end_reached, open_unused = open_unused_ec_intervals,
      virtual_add = full_add_trace_event\<rparr>"

end
