(* ===== verification/Trace_Coverage.thy ===== *)
theory Trace_Coverage
  imports Trace_Importers
begin

text \<open>
  What the imported rows are: for every address of the fault space the equivalence classes partition
  the dynamic instructions of the trace. The handlers of the memory, instruction and register
  importers change the common state by accesses at the current instruction only; the locale
  \<open>ec_importer\<close> has this as its law and the importers are its interpretations.
\<close>

section \<open>Consecutive intervals\<close>

fun consecutive :: "nat \<Rightarrow> (nat \<times> nat) list \<Rightarrow> nat \<Rightarrow> bool" where
  "consecutive l [] r \<longleftrightarrow> l = r"
| "consecutive l ((a, b) # xs) r \<longleftrightarrow> a = l \<and> a \<le> b \<and> consecutive (b + 1) xs r"

lemma consecutive_snoc:
  "consecutive l xs m \<Longrightarrow> m \<le> b \<Longrightarrow> consecutive l (xs @ [(m, b)]) (b + 1)"
  by (induction l xs m rule: consecutive.induct) auto

lemma consecutive_bounds:
  "consecutive l xs r \<Longrightarrow> l \<le> r \<and> (\<forall>(a, b) \<in> set xs. l \<le> a \<and> a \<le> b \<and> b < r)"
  by (induction l xs r rule: consecutive.induct) fastforce+

lemma consecutive_cover:
  assumes "consecutive l xs r"
  shows "length (filter (\<lambda>(a, b). a \<le> i \<and> i \<le> b) xs) = (if l \<le> i \<and> i < r then 1 else 0)"
  using assms
proof (induction l xs r rule: consecutive.induct)
  case (2 l a b xs r)
  have "b + 1 \<le> r" using 2(2) consecutive_bounds by fastforce
  with 2 show ?case by auto
qed auto

lemma consecutive_distinct_ends:
  "consecutive l xs r \<Longrightarrow> distinct (map snd xs)"
proof (induction l xs r rule: consecutive.induct)
  case (2 l a b xs r)
  then have "\<forall>(c, d) \<in> set xs. b + 1 \<le> d" using consecutive_bounds [of "b + 1" xs r] by fastforce
  with 2 show ?case by force
qed simp

section \<open>The invariant of the open equivalence classes\<close>

definition rows_at :: "nat \<Rightarrow> ('x, 'z) Importer_scheme \<Rightarrow> trace_row list" where
  "rows_at a st = address_rows a (map im_row (inserted st))"

definition instrs :: "trace_row \<Rightarrow> nat \<times> nat" where
  "instrs t = (t_instr1 t, t_instr2 t)"

definition open_addresses :: "('x, 'z) Importer_scheme \<Rightarrow> u64 set" where
  "open_addresses st = dom (RBT.lookup (m_open_ecs st))"

definition ec_inv :: "nat \<Rightarrow> ('x, 'z) Importer_scheme \<Rightarrow> bool" where
  "ec_inv n st \<longleftrightarrow>
     (\<forall>a m. RBT.lookup (m_open_ecs st) a = Some m \<longrightarrow>
        unat a < 2 ^ 32 \<and> unat (mi_dyninstr m) \<le> n \<and>
        consecutive 0 (map instrs (rows_at (unat a) st)) (unat (mi_dyninstr m))) \<and>
     (\<forall>r \<in> set (inserted st). t_variant (im_row r) = m_variant_id st \<and>
        t_data_address (im_row r) \<in> unat ` open_addresses st)"

text \<open>The part of the state the template does not change while it reads events.\<close>

definition config :: "('x, 'z) Importer_scheme \<Rightarrow> nat \<times> MemoryMap option \<times> bool \<times> bool \<times> bool \<times> access" where
  "config st = (m_variant_id st, m_mm st, m_elf st, m_import_write_ecs st, m_sanitychecks st, m_faultspace_rightmargin st)"

lemma ec_inv_mono: "ec_inv n st \<Longrightarrow> n \<le> k \<Longrightarrow> ec_inv k st"
  unfolding ec_inv_def by (meson le_trans)

lemma address_rows_append [simp]: "address_rows a (xs @ ys) = address_rows a xs @ address_rows a ys"
  by (simp add: address_rows_def)

lemma unat_column: "unat (a :: u64) < 2 ^ 32 \<Longrightarrow> unat (ucast a :: u32) = unat a"
  by (simp add: unsigned_ucast_eq take_bit_nat_eq_self)

lemma unat_in_image [simp]: "unat (a :: u64) \<in> unat ` S \<longleftrightarrow> a \<in> S"
  by (auto simp: word_unat_eq_iff [symmetric])

lemma rows_at_closed:
  assumes "ec_inv n st" and "RBT.lookup (m_open_ecs st) a = None"
  shows "rows_at (unat a) st = []"
proof -
  have "t_data_address (im_row r) \<noteq> unat a" if r: "r \<in> set (inserted st)" for r
  proof
    assume eq: "t_data_address (im_row r) = unat a"
    obtain b where "b \<in> open_addresses st" "t_data_address (im_row r) = unat b"
      using assms(1) r unfolding ec_inv_def by blast
    with eq assms(2) show False by (simp add: word_unat_eq_iff [symmetric] open_addresses_def domIff)
  qed
  then show ?thesis by (simp add: rows_at_def address_rows_def filter_empty_conv)
qed


section \<open>One access\<close>

lemma add_trace_event_unit:
  assumes "m_import_write_ecs st"
  obtains r where "add_trace_event no_columns b e ev fake st =
      Some (st\<lparr>m_row_count := m_row_count st + 1, inserted := inserted st @ [r]\<rparr>)"
    "im_row r = row_of (m_variant_id st) b e ev fake"
  using assms unfolding add_trace_event_def no_columns_def Let_def by simp

text \<open>
  An access closes the interval from the left margin to the current instruction and reopens at the
  next one, or finds the address already closed by the same instruction.
\<close>

definition left_margin :: "u64 \<Rightarrow> ('x, 'z) Importer_scheme \<Rightarrow> margin_info_t" where
  "left_margin a st = (case RBT.lookup (m_open_ecs st) a of None \<Rightarrow> no_margin | Some m \<Rightarrow> m)"

lemma getOpenEC_left_margin:
  "\<exists>ecs. getOpenEC a st = ((if mi_time (left_margin a st) = 0
        then (left_margin a st)\<lparr>mi_time := m_time_trace_start st\<rparr> else left_margin a st), st\<lparr>m_open_ecs := ecs\<rparr>) \<and>
     RBT.lookup ecs = (RBT.lookup (m_open_ecs st))(a \<mapsto> left_margin a st)"
proof (cases "RBT.lookup (m_open_ecs st) a")
  case None
  then show ?thesis
    by (intro exI [of _ "RBT.insert a no_margin (m_open_ecs st)"]) (simp add: getOpenEC_def left_margin_def)
next
  case (Some m)
  then show ?thesis
    by (intro exI [of _ "m_open_ecs st"]) (auto simp: getOpenEC_def left_margin_def)
qed

lemma record_access_cases:
  assumes "m_import_write_ecs st"
  obtains (skip) s where "i < mi_dyninstr (left_margin a st)"
      "record_access (add_trace_event no_columns) t i a ev st = Some s"
      "RBT.lookup (m_open_ecs s) = (RBT.lookup (m_open_ecs st))(a \<mapsto> left_margin a st)"
      "inserted s = inserted st" "config s = config st" "m_time_trace_start s = m_time_trace_start st"
  | (close) r s where "mi_dyninstr (left_margin a st) \<le> i"
      "record_access (add_trace_event no_columns) t i a ev st = Some s"
      "RBT.lookup (m_open_ecs s) =
        (RBT.lookup (m_open_ecs st))(a \<mapsto> \<lparr>mi_dyninstr = i + 1, mi_ip = ip ev, mi_time = t + 1\<rparr>)"
      "inserted s = inserted st @ [r]" "config s = config st" "m_time_trace_start s = m_time_trace_start st"
      "im_row r = row_of (m_variant_id st)
         (if mi_time (left_margin a st) = 0 then (left_margin a st)\<lparr>mi_time := m_time_trace_start st\<rparr> else left_margin a st)
         \<lparr>mi_dyninstr = i, mi_ip = ip ev, mi_time = t\<rparr> (ev\<lparr>memaddr := Some a\<rparr>) False"
proof -
  let ?l = "if mi_time (left_margin a st) = 0 then (left_margin a st)\<lparr>mi_time := m_time_trace_start st\<rparr> else left_margin a st"
  let ?r = "\<lparr>mi_dyninstr = i, mi_ip = ip ev, mi_time = t\<rparr>"
  obtain ecs where g: "getOpenEC a st = (?l, st\<lparr>m_open_ecs := ecs\<rparr>)"
      and l: "RBT.lookup ecs = (RBT.lookup (m_open_ecs st))(a \<mapsto> left_margin a st)"
    using getOpenEC_left_margin [of a st] by blast
  have d: "mi_dyninstr ?l = mi_dyninstr (left_margin a st)" by simp
  show ?thesis
  proof (cases "i < mi_dyninstr (left_margin a st)")
    case True
    then have "record_access (add_trace_event no_columns) t i a ev st = Some (st\<lparr>m_open_ecs := ecs\<rparr>)"
      by (simp add: record_access_def g d)
    from skip [OF True this] l show ?thesis by (simp add: config_def)
  next
    case False
    obtain r where r: "add_trace_event no_columns ?l ?r (ev\<lparr>memaddr := Some a\<rparr>) False (st\<lparr>m_open_ecs := ecs\<rparr>) =
        Some (st\<lparr>m_open_ecs := ecs, m_row_count := m_row_count st + 1, inserted := inserted st @ [r]\<rparr>)"
        "im_row r = row_of (m_variant_id st) ?l ?r (ev\<lparr>memaddr := Some a\<rparr>) False"
      by (rule add_trace_event_unit [of "st\<lparr>m_open_ecs := ecs\<rparr>" ?l ?r "ev\<lparr>memaddr := Some a\<rparr>" False])
        (use assms in simp_all)
    let ?s = "newOpenEC a (t + 1) (i + 1) (ip ev)
        (st\<lparr>m_open_ecs := ecs, m_row_count := m_row_count st + 1, inserted := inserted st @ [r]\<rparr>)"
    have "record_access (add_trace_event no_columns) t i a ev st = Some ?s"
      using False r(1) by (simp add: record_access_def g d)
    from close [OF _ this] False l r(2) show ?thesis by (simp add: config_def newOpenEC_def)
  qed
qed

lemma left_margin_consecutive:
  assumes "ec_inv n st"
  shows "consecutive 0 (map instrs (rows_at (unat a) st)) (unat (mi_dyninstr (left_margin a st)))"
proof (cases "RBT.lookup (m_open_ecs st) a")
  case None
  with rows_at_closed [OF assms None] show ?thesis by (simp add: left_margin_def no_margin_def)
next
  case (Some m)
  with assms show ?thesis unfolding ec_inv_def left_margin_def by simp
qed

lemma instrs_row_of [simp]: "instrs (row_of v b e ev fake) = (unat (mi_dyninstr b), unat (mi_dyninstr e))"
  by (simp add: instrs_def row_of_def)

lemma row_of_address:
  "memaddr ev = Some a \<Longrightarrow> unat a < 2 ^ 32 \<Longrightarrow> t_data_address (row_of v b e ev fake) = unat a"
  by (simp add: row_of_def unat_column)

lemma t_variant_row_of [simp]: "t_variant (row_of v b e ev fake) = v"
  by (simp add: row_of_def)

lemma rows_at_snoc:
  assumes "inserted s = inserted st @ [r]"
  shows "rows_at x s = rows_at x st @ (if t_data_address (im_row r) = x then [im_row r] else [])"
  using assms by (simp add: rows_at_def address_rows_def)

lemma record_access_inv:
  assumes inv: "ec_inv (unat i + 1) st" and w: "m_import_write_ecs st" and a: "unat a < 2 ^ 32"
    and i: "unat i < 2 ^ 32 - 1"
  obtains s where "record_access (add_trace_event no_columns) t i a ev st = Some s"
    "ec_inv (unat i + 1) s" "config s = config st" "open_addresses s = insert a (open_addresses st)"
  using w
proof (cases rule: record_access_cases [of st i a t ev])
  case (skip s)
  have "mi_dyninstr (left_margin a st) \<noteq> 0" using skip(1) by (auto simp: word_less_nat_alt)
  then have "RBT.lookup (m_open_ecs st) a = Some (left_margin a st)"
    by (auto simp: left_margin_def no_margin_def split: option.splits)
  then have l: "RBT.lookup (m_open_ecs s) = RBT.lookup (m_open_ecs st)" using skip(3) by auto
  then have "ec_inv (unat i + 1) s"
    using inv skip(4,5) unfolding ec_inv_def open_addresses_def rows_at_def config_def by simp
  moreover have "open_addresses s = insert a (open_addresses st)"
    unfolding open_addresses_def skip(3) by simp
  ultimately show ?thesis using that skip by blast
next
  case (close r s)
  have i1: "unat (i + 1) = unat i + 1" using i by (simp add: unat_word_ariths)
  have ra: "t_data_address (im_row r) = unat a" using a by (simp add: close(7) row_of_address)
  have ri: "instrs (im_row r) = (unat (mi_dyninstr (left_margin a st)), unat i)"
    and rv: "t_variant (im_row r) = m_variant_id st" by (simp_all add: close(7))
  have dom: "open_addresses s = insert a (open_addresses st)" unfolding open_addresses_def close(3) by simp
  have "consecutive 0 (map instrs (rows_at (unat b) s)) (unat (mi_dyninstr m)) \<and> unat (mi_dyninstr m) \<le> unat i + 1 \<and> unat b < 2 ^ 32"
    if b: "RBT.lookup (m_open_ecs s) b = Some m" for b m
  proof (cases "b = a")
    case True
    have "consecutive 0 (map instrs (rows_at (unat a) st) @ [(unat (mi_dyninstr (left_margin a st)), unat i)]) (unat i + 1)"
      using consecutive_snoc [OF left_margin_consecutive [OF inv]] close(1) by (simp add: word_le_nat_alt)
    moreover have "map instrs (rows_at (unat a) s) =
        map instrs (rows_at (unat a) st) @ [(unat (mi_dyninstr (left_margin a st)), unat i)]"
      by (simp add: rows_at_snoc [OF close(4)] ra ri)
    moreover have "mi_dyninstr m = i + 1" using True b by (auto simp: close(3))
    ultimately show ?thesis using True a i1 by simp
  next
    case False
    then have "rows_at (unat b) s = rows_at (unat b) st" by (simp add: rows_at_snoc [OF close(4)] ra word_unat_eq_iff)
    with inv b False show ?thesis unfolding ec_inv_def close(3) by simp
  qed
  moreover have "t_variant (im_row x) = m_variant_id s \<and> t_data_address (im_row x) \<in> unat ` open_addresses s"
    if "x \<in> set (inserted s)" for x
    using that inv close(5) ra rv dom unfolding ec_inv_def close(4) by (auto simp: config_def)
  ultimately have "ec_inv (unat i + 1) s" unfolding ec_inv_def by blast
  with that close(2,5) dom show ?thesis by blast
qed


section \<open>Sequences of accesses at one instruction\<close>

text \<open>
  Steps a handler may take: accesses to addresses that fit the column of the table, and changes of the
  importer's private part of the state.
\<close>

inductive accesses :: "u64 \<Rightarrow> u32 \<Rightarrow> (unit, 'z) Importer_scheme \<Rightarrow> (unit, 'z) Importer_scheme \<Rightarrow> bool" for t i where
  accesses_refl: "accesses t i st st"
| accesses_step: "accesses t i st s \<Longrightarrow> unat a < 2 ^ 32 \<Longrightarrow>
    record_access (add_trace_event no_columns) t i a ev s = Some s' \<Longrightarrow> accesses t i st s'"
| accesses_private: "accesses t i st s \<Longrightarrow> Importer.truncate s' = Importer.truncate s \<Longrightarrow> accesses t i st s'"

lemma truncate_eq:
  assumes "Importer.truncate s' = Importer.truncate s"
  shows "config s' = config s" "m_open_ecs s' = m_open_ecs s" "inserted s' = inserted s"
    "m_time_trace_start s' = m_time_trace_start s"
  using assms by (simp_all add: Importer.truncate_def config_def)

lemma accesses_trans:
  "accesses t i s s' \<Longrightarrow> accesses t i st s \<Longrightarrow> accesses t i st s'"
  by (induction rule: accesses.induct) (auto intro: accesses.intros)

lemma accesses_inv:
  assumes "accesses t i st s" and "ec_inv (unat i + 1) st" and "m_import_write_ecs st" and "unat i < 2 ^ 32 - 1"
  shows "ec_inv (unat i + 1) s \<and> config s = config st \<and> open_addresses st \<subseteq> open_addresses s"
  using assms
proof (induction rule: accesses.induct)
  case (accesses_step st s a ev s')
  then have "m_import_write_ecs s" "ec_inv (unat i + 1) s" by (simp_all add: config_def)
  from record_access_inv [OF this(2,1) accesses_step.hyps(2) accesses_step.prems(3), of t ev]
  show ?case using accesses_step by (metis option.inject subset_insertI2)
next
  case (accesses_private st s s')
  then have *: "ec_inv (unat i + 1) s" "config s = config st" "open_addresses st \<subseteq> open_addresses s" by auto
  note eq = truncate_eq [OF accesses_private.hyps(2)]
  have "ec_inv (unat i + 1) s'" "open_addresses s' = open_addresses s"
    using *(1) eq unfolding ec_inv_def open_addresses_def rows_at_def config_def by simp_all
  with * eq(1) show ?case by simp
qed simp

lemma accesses_mono:
  assumes "accesses t i st s" and "m_import_write_ecs st"
  shows "config s = config st \<and> open_addresses st \<subseteq> open_addresses s"
  using assms
proof (induction rule: accesses.induct)
  case (accesses_step st s a ev s')
  then have "m_import_write_ecs s" by (simp add: config_def)
  then show ?case
    by (cases rule: record_access_cases [of s i a t ev])
      (use accesses_step in \<open>auto simp: open_addresses_def dom_def\<close>)
next
  case (accesses_private st s s')
  then show ?case using truncate_eq [OF accesses_private.hyps(2)] by (auto simp: open_addresses_def)
qed simp

lemma accesses_addr_loop:
  assumes "\<And>a s. from \<le> a \<Longrightarrow> a < to \<Longrightarrow> config s = config st \<Longrightarrow> \<exists>s'. body a s = Some s' \<and> accesses t i s s' \<and> P a s' \<and> config s' = config s"
    and "\<And>a s s'. P a s \<Longrightarrow> accesses t i s s' \<Longrightarrow> P a s'"
  shows "\<exists>s'. addr_loop body from to st = Some s' \<and> accesses t i st s' \<and> (\<forall>a. from \<le> a \<longrightarrow> a < to \<longrightarrow> P a s') \<and> config s' = config st"
  using assms
proof (induction body "from" to st rule: addr_loop.induct)
  case (1 body a to s)
  show ?case
  proof (cases "a < to")
    case True
    obtain s' where s': "body a s = Some s'" "accesses t i s s'" "P a s'" and c: "config s' = config s"
      using 1(2) [of a s] True by auto
    have ge: "a \<le> b" if "a + 1 \<le> b" for b
      using that unat_plus_one [OF True] by (simp add: word_le_nat_alt)
    have "\<exists>s''. addr_loop body (a + 1) to s' = Some s'' \<and> accesses t i s' s'' \<and>
        (\<forall>b. a + 1 \<le> b \<longrightarrow> b < to \<longrightarrow> P b s'') \<and> config s'' = config s'"
    proof (rule 1(1) [OF True s'(1)])
      show "\<exists>z. body b x = Some z \<and> accesses t i x z \<and> P b z \<and> config z = config x" if "a + 1 \<le> b" "b < to" "config x = config s'" for b x
        using 1(2) [OF ge [OF that(1)] that(2)] that(3) c by simp
      show "P b y" if "P b x" "accesses t i x y" for b x y using 1(3) [OF that] .
    qed
    then obtain s'' where s'': "addr_loop body (a + 1) to s' = Some s''" "accesses t i s' s''"
        "\<forall>b. a + 1 \<le> b \<longrightarrow> b < to \<longrightarrow> P b s''" "config s'' = config s'" by blast
    have "P b s''" if "a \<le> b" "b < to" for b
    proof (cases "b = a")
      case False
      then have "a + 1 \<le> b" using that unat_plus_one [OF True] by (simp add: word_le_nat_alt word_unat_eq_iff)
      with s''(3) that show ?thesis by blast
    qed (use 1(3) [OF s'(3) s''(2)] in simp)
    moreover have "addr_loop body a to s = Some s''" using True s'(1) s''(1) by (simp add: addr_loop.simps [of body a])
    ultimately show ?thesis using accesses_trans [OF s''(2) s'(2)] s''(4) c by auto
  next
    case False
    then have "addr_loop body a to s = Some s" by (simp add: addr_loop.simps)
    with False show ?thesis by (auto intro: accesses_refl)
  qed
qed

text \<open>Which addresses get an open class.\<close>

lemma record_access_opens:
  assumes "m_import_write_ecs st" and "record_access (add_trace_event no_columns) t i a ev st = Some s"
  shows "config s = config st" "open_addresses s = insert a (open_addresses st)"
  by (cases rule: record_access_cases [OF assms(1), of i a t ev]; use assms(2) in \<open>simp add: open_addresses_def\<close>)+

lemma addr_loop_opens:
  assumes "\<And>a s s'. from \<le> a \<Longrightarrow> a < to \<Longrightarrow> config s = config st \<Longrightarrow> body a s = Some s' \<Longrightarrow>
      config s' = config s \<and> open_addresses s' = open_addresses s \<union> (if Q a then {a} else {})"
    and "addr_loop body from to st = Some s"
  shows "open_addresses s = open_addresses st \<union> {a. from \<le> a \<and> a < to \<and> Q a}"
  using assms
proof (induction body "from" to st rule: addr_loop.induct)
  case (1 body a to st)
  show ?case
  proof (cases "a < to")
    case True
    then obtain s' where s': "body a st = Some s'" "addr_loop body (a + 1) to s' = Some s"
      using 1(3) by (auto simp: addr_loop.simps [of body a] split: option.splits)
    have n: "unat (a + 1) = unat a + 1" using unat_plus_one [OF True] .
    have step: "config s' = config st" "open_addresses s' = open_addresses st \<union> (if Q a then {a} else {})"
      using 1(2) [OF order_refl True refl s'(1)] by simp_all
    have "open_addresses s = open_addresses s' \<union> {b. a + 1 \<le> b \<and> b < to \<and> Q b}"
    proof (rule 1(1) [OF True s'(1) _ s'(2)])
      fix b x y assume "a + 1 \<le> b" "b < to" "config x = config s'" "body b x = Some y"
      moreover from this have "a \<le> b" using n by (simp add: word_le_nat_alt)
      ultimately show "config y = config x \<and> open_addresses y = open_addresses x \<union> (if Q b then {b} else {})"
        using 1(2) [of b x y] step(1) by simp
    qed
    moreover have "a \<le> b \<longleftrightarrow> b = a \<or> a + 1 \<le> b" for b using n by (auto simp: word_le_nat_alt word_unat_eq_iff)
    then have "{b. a \<le> b \<and> b < to \<and> Q b} = (if Q a then {a} else {}) \<union> {b. a + 1 \<le> b \<and> b < to \<and> Q b}" using True by auto
    ultimately show ?thesis using step(2) by (simp add: Un_assoc)
  next
    case False
    then have "s = st" using 1(3) by (simp add: addr_loop.simps)
    moreover have "{b. a \<le> b \<and> b < to \<and> Q b} = {}" using False by auto
    ultimately show ?thesis by (simp only: Un_empty_right)
  qed
qed

section \<open>The template on importers of accesses\<close>

definition ip_count :: "Trace_Event list \<Rightarrow> nat" where
  "ip_count evs = length (filter (\<lambda>ev. memaddr ev = None) evs)"

definition forward :: "Trace_Event \<Rightarrow> bool" where
  "forward ev \<longleftrightarrow> (case time_delta ev of None \<Rightarrow> True | Some d \<Rightarrow> 0 \<le> d)"

lemma ip_count_Cons [simp]: "ip_count (ev # evs) = (if memaddr ev = None then Suc (ip_count evs) else ip_count evs)"
  by (simp add: ip_count_def)

lemma ip_count_Nil [simp]: "ip_count [] = 0"
  by (simp add: ip_count_def)

lemma advance_clock_forward:
  assumes "forward ev"
  obtains now x where "advance_clock ev curtime st = Some (now, st\<lparr>m_time_trace_start := x\<rparr>)"
proof (cases "time_delta ev")
  case None
  with that [of curtime "m_time_trace_start st"] show ?thesis by (simp add: advance_clock_def)
next
  case (Some d)
  with assms that [of "curtime + of_int d" "if m_time_trace_start st = 0 then of_int d else m_time_trace_start st"]
  show ?thesis by (simp add: advance_clock_def forward_def split: if_splits)
qed

lemma ec_inv_clock [simp]: "ec_inv n (st\<lparr>m_time_trace_start := x\<rparr>) = ec_inv n st"
  by (simp add: ec_inv_def rows_at_def open_addresses_def)

lemma open_addresses_clock [simp]: "open_addresses (st\<lparr>m_time_trace_start := x\<rparr>) = open_addresses st"
  by (simp add: open_addresses_def)

lemma config_clock [simp]: "config (st\<lparr>m_time_trace_start := x\<rparr>) = config st"
  by (simp add: config_def)

lemma open_empty_ec:
  assumes "ec_inv n st" and "unat a < 2 ^ 32" and "RBT.lookup (m_open_ecs st) a = None"
  shows "ec_inv n (newOpenEC a t 0 0 st)"
proof -
  let ?s = "newOpenEC a t 0 0 st"
  have rows: "rows_at x ?s = rows_at x st" for x by (simp add: newOpenEC_def rows_at_def)
  have look: "RBT.lookup (m_open_ecs ?s) = (RBT.lookup (m_open_ecs st))(a \<mapsto> \<lparr>mi_dyninstr = 0, mi_ip = 0, mi_time = t\<rparr>)"
    by (simp add: newOpenEC_def)
  have "open_addresses st \<subseteq> open_addresses ?s" unfolding open_addresses_def look by auto
  moreover have "inserted ?s = inserted st" "m_variant_id ?s = m_variant_id st" by (simp_all add: newOpenEC_def)
  ultimately show ?thesis
    using assms(1,2) rows_at_closed [OF assms(1,3)] unfolding ec_inv_def rows look by auto (meson image_mono subsetD)
qed

lemma open_unused_inv:
  assumes "ec_inv n st" and "\<forall>mm. m_mm st = Some mm \<longrightarrow> (\<forall>a \<in> set (mm_elements mm). unat a < 2 ^ 32)"
  shows "ec_inv n (open_unused_ec_intervals st) \<and> config (open_unused_ec_intervals st) = config st \<and>
    inserted (open_unused_ec_intervals st) = inserted st \<and> m_last_instr (open_unused_ec_intervals st) = m_last_instr st \<and>
    open_addresses st \<union> (case m_mm st of None \<Rightarrow> {} | Some mm \<Rightarrow> set (mm_elements mm)) \<subseteq> open_addresses (open_unused_ec_intervals st)"
proof (cases "m_mm st")
  case (Some mm)
  let ?f = "\<lambda>s a. if RBT.lookup (m_open_ecs s) a = None then newOpenEC a (m_time_trace_start s) 0 0 s else s"
  have "ec_inv n (foldl ?f s as) \<and> config (foldl ?f s as) = config s \<and> inserted (foldl ?f s as) = inserted s \<and>
      m_last_instr (foldl ?f s as) = m_last_instr s \<and> open_addresses s \<union> set as \<subseteq> open_addresses (foldl ?f s as)"
    if "ec_inv n s" "\<forall>a \<in> set as. unat a < 2 ^ 32" for s :: "('a, 'b) Importer_scheme" and as
    using that
  proof (induction as arbitrary: s)
    case (Cons a as)
    have "ec_inv n (?f s a)" using Cons.prems by (auto intro: open_empty_ec)
    moreover have "config (?f s a) = config s" "inserted (?f s a) = inserted s" "m_last_instr (?f s a) = m_last_instr s"
      "insert a (open_addresses s) \<subseteq> open_addresses (?f s a)"
      by (auto simp: config_def newOpenEC_def open_addresses_def)
    ultimately show ?case using Cons.IH [of "?f s a"] Cons.prems(2) by auto
  qed simp
  from this [OF assms(1)] assms(2) Some show ?thesis by (simp add: open_unused_ec_intervals_def)
qed (use assms in \<open>simp add: open_unused_ec_intervals_def\<close>)

definition closed_rows :: "(unit, 'z) Importer_scheme \<Rightarrow> (unit, 'z) Importer_scheme \<Rightarrow> bool" where
  "closed_rows st s \<longleftrightarrow> config s = config st \<and> m_last_instr s = m_last_instr st \<and> m_open_ecs s = m_open_ecs st \<and>
     (\<exists>rs. inserted s = inserted st @ rs \<and> (\<forall>r \<in> set rs. t_variant (im_row r) = m_variant_id st))"

lemma close_ec_ok:
  assumes "virtual_add c = add_trace_event no_columns" and "m_import_write_ecs st" and "unat a < 2 ^ 32"
    and "consecutive 0 (map instrs (rows_at (unat a) st)) (unat (mi_dyninstr m))"
    and "unat (mi_dyninstr m) \<le> unat (m_last_instr st) + 1"
  obtains s where "close_ec c (a, m) st = Some s" "closed_rows st s"
    "consecutive 0 (map instrs (rows_at (unat a) s)) (unat (m_last_instr st) + 1)"
    "\<And>b. b \<noteq> unat a \<Longrightarrow> rows_at b s = rows_at b st"
proof (cases "mi_dyninstr m > m_last_instr st")
  case True
  then have "unat (mi_dyninstr m) = unat (m_last_instr st) + 1" using assms(5) by (simp add: word_less_nat_alt)
  moreover have "close_ec c (a, m) st = Some st" using True by (simp add: close_ec_def)
  ultimately show ?thesis using that [of st] assms(4) by (simp add: closed_rows_def)
next
  case False
  let ?e = "\<lparr>mi_dyninstr = m_last_instr st, mi_ip = m_last_ip st, mi_time = m_last_time st\<rparr>"
  let ?ev = "access_event ?e \<lparr>access_type = m_faultspace_rightmargin st, ai_data_address = a, ai_data_width = 1\<rparr>"
  obtain r where r: "add_trace_event no_columns m ?e ?ev True st =
      Some (st\<lparr>m_row_count := m_row_count st + 1, inserted := inserted st @ [r]\<rparr>)"
      "im_row r = row_of (m_variant_id st) m ?e ?ev True"
    using add_trace_event_unit [OF assms(2)] .
  let ?s = "st\<lparr>m_row_count := m_row_count st + 1, inserted := inserted st @ [r]\<rparr>"
  have "close_ec c (a, m) st = Some ?s" using False r(1) by (simp add: close_ec_def assms(1))
  moreover have "closed_rows st ?s" by (simp add: closed_rows_def config_def r(2))
  moreover
  have ra: "t_data_address (im_row r) = unat a"
    using assms(3) by (simp add: r(2) row_of_address access_event_def)
  have "map instrs (rows_at (unat a) ?s) = map instrs (rows_at (unat a) st) @ [(unat (mi_dyninstr m), unat (m_last_instr st))]"
    by (simp add: rows_at_def address_rows_def ra) (simp add: r(2))
  then have "consecutive 0 (map instrs (rows_at (unat a) ?s)) (unat (m_last_instr st) + 1)"
    using consecutive_snoc [OF assms(4)] False by (simp add: word_less_nat_alt)
  moreover have "rows_at b ?s = rows_at b st" if "b \<noteq> unat a" for b
    using that by (simp add: rows_at_def address_rows_def ra)
  ultimately show ?thesis by (rule that)
qed

lemma close_ecs_ok:
  assumes "virtual_add c = add_trace_event no_columns" and "m_import_write_ecs st" and "distinct (map fst es)"
    and "\<forall>(a, m) \<in> set es. unat a < 2 ^ 32 \<and> consecutive 0 (map instrs (rows_at (unat a) st)) (unat (mi_dyninstr m)) \<and>
      unat (mi_dyninstr m) \<le> unat (m_last_instr st) + 1"
  shows "\<exists>s. fold_option (close_ec c) es st = Some s \<and> closed_rows st s \<and>
    (\<forall>(a, m) \<in> set es. consecutive 0 (map instrs (rows_at (unat a) s)) (unat (m_last_instr st) + 1)) \<and>
    (\<forall>b. b \<notin> unat ` fst ` set es \<longrightarrow> rows_at b s = rows_at b st)"
  using assms
proof (induction es arbitrary: st)
  case Nil
  then show ?case by (simp add: closed_rows_def)
next
  case (Cons e es)
  obtain a m where e: "e = (a, m)" by (cases e)
  obtain s where s: "close_ec c (a, m) st = Some s" "closed_rows st s"
      "consecutive 0 (map instrs (rows_at (unat a) s)) (unat (m_last_instr st) + 1)"
      "\<And>b. b \<noteq> unat a \<Longrightarrow> rows_at b s = rows_at b st"
    using close_ec_ok [OF Cons.prems(1,2), of a m] Cons.prems(4) e by auto
  have eq: "m_import_write_ecs s" "m_last_instr s = m_last_instr st"
    using s(2) Cons.prems(2) by (simp_all add: closed_rows_def config_def)
  have a: "a \<notin> fst ` set es" using Cons.prems(3) e by simp
  have same: "rows_at (unat b) s = rows_at (unat b) st" if "b \<in> fst ` set es" for b
    using s(4) [of "unat b"] that a by (metis word_unat_eq_iff)
  have "\<exists>s'. fold_option (close_ec c) es s = Some s' \<and> closed_rows s s' \<and>
      (\<forall>(a, m) \<in> set es. consecutive 0 (map instrs (rows_at (unat a) s')) (unat (m_last_instr s) + 1)) \<and>
      (\<forall>b. b \<notin> unat ` fst ` set es \<longrightarrow> rows_at b s' = rows_at b s)"
    by (rule Cons.IH) (use Cons.prems eq same in \<open>force+\<close>)
  then obtain s' where s': "fold_option (close_ec c) es s = Some s'" "closed_rows s s'"
      "\<forall>(a, m) \<in> set es. consecutive 0 (map instrs (rows_at (unat a) s')) (unat (m_last_instr st) + 1)"
      "\<forall>b. b \<notin> unat ` fst ` set es \<longrightarrow> rows_at b s' = rows_at b s"
    using eq(2) by auto
  have "unat a \<notin> unat ` fst ` set es" using a by simp
  with s'(4) have "rows_at (unat a) s' = rows_at (unat a) s" by blast
  moreover have "closed_rows st s'"
    using s(2) s'(2) by (auto simp: closed_rows_def config_def)
  ultimately show ?case using s s' e by auto
qed

definition partitioned :: "nat \<Rightarrow> nat \<Rightarrow> nat set \<Rightarrow> trace_row list \<Rightarrow> bool" where
  "partitioned v n addrs rows \<longleftrightarrow>
     (\<forall>t \<in> set rows. t_variant t = v \<and> t_data_address t \<in> addrs) \<and>
     (\<forall>a \<in> addrs. consecutive 0 (map instrs (address_rows a rows)) n)"

lemma close_ec_intervals_partition:
  assumes "virtual_add c = add_trace_event no_columns" and "m_import_write_ecs st"
    and "ec_inv (unat (m_last_instr st) + 1) st"
  obtains s where "close_ec_intervals c st = Some s" "config s = config st" "m_open_ecs s = m_open_ecs st"
    "partitioned (m_variant_id st) (unat (m_last_instr st) + 1) (unat ` open_addresses st) (map im_row (inserted s))"
proof -
  let ?es = "RBT.entries (m_open_ecs st)"
  have look: "(a, m) \<in> set ?es \<longleftrightarrow> RBT.lookup (m_open_ecs st) a = Some m" for a m
    by (simp add: lookup_in_tree)
  have addrs: "fst ` set ?es = open_addresses st" 
    unfolding open_addresses_def dom_def by (auto simp: look) (metis fst_conv image_eqI look)
  have pre: "\<forall>(a, m) \<in> set ?es. unat a < 2 ^ 32 \<and> consecutive 0 (map instrs (rows_at (unat a) st)) (unat (mi_dyninstr m)) \<and>
      unat (mi_dyninstr m) \<le> unat (m_last_instr st) + 1"
    using assms(3) unfolding ec_inv_def by (auto simp: look)
  obtain s where s: "close_ec_intervals c st = Some s" "closed_rows st s"
      "\<forall>(a, m) \<in> set ?es. consecutive 0 (map instrs (rows_at (unat a) s)) (unat (m_last_instr st) + 1)"
      "\<forall>b. b \<notin> unat ` fst ` set ?es \<longrightarrow> rows_at b s = rows_at b st"
    using close_ecs_ok [OF assms(1,2) RBT.distinct_entries pre] unfolding close_ec_intervals_def by blast
  have "t_data_address t \<in> unat ` open_addresses st" if t: "t \<in> set (map im_row (inserted s))" for t
  proof (rule ccontr)
    assume out: "t_data_address t \<notin> unat ` open_addresses st"
    with s(4) addrs have "rows_at (t_data_address t) s = rows_at (t_data_address t) st" by auto
    moreover have "t \<in> set (rows_at (t_data_address t) s)" using t by (auto simp: rows_at_def address_rows_def)
    ultimately have "t \<in> set (rows_at (t_data_address t) st)" by simp
    with out assms(3) show False unfolding ec_inv_def rows_at_def address_rows_def by auto
  qed
  moreover have "t_variant t = m_variant_id st" if "t \<in> set (map im_row (inserted s))" for t
    using that s(2) assms(3) unfolding closed_rows_def ec_inv_def by auto
  moreover have "consecutive 0 (map instrs (address_rows (unat a) (map im_row (inserted s)))) (unat (m_last_instr st) + 1)"
    if "a \<in> open_addresses st" for a
    using that s(3) unfolding rows_at_def [symmetric] addrs [symmetric] by auto
  ultimately show ?thesis using that [OF s(1)] s(2) unfolding closed_rows_def partitioned_def by blast
qed

lemma memaccess_bound: "unat (if instr = 0 then 0 else instr - 1 :: u32) + 1 = max 1 (unat instr)"
  by (cases "instr = 0") (auto simp: unat_minus_one max_def unat_eq_zero [symmetric])

locale ec_importer =
  fixes c :: "(unit, 'z) Importer_scheme importer_class"
    and valid :: "Trace_Event \<Rightarrow> bool"
    and ready :: "(unit, 'z) Importer_scheme \<Rightarrow> bool"
    and touched :: "MemoryMap option \<Rightarrow> Trace_Event \<Rightarrow> u64 set"
    and whole_map :: bool
  assumes ip_event: "ready st \<Longrightarrow> m_import_write_ecs st \<Longrightarrow> valid ev \<Longrightarrow> memaddr ev = None \<Longrightarrow>
      \<exists>s. handle_ip_event c t i ev st = Some s \<and> accesses t i st s \<and> ready s \<and> open_addresses s = open_addresses st \<union> touched (m_mm st) ev"
    and mem_event: "ready st \<Longrightarrow> m_import_write_ecs st \<Longrightarrow> valid ev \<Longrightarrow> memaddr ev \<noteq> None \<Longrightarrow>
      \<exists>s. handle_mem_event c t i ev st = Some s \<and> accesses t i st s \<and> ready s \<and> open_addresses s = open_addresses st \<union> touched (m_mm st) ev"
    and ready_clock: "ready (st\<lparr>m_time_trace_start := x\<rparr>) = ready st"
    and end_reached: "trace_end_reached c st = Some st"
    and added: "virtual_add c = add_trace_event no_columns"
    and unused: "open_unused c = (if whole_map then open_unused_ec_intervals else (\<lambda>st. st))"
begin

lemma event_step:
  assumes "ready st" and "m_import_write_ecs st" and "valid ev" and "forward ev" and "ec_inv (unat i + 1) st" and "unat i < 2 ^ 32 - 1"
  obtains now x s where "advance_clock ev curtime st = Some (now, st\<lparr>m_time_trace_start := x\<rparr>)"
    "(if memaddr ev = None then handle_ip_event c else handle_mem_event c) now i ev (st\<lparr>m_time_trace_start := x\<rparr>) = Some s"
    "ready s" "ec_inv (unat i + 1) s" "config s = config st" "open_addresses s = open_addresses st \<union> touched (m_mm st) ev"
proof -
  obtain now x where clock: "advance_clock ev curtime st = Some (now, st\<lparr>m_time_trace_start := x\<rparr>)"
    using advance_clock_forward [OF assms(4)] .
  let ?st = "st\<lparr>m_time_trace_start := x\<rparr>" and ?h = "if memaddr ev = None then handle_ip_event c else handle_mem_event c"
  have "ready ?st" "m_import_write_ecs ?st" using assms(1,2) by (simp_all add: ready_clock)
  then have "\<exists>s. ?h now i ev ?st = Some s \<and> accesses now i ?st s \<and> ready s \<and> open_addresses s = open_addresses ?st \<union> touched (m_mm ?st) ev"
    using ip_event [OF _ _ assms(3), of ?st] mem_event [OF _ _ assms(3), of ?st] by (cases "memaddr ev = None") auto
  then obtain s where s: "?h now i ev ?st = Some s" "accesses now i ?st s" "ready s" "open_addresses s = open_addresses st \<union> touched (m_mm st) ev"
    by auto
  have "ec_inv (unat i + 1) s \<and> config s = config ?st \<and> open_addresses ?st \<subseteq> open_addresses s"
    by (rule accesses_inv [OF s(2)]) (use assms in simp_all)
  with that [OF clock s(1) s(3)] s(4) show thesis by simp
qed

lemma import_events_ok:
  assumes "ready st" and "m_import_write_ecs st" and "\<forall>ev \<in> set evs. valid ev \<and> forward ev"
    and "unat instr + ip_count evs < 2 ^ 32" and "instr_memaccess = (if instr = 0 then 0 else instr - 1)"
    and "ec_inv (unat instr_memaccess + 1) st"
  shows "\<exists>t s. import_events c evs curtime instr instr_memaccess st = Some (t, instr + of_nat (ip_count evs), s) \<and>
    ready s \<and> ec_inv (max 1 (unat instr + ip_count evs)) s \<and> config s = config st \<and>
    open_addresses s = open_addresses st \<union> (\<Union>ev \<in> set evs. touched (m_mm st) ev)"
  using assms
proof (induction evs arbitrary: curtime instr instr_memaccess st)
  case Nil
  have "unat instr_memaccess + 1 = max 1 (unat instr)" unfolding Nil(5) by (rule memaccess_bound)
  with Nil show ?case by simp
next
  case (Cons ev evs)
  have valid: "valid ev" "forward ev" using Cons.prems(3) by auto
  show ?case
  proof (cases "memaddr ev")
    case None
    have le: "unat instr_memaccess + 1 \<le> unat instr + 1" unfolding Cons.prems(5) memaccess_bound by simp
    have lt: "unat instr < 2 ^ 32 - 1" using Cons.prems(4) None by simp
    then have i1: "unat (instr + 1) = unat instr + 1" by (simp add: unat_word_ariths)
    obtain now x s where step: "advance_clock ev curtime st = Some (now, st\<lparr>m_time_trace_start := x\<rparr>)"
        "handle_ip_event c now instr ev (st\<lparr>m_time_trace_start := x\<rparr>) = Some s"
        "ready s" "ec_inv (unat instr + 1) s" "config s = config st" "open_addresses s = open_addresses st \<union> touched (m_mm st) ev"
      by (rule event_step [OF Cons.prems(1,2) valid ec_inv_mono [OF Cons.prems(6) le] lt, of curtime])
        (rule that; simp add: None)
    have "\<exists>t s'. import_events c evs now (instr + 1) instr s = Some (t, instr + 1 + of_nat (ip_count evs), s') \<and>
        ready s' \<and> ec_inv (max 1 (unat (instr + 1) + ip_count evs)) s' \<and> config s' = config s \<and>
        open_addresses s' = open_addresses s \<union> (\<Union>ev \<in> set evs. touched (m_mm s) ev)"
    proof (rule Cons.IH)
      show "instr = (if instr + 1 = 0 then 0 else instr + 1 - 1)" using i1 by auto
      show "m_import_write_ecs s" using step(5) Cons.prems(2) by (simp add: config_def)
    qed (use step Cons.prems None i1 in auto)
    moreover have "m_mm s = m_mm st" using step(5) by (simp add: config_def)
    ultimately show ?thesis using step None lt i1 by (auto simp: add.assoc Un_assoc)
  next
    case (Some a)
    have lt: "unat instr_memaccess < 2 ^ 32 - 1"
    proof -
      have "max 1 (unat instr) < 2 ^ 32" using Cons.prems(4) by simp
      with memaccess_bound [of instr, folded Cons.prems(5)] show ?thesis by simp
    qed
    obtain now x s where step: "advance_clock ev curtime st = Some (now, st\<lparr>m_time_trace_start := x\<rparr>)"
        "handle_mem_event c now instr_memaccess ev (st\<lparr>m_time_trace_start := x\<rparr>) = Some s"
        "ready s" "ec_inv (unat instr_memaccess + 1) s" "config s = config st" "open_addresses s = open_addresses st \<union> touched (m_mm st) ev"
      by (rule event_step [OF Cons.prems(1,2) valid Cons.prems(6) lt, of curtime]) (rule that; simp add: Some)
    have w: "m_import_write_ecs s" "m_mm s = m_mm st" using step(5) Cons.prems(2) by (simp_all add: config_def)
    have "\<exists>t s'. import_events c evs now instr instr_memaccess s = Some (t, instr + of_nat (ip_count evs), s') \<and>
        ready s' \<and> ec_inv (max 1 (unat instr + ip_count evs)) s' \<and> config s' = config s \<and>
        open_addresses s' = open_addresses s \<union> (\<Union>ev \<in> set evs. touched (m_mm s) ev)"
      by (rule Cons.IH) (use step w Cons.prems Some in auto)
    with step w(2) Some show ?thesis by (auto simp: Un_assoc)
  qed
qed

lemma import_partition:
  assumes "m_open_ecs st = RBT.empty" and "inserted st = []" and "ready st" and "m_import_write_ecs st"
    and "\<forall>ev \<in> set evs. valid ev \<and> forward ev" and "0 < ip_count evs" and "ip_count evs < 2 ^ 32"
    and "whole_map \<Longrightarrow> \<forall>mm. m_mm st = Some mm \<longrightarrow> (\<forall>a \<in> set (mm_elements mm). unat a < 2 ^ 32)"
  obtains s where "import_trace c evs st = Some s" "config s = config st"
    "partitioned (m_variant_id st) (ip_count evs) (unat ` open_addresses s) (map im_row (inserted s))"
    "(\<Union>ev \<in> set evs. touched (m_mm st) ev) \<subseteq> open_addresses s"
    "whole_map \<Longrightarrow> (case m_mm st of None \<Rightarrow> {} | Some mm \<Rightarrow> set (mm_elements mm)) \<subseteq> open_addresses s"
    "\<not> whole_map \<Longrightarrow> open_addresses s = (\<Union>ev \<in> set evs. touched (m_mm st) ev)"
proof -
  let ?n = "ip_count evs"
  have "ec_inv (unat (0 :: u32) + 1) st" using assms(1,2) by (simp add: ec_inv_def)
  from import_events_ok [OF assms(3,4,5), of 0 0, OF _ _ this, of 0] assms(7)
  obtain t s1 where s1: "import_events c evs 0 0 0 st = Some (t, of_nat ?n, s1)" "ec_inv (max 1 ?n) s1"
      "config s1 = config st" "open_addresses s1 = open_addresses st \<union> (\<Union>ev \<in> set evs. touched (m_mm st) ev)"
    by auto
  have e1: "open_addresses s1 = (\<Union>ev \<in> set evs. touched (m_mm st) ev)" using s1(4) assms(1) by (simp add: open_addresses_def)
  let ?s2 = "s1\<lparr>m_last_time := t, m_last_instr := of_nat ?n - 1, m_last_ip := (if evs = [] then 0 else ip (last evs))\<rparr>"
  have un: "unat (of_nat ?n :: u32) = ?n" using assms(7) by (simp add: unat_of_nat_u32)
  then have last: "unat (of_nat ?n - 1 :: u32) + 1 = ?n" using assms(6) unat_minus_one [of "of_nat ?n :: u32"] by fastforce
  have inv2: "ec_inv ?n ?s2" and c2: "config ?s2 = config st" and o2: "open_addresses ?s2 = open_addresses s1"
    using s1(2,3) assms(6) by (simp_all add: ec_inv_def rows_at_def open_addresses_def config_def max_def Suc_leI)
  define s3 where "s3 = open_unused c ?s2"
  have s3: "ec_inv ?n s3" "config s3 = config st" "m_last_instr s3 = of_nat ?n - 1" "open_addresses s1 \<subseteq> open_addresses s3"
      "whole_map \<Longrightarrow> (case m_mm st of None \<Rightarrow> {} | Some mm \<Rightarrow> set (mm_elements mm)) \<subseteq> open_addresses s3"
      "\<not> whole_map \<Longrightarrow> open_addresses s3 = open_addresses s1"
  proof -
    have "m_mm ?s2 = m_mm st" using c2 by (simp add: config_def)
    with open_unused_inv [OF inv2] assms(8) c2 o2 inv2
    show "ec_inv ?n s3" "config s3 = config st" "m_last_instr s3 = of_nat ?n - 1" "open_addresses s1 \<subseteq> open_addresses s3"
      "whole_map \<Longrightarrow> (case m_mm st of None \<Rightarrow> {} | Some mm \<Rightarrow> set (mm_elements mm)) \<subseteq> open_addresses s3"
      "\<not> whole_map \<Longrightarrow> open_addresses s3 = open_addresses s1"
      unfolding s3_def unused by (cases whole_map; simp)+
  qed
  have w3: "m_import_write_ecs s3" "m_variant_id s3 = m_variant_id st" using s3(2) assms(4) by (simp_all add: config_def)
  have inv3: "ec_inv (unat (m_last_instr s3) + 1) s3" using s3(1,3) last by simp
  obtain s where s: "close_ec_intervals c s3 = Some s" "config s = config s3" "m_open_ecs s = m_open_ecs s3"
      "partitioned (m_variant_id st) ?n (unat ` open_addresses s3) (map im_row (inserted s))"
    using close_ec_intervals_partition [OF added w3(1) inv3] unfolding w3(2) s3(3) last .
  have o: "open_addresses s = open_addresses s3" using s(3) by (simp add: open_addresses_def)
  have "import_trace c evs st = Some s"
    using s1(1) s(1) by (simp add: import_trace_def end_reached s3_def)
  then show thesis
  proof (rule that)
    show "config s = config st" using s(2) s3(2) by simp
    show "(\<Union>ev \<in> set evs. touched (m_mm st) ev) \<subseteq> open_addresses s" using s3(4) unfolding o e1 .
    show "partitioned (m_variant_id st) ?n (unat ` open_addresses s) (map im_row (inserted s))" using s(4) unfolding o .
    show "(case m_mm st of None \<Rightarrow> {} | Some mm \<Rightarrow> set (mm_elements mm)) \<subseteq> open_addresses s" if whole_map
      using s3(5) [OF that] unfolding o .
    show "open_addresses s = (\<Union>ev \<in> set evs. touched (m_mm st) ev)" if "\<not> whole_map"
      using s3(6) [OF that] unfolding o e1 .
  qed
qed

end

end
