(* ===== verification/Trace_Partition.thy ===== *)
theory Trace_Partition
  imports Trace_Coverage
begin

text \<open>
  The importers as interpretations of \<open>ec_importer\<close>, and what follows for the fault space: every
  coordinate lies in exactly one equivalence class, the primary key of the table is respected, and
  the sanity checks on instruction numbers succeed.
\<close>

section \<open>Byte loops\<close>

lemma mm_skips_config: "config s = config st \<Longrightarrow> mm_skips a s = mm_skips a st"
  by (simp add: mm_skips_def config_def)

lemma byte_loop:
  assumes w: "m_import_write_ecs st" and to: "unat to \<le> 2 ^ 32"
  shows "\<exists>s. addr_loop (\<lambda>a s. if mm_skips (f a) s then Some s
        else record_access (add_trace_event no_columns) t i a ev s) from to st = Some s \<and>
      accesses t i st s \<and> config s = config st \<and> open_addresses s = open_addresses st \<union> {a. from \<le> a \<and> a < to \<and> \<not> mm_skips (f a) st}"
proof -
  let ?body = "\<lambda>a s. if mm_skips (f a) s then Some s else record_access (add_trace_event no_columns) t i a ev s"
  have "\<exists>s'. ?body a s = Some s' \<and> accesses t i s s' \<and> True \<and> config s' = config s"
    if "from \<le> a" "a < to" "config s = config st" for a s
  proof (cases "mm_skips (f a) s")
    case False
    have a: "unat a < 2 ^ 32" using that(2) to by (simp add: word_less_nat_alt)
    have ws: "m_import_write_ecs s" using w that(3) by (simp add: config_def)
    obtain s' where s': "record_access (add_trace_event no_columns) t i a ev s = Some s'" "config s' = config s"
      by (cases rule: record_access_cases [OF ws, of i a t ev]) auto
    have "accesses t i s s'" using accesses_step [OF accesses_refl a s'(1)] .
    with s' False show ?thesis by auto
  qed (auto intro: accesses_refl)
  then have "\<exists>s'. addr_loop ?body from to st = Some s' \<and> accesses t i st s' \<and>
      (\<forall>a. from \<le> a \<longrightarrow> a < to \<longrightarrow> True) \<and> config s' = config st"
    by (intro accesses_addr_loop) blast+
  then obtain s where s: "addr_loop ?body from to st = Some s" "accesses t i st s" "config s = config st" by blast
  have "open_addresses s = open_addresses st \<union> {a. from \<le> a \<and> a < to \<and> \<not> mm_skips (f a) st}"
  proof (rule addr_loop_opens [OF _ s(1)])
    fix a x y assume x: "config x = config st" "?body a x = Some y"
    have "m_import_write_ecs x" using w x(1) by (simp add: config_def)
    with x show "config y = config x \<and> open_addresses y = open_addresses x \<union> (if \<not> mm_skips (f a) st then {a} else {})"
      using mm_skips_config [OF x(1), of "f a"] by (auto dest: record_access_opens split: if_splits)
  qed
  with s show ?thesis by blast
qed

section \<open>Memory accesses and instruction fetches\<close>

definition matches :: "MemoryMap option \<Rightarrow> u64 \<Rightarrow> bool" where
  "matches mm a = (case mm of None \<Rightarrow> True | Some m \<Rightarrow> isMatching m a)"

lemma mm_skips_matches: "mm_skips a st \<longleftrightarrow> \<not> matches (m_mm st) a"
  by (simp add: mm_skips_def matches_def split: option.splits)

definition accessed :: "MemoryMap option \<Rightarrow> Trace_Event \<Rightarrow> u64 set" where
  "accessed mm ev =
     (case memaddr ev of None \<Rightarrow> {} | Some a \<Rightarrow> {b. a \<le> b \<and> b < a + ucast (width ev) \<and> matches mm b})"

definition access_in_range :: "Trace_Event \<Rightarrow> bool" where
  "access_in_range ev = (case memaddr ev of None \<Rightarrow> True | Some a \<Rightarrow> unat a + unat (width ev) \<le> 2 ^ 32)"

definition fetched :: "instr_map \<Rightarrow> MemoryMap option \<Rightarrow> Trace_Event \<Rightarrow> u64 set" where
  "fetched imap mm ev =
     (if memaddr ev = None
      then (case imap (ucast (ip ev)) of
              None \<Rightarrow> {}
            | Some oc \<Rightarrow> {b. ip ev \<le> b \<and> b < ip ev + ucast (i_length oc) \<and> matches mm b})
      else {})"

definition fetch_in_range :: "Trace_Event \<Rightarrow> bool" where
  "fetch_in_range ev \<longleftrightarrow> unat (ip ev) + 255 < 2 ^ 32"

lemma unat_range:
  fixes a :: u64 and w :: "'a :: len word"
  assumes "unat a + unat w \<le> 2 ^ 32" and "LENGTH('a) \<le> 64"
  shows "unat (a + ucast w) = unat a + unat w"
  using assms by (simp add: unat_word_ariths unsigned_ucast_eq take_bit_nat_eq_self)

interpretation mi: ec_importer "MemoryImporter :: (unit, 'z) Importer_scheme importer_class"
  access_in_range "\<lambda>st. True" accessed True
proof unfold_locales
  fix st :: "(unit, 'z) Importer_scheme" and ev t i
  assume w: "m_import_write_ecs st" and ok: "access_in_range ev" and ma: "memaddr ev \<noteq> None"
  obtain a where a: "memaddr ev = Some a" using ma by blast
  have "unat (a + ucast (width ev)) \<le> 2 ^ 32"
    using ok a unat_range [of a "width ev"] by (simp add: access_in_range_def)
  from byte_loop [OF w this, of "\<lambda>a. a" t i "ev\<lparr>width := 1\<rparr>" a] a
  show "\<exists>s. handle_mem_event MemoryImporter t i ev st = Some s \<and> accesses t i st s \<and> True \<and>
      open_addresses s = open_addresses st \<union> accessed (m_mm st) ev"
    by (auto simp: MemoryImporter_def memory_handle_mem_event_def accessed_def mm_skips_matches)
qed (auto simp: MemoryImporter_def accessed_def intro: accesses_refl)

interpretation ii: ec_importer "InstructionImporter imap :: (unit, 'z) Importer_scheme importer_class"
  fetch_in_range m_elf "fetched imap" True for imap
proof unfold_locales
  fix st :: "(unit, 'z) Importer_scheme" and ev t i
  assume e: "m_elf st" and w: "m_import_write_ecs st" and ok: "fetch_in_range ev" and ma: "memaddr ev = None"
  show "\<exists>s. handle_ip_event (InstructionImporter imap) t i ev st = Some s \<and> accesses t i st s \<and> m_elf s \<and>
      open_addresses s = open_addresses st \<union> fetched imap (m_mm st) ev"
  proof (cases "imap (ucast (ip ev))")
    case None
    with e ma show ?thesis
      by (auto simp: InstructionImporter_def instruction_handle_ip_event_def fetched_def intro: accesses_refl)
  next
    case (Some oc)
    have "unat (i_length oc) < 256" using unsigned_less [of "i_length oc"] by simp
    then have "unat (ip ev + ucast (i_length oc)) \<le> 2 ^ 32"
      using ok unat_range [of "ip ev" "i_length oc"] by (simp add: fetch_in_range_def)
    from byte_loop [OF w this, of "\<lambda>a. a" t i "ev\<lparr>accesstype := READ, width := 1\<rparr>" "ip ev"] Some e ma
    show ?thesis
      by (auto simp: InstructionImporter_def instruction_handle_ip_event_def fetched_def mm_skips_matches config_def)
  qed
qed (auto simp: InstructionImporter_def fetched_def intro: accesses_refl)


section \<open>Register accesses\<close>

definition register_in_range :: "reginfo_t \<Rightarrow> bool" where
  "register_in_range info \<longleftrightarrow> unat (toDataAddress info) + unat (ri_width info) div 8 < 2 ^ 31"

definition registers_in_range :: "register_options \<Rightarrow> (16 word \<Rightarrow> reginfo_t option) \<Rightarrow> bool" where
  "registers_in_range cmd ctof \<longleftrightarrow>
     register_in_range (reginfo (rt_ip cmd) 32 0) \<and> (\<forall>r info. ctof r = Some info \<longrightarrow> register_in_range info)"

text \<open>The registers chosen on the command line, and the options after they were looked at for the first instruction.\<close>

definition import_register_ids :: "register_options \<Rightarrow> u32 set" where
  "import_register_ids cmd = (if NO_GP cmd then {} else set (rt_gp cmd)) \<union> (if FLAGS cmd then set (rt_st cmd) else {})"

definition register_options_set :: "register_options \<Rightarrow> unit RegisterImporter_state \<Rightarrow> bool" where
  "register_options_set cmd s \<longleftrightarrow> isDisassembled s \<and> m_ip_register_id s = rt_ip cmd \<and> do_ip s = IP cmd \<and>
     do_split_registers s = (\<not> NO_SPLIT cmd) \<and> m_register_ids s = import_register_ids cmd"

definition register_ready :: "register_options \<Rightarrow> unit RegisterImporter_state \<Rightarrow> bool" where
  "register_ready cmd st \<longleftrightarrow> m_elf st \<and> (if isDisassembled st then register_options_set cmd st else m_register_ids st = {})"

text \<open>
  The register bytes of an instruction event: those of the registers the instruction uses or defines, and of
  the program counter if wanted. A register has the data addresses of its bytes, or one when registers are
  not split.
\<close>

definition register_bytes :: "register_options \<Rightarrow> reginfo_t \<Rightarrow> nat set" where
  "register_bytes cmd info =
     (if NO_SPLIT cmd then {unat (toDataAddress info)}
      else {unat (toDataAddress info)..<unat (toDataAddress info) + unat (ri_width info) div 8})"

definition used_registers :: "register_options \<Rightarrow> (16 word \<Rightarrow> reginfo_t option) \<Rightarrow> 16 word list \<Rightarrow> reginfo_t set" where
  "used_registers cmd ctof rs = {info. \<exists>r \<in> set rs. ctof r = Some info \<and> ri_id info \<in> import_register_ids cmd}"

definition accessed_registers :: "register_options \<Rightarrow> instr_map \<Rightarrow> (16 word \<Rightarrow> reginfo_t option) \<Rightarrow> Trace_Event \<Rightarrow> reginfo_t set" where
  "accessed_registers cmd imap ctof ev =
     (if IP cmd then {reginfo (rt_ip cmd) 32 0} else {}) \<union>
     (case imap (ucast (ip ev)) of None \<Rightarrow> {} | Some oc \<Rightarrow> used_registers cmd ctof (reg_uses oc @ reg_defs oc))"

definition touched_registers ::
  "register_options \<Rightarrow> instr_map \<Rightarrow> (16 word \<Rightarrow> reginfo_t option) \<Rightarrow> MemoryMap option \<Rightarrow> Trace_Event \<Rightarrow> nat set" where
  "touched_registers cmd imap ctof mm ev =
     (if memaddr ev = None \<and> matches mm (ip ev) then (\<Union>info \<in> accessed_registers cmd imap ctof ev. register_bytes cmd info) else {})"

definition opened_by :: "register_options \<Rightarrow> MemoryMap option \<Rightarrow> Trace_Event \<Rightarrow> reginfo_t set \<Rightarrow> u64 set" where
  "opened_by cmd mm ev infos = {a. matches mm (ip ev) \<and> unat a \<in> (\<Union>info \<in> infos. register_bytes cmd info)}"

lemma opened_by_Un: "opened_by cmd mm ev (A \<union> B) = opened_by cmd mm ev A \<union> opened_by cmd mm ev B"
  by (auto simp: opened_by_def)

lemma opened_by_empty [simp]: "opened_by cmd mm ev {} = {}"
  by (simp add: opened_by_def)

lemma record_access_more:
  "record_access (add_trace_event no_columns) t i a ev st = Some s \<Longrightarrow> Importer.more s = Importer.more st"
  by (auto simp: record_access_def getOpenEC_def newOpenEC_def add_trace_event_def no_columns_def Let_def
      split: option.splits if_splits)

lemma register_range:
  assumes "register_in_range info"
  shows "unat (scast (toDataAddress info) :: u64) = unat (toDataAddress info)"
    and "unat (scast (toDataAddress info) + 1 :: u64) = unat (toDataAddress info) + 1"
    and "unat (ucast (toDataAddress info + ri_width info div 8) :: u64) = unat (toDataAddress info) + unat (ri_width info) div 8"
proof -
  have lt: "unat (toDataAddress info) < 2 ^ 31" "unat (toDataAddress info) + unat (ri_width info) div 8 < 2 ^ 31"
    using assms by (auto simp: register_in_range_def)
  have "\<not> bit (toDataAddress info) k" if "31 \<le> k" for k
    using bit_below [of "toDataAddress info" k 31] lt(1) that by auto
  then have "(scast (toDataAddress info) :: u64) = ucast (toDataAddress info)"
    by (intro bit_word_eqI) (auto simp: bit_signed_iff bit_ucast_iff min_def)
  then show f: "unat (scast (toDataAddress info) :: u64) = unat (toDataAddress info)"
    using lt(1) by (simp add: unsigned_ucast_eq take_bit_nat_eq_self)
  then show "unat (scast (toDataAddress info) + 1 :: u64) = unat (toDataAddress info) + 1"
    using lt(1) by (simp add: unat_word_ariths)
  have "unat (toDataAddress info + ri_width info div 8) = unat (toDataAddress info) + unat (ri_width info) div 8"
    using lt(2) by (simp add: unat_word_ariths unat_div)
  then show "unat (ucast (toDataAddress info + ri_width info div 8) :: u64) = unat (toDataAddress info) + unat (ri_width info) div 8"
    using lt(2) by (simp add: unsigned_ucast_eq take_bit_nat_eq_self)
qed

lemma register_access_ok:
  assumes "m_import_write_ecs st" and "register_in_range info" and "do_split_registers st = (\<not> NO_SPLIT cmd)"
  shows "\<exists>s. addRegisterTrace t i ev info acc st = Some s \<and> accesses t i st s \<and> config s = config st \<and>
    open_addresses s = open_addresses st \<union> opened_by cmd (m_mm st) ev {info}"
proof -
  let ?from = "scast (toDataAddress info) :: u64"
  let ?to = "if do_split_registers st then ucast (toDataAddress info + ri_width info div 8) else ?from + 1"
  note r = register_range [OF assms(2)]
  have lt: "unat (toDataAddress info) < 2 ^ 31" "unat (toDataAddress info) + unat (ri_width info) div 8 < 2 ^ 31"
    using assms(2) by (auto simp: register_in_range_def)
  have "unat ?to \<le> 2 ^ 32" using r lt by simp
  moreover have "{a. ?from \<le> a \<and> a < ?to \<and> \<not> mm_skips (ip ev) st} = opened_by cmd (m_mm st) ev {info}"
    using r assms(3) by (auto simp: opened_by_def register_bytes_def mm_skips_matches word_le_nat_alt word_less_nat_alt)
  ultimately show ?thesis
    using byte_loop [OF assms(1), of ?to "\<lambda>a. ip ev" t i _ ?from] unfolding addRegisterTrace_def Let_def by metis
qed

lemma addr_loop_keeps:
  assumes "\<And>a s s'. body a s = Some s' \<Longrightarrow> g s' = g s" and "addr_loop body a to st = Some s"
  shows "g s = g st"
  using assms
proof (induction body a to st rule: addr_loop.induct)
  case (1 body a to st)
  show ?case
  proof (cases "a < to")
    case True
    then obtain s' where s': "body a st = Some s'" "addr_loop body (a + 1) to s' = Some s"
      using 1(3) by (auto simp: addr_loop.simps [of body a] split: option.splits)
    from 1(1) [OF True s'(1) 1(2) s'(2)] 1(2) [OF s'(1)] show ?thesis by simp
  qed (use 1(3) in \<open>simp add: addr_loop.simps [of body a]\<close>)
qed

lemma addRegisterTrace_more:
  "addRegisterTrace t i ev info acc st = Some s \<Longrightarrow> Importer.more s = Importer.more st"
  unfolding addRegisterTrace_def Let_def
  by (rule addr_loop_keeps [of _ Importer.more]) (auto dest: record_access_more split: if_splits)

definition register_inv :: "register_options \<Rightarrow> unit RegisterImporter_state \<Rightarrow> bool" where
  "register_inv cmd s \<longleftrightarrow> m_import_write_ecs s \<and> m_elf s \<and> register_options_set cmd s"

text \<open>A step of the handler that opens the bytes of some registers.\<close>

definition register_step ::
  "register_options \<Rightarrow> u64 \<Rightarrow> u32 \<Rightarrow> Trace_Event \<Rightarrow> reginfo_t set \<Rightarrow> unit RegisterImporter_state \<Rightarrow> unit RegisterImporter_state \<Rightarrow> bool" where
  "register_step cmd t i ev infos s s' \<longleftrightarrow> accesses t i s s' \<and> register_inv cmd s' \<and> m_mm s' = m_mm s \<and>
     open_addresses s' = open_addresses s \<union> opened_by cmd (m_mm s) ev infos"

lemma register_step_refl: "register_inv cmd s \<Longrightarrow> register_step cmd t i ev {} s s"
  by (simp add: register_step_def accesses_refl)

lemma register_step_trans:
  "register_step cmd t i ev A s s' \<Longrightarrow> register_step cmd t i ev B s' s'' \<Longrightarrow> register_step cmd t i ev (A \<union> B) s s''"
  by (auto simp: register_step_def opened_by_Un intro: accesses_trans)

lemma addRegisterTrace_ok:
  assumes "register_inv cmd s" and "register_in_range info"
  shows "\<exists>s'. addRegisterTrace t i ev info acc s = Some s' \<and> register_step cmd t i ev {info} s s'"
proof -
  have "m_import_write_ecs s" "do_split_registers s = (\<not> NO_SPLIT cmd)" using assms(1) by (simp_all add: register_inv_def register_options_set_def)
  from register_access_ok [OF this(1) assms(2) this(2)] obtain s' where
    s': "addRegisterTrace t i ev info acc s = Some s'" "accesses t i s s'" "config s' = config s"
      "open_addresses s' = open_addresses s \<union> opened_by cmd (m_mm s) ev {info}" by blast
  have "isDisassembled s' = isDisassembled s" "m_ip_register_id s' = m_ip_register_id s" "do_ip s' = do_ip s"
      "do_split_registers s' = do_split_registers s" "m_register_ids s' = m_register_ids s"
    using addRegisterTrace_more [OF s'(1)] by (cases s; cases s'; simp)+
  with s' assms(1) show ?thesis by (auto simp: register_inv_def register_options_set_def register_step_def config_def)
qed

lemma register_use_ok:
  assumes "register_inv cmd s" and "registers_in_range cmd ctof"
  shows "\<exists>s'. register_use ctof t i ev acc r s = Some s' \<and> register_step cmd t i ev (used_registers cmd ctof [r]) s s'"
proof (cases "ctof r")
  case None
  then obtain f where f: "register_use ctof t i ev acc r s = Some (s\<lparr>m_regnotfound := f\<rparr>)"
    by (auto simp: register_use_def case_prod_beta Let_def)
  have "used_registers cmd ctof [r] = {}" using None by (simp add: used_registers_def)
  moreover have "accesses t i s (s\<lparr>m_regnotfound := f\<rparr>)"
    by (rule accesses_private [OF accesses_refl]) (simp add: Importer.truncate_def)
  ultimately show ?thesis using f assms(1)
    by (simp add: register_inv_def register_options_set_def register_step_def open_addresses_def)
next
  case (Some info)
  with assms(2) have range: "register_in_range info" by (simp add: registers_in_range_def)
  have ids: "m_register_ids s = import_register_ids cmd" using assms(1) by (simp add: register_inv_def register_options_set_def)
  show ?thesis
  proof (cases "ri_id info \<in> import_register_ids cmd")
    case True
    then have "used_registers cmd ctof [r] = {info}" using Some by (auto simp: used_registers_def)
    with addRegisterTrace_ok [OF assms(1) range] Some True ids show ?thesis by (simp add: register_use_def)
  next
    case False
    then have "used_registers cmd ctof [r] = {}" using Some by (simp add: used_registers_def)
    with register_step_refl [OF assms(1)] Some False ids show ?thesis by (simp add: register_use_def)
  qed
qed

lemma fold_register_use_ok:
  assumes "register_inv cmd s" and "registers_in_range cmd ctof"
  shows "\<exists>s'. fold_option (register_use ctof t i ev acc) rs s = Some s' \<and> register_step cmd t i ev (used_registers cmd ctof rs) s s'"
  using assms(1)
proof (induction rs arbitrary: s)
  case Nil
  have "used_registers cmd ctof [] = {}" by (simp add: used_registers_def)
  then show ?case using register_step_refl [OF Nil] by simp
next
  case (Cons r rs)
  from register_use_ok [OF Cons.prems assms(2)] obtain s' where
    s': "register_use ctof t i ev acc r s = Some s'" "register_step cmd t i ev (used_registers cmd ctof [r]) s s'" by blast
  then have "register_inv cmd s'" by (simp add: register_step_def)
  from Cons.IH [OF this] obtain s'' where s'': "fold_option (register_use ctof t i ev acc) rs s' = Some s''"
    "register_step cmd t i ev (used_registers cmd ctof rs) s' s''" by blast
  have "used_registers cmd ctof (r # rs) = used_registers cmd ctof [r] \<union> used_registers cmd ctof rs" by (auto simp: used_registers_def)
  then show ?case using register_step_trans [OF s'(2) s''(2)] s'(1) s''(1) by simp
qed

lemma register_setup_ok:
  assumes "register_ready cmd st" and "m_import_write_ecs st"
  shows "\<exists>s. register_setup cmd st = Some s \<and> accesses t i st s \<and> register_inv cmd s \<and> m_mm s = m_mm st \<and> open_addresses s = open_addresses st"
  using assms
  by (auto simp: register_setup_def register_ready_def register_inv_def register_options_set_def import_register_ids_def Let_def
      Importer.truncate_def open_addresses_def intro!: accesses_refl accesses_private [OF accesses_refl] split: if_splits)

lemma register_event_ok:
  assumes "register_inv cmd s1" and ok: "registers_in_range cmd ctof"
  shows "\<exists>s. do {
      st2 \<leftarrow> (if do_ip s1 then Option.bind (addRegisterTrace t i ev (reginfo (m_ip_register_id s1) 32 0) READ s1)
                (addRegisterTrace t i ev (reginfo (m_ip_register_id s1) 32 0) WRITE) else Some s1);
      (case imap (ucast (ip ev)) of None \<Rightarrow> Some st2 | Some oc \<Rightarrow>
         Option.bind (fold_option (register_use ctof t i ev READ) (reg_uses oc) st2)
           (fold_option (register_use ctof t i ev WRITE) (reg_defs oc))) } = Some s \<and>
    register_step cmd t i ev (accessed_registers cmd imap ctof ev) s1 s"
proof -
  let ?pc = "reginfo (m_ip_register_id s1) 32 0" and ?A = "if IP cmd then {reginfo (rt_ip cmd) 32 0} else {}"
  have o: "do_ip s1 = IP cmd" "m_ip_register_id s1 = rt_ip cmd" using assms(1) by (simp_all add: register_inv_def register_options_set_def)
  then have ipr: "register_in_range ?pc" using ok by (simp add: registers_in_range_def)
  obtain s2 where s2: "(if do_ip s1 then Option.bind (addRegisterTrace t i ev ?pc READ s1) (addRegisterTrace t i ev ?pc WRITE)
        else Some s1) = Some s2" "register_step cmd t i ev ?A s1 s2"
  proof (cases "IP cmd")
    case True
    obtain x where x: "addRegisterTrace t i ev ?pc READ s1 = Some x" "register_step cmd t i ev {?pc} s1 x"
      using addRegisterTrace_ok [OF assms(1) ipr] by blast
    then have "register_inv cmd x" by (simp add: register_step_def)
    then obtain y where "addRegisterTrace t i ev ?pc WRITE x = Some y" "register_step cmd t i ev {?pc} x y"
      using addRegisterTrace_ok [OF _ ipr] by blast
    with x register_step_trans [OF x(2)] True o that [of y] show ?thesis by fastforce
  qed (use that [of s1] register_step_refl [OF assms(1)] o in simp)
  then have inv2: "register_inv cmd s2" by (simp add: register_step_def)
  let ?B = "case imap (ucast (ip ev)) of None \<Rightarrow> {} | Some oc \<Rightarrow> used_registers cmd ctof (reg_uses oc @ reg_defs oc)"
  have "\<exists>s. (case imap (ucast (ip ev)) of None \<Rightarrow> Some s2 | Some oc \<Rightarrow>
      Option.bind (fold_option (register_use ctof t i ev READ) (reg_uses oc) s2)
        (fold_option (register_use ctof t i ev WRITE) (reg_defs oc))) = Some s \<and> register_step cmd t i ev ?B s2 s"
  proof (cases "imap (ucast (ip ev))")
    case (Some oc)
    obtain x where x: "fold_option (register_use ctof t i ev READ) (reg_uses oc) s2 = Some x"
        "register_step cmd t i ev (used_registers cmd ctof (reg_uses oc)) s2 x"
      using fold_register_use_ok [OF inv2 ok] by blast
    then have "register_inv cmd x" by (simp add: register_step_def)
    then obtain y where y: "fold_option (register_use ctof t i ev WRITE) (reg_defs oc) x = Some y"
        "register_step cmd t i ev (used_registers cmd ctof (reg_defs oc)) x y"
      using fold_register_use_ok [OF _ ok] by blast
    have "used_registers cmd ctof (reg_uses oc @ reg_defs oc) = used_registers cmd ctof (reg_uses oc) \<union> used_registers cmd ctof (reg_defs oc)"
      by (auto simp: used_registers_def)
    then show ?thesis using register_step_trans [OF x(2) y(2)] x(1) y(1) Some by simp
  qed (use register_step_refl [OF inv2] in simp)
  then obtain s where "(case imap (ucast (ip ev)) of None \<Rightarrow> Some s2 | Some oc \<Rightarrow>
      Option.bind (fold_option (register_use ctof t i ev READ) (reg_uses oc) s2)
        (fold_option (register_use ctof t i ev WRITE) (reg_defs oc))) = Some s" "register_step cmd t i ev ?B s2 s" by blast
  then show ?thesis using register_step_trans [OF s2(2)] unfolding s2(1) accessed_registers_def by (intro exI [of _ s]) simp
qed

interpretation ri: ec_importer "RegisterImporter cmd imap ctof"
  "\<lambda>ev. registers_in_range cmd ctof" "register_ready cmd" "\<lambda>mm ev. {a. unat a \<in> touched_registers cmd imap ctof mm ev}" False for cmd imap ctof
proof unfold_locales
  fix st :: "unit RegisterImporter_state" and ev :: Trace_Event and t :: u64 and i :: u32
  assume r: "register_ready cmd st" and w: "m_import_write_ecs st" and ok: "registers_in_range cmd ctof" and ma: "memaddr ev = None"
  obtain s1 where s1: "register_setup cmd st = Some s1" "accesses t i st s1" "register_inv cmd s1" "m_mm s1 = m_mm st"
      "open_addresses s1 = open_addresses st"
    using register_setup_ok [OF r w] by blast
  from register_event_ok [OF s1(3) ok, of t i ev imap] obtain s where
      s: "register_handle_ip_event cmd imap ctof t i ev st = Some s" "register_step cmd t i ev (accessed_registers cmd imap ctof ev) s1 s"
    by (auto simp: register_handle_ip_event_def s1(1) Let_def)
  have "opened_by cmd (m_mm st) ev (accessed_registers cmd imap ctof ev) = {a. unat a \<in> touched_registers cmd imap ctof (m_mm st) ev}"
    using ma by (auto simp: opened_by_def touched_registers_def)
  then show "\<exists>s. handle_ip_event (RegisterImporter cmd imap ctof) t i ev st = Some s \<and> accesses t i st s \<and>
      register_ready cmd s \<and> open_addresses s = open_addresses st \<union> {a. unat a \<in> touched_registers cmd imap ctof (m_mm st) ev}"
    using s s1(2,4,5) unfolding register_step_def
    by (auto simp: RegisterImporter_def register_inv_def register_ready_def register_options_set_def intro: accesses_trans)
qed (auto simp: RegisterImporter_def register_ready_def register_options_set_def touched_registers_def intro: accesses_refl)

lemma touched_registers_small:
  assumes "registers_in_range cmd ctof"
  shows "touched_registers cmd imap ctof mm ev \<subseteq> {..<2 ^ 32}"
proof -
  have "register_in_range info" if "info \<in> accessed_registers cmd imap ctof ev" for info
    using that assms by (auto simp: accessed_registers_def used_registers_def registers_in_range_def split: if_splits option.splits)
  then show ?thesis unfolding touched_registers_def register_bytes_def by (fastforce simp: register_in_range_def split: if_splits)
qed

end
