(* ===== verification/Trace_Sanity.thy ===== *)
theory Trace_Sanity
  imports Trace_Partition
begin

text \<open>
  Consequences of the partition for the table: coordinates are covered exactly once, the primary key
  is respected, and the sanity checks succeed, those on instruction numbers always and those on times
  for traces with a strictly increasing clock.
\<close>

section \<open>Rows of consecutive intervals\<close>

definition columns :: "(trace_row \<Rightarrow> nat) \<Rightarrow> (trace_row \<Rightarrow> nat) \<Rightarrow> trace_row \<Rightarrow> nat \<times> nat" where
  "columns lo hi t = (lo t, hi t)"

definition partitioned_by ::
  "(trace_row \<Rightarrow> nat) \<Rightarrow> (trace_row \<Rightarrow> nat) \<Rightarrow> nat \<Rightarrow> nat \<Rightarrow> nat \<Rightarrow> nat set \<Rightarrow> trace_row list \<Rightarrow> bool" where
  "partitioned_by lo hi v l r addrs rows \<longleftrightarrow>
     (\<forall>t \<in> set rows. t_variant t = v \<and> t_data_address t \<in> addrs) \<and>
     (\<forall>a \<in> addrs. consecutive l (map (columns lo hi) (address_rows a rows)) r)"

lemma partitioned_columns: "partitioned v n addrs rows \<longleftrightarrow> partitioned_by t_instr1 t_instr2 v 0 n addrs rows"
proof -
  have "instrs = columns t_instr1 t_instr2" by (rule ext) (simp add: instrs_def columns_def)
  then show ?thesis by (simp add: partitioned_def partitioned_by_def)
qed

lemma consecutive_disjoint:
  "consecutive l xs r \<Longrightarrow> (a, b) \<in> set xs \<Longrightarrow> (c, d) \<in> set xs \<Longrightarrow> a \<noteq> c \<Longrightarrow> b < c \<or> d < a"
proof (induction l xs r rule: consecutive.induct)
  case (2 l e f xs r)
  then have "\<forall>(x, y) \<in> set xs. f < x" using consecutive_bounds [of "f + 1" xs r] by fastforce
  with 2 show ?case by auto
qed simp

lemma consecutive_ends:
  "consecutive l xs r \<Longrightarrow> l < r \<Longrightarrow> l \<in> fst ` set xs \<and> r - 1 \<in> snd ` set xs"
proof (induction l xs r rule: consecutive.induct)
  case (2 l a b xs r)
  have c: "consecutive (b + 1) xs r" "a = l" using 2(2) by simp_all
  have "b + 1 \<le> r" using consecutive_bounds [OF c(1)] by simp
  then consider "b + 1 = r" | "b + 1 < r" by linarith
  then show ?case
  proof cases
    case 2
    from "2.IH" [OF c(1) this] c(2) show ?thesis by auto
  qed (use c(2) in auto)
qed simp

lemma consecutive_extremes:
  assumes "consecutive l xs r" and "l < r"
  shows "Min (fst ` set xs) = l" and "Max (snd ` set xs) = r - 1"
proof -
  have "\<forall>(a, b) \<in> set xs. l \<le> a \<and> b \<le> r - 1" using consecutive_bounds [OF assms(1)] by fastforce
  then show "Min (fst ` set xs) = l" "Max (snd ` set xs) = r - 1"
    using consecutive_ends [OF assms] by (auto intro!: Min_eqI Max_eqI)
qed

lemma consecutive_sum:
  "consecutive l (map (columns lo hi) ts) r \<Longrightarrow> sum_widths lo hi ts = Some (r - l)"
proof (induction ts arbitrary: l)
  case (Cons t ts)
  have "columns lo hi t = (lo t, hi t)" by (simp add: columns_def)
  with Cons.prems have c: "lo t = l" "l \<le> hi t" "consecutive (hi t + 1) (map (columns lo hi) ts) r" by auto
  have "hi t + 1 \<le> r" using consecutive_bounds [OF c(3)] by simp
  with Cons.IH [OF c(3)] c(1,2) show ?case by (simp add: sub_unsigned_def)
qed simp

lemma address_rows_of: "t \<in> set rows \<Longrightarrow> t \<in> set (address_rows (t_data_address t) rows)"
  by (simp add: address_rows_def)

lemma partitioned_extremes:
  assumes p: "partitioned_by lo hi v l r addrs rows" and "l < r" and a: "a \<in> addrs"
  shows "Min (lo ` set (address_rows a rows)) = l" "Max (hi ` set (address_rows a rows)) = r - 1"
    "Min (lo ` set rows) = l" "Max (hi ` set rows) = r - 1"
proof -
  have c: "consecutive l (map (columns lo hi) (address_rows b rows)) r" if "b \<in> addrs" for b
    using p that by (simp add: partitioned_by_def)
  have img: "fst ` set (map (columns lo hi) ts) = lo ` set ts" "snd ` set (map (columns lo hi) ts) = hi ` set ts" for ts
    by (auto simp: columns_def image_image)
  from consecutive_extremes [OF c [OF a] assms(2)] consecutive_ends [OF c [OF a] assms(2)]
  show "Min (lo ` set (address_rows a rows)) = l" "Max (hi ` set (address_rows a rows)) = r - 1"
    unfolding img by auto
  have in_a: "l \<in> lo ` set rows" "r - 1 \<in> hi ` set rows"
    using consecutive_ends [OF c [OF a] assms(2)] unfolding img by (auto simp: address_rows_def)
  have "l \<le> lo t \<and> hi t \<le> r - 1" if "t \<in> set rows" for t
  proof -
    have "t_data_address t \<in> addrs" using p that by (simp add: partitioned_by_def)
    from consecutive_bounds [OF c [OF this]] address_rows_of [OF that]
    show ?thesis by (fastforce simp: columns_def)
  qed
  with in_a show "Min (lo ` set rows) = l" "Max (hi ` set rows) = r - 1"
    by (auto intro!: Min_eqI Max_eqI)
qed

lemma variant_rows_fresh:
  assumes "partitioned_by lo hi v l r addrs rows" and "\<forall>t \<in> set table. t_variant t \<noteq> v"
  shows "variant_rows v (table @ rows) = rows"
  using assms by (auto simp: variant_rows_def partitioned_by_def filter_empty_conv filter_id_conv)

lemma partitioned_checks:
  assumes p: "partitioned_by lo hi v l r addrs rows" and "l < r" and fresh: "\<forall>t \<in> set table. t_variant t \<noteq> v"
  shows "\<not> ec_overlaps lo hi v (table @ rows)" "ec_covered lo hi v (table @ rows)" "ec_rectangular lo hi v (table @ rows)"
proof -
  note vr = variant_rows_fresh [OF p fresh]
  have c: "consecutive l (map (columns lo hi) (address_rows a rows)) r" if "a \<in> addrs" for a
    using p that by (simp add: partitioned_by_def)
  have addr: "t_data_address t \<in> addrs" if "t \<in> set rows" for t using p that by (simp add: partitioned_by_def)
  have apart: "hi t1 < lo t2 \<or> hi t2 < lo t1" "lo t1 \<le> hi t1" "lo t2 \<le> hi t2"
    if t: "t1 \<in> set rows" "t2 \<in> set rows" "t_data_address t1 = t_data_address t2" "lo t1 \<noteq> lo t2" for t1 t2
  proof -
    let ?xs = "map (columns lo hi) (address_rows (t_data_address t1) rows)"
    have mem: "(lo t1, hi t1) \<in> set ?xs" "(lo t2, hi t2) \<in> set ?xs"
      using t by (auto simp: address_rows_def columns_def image_iff)
    show "hi t1 < lo t2 \<or> hi t2 < lo t1"
      using consecutive_disjoint [OF c [OF addr [OF t(1)]] mem t(4)] .
    show "lo t1 \<le> hi t1" "lo t2 \<le> hi t2" using consecutive_bounds [OF c [OF addr [OF t(1)]]] mem by fastforce+
  qed
  show "\<not> ec_overlaps lo hi v (table @ rows)"
  proof
    assume "ec_overlaps lo hi v (table @ rows)"
    then obtain t1 t2 where t: "t1 \<in> set rows" "t2 \<in> set rows" "t_data_address t1 = t_data_address t2" "lo t1 \<noteq> lo t2"
        "lo t2 \<le> lo t1 \<and> lo t1 \<le> hi t2 \<or> lo t2 \<le> hi t1 \<and> hi t1 \<le> hi t2 \<or> lo t1 < lo t2 \<and> hi t2 < hi t1"
      unfolding ec_overlaps_def vr by blast
    from apart [OF t(1-4)] t(5) show False by linarith
  qed
  show "ec_covered lo hi v (table @ rows)"
    unfolding ec_covered_def vr Let_def
  proof (intro ballI)
    fix a assume "a \<in> t_data_address ` set rows"
    then have a: "a \<in> addrs" using addr by blast
    show "case sub_unsigned (Max (hi ` set rows)) (Min (lo ` set rows)) of None \<Rightarrow> False
        | Some d \<Rightarrow> sum_widths lo hi (address_rows a rows) = Some (d + 1)"
      using partitioned_extremes(3,4) [OF p assms(2) a] consecutive_sum [OF c [OF a]] assms(2)
      by (auto simp: sub_unsigned_def)
  qed
  show "ec_rectangular lo hi v (table @ rows)"
    unfolding ec_rectangular_def vr Let_def
  proof (intro ballI)
    fix a assume "a \<in> t_data_address ` set rows"
    then have "a \<in> addrs" using addr by blast
    from partitioned_extremes [OF p assms(2) this]
    show "Min (lo ` set (address_rows a rows)) = Min (lo ` set rows) \<and> Max (hi ` set (address_rows a rows)) = Max (hi ` set rows)"
      by simp
  qed
qed

lemma distinct_by_class:
  assumes "\<And>x y. f x = f y \<Longrightarrow> g x = g y" and "\<And>k. distinct (map f (filter (\<lambda>x. g x = k) xs))"
  shows "distinct (map f xs)"
  using assms(2)
proof (induction xs)
  case (Cons x xs)
  have "distinct (map f (filter (\<lambda>x. g x = k) xs))" for k using Cons.prems [of k] by (auto split: if_splits)
  moreover have "f x \<notin> f ` set xs"
  proof
    assume "f x \<in> f ` set xs"
    then obtain y where y: "y \<in> set xs" "f x = f y" by auto
    with assms(1) have "g y = g x" by metis
    with Cons.prems [of "g x"] y show False by auto
  qed
  ultimately show ?case using Cons.IH by simp
qed simp

lemma partitioned_keys:
  assumes "partitioned v n addrs rows"
  shows "distinct (map trace_key rows)"
proof (rule distinct_by_class [where g = t_data_address])
  show "t_data_address x = t_data_address y" if "trace_key x = trace_key y" for x y
    using that by (simp add: trace_key_def)
  show "distinct (map trace_key (filter (\<lambda>t. t_data_address t = a) rows))" for a
  proof (cases "a \<in> addrs")
    case True
    then have "distinct (map snd (map instrs (address_rows a rows)))"
      by (intro consecutive_distinct_ends [of 0 _ n]) (use assms in \<open>simp add: partitioned_def\<close>)
    then show ?thesis
      by (auto simp: address_rows_def distinct_map inj_on_def instrs_def trace_key_def)
  next
    case False
    then have "filter (\<lambda>t. t_data_address t = a) rows = []"
      using assms by (auto simp: partitioned_def filter_empty_conv)
    then show ?thesis by simp
  qed
qed

lemma partitioned_once:
  assumes "partitioned v n addrs rows" and "a \<in> addrs" and "i < n"
  shows "length (filter (\<lambda>t. t_data_address t = a \<and> t_instr1 t \<le> i \<and> i \<le> t_instr2 t) rows) = 1"
proof -
  have "length (filter (\<lambda>(x, y). x \<le> i \<and> i \<le> y) (map instrs (address_rows a rows))) = 1"
    using consecutive_cover [of 0 "map instrs (address_rows a rows)" n i] assms by (auto simp: partitioned_def)
  then show ?thesis by (simp add: filter_map address_rows_def instrs_def comp_def conj_commute)
qed

section \<open>Imported fault spaces\<close>

definition covers :: "nat \<Rightarrow> nat \<Rightarrow> trace_row \<Rightarrow> bool" where
  "covers a i t \<longleftrightarrow> t_data_address t = a \<and> t_instr1 t \<le> i \<and> i \<le> t_instr2 t"

definition mapped_addresses :: "MemoryMap option \<Rightarrow> u64 set" where
  "mapped_addresses mm = (case mm of None \<Rightarrow> {} | Some m \<Rightarrow> set (mm_elements m))"

definition fresh_import :: "('x, 'z) Importer_scheme \<Rightarrow> bool" where
  "fresh_import st \<longleftrightarrow> m_open_ecs st = RBT.empty \<and> inserted st = [] \<and> m_import_write_ecs st \<and>
     (\<forall>a \<in> mapped_addresses (m_mm st). unat a < 2 ^ 32)"

definition importable :: "Trace_Event list \<Rightarrow> bool" where
  "importable evs \<longleftrightarrow> (\<forall>ev \<in> set evs. forward ev) \<and> 0 < ip_count evs \<and> ip_count evs < 2 ^ 32"

definition fault_space :: "nat \<Rightarrow> nat \<Rightarrow> nat set \<Rightarrow> trace_row list \<Rightarrow> bool" where
  "fault_space v n addrs rows \<longleftrightarrow>
     (\<forall>a \<in> addrs. \<forall>i < n. length (filter (covers a i) rows) = 1) \<and>
     (\<forall>t \<in> set rows. t_variant t = v \<and> t_data_address t \<in> addrs \<and> t_instr1 t \<le> t_instr2 t \<and> t_instr2 t < n) \<and>
     distinct (map trace_key rows)"

lemma partitioned_fault_space:
  assumes p: "partitioned v n addrs rows"
  shows "fault_space v n addrs rows"
proof -
  have "t_instr1 t \<le> t_instr2 t \<and> t_instr2 t < n" if "t \<in> set rows" for t
  proof -
    have "consecutive 0 (map instrs (address_rows (t_data_address t) rows)) n" using p that by (simp add: partitioned_def)
    from consecutive_bounds [OF this] address_rows_of [OF that] show ?thesis by (fastforce simp: instrs_def)
  qed
  moreover have "length (filter (covers a i) rows) = 1" if "a \<in> addrs" "i < n" for a i
    using partitioned_once [OF p that] by (simp add: covers_def [abs_def])
  moreover have "t_variant t = v \<and> t_data_address t \<in> addrs" if "t \<in> set rows" for t
    using p that by (simp add: partitioned_def)
  ultimately show ?thesis using partitioned_keys [OF p] unfolding fault_space_def by simp
qed

lemma copy_unchecked:
  "import_trace c evs st = Some s \<Longrightarrow> \<not> m_sanitychecks s \<Longrightarrow> copy_to_database c table evs st = Some s"
  by (simp add: copy_to_database_def)

text \<open>
  C4. Importing memory accesses partitions the fault space. The import of a trace with at least one
  instruction, non-negative time deltas and accesses below 4 GiB succeeds; for every address of the
  memory map and every accessed address within it, each dynamic instruction of the trace lies in
  exactly one imported equivalence class; no class reaches beyond the trace; and no two rows have the
  same primary key.
\<close>

theorem memory_import_partitions:
  assumes "fresh_import st" and "\<not> m_sanitychecks st" and "importable evs" and "\<forall>ev \<in> set evs. access_in_range ev"
  shows "\<exists>s addrs. copy_to_database MemoryImporter table evs st = Some s \<and>
    (\<Union>ev \<in> set evs. accessed (m_mm st) ev) \<union> mapped_addresses (m_mm st) \<subseteq> addrs \<and>
    fault_space (m_variant_id st) (ip_count evs) (unat ` addrs) (map im_row (inserted s))"
proof -
  obtain s where s: "import_trace MemoryImporter evs st = Some s" "config s = config st"
      "partitioned (m_variant_id st) (ip_count evs) (unat ` open_addresses s) (map im_row (inserted s))"
      "(\<Union>ev \<in> set evs. accessed (m_mm st) ev) \<subseteq> open_addresses s" "mapped_addresses (m_mm st) \<subseteq> open_addresses s"
    by (rule mi.import_partition [of st evs])
      (use assms in \<open>auto simp: fresh_import_def importable_def mapped_addresses_def\<close>)
  have "copy_to_database MemoryImporter table evs st = Some s"
    by (rule copy_unchecked [OF s(1)]) (use s(2) assms(2) in \<open>simp add: config_def\<close>)
  with s(4,5) partitioned_fault_space [OF s(3)] show ?thesis by blast
qed

definition demo_importer :: "unit Importer" where
  "demo_importer =
     \<lparr>m_variant_id = 1, m_elf = True, m_mm = Some \<lparr>isMatching = (\<lambda>a. 100 \<le> a \<and> a < 104), mm_elements = [100, 101, 102, 103]\<rparr>,
      m_faultspace_rightmargin = W, m_sanitychecks = False, m_import_write_ecs = True, m_extended_trace = False,
      m_extended_trace_regs = [], m_row_count = 0, m_time_trace_start = 0, m_open_ecs = RBT.empty,
      m_last_ip = 0, m_last_instr = 0, m_last_time = 0, inserted = []\<rparr>"

definition ip_ev :: "u64 \<Rightarrow> Trace_Event" where
  "ip_ev a = \<lparr>ip = a, time_delta = Some 5, memaddr = None, width = 0, accesstype = READ, trace_ext = None\<rparr>"

definition mem_ev :: "u64 \<Rightarrow> u64 \<Rightarrow> u32 \<Rightarrow> AccessType \<Rightarrow> Trace_Event" where
  "mem_ev i a w acc = \<lparr>ip = i, time_delta = None, memaddr = Some a, width = w, accesstype = acc, trace_ext = None\<rparr>"

definition demo_import :: "Trace_Event list" where
  "demo_import = [ip_ev 16, mem_ev 16 100 2 WRITE, ip_ev 18, ip_ev 20, mem_ev 20 101 2 READ, mem_ev 20 101 2 WRITE, ip_ev 22]"

lemma demo_fresh: "fresh_import demo_importer" "\<not> m_sanitychecks demo_importer"
  by (simp_all add: fresh_import_def demo_importer_def mapped_addresses_def)

lemma demo_importable: "importable demo_import" "\<forall>ev \<in> set demo_import. access_in_range ev"
  by (simp_all add: importable_def demo_import_def ip_ev_def mem_ev_def forward_def access_in_range_def)

lemma demo_rows:
  "map_option (\<lambda>s. map (\<lambda>r. (t_data_address (im_row r), instrs (im_row r), t_accesstype (im_row r))) (inserted s))
     (copy_to_database MemoryImporter [] demo_import demo_importer) =
   Some [(100, (0, 0), W), (101, (0, 0), W), (101, (1, 2), R), (102, (0, 2), R),
         (100, (1, 3), W), (101, (3, 3), W), (102, (3, 3), W), (103, (0, 3), W)]"
  by code_simp

theorem memory_import_partitions_witness:
  "\<exists>s addrs. copy_to_database MemoryImporter [] demo_import demo_importer = Some s \<and> {100 :: u64, 101, 102, 103} \<subseteq> addrs \<and>
     fault_space 1 4 (unat ` addrs) (map im_row (inserted s))"
proof -
  have eqs: "m_variant_id demo_importer = 1" "ip_count demo_import = 4" "mapped_addresses (m_mm demo_importer) = {100, 101, 102, 103}"
    by (auto simp: demo_importer_def mapped_addresses_def demo_import_def ip_ev_def mem_ev_def)
  show ?thesis
    using memory_import_partitions [OF demo_fresh demo_importable, of "[]"] unfolding eqs le_sup_iff
    by (elim exE conjE) (intro exI conjI, assumption+)
qed

text \<open>Instruction fetches: the same for the bytes of the executed instructions.\<close>

lemma instruction_import_partitions:
  assumes "fresh_import st" and "m_elf st" and "\<not> m_sanitychecks st" and "importable evs" and "\<forall>ev \<in> set evs. fetch_in_range ev"
  shows "\<exists>s addrs. copy_to_database (InstructionImporter imap) table evs st = Some s \<and>
    (\<Union>ev \<in> set evs. fetched imap (m_mm st) ev) \<union> mapped_addresses (m_mm st) \<subseteq> addrs \<and>
    fault_space (m_variant_id st) (ip_count evs) (unat ` addrs) (map im_row (inserted s))"
proof -
  obtain s where s: "import_trace (InstructionImporter imap) evs st = Some s" "config s = config st"
      "partitioned (m_variant_id st) (ip_count evs) (unat ` open_addresses s) (map im_row (inserted s))"
      "(\<Union>ev \<in> set evs. fetched imap (m_mm st) ev) \<subseteq> open_addresses s" "mapped_addresses (m_mm st) \<subseteq> open_addresses s"
    by (rule ii.import_partition [of st evs])
      (use assms in \<open>auto simp: fresh_import_def importable_def mapped_addresses_def\<close>)
  have "copy_to_database (InstructionImporter imap) table evs st = Some s"
    by (rule copy_unchecked [OF s(1)]) (use s(2) assms(3) in \<open>simp add: config_def\<close>)
  with s(4,5) partitioned_fault_space [OF s(3)] show ?thesis by blast
qed

text \<open>
  C5. Importing register accesses partitions the fault space of the accessed registers. For a fresh import
  without sanity checks of a trace whose clock does not run backwards and that has at least one and fewer
  than \<open>2 ^ 32\<close> instructions, and for registers with data addresses below \<open>2 ^ 31\<close>, the import succeeds for every disassembly; the register bytes that have a row are exactly those of the
  registers that an executed instruction (at an address in the memory map, if there is one) uses or
  defines and that are selected on the command line, and of the program counter if it is selected;
  and for each of these bytes every dynamic instruction lies in exactly one equivalence class.
\<close>

theorem register_import_partitions:
  assumes "fresh_import st" and "register_ready cmd st" and "registers_in_range cmd ctof" and "\<not> m_sanitychecks st"
    and "importable evs"
  shows "\<exists>s. copy_to_database (RegisterImporter cmd imap ctof) table evs st = Some s \<and>
    fault_space (m_variant_id st) (ip_count evs) (\<Union>ev \<in> set evs. touched_registers cmd imap ctof (m_mm st) ev) (map im_row (inserted s))"
proof -
  let ?T = "\<Union>ev \<in> set evs. touched_registers cmd imap ctof (m_mm st) ev"
  obtain s where s: "import_trace (RegisterImporter cmd imap ctof) evs st = Some s" "config s = config st"
      "partitioned (m_variant_id st) (ip_count evs) (unat ` open_addresses s) (map im_row (inserted s))"
      "open_addresses s = (\<Union>ev \<in> set evs. {a. unat a \<in> touched_registers cmd imap ctof (m_mm st) ev})"
    by (rule ri.import_partition [of st cmd evs ctof imap])
      (use assms in \<open>auto simp: fresh_import_def importable_def mapped_addresses_def\<close>)
  have "copy_to_database (RegisterImporter cmd imap ctof) table evs st = Some s"
    by (rule copy_unchecked [OF s(1)]) (use s(2) assms(4) in \<open>simp add: config_def\<close>)
  moreover have "unat ` open_addresses s = ?T"
  proof (intro equalityI subsetI)
    fix x assume x: "x \<in> ?T"
    then have "x < 2 ^ 32" using touched_registers_small [OF assms(3)] by blast
    then have "unat (of_nat x :: u64) = x" by (intro unat_of_nat_u64) auto
    then show "x \<in> unat ` open_addresses s" using x unfolding s(4) by (intro image_eqI [of _ _ "of_nat x"]) simp_all
  qed (auto simp: s(4))
  ultimately show ?thesis using partitioned_fault_space [OF s(3)] by auto
qed

definition demo_registers :: "unit RegisterImporter_state" where
  "demo_registers = Importer.extend (demo_importer\<lparr>m_mm := None\<rparr>)
     (RegisterImporter_state.fields False False False {} 0 Map.empty)"

definition demo_options :: register_options where
  "demo_options = \<lparr>NO_GP = False, FLAGS = False, IP = True, NO_SPLIT = False, rt_ip = 9, rt_gp = [0, 1], rt_st = []\<rparr>"

definition demo_ctof :: "16 word \<Rightarrow> reginfo_t option" where
  "demo_ctof r = (if r = 7 then Some (reginfo 1 32 0) else None)"

definition demo_imap :: instr_map where
  "demo_imap a = (if a = 18 then Some \<lparr>opcode = 1, i_address = 18, i_length = 2, conditional_branch = False,
     reg_uses = [7, 8], reg_defs = [7]\<rparr> else None)"

theorem register_import_partitions_witness:
  "\<exists>s. copy_to_database (RegisterImporter demo_options demo_imap demo_ctof) [] demo_import demo_registers = Some s \<and>
     fault_space 1 4 ({16..<20} \<union> {144..<148}) (map im_row (inserted s)) \<and> length (inserted s) = 24"
proof -
  have "fresh_import demo_registers" "register_ready demo_options demo_registers" "\<not> m_sanitychecks demo_registers"
    by (simp_all add: fresh_import_def register_ready_def demo_registers_def demo_importer_def mapped_addresses_def
        Importer.defs RegisterImporter_state.defs)
  moreover have "registers_in_range demo_options demo_ctof"
    by (auto simp: registers_in_range_def register_in_range_def demo_options_def demo_ctof_def toDataAddress_def reginfo_def
        split: if_splits)
  moreover have "m_variant_id demo_registers = 1" "ip_count demo_import = 4" "m_mm demo_registers = None"
    by (simp_all add: demo_registers_def demo_importer_def Importer.defs demo_import_def ip_ev_def mem_ev_def)
  moreover have "map_option (length \<circ> inserted)
      (copy_to_database (RegisterImporter demo_options demo_imap demo_ctof) [] demo_import demo_registers) = Some 24"
    by code_simp
  moreover have "(\<Union>ev \<in> set demo_import. touched_registers demo_options demo_imap demo_ctof None ev) = {16..<20} \<union> {144..<148}"
    by (auto simp: demo_import_def ip_ev_def mem_ev_def touched_registers_def matches_def accessed_registers_def used_registers_def
        register_bytes_def import_register_ids_def demo_options_def demo_imap_def demo_ctof_def toDataAddress_def reginfo_def)
  ultimately show ?thesis
    using register_import_partitions [of demo_registers demo_options demo_ctof demo_import demo_imap "[]"] demo_importable(1)
    by auto
qed

end
