(* ===== verification/Trace_Times.thy ===== *)
theory Trace_Times
  imports Trace_Sanity
begin

text \<open>
  The time columns. On a trace whose clock ticks with every instruction and stands still between an
  instruction and its memory accesses, the times of a row are a function of its instruction numbers,
  so the equivalence classes partition the time axis as well.
\<close>

section \<open>Times as a function of instruction numbers\<close>

text \<open>\<open>T i\<close> is the time of instruction \<open>i\<close>; an interval that begins at instruction \<open>k\<close> begins just after
  the time of the instruction before, or at the start of the trace.\<close>

definition span_start :: "nat \<Rightarrow> (nat \<Rightarrow> nat) \<Rightarrow> nat \<Rightarrow> nat" where
  "span_start t0 T k = (if k = 0 then t0 else T (k - 1) + 1)"

lemma span_start_pos: "0 < t0 \<Longrightarrow> 0 < span_start t0 T k"
  by (simp add: span_start_def)

definition row_timed :: "nat \<Rightarrow> (nat \<Rightarrow> nat) \<Rightarrow> trace_row \<Rightarrow> bool" where
  "row_timed t0 T t \<longleftrightarrow> t_time1 t = span_start t0 T (t_instr1 t) \<and> t_time2 t = T (t_instr2 t)"

definition timed :: "nat \<Rightarrow> (nat \<Rightarrow> nat) \<Rightarrow> ('x, 'z) Importer_scheme \<Rightarrow> bool" where
  "timed t0 T st \<longleftrightarrow>
     (\<forall>a m. RBT.lookup (m_open_ecs st) a = Some m \<longrightarrow> unat (mi_time m) = span_start t0 T (unat (mi_dyninstr m))) \<and>
     (\<forall>r \<in> set (inserted st). row_timed t0 T (im_row r))"

lemma timed_clock [simp]: "timed t0 T (st\<lparr>m_time_trace_start := x\<rparr>) = timed t0 T st"
  by (simp add: timed_def)

lemma left_margin_timed:
  assumes "timed t0 T st" and "unat (m_time_trace_start st) = t0" and "0 < t0"
  shows "unat (mi_time (if mi_time (left_margin a st) = 0 then (left_margin a st)\<lparr>mi_time := m_time_trace_start st\<rparr>
      else left_margin a st)) = span_start t0 T (unat (mi_dyninstr (left_margin a st)))"
proof (cases "RBT.lookup (m_open_ecs st) a")
  case None
  then show ?thesis using assms(2) by (simp add: left_margin_def no_margin_def span_start_def)
next
  case (Some m)
  then have "unat (mi_time m) = span_start t0 T (unat (mi_dyninstr m))" using assms(1) by (simp add: timed_def)
  moreover have "mi_time m \<noteq> 0" using calculation span_start_pos [OF assms(3)] by (metis neq0_conv unat_0)
  ultimately show ?thesis using Some by (simp add: left_margin_def)
qed

lemma row_of_times [simp]:
  "t_time1 (row_of v b e ev fake) = unat (mi_time b)" "t_time2 (row_of v b e ev fake) = unat (mi_time e)"
  "t_instr1 (row_of v b e ev fake) = unat (mi_dyninstr b)" "t_instr2 (row_of v b e ev fake) = unat (mi_dyninstr e)"
  by (simp_all add: row_of_def)

lemma record_access_timed:
  assumes tm: "timed t0 T st" and start: "unat (m_time_trace_start st) = t0" "0 < t0" and w: "m_import_write_ecs st"
    and i: "unat i < 2 ^ 32 - 1" and t: "unat t = T (unat i)" "T (unat i) + 1 < 2 ^ 64"
    and s: "record_access (add_trace_event no_columns) t i a ev st = Some s"
  shows "timed t0 T s \<and> m_time_trace_start s = m_time_trace_start st"
  using w
proof (cases rule: record_access_cases [of st i a t ev])
  case (skip s')
  then have "mi_dyninstr (left_margin a st) \<noteq> 0" by (auto simp: word_less_nat_alt)
  then have "RBT.lookup (m_open_ecs st) a = Some (left_margin a st)"
    by (auto simp: left_margin_def no_margin_def split: option.splits)
  with skip s tm show ?thesis by (auto simp: timed_def split: if_splits)
next
  case (close r s')
  have t1: "unat (t + 1) = T (unat i) + 1" using t by (simp add: unat_word_ariths)
  have i1: "unat (i + 1) = unat i + 1" using i by (simp add: unat_word_ariths)
  have "row_timed t0 T (im_row r)"
    using left_margin_timed [OF tm start, of a] t(1) unfolding close(7) row_timed_def by simp
  moreover have "unat (t + 1) = span_start t0 T (unat (i + 1))" by (simp add: t1 i1 span_start_def)
  ultimately show ?thesis using close s tm by (auto simp: timed_def split: if_splits)
qed

lemma accesses_timed:
  assumes "accesses t i st s" and "timed t0 T st" and "unat (m_time_trace_start st) = t0" and "0 < t0"
    and "m_import_write_ecs st" and "unat i < 2 ^ 32 - 1" and "unat t = T (unat i)" and "T (unat i) + 1 < 2 ^ 64"
  shows "timed t0 T s \<and> m_time_trace_start s = m_time_trace_start st"
  using assms
proof (induction rule: accesses.induct)
  case (accesses_step st s a ev s')
  have s: "timed t0 T s" "m_time_trace_start s = m_time_trace_start st" using accesses_step.IH [OF accesses_step.prems] by blast+
  have "m_import_write_ecs s" using accesses_mono [OF accesses_step.hyps(1)] accesses_step.prems(4) by (simp add: config_def)
  from record_access_timed [OF s(1) _ accesses_step.prems(3) this accesses_step.prems(5-7) accesses_step.hyps(3)]
    accesses_step.prems(2) s(2) show ?case by simp
next
  case (accesses_private st s s')
  show ?case
    using accesses_private.IH [OF accesses_private.prems] truncate_eq [OF accesses_private.hyps(2)] by (simp add: timed_def)
qed (rule conjI, assumption, rule refl)

section \<open>The clock of a trace\<close>

fun ticks :: "(nat \<Rightarrow> nat) \<Rightarrow> nat \<Rightarrow> nat \<Rightarrow> Trace_Event list \<Rightarrow> bool" where
  "ticks T i now [] \<longleftrightarrow> True"
| "ticks T i now (ev # evs) \<longleftrightarrow>
     (if memaddr ev = None
      then (\<exists>d > 0. time_delta ev = Some d \<and> T i = now + nat d) \<and> ticks T (i + 1) (T i) evs
      else (time_delta ev = None \<or> time_delta ev = Some 0) \<and> ticks T i now evs)"

lemma ticks_after: "ticks T i now evs \<Longrightarrow> i \<le> j \<Longrightarrow> j < i + ip_count evs \<Longrightarrow> now < T j"
proof (induction T i now evs rule: ticks.induct)
  case (2 T i now ev evs)
  show ?case
  proof (cases "memaddr ev = None")
    case True
    then obtain d where d: "0 < d" "T i = now + nat d" and rest: "ticks T (i + 1) (T i) evs" using 2(3) by auto
    have "T i < T j" if "i < j" using 2(1) [OF True rest] that 2(5) True by simp
    with d 2(4) show ?thesis by (cases "i = j") fastforce+
  next
    case False
    with 2 show ?thesis by simp
  qed
qed simp

lemma ticks_strict: "ticks T i now evs \<Longrightarrow> i \<le> j \<Longrightarrow> j < k \<Longrightarrow> k < i + ip_count evs \<Longrightarrow> T j < T k"
proof (induction T i now evs rule: ticks.induct)
  case (2 T i now ev evs)
  show ?case
  proof (cases "memaddr ev = None")
    case True
    then have rest: "ticks T (i + 1) (T i) evs" using 2(3) by auto
    show ?thesis
    proof (cases "i = j")
      case True
      with ticks_after [OF rest, of k] 2(5,6) \<open>memaddr ev = None\<close> show ?thesis by simp
    next
      case False
      with 2(1) [OF True rest] 2(4-6) True show ?thesis by simp
    qed
  next
    case False
    with 2 show ?thesis by simp
  qed
qed simp

lemma advance_tick:
  assumes "time_delta ev = Some d" and "0 \<le> d" and "unat now + nat d < 2 ^ 64" and "m_time_trace_start st \<noteq> 0"
  shows "advance_clock ev now st = Some (now + of_int d, st)" "unat (now + of_int d) = unat now + nat d"
proof -
  show "advance_clock ev now st = Some (now + of_int d, st)" using assms by (simp add: advance_clock_def)
  have "unat (of_int d :: u64) = nat d"
  proof -
    have "of_int d = (of_nat (nat d) :: u64)" using assms(2) by simp
    then show ?thesis using assms(3) unat_of_nat_u64 [of "nat d"] by simp
  qed
  then show "unat (now + of_int d) = unat now + nat d" using assms(3) by (simp add: unat_word_ariths)
qed

context ec_importer
begin

lemma import_events_timed:
  assumes "import_events c evs now instr instr_memaccess st = Some (t, k, s)" and "ready st" and "m_import_write_ecs st"
    and "\<forall>ev \<in> set evs. valid ev" and "unat instr + ip_count evs < 2 ^ 32" and "ticks T (unat instr) (unat now) evs"
    and "timed t0 T st" and "unat (m_time_trace_start st) = t0" and "0 < t0"
    and "\<forall>i < unat instr + ip_count evs. T i + 1 < 2 ^ 64"
    and "if instr = 0 then evs = [] \<or> memaddr (hd evs) = None else instr_memaccess = instr - 1 \<and> unat now = T (unat instr_memaccess)"
  shows "timed t0 T s \<and> unat (m_time_trace_start s) = t0 \<and>
    (0 < unat instr + ip_count evs \<longrightarrow> unat t = T (unat instr + ip_count evs - 1))"
  using assms
proof (induction evs arbitrary: now instr instr_memaccess st)
  case Nil
  then show ?case by (auto simp: unat_minus_one split: if_splits)
next
  case (Cons ev evs)
  have nz: "m_time_trace_start st \<noteq> 0" using Cons.prems(8,9) by auto
  show ?case
  proof (cases "memaddr ev = None")
    case True
    then obtain d where d: "0 < d" "time_delta ev = Some d" "T (unat instr) = unat now + nat d"
        and rest: "ticks T (unat instr + 1) (T (unat instr)) evs" using Cons.prems(6) by auto
    have T: "T (unat instr) + 1 < 2 ^ 64" using Cons.prems(10) True by simp
    have lt: "unat instr < 2 ^ 32 - 1" using Cons.prems(5) True by simp
    then have i1: "unat (instr + 1) = unat instr + 1" by (simp add: unat_word_ariths)
    have clock: "advance_clock ev now st = Some (now + of_int d, st)" "unat (now + of_int d) = T (unat instr)"
      using advance_tick [OF d(2), of now st] d T nz by auto
    obtain s1 where s1: "handle_ip_event c (now + of_int d) instr ev st = Some s1" "accesses (now + of_int d) instr st s1" "ready s1"
      using ip_event [OF Cons.prems(2,3) _ True] Cons.prems(4) by force
    have run: "import_events c evs (now + of_int d) (instr + 1) instr s1 = Some (t, k, s)"
      using Cons.prems(1) True clock(1) s1(1) by (simp split: if_splits)
    have "timed t0 T s1 \<and> m_time_trace_start s1 = m_time_trace_start st"
      by (rule accesses_timed [OF s1(2) Cons.prems(7-9) Cons.prems(3) lt clock(2) T])
    moreover have "m_import_write_ecs s1" using accesses_mono [OF s1(2) Cons.prems(3)] Cons.prems(3) by (simp add: config_def)
    moreover have "instr + 1 \<noteq> 0" using i1 by (metis Suc_eq_plus1 nat.distinct(1) unat_0)
    ultimately show ?thesis
      using Cons.IH [OF run s1(3)] Cons.prems(4,5,8-10) rest i1 clock(2) True by simp
  next
    case False
    then have instr: "instr \<noteq> 0" "instr_memaccess = instr - 1" "unat now = T (unat instr_memaccess)"
      and rest: "ticks T (unat instr) (unat now) evs" and td: "time_delta ev = None \<or> time_delta ev = Some 0"
      using Cons.prems(6,11) by (auto split: if_splits)
    have im: "unat instr_memaccess = unat instr - 1" using instr(1,2) by (simp add: unat_minus_one)
    have "0 < unat instr" using instr(1) by (simp add: unat_gt_0)
    then have lt: "unat instr_memaccess < 2 ^ 32 - 1" and T: "T (unat instr_memaccess) + 1 < 2 ^ 64"
      using im Cons.prems(5,10) by auto
    have clock: "advance_clock ev now st = Some (now, st)" using td nz by (auto simp: advance_clock_def)
    obtain s1 where s1: "handle_mem_event c now instr_memaccess ev st = Some s1" "accesses now instr_memaccess st s1" "ready s1"
      using mem_event [OF Cons.prems(2,3) _ False] Cons.prems(4) by force
    have run: "import_events c evs now instr instr_memaccess s1 = Some (t, k, s)"
      using Cons.prems(1) False clock s1(1) by simp
    have "timed t0 T s1 \<and> m_time_trace_start s1 = m_time_trace_start st"
      by (rule accesses_timed [OF s1(2) Cons.prems(7-9) Cons.prems(3) lt instr(3) T])
    moreover have "m_import_write_ecs s1" using accesses_mono [OF s1(2) Cons.prems(3)] Cons.prems(3) by (simp add: config_def)
    ultimately show ?thesis
      using Cons.IH [OF run s1(3)] Cons.prems(4,5,8-10) rest instr False by auto
  qed
qed

end

section \<open>Closing rows\<close>

lemma open_unused_timed:
  assumes "timed t0 T st" and "unat (m_time_trace_start st) = t0"
  shows "timed t0 T (open_unused_ec_intervals st) \<and> m_last_instr (open_unused_ec_intervals st) = m_last_instr st \<and>
    m_last_time (open_unused_ec_intervals st) = m_last_time st"
proof (cases "m_mm st")
  case (Some mm)
  let ?f = "\<lambda>s a. if RBT.lookup (m_open_ecs s) a = None then newOpenEC a (m_time_trace_start s) 0 0 s else s"
  have "timed t0 T (foldl ?f s as) \<and> m_last_instr (foldl ?f s as) = m_last_instr s \<and> m_last_time (foldl ?f s as) = m_last_time s"
    if "timed t0 T s" "unat (m_time_trace_start s) = t0" for s :: "('a, 'b) Importer_scheme" and as
    using that
  proof (induction as arbitrary: s)
    case (Cons a as)
    have "timed t0 T (?f s a)" using Cons.prems by (auto simp: timed_def newOpenEC_def span_start_def)
    moreover have "unat (m_time_trace_start (?f s a)) = t0" "m_last_instr (?f s a) = m_last_instr s" "m_last_time (?f s a) = m_last_time s"
      using Cons.prems by (auto simp: newOpenEC_def)
    ultimately show ?case using Cons.IH [of "?f s a"] by simp
  qed simp
  from this [OF assms] Some show ?thesis by (simp add: open_unused_ec_intervals_def)
qed (use assms in \<open>simp add: open_unused_ec_intervals_def\<close>)

lemma open_unused_write: "m_import_write_ecs (open_unused_ec_intervals st) = m_import_write_ecs st"
proof -
  let ?f = "\<lambda>s a. if RBT.lookup (m_open_ecs s) a = None then newOpenEC a (m_time_trace_start s) 0 0 s else s"
  have "m_import_write_ecs (foldl ?f s as) = m_import_write_ecs s" for s :: "('a, 'b) Importer_scheme" and as
    by (induction as arbitrary: s) (auto simp: newOpenEC_def)
  then show ?thesis by (simp add: open_unused_ec_intervals_def split: option.splits)
qed

lemma close_ecs_timed:
  assumes "virtual_add c = add_trace_event no_columns" and "m_import_write_ecs st"
    and "unat (m_last_time st) = T (unat (m_last_instr st))"
    and "\<forall>(a, m) \<in> set es. unat (mi_time m) = span_start t0 T (unat (mi_dyninstr m))"
    and "\<forall>r \<in> set (inserted st). row_timed t0 T (im_row r)" and "fold_option (close_ec c) es st = Some s"
  shows "\<forall>r \<in> set (inserted s). row_timed t0 T (im_row r)"
  using assms(2-)
proof (induction es arbitrary: st)
  case (Cons e es)
  obtain a m where e: "e = (a, m)" by (cases e)
  let ?e = "\<lparr>mi_dyninstr = m_last_instr st, mi_ip = m_last_ip st, mi_time = m_last_time st\<rparr>"
  let ?ev = "access_event ?e \<lparr>access_type = m_faultspace_rightmargin st, ai_data_address = a, ai_data_width = 1\<rparr>"
  obtain s1 where s1: "close_ec c e st = Some s1" "fold_option (close_ec c) es s1 = Some s"
    using Cons.prems(5) by (auto split: option.splits)
  obtain r where r: "add_trace_event no_columns m ?e ?ev True st =
      Some (st\<lparr>m_row_count := m_row_count st + 1, inserted := inserted st @ [r]\<rparr>)"
      "im_row r = row_of (m_variant_id st) m ?e ?ev True"
    using add_trace_event_unit [OF Cons.prems(1)] .
  have "row_timed t0 T (im_row r)" using Cons.prems(2,3) e by (auto simp: r(2) row_timed_def)
  then have "m_import_write_ecs s1 \<and> unat (m_last_time s1) = T (unat (m_last_instr s1)) \<and>
      (\<forall>r \<in> set (inserted s1). row_timed t0 T (im_row r))"
    using s1(1) r(1) Cons.prems(1,2,4) e by (auto simp: close_ec_def assms(1) Let_def split: if_splits)
  with Cons.IH [of s1] Cons.prems(3) s1(2) show ?case by auto
qed simp

lemma consecutive_times:
  assumes "consecutive l (map instrs ts) r" and "\<forall>t \<in> set ts. row_timed t0 T t"
    and "\<And>a b. a \<le> b \<Longrightarrow> b < r \<Longrightarrow> span_start t0 T a \<le> T b"
  shows "consecutive (span_start t0 T l) (map (columns t_time1 t_time2) ts) (span_start t0 T r)"
  using assms(1,2)
proof (induction ts arbitrary: l)
  case (Cons t ts)
  have "instrs t = (t_instr1 t, t_instr2 t)" by (simp add: instrs_def)
  with Cons.prems(1) have c: "t_instr1 t = l" "l \<le> t_instr2 t" "consecutive (t_instr2 t + 1) (map instrs ts) r" by auto
  have "t_instr2 t < r" using consecutive_bounds [OF c(3)] by simp
  moreover have "T (t_instr2 t) + 1 = span_start t0 T (t_instr2 t + 1)" by (simp add: span_start_def)
  moreover have "columns t_time1 t_time2 t = (span_start t0 T l, T (t_instr2 t))"
    using Cons.prems(2) c(1) by (simp add: columns_def row_timed_def)
  ultimately show ?case using Cons.IH [OF c(3)] Cons.prems(2) c(2) assms(3) by simp
qed simp

section \<open>The sanity checks succeed\<close>

definition delta :: "Trace_Event \<Rightarrow> nat" where
  "delta ev = (case time_delta ev of None \<Rightarrow> 0 | Some d \<Rightarrow> nat d)"

definition ticking :: "Trace_Event list \<Rightarrow> bool" where
  "ticking evs \<longleftrightarrow> evs \<noteq> [] \<and> memaddr (hd evs) = None \<and>
     (\<forall>ev \<in> set evs. if memaddr ev = None then \<exists>d > 0. time_delta ev = Some d
                     else time_delta ev = None \<or> time_delta ev = Some 0) \<and>
     sum_list (map delta evs) + 1 < 2 ^ 64"

fun ip_times :: "nat \<Rightarrow> Trace_Event list \<Rightarrow> nat list" where
  "ip_times now [] = []"
| "ip_times now (ev # evs) =
     (if memaddr ev = None then (now + delta ev) # ip_times (now + delta ev) evs else ip_times now evs)"

lemma length_ip_times [simp]: "length (ip_times now evs) = ip_count evs"
  by (induction now evs rule: ip_times.induct) auto

lemma ip_times_bound: "x \<in> set (ip_times now evs) \<Longrightarrow> x \<le> now + sum_list (map delta evs)"
  by (induction now evs rule: ip_times.induct) (fastforce split: if_splits)+

lemma ticks_ip_times:
  assumes "\<forall>ev \<in> set evs. if memaddr ev = None then \<exists>d > 0. time_delta ev = Some d else time_delta ev = None \<or> time_delta ev = Some 0"
    and "\<forall>j < ip_count evs. T (i + j) = ip_times now evs ! j"
  shows "ticks T i now evs"
  using assms
proof (induction evs arbitrary: i now)
  case (Cons ev evs)
  show ?case
  proof (cases "memaddr ev = None")
    case True
    then obtain d where d: "0 < d" "time_delta ev = Some d" using Cons.prems(1) by auto
    have T: "T i = now + nat d" using Cons.prems(2) True d by (auto simp: delta_def dest: spec [of _ 0])
    have "T (i + 1 + j) = ip_times (now + nat d) evs ! j" if "j < ip_count evs" for j
      using Cons.prems(2) True d that by (auto simp: delta_def dest: spec [of _ "Suc j"])
    then have "ticks T (i + 1) (now + nat d) evs" using Cons.IH Cons.prems(1) by simp
    with True d T show ?thesis by simp
  next
    case False
    with Cons show ?thesis by auto
  qed
qed simp

context ec_importer
begin

lemma import_trace_timed:
  assumes "m_open_ecs st = RBT.empty" and "inserted st = []" and "ready st" and "m_import_write_ecs st"
    and "\<forall>ev \<in> set evs. valid ev" and "ticking evs" and "ip_count evs < 2 ^ 32" and "m_time_trace_start st = 0"
    and "import_trace c evs st = Some s" and "T = (\<lambda>i. ip_times 0 evs ! i)"
  shows "\<forall>r \<in> set (inserted s). row_timed (T 0) T (im_row r)"
proof -
  let ?n = "ip_count evs"
  obtain ev evs' where evs: "evs = ev # evs'" and ip: "memaddr ev = None" using assms(6) by (cases evs) (auto simp: ticking_def)
  obtain d where d: "0 < d" "time_delta ev = Some d" using assms(6) evs ip by (auto simp: ticking_def)
  have n: "0 < ?n" using evs ip by simp
  have T0: "T 0 = nat d" using d ip by (simp add: assms(10) evs delta_def)
  have bound: "T i + 1 < 2 ^ 64" if "i < ?n" for i
    using ip_times_bound [of "T i" 0 evs] that assms(6) by (simp add: assms(10) ticking_def)
  have ticks: "ticks T 0 0 evs" using ticks_ip_times [of evs T 0 0] assms(6) by (simp add: assms(10) ticking_def)
  let ?st = "st\<lparr>m_time_trace_start := of_int d\<rparr>"
  have start: "unat (m_time_trace_start ?st) = T 0"
  proof -
    have "of_int d = (of_nat (nat d) :: u64)" using d(1) by simp
    then show ?thesis using bound [OF n] T0 by (simp add: unat_of_nat_u64)
  qed
  then have nz: "(of_int d :: u64) \<noteq> 0" using T0 d(1) by auto
  obtain t k s1 where run: "import_events c evs 0 0 0 st = Some (t, k, s1)"
      and fin: "close_ec_intervals c (open_unused c (s1\<lparr>m_last_time := t, m_last_instr := k - 1,
        m_last_ip := (if evs = [] then 0 else ip (last evs))\<rparr>)) = Some s"
    using assms(9) by (auto simp: import_trace_def end_reached bind_eq_Some_conv)
  have "import_events c evs 0 0 0 ?st = Some (t, k, s1)"
    using run nz d by (simp add: evs advance_clock_def assms(8))
  from import_events_timed [OF this, of T "T 0"]
  have tm: "timed (T 0) T s1" "unat (m_time_trace_start s1) = T 0" "unat t = T (?n - 1)"
    using assms(1-5,7) ticks start bound n T0 d(1) evs ip by (auto simp: ready_clock timed_def)
  have fw: "\<forall>ev \<in> set evs. valid ev \<and> forward ev"
    using assms(5,6) by (fastforce simp: ticking_def forward_def split: option.splits if_splits)
  have "ec_inv (unat (0 :: u32) + 1) st" using assms(1,2) by (simp add: ec_inv_def)
  from import_events_ok [OF assms(3,4) fw, of 0 0, OF _ _ this, of 0] assms(7) run
  have k: "k = of_nat ?n" and cfg: "config s1 = config st" by auto
  let ?s2 = "s1\<lparr>m_last_time := t, m_last_instr := k - 1, m_last_ip := (if evs = [] then 0 else ip (last evs))\<rparr>"
  have un: "unat (of_nat ?n :: u32) = ?n" using assms(7) by (simp add: unat_of_nat_u32)
  then have "(of_nat ?n :: u32) \<noteq> 0" using n by (metis less_numeral_extra(3) unat_0)
  with un have last: "unat (k - 1) = ?n - 1" by (simp add: k unat_minus_one)
  have s3: "timed (T 0) T (open_unused c ?s2) \<and> m_last_instr (open_unused c ?s2) = k - 1 \<and> m_last_time (open_unused c ?s2) = t \<and>
      m_import_write_ecs (open_unused c ?s2)"
  proof -
    have "timed (T 0) T ?s2" "unat (m_time_trace_start ?s2) = T 0" using tm by (simp_all add: timed_def)
    from open_unused_timed [OF this] this(1) show ?thesis
      using cfg assms(4) open_unused_write [of ?s2] by (auto simp: unused config_def)
  qed
  show ?thesis
    by (rule close_ecs_timed [OF added _ _ _ _ fin [unfolded close_ec_intervals_def]])
      (use s3 last tm(3) in \<open>auto simp: timed_def lookup_in_tree [symmetric]\<close>)
qed

lemma import_sane:
  assumes "m_open_ecs st = RBT.empty" and "inserted st = []" and "ready st" and "m_import_write_ecs st"
    and "\<forall>ev \<in> set evs. valid ev" and "ticking evs" and "ip_count evs < 2 ^ 32" and "m_time_trace_start st = 0"
    and "import_trace c evs st = Some s" and "\<forall>t \<in> set table. t_variant t \<noteq> m_variant_id st"
    and p: "partitioned (m_variant_id st) (ip_count evs) addrs (map im_row (inserted s))"
  shows "sanity_checks (m_variant_id st) (table @ map im_row (inserted s))"
proof -
  let ?n = "ip_count evs" and ?T = "\<lambda>i. ip_times 0 evs ! i"
  have n: "0 < ?n" using assms(6) by (cases evs) (auto simp: ticking_def)
  have ticks: "ticks ?T 0 0 evs" using ticks_ip_times [of evs ?T 0 0] assms(6) by (simp add: ticking_def)
  have "span_start (?T 0) ?T a \<le> ?T b" if "a \<le> b" "b < ?n" for a b
    using ticks_strict [OF ticks, of 0 b] ticks_strict [OF ticks, of "a - 1" b] that
    by (cases "a = 0"; cases "b = 0") (auto simp: span_start_def Suc_le_eq less_imp_le)
  then have "partitioned_by t_time1 t_time2 (m_variant_id st) (span_start (?T 0) ?T 0) (span_start (?T 0) ?T ?n) addrs (map im_row (inserted s))"
    using p import_trace_timed [OF assms(1-9) refl] unfolding partitioned_def partitioned_by_def
    by (auto intro!: consecutive_times simp: address_rows_def)
  moreover have "span_start (?T 0) ?T 0 < span_start (?T 0) ?T ?n"
    using n ticks_strict [OF ticks, of 0 "?n - 1"] by (cases "?n = 1") (auto simp: span_start_def less_Suc_eq_le)
  ultimately show ?thesis
    using partitioned_checks [OF p [unfolded partitioned_columns] n assms(10)] partitioned_checks [OF _ _ assms(10)]
    unfolding sanity_checks_def by blast
qed

end

text \<open>
  C6. With sanity checks enabled the memory importer accepts every well-timed trace: when the clock
  advances at every instruction, stands still between an instruction and its accesses, and the table
  has no other rows of the variant, all six checks succeed and the import returns the partition.
\<close>

theorem memory_import_passes_sanity_checks:
  assumes "fresh_import st" and "m_time_trace_start st = 0" and "ticking evs" and "ip_count evs < 2 ^ 32"
    and "\<forall>ev \<in> set evs. access_in_range ev" and "\<forall>t \<in> set table. t_variant t \<noteq> m_variant_id st"
  shows "\<exists>s. copy_to_database MemoryImporter table evs st = Some s \<and>
    sanity_checks (m_variant_id st) (table @ map im_row (inserted s))"
proof -
  have fw: "\<forall>ev \<in> set evs. access_in_range ev \<and> forward ev" and n: "0 < ip_count evs"
    using assms(3,5) by (cases evs; fastforce simp: ticking_def forward_def split: option.splits if_splits)+
  obtain s where s: "import_trace MemoryImporter evs st = Some s" "config s = config st"
      "partitioned (m_variant_id st) (ip_count evs) (unat ` open_addresses s) (map im_row (inserted s))"
    by (rule mi.import_partition [of st evs])
      (use assms fw n in \<open>auto simp: fresh_import_def mapped_addresses_def\<close>)
  have "sanity_checks (m_variant_id st) (table @ map im_row (inserted s))"
    by (rule mi.import_sane [OF _ _ _ _ assms(5,3,4,2) s(1) assms(6) s(3)]) (use assms(1) in \<open>auto simp: fresh_import_def\<close>)
  then show ?thesis using s(1,2) by (auto simp: copy_to_database_def config_def)
qed

theorem memory_import_passes_sanity_checks_witness:
  "\<exists>s. copy_to_database MemoryImporter [] demo_import (demo_importer\<lparr>m_sanitychecks := True\<rparr>) = Some s \<and>
     sanity_checks 1 (map im_row (inserted s))"
proof -
  have "fresh_import (demo_importer\<lparr>m_sanitychecks := True\<rparr>)" using demo_fresh(1) by (simp add: fresh_import_def)
  moreover have "ticking demo_import" "ip_count demo_import < 2 ^ 32"
    by (simp_all add: ticking_def demo_import_def ip_ev_def mem_ev_def delta_def)
  ultimately show ?thesis
    using memory_import_passes_sanity_checks [of "demo_importer\<lparr>m_sanitychecks := True\<rparr>" demo_import "[]"] demo_importable(2)
    by (simp add: demo_importer_def)
qed

text \<open>
  C40. Both overlap checks, on the instruction and on the time columns, are incomplete: a table that
  passes one still passes it with a further row of the same variant and address that starts where an
  existing row starts and ends inside it, although every point of the further row is then covered
  twice. The queries compare the right margin of a row with itself.
\<close>

theorem overlap_check_misses_overlap:
  assumes "(lo, hi) \<in> {(t_instr1, t_instr2), (t_time1, t_time2)}"
    and "\<not> ec_overlaps lo hi v table" and "t1 \<in> set table" and "t_variant t1 = v"
    and "t_variant t2 = v" and "t_data_address t2 = t_data_address t1"
    and "lo t2 = lo t1" and "lo t2 \<le> hi t2" and "hi t2 < hi t1"
  shows "\<not> ec_overlaps lo hi v (t2 # table) \<and>
    {lo t2..hi t2} \<noteq> {} \<and> {lo t2..hi t2} \<subseteq> {lo t1..hi t1}"
proof -
  have t1: "t1 \<in> set (variant_rows v table)" using assms(3,4) by (simp add: variant_rows_def)
  have free: "\<not> (lo y \<le> lo x \<and> lo x \<le> hi y \<or> lo y \<le> hi x \<and> hi x \<le> hi y \<or> lo x < lo y \<and> hi y < hi x)"
    if "x \<in> set (variant_rows v table)" "y \<in> set (variant_rows v table)" "t_data_address x = t_data_address y" "lo x \<noteq> lo y" for x y
    using assms(2) that unfolding ec_overlaps_def by blast
  have new: "\<not> (lo x \<le> lo t2 \<and> lo t2 \<le> hi x \<or> lo x \<le> hi t2 \<and> hi t2 \<le> hi x \<or> lo t2 < lo x \<and> hi x < hi t2)"
    "\<not> (lo t2 \<le> lo x \<and> lo x \<le> hi t2 \<or> lo t2 \<le> hi x \<and> hi x \<le> hi t2 \<or> lo x < lo t2 \<and> hi t2 < hi x)"
    if x: "x \<in> set (variant_rows v table)" "t_data_address x = t_data_address t2" "lo x \<noteq> lo t2" for x
    using free [OF x(1) t1] free [OF t1 x(1)] x(2,3) assms(6-9) by auto
  have "\<not> ec_overlaps lo hi v (t2 # table)"
  proof
    assume "ec_overlaps lo hi v (t2 # table)"
    then obtain x y where "x = t2 \<or> x \<in> set (variant_rows v table)" "y = t2 \<or> y \<in> set (variant_rows v table)"
        "t_data_address x = t_data_address y" "lo x \<noteq> lo y"
        "lo y \<le> lo x \<and> lo x \<le> hi y \<or> lo y \<le> hi x \<and> hi x \<le> hi y \<or> lo x < lo y \<and> hi y < hi x"
      using assms(5) unfolding ec_overlaps_def by (auto simp: variant_rows_def)
    then show False using free [of x y] new(1) [of y] new(2) [of x] by auto
  qed
  then show ?thesis using assms(7-9) by simp
qed

theorem overlap_check_misses_overlap_witness:
  "let t1 = \<lparr>t_variant = 1, t_instr1 = 0, t_instr1_absolute = None, t_instr2 = 5, t_instr2_absolute = None,
      t_time1 = 0, t_time2 = 9, t_data_address = 7, t_width = 1, t_accesstype = R\<rparr>;
      t2 = t1\<lparr>t_instr2 := 3, t_time2 := 4\<rparr>
   in \<not> ec_overlaps t_instr1 t_instr2 1 [t2, t1] \<and> \<not> ec_overlaps t_time1 t_time2 1 [t2, t1]"
  using overlap_check_misses_overlap [of t_instr1 t_instr2 1
      "[\<lparr>t_variant = 1, t_instr1 = 0, t_instr1_absolute = None, t_instr2 = 5, t_instr2_absolute = None,
      t_time1 = 0, t_time2 = 9, t_data_address = 7, t_width = 1, t_accesstype = R\<rparr>]"
      "\<lparr>t_variant = 1, t_instr1 = 0, t_instr1_absolute = None, t_instr2 = 5, t_instr2_absolute = None,
      t_time1 = 0, t_time2 = 9, t_data_address = 7, t_width = 1, t_accesstype = R\<rparr>"]
  by (simp add: Let_def ec_overlaps_def variant_rows_def)

end
