(* ===== verification/Advanced_Import.thy ===== *)
theory Advanced_Import
  imports Trace_Importers
begin

text \<open>
  The \<open>AdvancedMemoryImporter\<close> of \<^verbatim>\<open>tools/import-trace\<close>: a memory importer whose rows also have the opcode
  of the accessing instruction and a window of 16 branch decisions before and 16 after the access. It
  holds accesses back until the window is known. The reference is the two-pass import that its
  documentation describes as the original implementation: the whole branch history first, the rows
  after it, none of them delayed.
\<close>

section \<open>State\<close>

text \<open>The columns \<open>opcode\<close> and \<open>jumphistory\<close>, NULL for the rows that close the fault space.\<close>

type_synonym advanced_columns = "(u32 \<times> u32) option"

record DelayedTraceEntry =
  d_curtime :: u64
  d_instr :: u32
  d_ev :: Trace_Event
  d_opcode :: u32
  branches_before :: u32

record 'x AdvancedMemoryImporter_state = "'x Importer" +
  am_isDisassembled :: bool
  disas :: bool
  m_last_was_conditional_branch :: bool
  m_ip_jump_not_taken :: u64
  branches_taken :: "bool list"
  delayed_entries :: "DelayedTraceEntry list"
  m_cur_branchmask :: u32

type_synonym advanced_state = "advanced_columns AdvancedMemoryImporter_state"

section \<open>Operations\<close>

text \<open>The assertion on the front entry; reading the front of an empty queue is undefined.\<close>

definition advanced_insert_data :: "Trace_Event \<Rightarrow> bool \<Rightarrow> advanced_state \<Rightarrow> advanced_columns option" where
  "advanced_insert_data ev is_fake st =
     (if is_fake then Some None
      else (case delayed_entries st of
              [] \<Rightarrow> None
            | d # ds \<Rightarrow> if ip ev = ip (d_ev d) then Some (Some (d_opcode d, m_cur_branchmask st)) else None))"

text \<open>The signed and unsigned conversions are the code's.\<close>

definition branchmask :: "bool list \<Rightarrow> u32 \<Rightarrow> u32" where
  "branchmask taken before =
     (let pos = max (- 16) (- sint before);
          maxpos = min 16 (sint (of_nat (length taken) :: u32) - sint before)
      in foldl (\<lambda>m p. or m (push_bit (nat (16 - p - 1)) (of_bool (taken ! unat (before + word_of_int p)))))
           0 [pos..maxpos - 1])"

text \<open>
  The queue is not touched by the upcall; \<open>last_branches_before\<close> keeps its initial value
  \<open>UINT_MAX\<close> in the code.
\<close>

fun insert_delayed :: "bool \<Rightarrow> DelayedTraceEntry list \<Rightarrow> advanced_state \<Rightarrow> advanced_state option" where
  "insert_delayed finalizing [] st = Some (st\<lparr>delayed_entries := []\<rparr>)"
| "insert_delayed finalizing (d # ds) st =
     (if unat (branches_before d + 16) \<le> length (branches_taken st) \<or> finalizing then
        let st1 = st\<lparr>delayed_entries := d # ds, m_cur_branchmask :=
              (if branches_before d \<noteq> 0xFFFFFFFF then branchmask (branches_taken st) (branches_before d)
               else m_cur_branchmask st)\<rparr>
        in case memory_handle_mem_event advanced_insert_data (d_curtime d) (d_instr d) (d_ev d) st1 of
             None \<Rightarrow> None
           | Some st2 \<Rightarrow> insert_delayed finalizing ds st2
      else Some (st\<lparr>delayed_entries := d # ds\<rparr>))"

definition insert_delayed_entries :: "bool \<Rightarrow> advanced_state \<Rightarrow> advanced_state option" where
  "insert_delayed_entries finalizing st = insert_delayed finalizing (delayed_entries st) st"

definition note_branch :: "Trace_Event \<Rightarrow> advanced_state \<Rightarrow> advanced_state" where
  "note_branch ev st =
     (if m_last_was_conditional_branch st
      then st\<lparr>m_last_was_conditional_branch := False,
              branches_taken := branches_taken st @ [ip ev \<noteq> m_ip_jump_not_taken st]\<rparr>
      else st)"

definition look_ahead :: "instr_map \<Rightarrow> Trace_Event \<Rightarrow> advanced_state \<Rightarrow> advanced_state option" where
  "look_ahead imap ev st =
     (if \<not> am_isDisassembled st \<and> \<not> m_elf st then None
      else let st1 = (if am_isDisassembled st then st else st\<lparr>disas := True\<rparr>)
           in case imap (ucast (ip ev)) of
                None \<Rightarrow> Some st1
              | Some oc \<Rightarrow>
                  Some (if conditional_branch oc
                        then st1\<lparr>m_last_was_conditional_branch := True,
                                 m_ip_jump_not_taken := ucast (i_address oc + ucast (i_length oc))\<rparr>
                        else st1))"

definition advanced_handle_ip_event ::
  "instr_map \<Rightarrow> u64 \<Rightarrow> u32 \<Rightarrow> Trace_Event \<Rightarrow> advanced_state \<Rightarrow> advanced_state option" where
  "advanced_handle_ip_event imap curtime instr ev st = do {
     st1 \<leftarrow> insert_delayed_entries False (note_branch ev st);
     look_ahead imap ev st1
   }"

text \<open>\<open>instr_map.at\<close> throws for an address that was not disassembled.\<close>

definition advanced_handle_mem_event ::
  "instr_map \<Rightarrow> u64 \<Rightarrow> u32 \<Rightarrow> Trace_Event \<Rightarrow> advanced_state \<Rightarrow> advanced_state option" where
  "advanced_handle_mem_event imap curtime instr ev st =
     (if \<not> disas st then None
      else (case imap (ucast (ip ev)) of
              None \<Rightarrow> None
            | Some oc \<Rightarrow>
                Some (st\<lparr>delayed_entries := delayed_entries st @
                  [\<lparr>d_curtime = curtime, d_instr = instr, d_ev = ev, d_opcode = opcode oc,
                    branches_before = of_nat (length (branches_taken st))\<rparr>]\<rparr>)))"

definition AdvancedMemoryImporter :: "instr_map \<Rightarrow> advanced_state importer_class" where
  "AdvancedMemoryImporter imap =
     \<lparr>handle_ip_event = advanced_handle_ip_event imap,
      handle_mem_event = advanced_handle_mem_event imap,
      trace_end_reached = insert_delayed_entries True, open_unused = open_unused_ec_intervals,
      virtual_add = add_trace_event advanced_insert_data\<rparr>"

section \<open>The two-pass reference\<close>

text \<open>The branch decisions of a trace: \<open>pending\<close> is the fall-through address of a conditional branch just executed.\<close>

definition fall_through :: "instr_map \<Rightarrow> Trace_Event \<Rightarrow> u64 option" where
  "fall_through imap ev =
     (case imap (ucast (ip ev)) of
        None \<Rightarrow> None
      | Some oc \<Rightarrow> if conditional_branch oc then Some (ucast (i_address oc + ucast (i_length oc))) else None)"

fun branch_history :: "instr_map \<Rightarrow> u64 option \<Rightarrow> Trace_Event list \<Rightarrow> bool list" where
  "branch_history imap pending [] = []"
| "branch_history imap pending (ev # evs) =
     (if memaddr ev \<noteq> None then branch_history imap pending evs
      else (case pending of None \<Rightarrow> [] | Some a \<Rightarrow> [ip ev \<noteq> a]) @ branch_history imap (fall_through imap ev) evs)"

text \<open>
  The window as a specification: bit \<open>15 - p\<close> is the decision of the branch \<open>p\<close> after the access
  (before it, for negative \<open>p\<close>), 0 where there is none.
\<close>

definition window_bit :: "bool list \<Rightarrow> nat \<Rightarrow> nat \<Rightarrow> bool" where
  "window_bit taken before k \<longleftrightarrow> k < 32 \<and> k \<le> before + 15 \<and> before + 15 - k < length taken \<and> taken ! (before + 15 - k)"

definition two_pass_data :: "instr_map \<Rightarrow> bool list \<Rightarrow> Trace_Event \<Rightarrow> bool \<Rightarrow> advanced_state \<Rightarrow> advanced_columns option" where
  "two_pass_data imap history ev is_fake st =
     (if is_fake then Some None
      else (case imap (ucast (ip ev)) of
              None \<Rightarrow> None
            | Some oc \<Rightarrow> Some (Some (opcode oc, branchmask history (of_nat (length (branches_taken st)))))))"

definition two_pass :: "instr_map \<Rightarrow> bool list \<Rightarrow> advanced_state importer_class" where
  "two_pass imap history =
     \<lparr>handle_ip_event = (\<lambda>curtime instr ev st. look_ahead imap ev (note_branch ev st)),
      handle_mem_event = (\<lambda>curtime instr ev st.
        if \<not> disas st \<or> imap (ucast (ip ev)) = None then None
        else memory_handle_mem_event (two_pass_data imap history) curtime instr ev st),
      trace_end_reached = Some, open_unused = open_unused_ec_intervals,
      virtual_add = add_trace_event (two_pass_data imap history)\<rparr>"

section \<open>The branch window\<close>

lemma bit_fold_or:
  "bit (foldl (\<lambda>m p. or m (push_bit (f p) (of_bool (g p)))) (z :: u32) ps) k \<longleftrightarrow>
     bit z k \<or> k < 32 \<and> (\<exists>p \<in> set ps. f p = k \<and> g p)"
  by (induction ps arbitrary: z) (auto simp: bit_simps bit_imp_le_length)

lemma int_less_power: "n < 2 ^ k \<Longrightarrow> int n < 2 ^ k"
proof -
  assume "n < 2 ^ k"
  then have "int n < int (2 ^ k)" by (simp only: of_nat_less_iff)
  then show ?thesis by simp
qed

lemma sint_small: "unat (w :: u32) < 2 ^ 31 \<Longrightarrow> sint w = int (unat w)"
proof -
  assume "unat w < 2 ^ 31"
  from int_less_power [OF this] have "signed_take_bit 31 (uint w) = uint w" by (intro signed_take_bit_int_eq_self) (simp_all add: order_trans [OF _ uint_ge_0])
  then show ?thesis by (simp add: sint_uint)
qed

lemma unat_word_of_int_u32: "0 \<le> i \<Longrightarrow> i < 2 ^ 32 \<Longrightarrow> unat (word_of_int i :: u32) = nat i"
  by (simp add: unat_eq_nat_uint uint_word_of_int_eq take_bit_int_eq_self)

lemma branch_index:
  assumes "unat (before :: u32) < 2 ^ 31" and "- int (unat before) \<le> p" and "p < 16"
  shows "unat (before + word_of_int p) = nat (int (unat before) + p)"
proof -
  let ?i = "int (unat before) + p"
  have "0 \<le> ?i" using assms(2) by linarith
  moreover have "?i < 2 ^ 32" using int_less_power [OF assms(1)] assms(3) by simp
  ultimately have "unat (word_of_int ?i :: u32) = nat ?i" by (rule unat_word_of_int_u32)
  moreover have "before + word_of_int p = word_of_int ?i" by simp
  ultimately show ?thesis by (simp only:)
qed

lemma bit_branchmask:
  assumes "length taken < 2 ^ 31" and "unat before \<le> length taken"
  shows "bit (branchmask taken before) k \<longleftrightarrow> window_bit taken (unat before) k"
proof -
  let ?b = "int (unat before)"
  let ?n = "int (length taken)"
  have small: "unat before < 2 ^ 31" using assms by simp
  have len: "sint (of_nat (length taken) :: u32) = ?n"
    using assms(1) by (simp add: sint_small unat_of_nat_u32)
  have "bit (branchmask taken before) k \<longleftrightarrow>
      k < 32 \<and> (\<exists>p \<in> {max (- 16) (- ?b)..min 16 (?n - ?b) - 1}. nat (16 - p - 1) = k \<and> taken ! unat (before + word_of_int p))"
    unfolding branchmask_def Let_def bit_fold_or sint_small [OF small] len set_upto by simp
  also have "\<dots> \<longleftrightarrow> k < 32 \<and>
      (\<exists>p. - 16 \<le> p \<and> - ?b \<le> p \<and> p < 16 \<and> p < ?n - ?b \<and> p = 15 - int k \<and> taken ! nat (?b + p))"
    (is "_ \<and> ?l \<longleftrightarrow> _ \<and> ?r")
  proof -
    have "?l \<longleftrightarrow> ?r"
    proof
      assume ?l
      then obtain p where p: "- 16 \<le> p" "- ?b \<le> p" "p < 16" "p < ?n - ?b" "nat (16 - p - 1) = k" "taken ! unat (before + word_of_int p)"
        by auto
      then show ?r using branch_index [OF small p(2,3)] by (intro exI [of _ p]) auto
    next
      assume ?r
      then obtain p where p: "- 16 \<le> p" "- ?b \<le> p" "p < 16" "p < ?n - ?b" "p = 15 - int k" "taken ! nat (?b + p)"
        by blast
      then show ?l using branch_index [OF small p(2,3)] by (intro bexI [of _ p]) auto
    qed
    then show ?thesis by blast
  qed
  also have "\<dots> \<longleftrightarrow> window_bit taken (unat before) k"
  proof -
    obtain n where n: "unat before = n" by blast
    have "nat (int n + (15 - int k)) = n + 15 - k" by linarith
    then show ?thesis unfolding window_bit_def n by auto
  qed
  finally show ?thesis .
qed

lemma window_complete:
  "before + 16 \<le> length taken \<Longrightarrow> window_bit (taken @ later) before k = window_bit taken before k"
proof -
  assume "before + 16 \<le> length taken"
  then have i: "before + 15 - k < length taken" by linarith
  then have "before + 15 - k < length (taken @ later)" by simp
  with i show ?thesis unfolding window_bit_def nth_append by (simp only: if_True)
qed

lemma branchmask_complete:
  assumes "length (taken @ later) < 2 ^ 31" and "unat before + 16 \<le> length taken"
  shows "branchmask (taken @ later) before = branchmask taken before"
proof (rule bit_word_eqI)
  show "bit (branchmask (taken @ later) before) k = bit (branchmask taken before) k" for k
    using assms by (simp add: bit_branchmask window_complete)
qed

text \<open>
  C30. The column \<open>jumphistory\<close> is a window of 32 branch decisions around the access: bit \<open>15 - p\<close> is set
  when the branch \<open>p\<close> after the access (counted from 0, before it for negative \<open>p\<close>) exists and was
  taken. The signed and unsigned 32-bit arithmetic is exact below \<open>2^31\<close> branches.
\<close>

theorem jumphistory_window:
  assumes "length taken < 2 ^ 31" and "unat before \<le> length taken"
  shows "bit (branchmask taken before) k \<longleftrightarrow> window_bit taken (unat before) k"
  using assms by (rule bit_branchmask)

theorem jumphistory_window_witness:
  "branchmask [True, False, True] 1 = 2 ^ 16 + 2 ^ 14 \<and> bit (branchmask [True, False, True] 1) 16 \<and>
   \<not> bit (branchmask [True, False, True] 1) 15"
proof -
  have "bit (branchmask [True, False, True] 1) 16" "\<not> bit (branchmask [True, False, True] 1) 15"
    using jumphistory_window [of "[True, False, True]" 1 16] jumphistory_window [of "[True, False, True]" 1 15]
    by (simp_all add: window_bit_def)
  moreover have "branchmask [True, False, True] 1 = 2 ^ 16 + 2 ^ 14" by code_simp
  ultimately show ?thesis by blast
qed

end
