(* ===== verification/Importer_Maps.thy ===== *)
theory Importer_Maps
  imports Trace_Coverage
begin

text \<open>
  Maps between the states of two importers. A map that commutes with the table of open classes and
  with the insertion of rows commutes with everything the template and the byte loops do; the locale
  \<open>importer_map\<close> proves it once. Its interpretations add the private state of a specialised importer
  and drop the additional columns. The last section is about columns that never fail.
\<close>

section \<open>Maps between importer states\<close>

locale importer_map =
  fixes h :: "('x, 'z) Importer_scheme \<Rightarrow> ('y, 'w) Importer_scheme"
    and data :: "Trace_Event \<Rightarrow> bool \<Rightarrow> ('x, 'z) Importer_scheme \<Rightarrow> 'x option"
    and data' :: "Trace_Event \<Rightarrow> bool \<Rightarrow> ('y, 'w) Importer_scheme \<Rightarrow> 'y option"
  assumes map_read: "m_mm (h s) = m_mm s" "m_open_ecs (h s) = m_open_ecs s"
      "m_time_trace_start (h s) = m_time_trace_start s" "m_last_instr (h s) = m_last_instr s"
      "m_last_ip (h s) = m_last_ip s" "m_last_time (h s) = m_last_time s"
      "m_faultspace_rightmargin (h s) = m_faultspace_rightmargin s"
    and map_write: "h (s\<lparr>m_open_ecs := ecs\<rparr>) = (h s)\<lparr>m_open_ecs := ecs\<rparr>"
    and map_add: "add_trace_event data' b e ev fake (h s) = map_option h (add_trace_event data b e ev fake s)"
begin

lemma map_getOpenEC: "getOpenEC a (h s) = (fst (getOpenEC a s), h (snd (getOpenEC a s)))"
  by (simp add: getOpenEC_def map_read map_write split: option.split)

lemma map_newOpenEC: "newOpenEC a t d i (h s) = h (newOpenEC a t d i s)"
  by (simp add: newOpenEC_def map_read map_write)

lemma map_record_access:
  "record_access (add_trace_event data') t i a ev (h s) = map_option h (record_access (add_trace_event data) t i a ev s)"
  by (simp add: record_access_def map_getOpenEC map_add map_newOpenEC option.map_comp comp_def split: prod.split)

lemma map_addr_loop:
  assumes "\<And>a s. body' a (h s) = map_option h (body a s)"
  shows "addr_loop body' a to (h s) = map_option h (addr_loop body a to s)"
  using assms
proof (induction body a to s rule: addr_loop.induct)
  case (1 body a to s)
  have IH: "addr_loop body' (a + 1) to (h s') = map_option h (addr_loop body (a + 1) to s')"
    if "a < to" "body a s = Some s'" for s'
    by (rule 1(1) [OF that 1(2)])
  show ?case
    by (subst (1 2) addr_loop.simps) (simp add: 1(2) IH split: option.split)
qed

lemma map_mem_event:
  "memory_handle_mem_event data' t i ev (h s) = map_option h (memory_handle_mem_event data t i ev s)"
  unfolding memory_handle_mem_event_def Let_def
  by (rule map_addr_loop) (simp add: mm_skips_def map_read map_record_access)

lemma map_open_unused: "open_unused_ec_intervals (h s) = h (open_unused_ec_intervals s)"
proof (cases "m_mm s")
  case (Some mm)
  let ?f = "\<lambda>s a. if RBT.lookup (m_open_ecs s) a = None then newOpenEC a (m_time_trace_start s) 0 0 s else s"
  have "foldl ?f (h s) as = h (foldl ?f s as)" for as
    by (induction as arbitrary: s) (simp_all add: map_read map_newOpenEC)
  with Some show ?thesis by (simp add: open_unused_ec_intervals_def map_read)
qed (simp add: open_unused_ec_intervals_def map_read)

lemma map_close_intervals:
  assumes "virtual_add c = add_trace_event data" and "virtual_add c' = add_trace_event data'"
  shows "close_ec_intervals c' (h s) = map_option h (close_ec_intervals c s)"
proof -
  have "close_ec c' x (h s) = map_option h (close_ec c x s)" for x s
    by (cases x) (simp add: close_ec_def Let_def map_read assms map_add)
  then have "fold_option (close_ec c') xs (h s) = map_option h (fold_option (close_ec c) xs s)" for xs s
    by (induction xs arbitrary: s) (simp_all split: option.split)
  then show ?thesis by (simp add: close_ec_intervals_def map_read)
qed

end

text \<open>A specialised importer's private state around the common part.\<close>

interpretation ex: importer_map "\<lambda>b. Importer.extend b z" "\<lambda>ev fake b. data ev fake (Importer.extend b z)" data
  for z data
  by unfold_locales (simp_all add: Importer.extend_def add_trace_event_def Let_def split: bind_splits)

lemma extend_truncate [simp]: "Importer.extend (Importer.truncate s) (Importer.more s) = s"
  by (cases s) (simp add: Importer.extend_def Importer.truncate_def)

lemma truncate_extend [simp]: "Importer.truncate (Importer.extend b z) = b" "Importer.more (Importer.extend b z) = z"
  by (cases b, simp add: Importer.extend_def Importer.truncate_def)+

lemma common_extend [simp]:
  "m_elf (Importer.extend b z) = m_elf b" "m_time_trace_start (Importer.extend b z) = m_time_trace_start b"
  "m_elf (Importer.truncate s) = m_elf s" "m_time_trace_start (Importer.truncate s) = m_time_trace_start s"
  by (simp_all add: Importer.extend_def Importer.truncate_def)

text \<open>Dropping the additional columns.\<close>

definition drop_columns :: "('x, 'z) Importer_scheme \<Rightarrow> unit Importer" where
  "drop_columns s =
     \<lparr>m_variant_id = m_variant_id s, m_elf = m_elf s, m_mm = m_mm s, m_faultspace_rightmargin = m_faultspace_rightmargin s,
      m_sanitychecks = m_sanitychecks s, m_import_write_ecs = m_import_write_ecs s, m_extended_trace = m_extended_trace s,
      m_extended_trace_regs = m_extended_trace_regs s, m_row_count = m_row_count s, m_time_trace_start = m_time_trace_start s,
      m_open_ecs = m_open_ecs s, m_last_ip = m_last_ip s, m_last_instr = m_last_instr s, m_last_time = m_last_time s,
      inserted = map (\<lambda>r. \<lparr>im_row = im_row r, im_ext = im_ext r, im_extra = ()\<rparr>) (inserted s)\<rparr>"

interpretation dc: importer_map drop_columns "\<lambda>ev fake s. Some (columns ev fake s)" no_columns
  for columns :: "Trace_Event \<Rightarrow> bool \<Rightarrow> ('x, 'z) Importer_scheme \<Rightarrow> 'x"
  by unfold_locales (simp_all add: drop_columns_def add_trace_event_def no_columns_def Let_def)

section \<open>Access events with total columns\<close>

lemma addr_loop_invariant:
  assumes "\<And>a s. Inv s \<Longrightarrow> \<exists>s'. body a s = Some s' \<and> Inv s'" and "Inv s"
  shows "\<exists>s'. addr_loop body a to s = Some s' \<and> Inv s'"
  using assms
proof (induction body a to s rule: addr_loop.induct)
  case (1 body a to s)
  obtain s' where s': "body a s = Some s'" "Inv s'" using 1(2,3) by blast
  show ?case
  proof (cases "a < to")
    case True
    from 1(1) [OF True s'(1) 1(2) s'(2)] True s'(1) show ?thesis by (simp add: addr_loop.simps [of body a])
  next
    case False
    with 1(3) show ?thesis by (simp add: addr_loop.simps)
  qed
qed

lemma add_trace_event_total:
  assumes "data ev fake s \<noteq> None"
  obtains s' where "add_trace_event data b e ev fake s = Some s'" "m_elf s' = m_elf s"
    "m_time_trace_start s' = m_time_trace_start s"
  using assms that unfolding add_trace_event_def Let_def by (cases "m_import_write_ecs s \<or> accesstype ev \<noteq> WRITE") auto

lemma record_access_total:
  assumes "\<And>ev fake s. data ev fake s \<noteq> None"
  obtains s' where "record_access (add_trace_event data) t i a ev s = Some s'" "m_elf s' = m_elf s"
    "m_time_trace_start s' = m_time_trace_start s"
proof -
  obtain l s1 where g: "getOpenEC a s = (l, s1)" by fastforce
  then have s1: "m_elf s1 = m_elf s" "m_time_trace_start s1 = m_time_trace_start s"
    by (auto simp: getOpenEC_def Let_def split: option.splits)
  let ?e = "\<lparr>mi_dyninstr = i, mi_ip = ip ev, mi_time = t\<rparr>"
  obtain s2 where "add_trace_event data l ?e (ev\<lparr>memaddr := Some a\<rparr>) False s1 = Some s2"
      "m_elf s2 = m_elf s1" "m_time_trace_start s2 = m_time_trace_start s1"
    by (rule add_trace_event_total [of data "ev\<lparr>memaddr := Some a\<rparr>" False s1 l ?e]) (use assms in simp_all)
  with g s1 that show ?thesis
    by (cases "i < mi_dyninstr l") (simp_all add: record_access_def newOpenEC_def)
qed

lemma mem_event_total:
  assumes "\<And>ev fake s. data ev fake s \<noteq> None"
  shows "\<exists>s'. memory_handle_mem_event data t i ev s = Some s' \<and> m_elf s' = m_elf s \<and> m_time_trace_start s' = m_time_trace_start s"
proof -
  have "\<exists>s2. (if mm_skips a s1 then Some s1
      else record_access (add_trace_event data) t i a (ev\<lparr>width := 1\<rparr>) s1) = Some s2 \<and>
      m_elf s2 = m_elf s \<and> m_time_trace_start s2 = m_time_trace_start s"
    if "m_elf s1 = m_elf s \<and> m_time_trace_start s1 = m_time_trace_start s" for a s1
    by (rule record_access_total [of data t i a "ev\<lparr>width := 1\<rparr>" s1]) (use assms that in simp_all)
  then show ?thesis
    unfolding memory_handle_mem_event_def Let_def
    by (intro addr_loop_invariant [where Inv = "\<lambda>x. m_elf x = m_elf s \<and> m_time_trace_start x = m_time_trace_start s"]) simp_all
qed

lemma mem_event_cong:
  assumes "\<And>e fake s. ip e = ip ev \<Longrightarrow> data e fake s = data' e fake s"
  shows "memory_handle_mem_event data t i ev s = memory_handle_mem_event data' t i ev s"
proof -
  have add: "add_trace_event data b r e fake s = add_trace_event data' b r e fake s" if "ip e = ip ev" for b r e fake s
    unfolding add_trace_event_def by (simp only: assms [OF that])
  have "record_access (add_trace_event data) t i a (ev\<lparr>width := w\<rparr>) s =
      record_access (add_trace_event data') t i a (ev\<lparr>width := w\<rparr>) s" for a w s
    unfolding record_access_def by (subst add) simp_all
  then show ?thesis by (simp only: memory_handle_mem_event_def)
qed

end
