(* ===== verification/Advanced_Refinement.thy ===== *)
theory Advanced_Refinement
  imports Advanced_Import Importer_Maps
begin

text \<open>
  Correctness of the \<open>AdvancedMemoryImporter\<close>: the queue of delayed accesses is invisible. The streaming
  import simulates the two-pass reference, and without its columns it is the memory importer.
\<close>

section \<open>Simulation of the two-pass import\<close>

lemma private_extend [simp]:
  fixes s :: advanced_state
  shows "am_isDisassembled (Importer.extend b (Importer.more s)) = am_isDisassembled s"
    "disas (Importer.extend b (Importer.more s)) = disas s"
    "m_last_was_conditional_branch (Importer.extend b (Importer.more s)) = m_last_was_conditional_branch s"
    "m_ip_jump_not_taken (Importer.extend b (Importer.more s)) = m_ip_jump_not_taken s"
    "branches_taken (Importer.extend b (Importer.more s)) = branches_taken s"
    "delayed_entries (Importer.extend b (Importer.more s)) = delayed_entries s"
    "m_cur_branchmask (Importer.extend b (Importer.more s)) = m_cur_branchmask s"
  by (cases s, simp add: Importer.extend_def)+

text \<open>
  The upcall of an entry with the columns of the two-pass import, on the common part of the state, and
  the effect of the entries still held back.
\<close>

definition entry_data :: "bool list \<Rightarrow> DelayedTraceEntry \<Rightarrow> Trace_Event \<Rightarrow> bool \<Rightarrow> advanced_columns Importer \<Rightarrow> advanced_columns option" where
  "entry_data history d ev is_fake b =
     Some (if is_fake then None else Some (d_opcode d, branchmask history (branches_before d)))"

definition upcall :: "bool list \<Rightarrow> DelayedTraceEntry \<Rightarrow> advanced_columns Importer \<Rightarrow> advanced_columns Importer option" where
  "upcall history d = memory_handle_mem_event (entry_data history d) (d_curtime d) (d_instr d) (d_ev d)"

lemma upcall_total:
  obtains b' where "upcall history d b = Some b'" "m_elf b' = m_elf b" "m_time_trace_start b' = m_time_trace_start b"
  using mem_event_total [of "entry_data history d" "d_curtime d" "d_instr d" "d_ev d" b] that
  unfolding upcall_def entry_data_def by blast

lemma upcall_mem_event:
  assumes "\<And>e fake b. ip e = ip (d_ev d) \<Longrightarrow> data e fake (Importer.extend b (Importer.more s)) = entry_data history d e fake b"
    and "upcall history d (Importer.truncate s) = Some b"
  shows "memory_handle_mem_event data (d_curtime d) (d_instr d) (d_ev d) s = Some (Importer.extend b (Importer.more s))"
proof -
  have "memory_handle_mem_event (\<lambda>ev fake b. data ev fake (Importer.extend b (Importer.more s)))
      (d_curtime d) (d_instr d) (d_ev d) (Importer.truncate s) = Some b"
    using assms unfolding upcall_def by (subst mem_event_cong [where data' = "entry_data history d"]) simp_all
  then show ?thesis using ex.map_mem_event [where data = data and z = "Importer.more s" and s = "Importer.truncate s"] by simp
qed

definition same_private :: "advanced_state \<Rightarrow> advanced_state \<Rightarrow> bool" where
  "same_private s s' \<longleftrightarrow> am_isDisassembled s' = am_isDisassembled s \<and> disas s' = disas s \<and>
     m_last_was_conditional_branch s' = m_last_was_conditional_branch s \<and>
     m_ip_jump_not_taken s' = m_ip_jump_not_taken s \<and> branches_taken s' = branches_taken s \<and>
     m_elf s' = m_elf s \<and> m_time_trace_start s' = m_time_trace_start s"

lemma entry_mask:
  assumes "history = taken @ later" and "length history < 2 ^ 31"
    and "unat (branches_before d) \<le> length taken" and "unat (branches_before d + 16) \<le> length taken \<or> finalizing"
    and "finalizing \<Longrightarrow> later = []"
  shows "(if branches_before d \<noteq> 0xFFFFFFFF then branchmask taken (branches_before d) else m) =
    branchmask history (branches_before d)"
proof -
  have b: "unat (branches_before d) < 2 ^ 31" using assms(1-3) by simp
  then have "branches_before d \<noteq> 0xFFFFFFFF" by auto
  moreover have "branchmask taken (branches_before d) = branchmask history (branches_before d)"
  proof (cases finalizing)
    case False
    have "unat (branches_before d + 16) = unat (branches_before d) + 16" using b by (simp add: unat_word_ariths)
    with False assms(1,2,4) branchmask_complete [of taken later "branches_before d"] show ?thesis by simp
  qed (use assms in simp)
  ultimately show ?thesis by simp
qed

lemma insert_delayed_simulates:
  assumes "history = branches_taken s @ later" and "length history < 2 ^ 31"
    and "\<forall>d \<in> set ds. unat (branches_before d) \<le> length (branches_taken s)" and "finalizing \<Longrightarrow> later = []"
  shows "\<exists>s'. insert_delayed finalizing ds s = Some s' \<and> same_private s s' \<and> set (delayed_entries s') \<subseteq> set ds \<and>
    (finalizing \<longrightarrow> delayed_entries s' = []) \<and>
    fold_option (upcall history) (delayed_entries s') (Importer.truncate s') = fold_option (upcall history) ds (Importer.truncate s)"
  using assms
proof (induction ds arbitrary: s)
  case Nil
  show ?case
    by (rule exI [of _ "s\<lparr>delayed_entries := []\<rparr>"]) (simp add: same_private_def Importer.truncate_def)
next
  case (Cons d ds)
  show ?case
  proof (cases "unat (branches_before d + 16) \<le> length (branches_taken s) \<or> finalizing")
    case True
    let ?s1 = "s\<lparr>delayed_entries := d # ds, m_cur_branchmask :=
        (if branches_before d \<noteq> 0xFFFFFFFF then branchmask (branches_taken s) (branches_before d) else m_cur_branchmask s)\<rparr>"
    note mask = entry_mask [OF Cons.prems(1,2) _ _ Cons.prems(4), of d finalizing]
    obtain b where b: "upcall history d (Importer.truncate s) = Some b" "m_elf b = m_elf s"
        "m_time_trace_start b = m_time_trace_start s"
      by (rule upcall_total [of history d "Importer.truncate s"]) simp
    let ?s2 = "Importer.extend b (Importer.more ?s1)"
    have "memory_handle_mem_event advanced_insert_data (d_curtime d) (d_instr d) (d_ev d) ?s1 = Some ?s2"
    proof (rule upcall_mem_event [of d _ _ history])
      show "upcall history d (Importer.truncate ?s1) = Some b" using b(1) by (simp add: Importer.truncate_def)
      show "advanced_insert_data e fake (Importer.extend b (Importer.more ?s1)) = entry_data history d e fake b"
        if "ip e = ip (d_ev d)" for e fake b
        using that mask True Cons.prems(3) unfolding advanced_insert_data_def entry_data_def private_extend by simp
    qed
    then have step: "insert_delayed finalizing (d # ds) s = insert_delayed finalizing ds ?s2"
      using True by simp
    have p: "branches_taken ?s2 = branches_taken s" "same_private s ?s2"
      unfolding same_private_def private_extend using b by simp_all
    obtain s' where "insert_delayed finalizing ds ?s2 = Some s'" "same_private ?s2 s'" "set (delayed_entries s') \<subseteq> set ds"
        "finalizing \<longrightarrow> delayed_entries s' = []"
        "fold_option (upcall history) (delayed_entries s') (Importer.truncate s') = fold_option (upcall history) ds b"
      using Cons.IH [of ?s2] Cons.prems p(1) by auto
    with step p(2) b(1) show ?thesis by (intro exI [of _ s']) (auto simp: same_private_def)
  next
    case False
    then show ?thesis
      by (intro exI [of _ "s\<lparr>delayed_entries := d # ds\<rparr>"]) (simp add: same_private_def Importer.truncate_def)
  qed
qed

text \<open>
  The states of the two imports: the reference is what the delayed entries will make of the streaming
  state.
\<close>

definition delays :: "bool list \<Rightarrow> advanced_state \<Rightarrow> advanced_state \<Rightarrow> bool" where
  "delays history s a \<longleftrightarrow>
     fold_option (upcall history) (delayed_entries a) (Importer.truncate a) = Some (Importer.truncate s) \<and>
     same_private s a \<and> (\<forall>d \<in> set (delayed_entries a). unat (branches_before d) \<le> length (branches_taken s))"

definition pending :: "advanced_state \<Rightarrow> u64 option" where
  "pending s = (if m_last_was_conditional_branch s then Some (m_ip_jump_not_taken s) else None)"

lemma truncate_private [simp]:
  fixes s :: advanced_state
  shows "Importer.truncate (note_branch ev s) = Importer.truncate s"
    "Importer.truncate (s\<lparr>delayed_entries := ds\<rparr>) = Importer.truncate s"
    "Importer.truncate (s\<lparr>disas := b\<rparr>) = Importer.truncate s"
    "Importer.truncate (s\<lparr>m_last_was_conditional_branch := b\<rparr>) = Importer.truncate s"
    "Importer.truncate (s\<lparr>m_ip_jump_not_taken := x\<rparr>) = Importer.truncate s"
  by (simp_all add: Importer.truncate_def note_branch_def)

lemma delays_note_branch: "delays history s a \<Longrightarrow> delays history (note_branch ev s) (note_branch ev a)"
  by (auto simp: delays_def same_private_def note_branch_def Importer.truncate_def)

lemma branches_note_branch:
  "branches_taken (note_branch ev s) = branches_taken s @ (case pending s of None \<Rightarrow> [] | Some x \<Rightarrow> [ip ev \<noteq> x])"
  by (simp add: note_branch_def pending_def)

lemma look_ahead_simulates:
  assumes "delays history s a"
  shows "rel_option (delays history) (look_ahead imap ev s) (look_ahead imap ev a)"
  using assms unfolding look_ahead_def delays_def same_private_def Let_def
  by (cases "imap (ucast (ip ev))") auto

lemma look_ahead_pending:
  assumes "look_ahead imap ev (note_branch ev s) = Some s'"
  shows "pending s' = fall_through imap ev" "branches_taken s' = branches_taken (note_branch ev s)"
    "m_time_trace_start s' = m_time_trace_start s"
  using assms
  by (auto simp: look_ahead_def note_branch_def pending_def fall_through_def Let_def split: if_splits option.splits)

lemma ip_event_simulates:
  assumes "delays history s a" and "history = branches_taken (note_branch ev s) @ later" and "length history < 2 ^ 31"
  shows "rel_option (delays history) (look_ahead imap ev (note_branch ev s)) (advanced_handle_ip_event imap t i ev a)"
proof -
  let ?a = "note_branch ev a"
  note d = delays_note_branch [OF assms(1), of ev]
  obtain a' where "insert_delayed False (delayed_entries ?a) ?a = Some a'" "same_private ?a a'"
      "set (delayed_entries a') \<subseteq> set (delayed_entries ?a)"
      "fold_option (upcall history) (delayed_entries a') (Importer.truncate a') =
         fold_option (upcall history) (delayed_entries ?a) (Importer.truncate ?a)"
    using insert_delayed_simulates [of history ?a later "delayed_entries ?a" False] assms(2,3) d
    by (auto simp: delays_def same_private_def)
  with d have "delays history (note_branch ev s) a'" "insert_delayed_entries False ?a = Some a'"
    by (auto simp: delays_def same_private_def insert_delayed_entries_def)
  with look_ahead_simulates [of history "note_branch ev s" a'] show ?thesis
    by (simp add: advanced_handle_ip_event_def)
qed

lemma fold_option_append:
  "fold_option f (xs @ ys) s = Option.bind (fold_option f xs s) (fold_option f ys)"
  by (induction xs arbitrary: s) (simp_all split: option.split)

lemma mem_event_simulates:
  assumes "delays history s a" and "history = branches_taken s @ later" and "length history < 2 ^ 31"
  shows "rel_option (\<lambda>s' a'. delays history s' a' \<and> same_private s s')
    (handle_mem_event (two_pass imap history) t i ev s) (advanced_handle_mem_event imap t i ev a)"
proof (cases "disas s \<and> imap (ucast (ip ev)) \<noteq> None")
  case True
  then obtain oc where oc: "imap (ucast (ip ev)) = Some oc" by blast
  have priv: "disas a" "branches_taken a = branches_taken s" using assms(1) True by (simp_all add: delays_def same_private_def)
  let ?d = "\<lparr>d_curtime = t, d_instr = i, d_ev = ev, d_opcode = opcode oc, branches_before = of_nat (length (branches_taken s))\<rparr>"
  obtain b where b: "upcall history ?d (Importer.truncate s) = Some b" "m_elf b = m_elf s" "m_time_trace_start b = m_time_trace_start s"
    by (rule upcall_total [of history ?d "Importer.truncate s"]) simp
  let ?s' = "Importer.extend b (Importer.more s)"
  have "memory_handle_mem_event (two_pass_data imap history) (d_curtime ?d) (d_instr ?d) (d_ev ?d) s = Some ?s'"
    by (rule upcall_mem_event [OF _ b(1)]) (simp add: two_pass_data_def entry_data_def oc)
  then have ref: "handle_mem_event (two_pass imap history) t i ev s = Some ?s'" using True by (simp add: two_pass_def)
  have "unat (of_nat (length (branches_taken s)) :: u32) = length (branches_taken s)"
    using assms(2,3) by (simp add: unat_of_nat_u32)
  with assms(1) b priv have "delays history ?s' (a\<lparr>delayed_entries := delayed_entries a @ [?d]\<rparr>)"
    by (auto simp: delays_def same_private_def fold_option_append)
  moreover have "advanced_handle_mem_event imap t i ev a = Some (a\<lparr>delayed_entries := delayed_entries a @ [?d]\<rparr>)"
    using priv oc by (simp add: advanced_handle_mem_event_def)
  moreover have "same_private s ?s'" using b by (simp add: same_private_def)
  ultimately show ?thesis by (simp add: ref)
next
  case False
  then show ?thesis using assms(1)
    by (auto simp: two_pass_def advanced_handle_mem_event_def delays_def same_private_def split: option.split)
qed

lemma advance_clock_started:
  "m_time_trace_start s \<noteq> 0 \<Longrightarrow> advance_clock ev t s =
     (case time_delta ev of None \<Rightarrow> Some (t, s) | Some d \<Rightarrow> if d < 0 then None else Some (t + of_int d, s))"
  by (simp add: advance_clock_def split: option.split)

definition in_step :: "bool list \<Rightarrow> u64 \<times> u32 \<times> advanced_state \<Rightarrow> u64 \<times> u32 \<times> advanced_state \<Rightarrow> bool" where
  "in_step history = (\<lambda>(t, i, s) (t', i', a). t = t' \<and> i = i' \<and> delays history s a \<and> branches_taken s = history)"

lemma import_events_simulates:
  assumes "delays history s a" and "history = branches_taken s @ branch_history imap (pending s) evs"
    and "length history < 2 ^ 31" and "m_time_trace_start s \<noteq> 0"
  shows "rel_option (in_step history) (import_events (two_pass imap history) evs t i im s)
    (import_events (AdvancedMemoryImporter imap) evs t i im a)"
  using assms
proof (induction evs arbitrary: t i im s a)
  case Nil
  then show ?case by (simp add: in_step_def)
next
  case (Cons ev evs)
  have start: "m_time_trace_start a = m_time_trace_start s" using Cons.prems(1) by (simp add: delays_def same_private_def)
  show ?case
  proof (cases "time_delta ev = None \<or> (\<exists>d. time_delta ev = Some d \<and> 0 \<le> d)")
    case True
    then obtain now where now: "advance_clock ev t s = Some (now, s)" "advance_clock ev t a = Some (now, a)"
      using Cons.prems(4) start by (auto simp: advance_clock_started)
    show ?thesis
    proof (cases "memaddr ev")
      case None
      have h: "history = branches_taken (note_branch ev s) @ branch_history imap (fall_through imap ev) evs"
        using Cons.prems(2) None by (simp add: branches_note_branch)
      from ip_event_simulates [OF Cons.prems(1) h Cons.prems(3), of imap now i]
      show ?thesis
      proof (cases rule: option.rel_cases)
        case (Some s' a')
        note look = look_ahead_pending [OF Some(1)]
        have "rel_option (in_step history) (import_events (two_pass imap history) evs now (i + 1) i s')
            (import_events (AdvancedMemoryImporter imap) evs now (i + 1) i a')"
          by (rule Cons.IH [OF Some(3)]) (use h look Cons.prems(3,4) in simp_all)
        with Some(1,2) show ?thesis by (simp add: now None two_pass_def AdvancedMemoryImporter_def)
      qed (simp add: now None two_pass_def AdvancedMemoryImporter_def)
    next
      case (Some x)
      then have h: "history = branches_taken s @ branch_history imap (pending s) evs" using Cons.prems(2) by simp
      from mem_event_simulates [OF Cons.prems(1) h Cons.prems(3), of imap now im ev]
      show ?thesis
      proof (cases rule: option.rel_cases)
        case (Some s' a')
        have p: "pending s' = pending s" "branches_taken s' = branches_taken s" "m_time_trace_start s' = m_time_trace_start s"
          using Some(3) by (simp_all add: same_private_def pending_def)
        have "rel_option (in_step history) (import_events (two_pass imap history) evs now i im s')
            (import_events (AdvancedMemoryImporter imap) evs now i im a')"
          by (rule Cons.IH) (use Some(3) h p Cons.prems(3,4) in simp_all)
        with Some(1,2) \<open>memaddr ev = Some x\<close> show ?thesis by (simp add: now AdvancedMemoryImporter_def)
      qed (simp_all add: now Some AdvancedMemoryImporter_def)
    qed
  next
    case False
    then have "advance_clock ev t s = None" "advance_clock ev t a = None"
      using Cons.prems(4) start by (auto simp: advance_clock_started)
    then show ?thesis by simp
  qed
qed

text \<open>A trace that starts with a positive time.\<close>

definition starts_clock :: "Trace_Event list \<Rightarrow> bool" where
  "starts_clock evs \<longleftrightarrow> (case evs of [] \<Rightarrow> False
     | ev # _ \<Rightarrow> (case time_delta ev of None \<Rightarrow> False | Some d \<Rightarrow> (of_int d :: u64) \<noteq> 0))"

definition clock_started :: "Trace_Event list \<Rightarrow> ('x, 'z) Importer_scheme \<Rightarrow> ('x, 'z) Importer_scheme" where
  "clock_started evs s = (if m_time_trace_start s = 0
     then s\<lparr>m_time_trace_start := of_int (the (time_delta (hd evs)))\<rparr> else s)"

lemma import_events_clock_started:
  assumes "starts_clock evs"
  shows "import_events c evs t i im s = import_events c evs t i im (clock_started evs s)" "m_time_trace_start (clock_started evs s) \<noteq> 0"
proof -
  from assms obtain ev es d where ev: "evs = ev # es" "time_delta ev = Some d" "(of_int d :: u64) \<noteq> 0"
    unfolding starts_clock_def by (auto split: list.splits option.splits)
  have "advance_clock ev t s = advance_clock ev t (clock_started evs s)" using ev by (simp add: advance_clock_def clock_started_def)
  then show "import_events c evs t i im s = import_events c evs t i im (clock_started evs s)" unfolding ev(1) by simp
  show "m_time_trace_start (clock_started evs s) \<noteq> 0" using ev by (simp add: clock_started_def)
qed

definition fresh_advanced :: "advanced_state \<Rightarrow> bool" where
  "fresh_advanced s \<longleftrightarrow> \<not> am_isDisassembled s \<and> \<not> m_last_was_conditional_branch s \<and>
     branches_taken s = [] \<and> delayed_entries s = []"

lemma trace_end_simulates:
  assumes "delays history s a" and "branches_taken s = history" and "length history < 2 ^ 31"
  obtains a' where "insert_delayed_entries True a = Some a'" "Importer.truncate a' = Importer.truncate s"
proof -
  have "history = branches_taken a @ []" "\<forall>d \<in> set (delayed_entries a). unat (branches_before d) \<le> length (branches_taken a)"
    using assms(1,2) by (simp_all add: delays_def same_private_def)
  from insert_delayed_simulates [OF this(1) assms(3) this(2), of True] assms(1) that show ?thesis
    by (auto simp: delays_def insert_delayed_entries_def)
qed

definition closing :: "advanced_columns Importer importer_class" where
  "closing = \<lparr>handle_ip_event = (\<lambda>curtime instr ev st. Some st), handle_mem_event = (\<lambda>curtime instr ev st. Some st),
     trace_end_reached = Some, open_unused = open_unused_ec_intervals,
     virtual_add = add_trace_event (\<lambda>ev fake s. Some None)\<rparr>"

lemma close_ec_intervals_cong:
  assumes "virtual_add c = add_trace_event data" and "virtual_add c' = add_trace_event data'"
    and "\<And>ev s. data ev True s = data' ev True s"
  shows "close_ec_intervals c s = close_ec_intervals c' s"
proof -
  have "close_ec c x s = close_ec c' x s" for x s
    by (cases x) (simp add: close_ec_def Let_def assms add_trace_event_def)
  then have "close_ec c = close_ec c'" by (intro ext)
  then show ?thesis by (simp only: close_ec_intervals_def)
qed

lemma close_truncated:
  fixes c :: "advanced_state importer_class"
  assumes "virtual_add c = add_trace_event data" and "\<And>ev s. data ev True s = Some None"
  shows "map_option Importer.truncate (close_ec_intervals c (open_unused_ec_intervals s)) =
    close_ec_intervals closing (open_unused_ec_intervals (Importer.truncate s))"
proof -
  let ?c = "c\<lparr>virtual_add := add_trace_event (\<lambda>ev fake s. Some None)\<rparr>"
  have "close_ec_intervals c s = close_ec_intervals ?c s" for s
    by (rule close_ec_intervals_cong [OF assms(1)]) (simp_all add: assms(2))
  moreover have "close_ec_intervals ?c (open_unused_ec_intervals s) =
      map_option (\<lambda>b. Importer.extend b (Importer.more s)) (close_ec_intervals closing (open_unused_ec_intervals (Importer.truncate s)))"
    using ex.map_close_intervals [where data = "\<lambda>ev fake s. Some None" and z = "Importer.more s" and c = closing and c' = ?c]
      ex.map_open_unused [where z = "Importer.more s" and s = "Importer.truncate s"]
    by (simp add: closing_def)
  ultimately show ?thesis by (simp add: option.map_comp comp_def option.map_ident)
qed

lemma import_trace_truncated:
  fixes c :: "advanced_state importer_class"
  assumes "import_events c evs 0 0 0 st = Some (t, i, s)" and "trace_end_reached c s = Some s'"
    and "open_unused c = open_unused_ec_intervals"
    and "virtual_add c = add_trace_event data" and "\<And>ev s. data ev True s = Some None"
  shows "map_option Importer.truncate (import_trace c evs st) =
    close_ec_intervals closing (open_unused_ec_intervals ((Importer.truncate s')\<lparr>m_last_time := t, m_last_instr := i - 1,
      m_last_ip := (if evs = [] then 0 else ip (last evs))\<rparr>))"
proof -
  let ?s = "s'\<lparr>m_last_time := t, m_last_instr := i - 1, m_last_ip := (if evs = [] then 0 else ip (last evs))\<rparr>"
  have "import_trace c evs st = close_ec_intervals c (open_unused_ec_intervals ?s)"
    using assms(1-3) by (simp add: import_trace_def)
  moreover have "Importer.truncate ?s = (Importer.truncate s')\<lparr>m_last_time := t, m_last_instr := i - 1,
      m_last_ip := (if evs = [] then 0 else ip (last evs))\<rparr>"
    by (simp add: Importer.truncate_def)
  ultimately show ?thesis using close_truncated [OF assms(4,5), of ?s] by simp
qed

lemma streaming_two_pass:
  assumes "fresh_advanced st" and "starts_clock evs" and "length (branch_history imap None evs) < 2 ^ 31"
  shows "map_option Importer.truncate (import_trace (AdvancedMemoryImporter imap) evs st) =
    map_option Importer.truncate (import_trace (two_pass imap (branch_history imap None evs)) evs st)"
proof -
  let ?h = "branch_history imap None evs"
  let ?st = "clock_started evs st"
  let ?two = "two_pass imap ?h"
  let ?adv = "AdvancedMemoryImporter imap"
  have "delays ?h ?st ?st" "pending ?st = None" "branches_taken ?st = []"
    using assms(1) by (simp_all add: delays_def same_private_def pending_def fresh_advanced_def clock_started_def)
  then have "rel_option (in_step ?h) (import_events ?two evs 0 0 0 ?st) (import_events ?adv evs 0 0 0 ?st)"
    by (intro import_events_simulates) (use assms import_events_clock_started(2) in simp_all)
  then show ?thesis
  proof (cases rule: option.rel_cases)
    case (Some x y)
    obtain t i s a where xy: "x = (t, i, s)" "y = (t, i, a)" "delays ?h s a" "branches_taken s = ?h"
      using Some(3) by (auto simp: in_step_def)
    obtain a' where a': "insert_delayed_entries True a = Some a'" "Importer.truncate a' = Importer.truncate s"
      by (rule trace_end_simulates [OF xy(3,4) assms(3)])
    note clock = import_events_clock_started(1) [OF assms(2), of _ 0 0 0 st]
    have two: "import_events ?two evs 0 0 0 st = Some (t, i, s)" and adv: "import_events ?adv evs 0 0 0 st = Some (t, i, a)"
      using Some(1,2) xy(1,2) by (simp_all only: clock)
    have "map_option Importer.truncate (import_trace ?adv evs st) =
        close_ec_intervals closing (open_unused_ec_intervals ((Importer.truncate a')\<lparr>m_last_time := t, m_last_instr := i - 1,
          m_last_ip := (if evs = [] then 0 else ip (last evs))\<rparr>))"
      by (rule import_trace_truncated [OF adv, where data = advanced_insert_data])
        (simp_all add: AdvancedMemoryImporter_def a'(1) advanced_insert_data_def)
    moreover have "map_option Importer.truncate (import_trace ?two evs st) =
        close_ec_intervals closing (open_unused_ec_intervals ((Importer.truncate s)\<lparr>m_last_time := t, m_last_instr := i - 1,
          m_last_ip := (if evs = [] then 0 else ip (last evs))\<rparr>))"
      by (rule import_trace_truncated [OF two, where data = "two_pass_data imap ?h"])
        (simp_all add: two_pass_def two_pass_data_def)
    ultimately show ?thesis by (simp only: a'(2))
  qed (simp add: import_trace_def import_events_clock_started(1) [OF assms(2), of _ _ _ _ st])
qed

text \<open>
  C7. Delaying accesses is invisible: the streaming import gives the same rows as the two-pass import,
  which knows the branch history of the whole trace before it inserts the first row. This covers the
  columns \<open>opcode\<close> and \<open>jumphistory\<close>, the order of the rows and the failures, on traces whose first event
  carries a time and that have less than \<open>2^31\<close> branches.
\<close>

theorem advanced_import_is_two_pass:
  assumes "fresh_advanced st" and "starts_clock evs" and "length (branch_history imap None evs) < 2 ^ 31"
  shows "map_option Importer.truncate (import_trace (AdvancedMemoryImporter imap) evs st) =
    map_option Importer.truncate (import_trace (two_pass imap (branch_history imap None evs)) evs st)"
  using assms by (rule streaming_two_pass)

section \<open>The memory importer underneath\<close>

definition two_pass_columns :: "instr_map \<Rightarrow> bool list \<Rightarrow> Trace_Event \<Rightarrow> bool \<Rightarrow> advanced_state \<Rightarrow> advanced_columns" where
  "two_pass_columns imap history ev fake s =
     (if fake then None else Some (opcode (the (imap (ucast (ip ev)))), branchmask history (of_nat (length (branches_taken s)))))"

lemma two_pass_mem_event:
  assumes "imap (ucast (ip ev)) \<noteq> None" and "disas s"
  obtains s' where "handle_mem_event (two_pass imap history) t i ev s = Some s'" "Importer.more s' = Importer.more s"
    "m_elf s' = m_elf s" "handle_mem_event MemoryImporter t i ev (drop_columns s) = Some (drop_columns s')"
proof -
  let ?data = "\<lambda>ev fake s. Some (two_pass_columns imap history ev fake s)"
  have eq: "handle_mem_event (two_pass imap history) t i ev s = memory_handle_mem_event ?data t i ev s"
    using assms by (auto simp: two_pass_def two_pass_data_def two_pass_columns_def intro!: mem_event_cong)
  obtain s' where s': "memory_handle_mem_event ?data t i ev s = Some s'" "m_elf s' = m_elf s"
    using mem_event_total [of ?data t i ev s] by blast
  have "map_option (\<lambda>b. Importer.extend b (Importer.more s))
      (memory_handle_mem_event (\<lambda>ev fake b. ?data ev fake (Importer.extend b (Importer.more s))) t i ev (Importer.truncate s)) = Some s'"
    using s'(1) ex.map_mem_event [where data = ?data and z = "Importer.more s" and s = "Importer.truncate s"] by simp
  then have "Importer.more s' = Importer.more s" by auto
  moreover have "handle_mem_event MemoryImporter t i ev (drop_columns s) = Some (drop_columns s')"
    using s'(1) dc.map_mem_event [of t i ev s "two_pass_columns imap history"] by (simp add: MemoryImporter_def)
  ultimately show ?thesis using that eq s' by simp
qed

lemma more_private:
  fixes s :: advanced_state
  assumes "Importer.more s' = Importer.more s"
  shows "disas s' = disas s" "am_isDisassembled s' = am_isDisassembled s"
  using assms by (cases s, cases s', simp)+

lemma advance_clock_drop:
  "advance_clock ev t (drop_columns s) = map_option (apsnd drop_columns) (advance_clock ev t s)"
  by (simp add: advance_clock_def drop_columns_def split: option.split)

lemma advance_clock_private:
  fixes s :: advanced_state
  shows "advance_clock ev t s = Some (now, s') \<Longrightarrow> disas s' = disas s \<and> am_isDisassembled s' = am_isDisassembled s \<and> m_elf s' = m_elf s"
  by (auto simp: advance_clock_def split: option.splits if_splits)

definition runnable :: "Trace_Event list \<Rightarrow> advanced_state \<Rightarrow> bool" where
  "runnable evs s \<longleftrightarrow> m_elf s \<and> \<not> am_isDisassembled s \<and> (disas s \<or> evs = [] \<or> memaddr (hd evs) = None)"

lemma drop_columns_private [simp]:
  fixes s :: advanced_state
  shows "drop_columns (note_branch ev s) = drop_columns s" "drop_columns (s\<lparr>disas := b\<rparr>) = drop_columns s"
    "drop_columns (s\<lparr>m_last_was_conditional_branch := b\<rparr>) = drop_columns s"
    "drop_columns (s\<lparr>m_ip_jump_not_taken := x\<rparr>) = drop_columns s"
  by (simp_all add: drop_columns_def note_branch_def)

lemma two_pass_ip_event:
  assumes "m_elf s" and "\<not> am_isDisassembled s"
  obtains s' where "handle_ip_event (two_pass imap history) t i ev s = Some s'" "disas s'" "\<not> am_isDisassembled s'" "m_elf s'"
    "drop_columns s' = drop_columns s"
proof -
  let ?n = "(note_branch ev s)\<lparr>disas := True\<rparr>"
  have n: "m_elf (note_branch ev s)" "\<not> am_isDisassembled (note_branch ev s)"
    using assms by (simp_all add: note_branch_def)
  show ?thesis
  proof (cases "fall_through imap ev")
    case None
    with n have "look_ahead imap ev (note_branch ev s) = Some ?n"
      by (simp add: look_ahead_def fall_through_def split: option.splits if_splits)
    with n that [of ?n] show ?thesis by (simp add: two_pass_def)
  next
    case (Some a)
    let ?s = "?n\<lparr>m_last_was_conditional_branch := True, m_ip_jump_not_taken := a\<rparr>"
    from Some n have "look_ahead imap ev (note_branch ev s) = Some ?s"
      by (auto simp: look_ahead_def fall_through_def split: option.splits if_splits)
    with n that [of ?s] show ?thesis by (simp add: two_pass_def)
  qed
qed

lemma two_pass_drop_columns:
  assumes "runnable evs s" and "\<forall>ev \<in> set evs. memaddr ev \<noteq> None \<longrightarrow> imap (ucast (ip ev)) \<noteq> None"
  shows "import_events MemoryImporter evs t i im (drop_columns s) =
    map_option (\<lambda>(t, i, s). (t, i, drop_columns s)) (import_events (two_pass imap history) evs t i im s)"
  using assms
proof (induction evs arbitrary: t i im s)
  case (Cons ev evs)
  show ?case
  proof (cases "advance_clock ev t s")
    case None
    then show ?thesis by (simp add: advance_clock_drop)
  next
    case (Some x)
    obtain now s1 where s1: "advance_clock ev t s = Some (now, s1)" using Some by (cases x) simp
    note p = advance_clock_private [OF s1]
    show ?thesis
    proof (cases "memaddr ev")
      case None
      obtain s2 where s2: "handle_ip_event (two_pass imap history) now i ev s1 = Some s2" "disas s2" "\<not> am_isDisassembled s2"
          "m_elf s2" "drop_columns s2 = drop_columns s1"
        by (rule two_pass_ip_event [of s1 imap history now i ev]) (use p Cons.prems(1) in \<open>auto simp: runnable_def\<close>)
      from Cons.IH [of s2 now "i + 1" i] s2 Cons.prems(2) None s1 show ?thesis
        by (auto simp: advance_clock_drop runnable_def MemoryImporter_def)
    next
      case (Some y)
      have ok: "imap (ucast (ip ev)) \<noteq> None" "disas s1" "runnable evs s1"
        using Cons.prems Some p by (auto simp: runnable_def)
      obtain s2 where s2: "handle_mem_event (two_pass imap history) now im ev s1 = Some s2" "Importer.more s2 = Importer.more s1"
          "m_elf s2 = m_elf s1" "handle_mem_event MemoryImporter now im ev (drop_columns s1) = Some (drop_columns s2)"
        by (rule two_pass_mem_event [of imap ev s1 history now im]) (use ok in simp_all)
      have "runnable evs s2" using ok(3) more_private [OF s2(2)] s2(3) by (simp add: runnable_def)
      from Cons.IH [OF this, of now i im] s2(1,4) Cons.prems(2) Some s1 show ?thesis
        by (simp add: advance_clock_drop)
    qed
  qed
qed simp

text \<open>
  C8. The advanced importer refines the memory importer: without the additional columns its result is
  that of the memory importer on the same trace, when the accessing instructions are disassembled and
  the trace starts with an instruction.
\<close>

theorem advanced_import_refines_memory:
  assumes "fresh_advanced st" and "m_elf st" and "starts_clock evs" and "memaddr (hd evs) = None"
    and "length (branch_history imap None evs) < 2 ^ 31"
    and "\<forall>ev \<in> set evs. memaddr ev \<noteq> None \<longrightarrow> imap (ucast (ip ev)) \<noteq> None"
  shows "map_option drop_columns (import_trace (AdvancedMemoryImporter imap) evs st) =
    import_trace MemoryImporter evs (drop_columns st)"
proof -
  let ?h = "branch_history imap None evs"
  let ?two = "two_pass imap ?h"
  let ?cols = "two_pass_columns imap ?h"
  have trunc: "drop_columns (Importer.truncate s) = drop_columns s" for s :: advanced_state
    by (simp add: drop_columns_def Importer.truncate_def)
  have "map_option drop_columns (import_trace (AdvancedMemoryImporter imap) evs st) =
      map_option drop_columns (map_option Importer.truncate (import_trace (AdvancedMemoryImporter imap) evs st))"
    by (simp add: option.map_comp comp_def trunc)
  also have "\<dots> = map_option drop_columns (import_trace ?two evs st)"
    by (simp add: streaming_two_pass [OF assms(1,3,5)] option.map_comp comp_def trunc)
  also have "\<dots> = import_trace MemoryImporter evs (drop_columns st)"
  proof -
    have run: "runnable evs st" using assms(1,2,4) by (simp add: runnable_def fresh_advanced_def)
    have close: "map_option drop_columns (close_ec_intervals ?two (open_unused_ec_intervals s)) =
        close_ec_intervals MemoryImporter (open_unused_ec_intervals (drop_columns s))" for s
    proof -
      let ?c = "?two\<lparr>virtual_add := add_trace_event (\<lambda>ev fake s. Some (?cols ev fake s))\<rparr>"
      have "close_ec_intervals ?two s = close_ec_intervals ?c s" for s
        by (rule close_ec_intervals_cong [where data = "two_pass_data imap ?h" and data' = "\<lambda>ev fake s. Some (?cols ev fake s)"])
          (simp_all add: two_pass_def two_pass_data_def two_pass_columns_def)
      then show ?thesis
        using dc.map_close_intervals [of ?c ?cols MemoryImporter] dc.map_open_unused [of s]
        by (simp add: MemoryImporter_def)
    qed
    have last: "(drop_columns s)\<lparr>m_last_time := t, m_last_instr := i, m_last_ip := p\<rparr> =
        drop_columns (s\<lparr>m_last_time := t, m_last_instr := i, m_last_ip := p\<rparr>)" for s :: advanced_state and t i p
      by (simp add: drop_columns_def)
    have cls: "trace_end_reached ?two = Some" "open_unused ?two = open_unused_ec_intervals"
      "trace_end_reached (MemoryImporter :: unit Importer importer_class) = Some"
      "open_unused (MemoryImporter :: unit Importer importer_class) = open_unused_ec_intervals"
      by (simp_all add: two_pass_def MemoryImporter_def)
    have "evs \<noteq> []" using assms(3) by (auto simp: starts_clock_def)
    then show ?thesis
      unfolding import_trace_def two_pass_drop_columns [OF run assms(6), where history = ?h] cls
      by (cases "import_events ?two evs 0 0 0 st") (simp_all add: last close split: prod.split)
  qed
  finally show ?thesis .
qed

section \<open>An example\<close>

definition demo_instrs :: instr_map where
  "demo_instrs a =
     (if a = 16 then Some \<lparr>opcode = 7, i_address = 16, i_length = 2, conditional_branch = True, reg_uses = [], reg_defs = []\<rparr>
      else if a = 18 then Some \<lparr>opcode = 9, i_address = 18, i_length = 2, conditional_branch = False, reg_uses = [], reg_defs = []\<rparr>
      else None)"

definition demo_step :: "u64 \<Rightarrow> u64 option \<Rightarrow> Trace_Event" where
  "demo_step a m = \<lparr>ip = a, time_delta = Some 5, memaddr = m, width = 1, accesstype = READ, trace_ext = None\<rparr>"

text \<open>A branch that is not taken, an access, and the same branch taken to itself.\<close>

definition demo_branches :: "Trace_Event list" where
  "demo_branches = [demo_step 16 None, demo_step 18 None, demo_step 18 (Some 64), demo_step 16 None, demo_step 16 None]"

definition demo_advanced :: advanced_state where
  "demo_advanced =
     \<lparr>m_variant_id = 1, m_elf = True, m_mm = None, m_faultspace_rightmargin = W, m_sanitychecks = False,
      m_import_write_ecs = True, m_extended_trace = False, m_extended_trace_regs = [], m_row_count = 0,
      m_time_trace_start = 0, m_open_ecs = RBT.empty, m_last_ip = 0, m_last_instr = 0, m_last_time = 0, inserted = [],
      am_isDisassembled = False, disas = False, m_last_was_conditional_branch = False, m_ip_jump_not_taken = 0,
      branches_taken = [], delayed_entries = [], m_cur_branchmask = 0\<rparr>"

lemma demo_history: "branch_history demo_instrs None demo_branches = [False, True]"
  by code_simp

lemma demo_advanced_ok: "fresh_advanced demo_advanced" "m_elf demo_advanced" "starts_clock demo_branches" "memaddr (hd demo_branches) = None"
  "\<forall>ev \<in> set demo_branches. memaddr ev \<noteq> None \<longrightarrow> demo_instrs (ucast (ip ev)) \<noteq> None"
  by (simp_all add: fresh_advanced_def demo_advanced_def starts_clock_def demo_branches_def demo_step_def demo_instrs_def)

theorem advanced_import_is_two_pass_witness:
  "map_option (\<lambda>s. map im_extra (inserted s)) (import_trace (AdvancedMemoryImporter demo_instrs) demo_branches demo_advanced) =
   Some [Some (9, 2 ^ 15), None]"
proof -
  have short: "length (branch_history demo_instrs None demo_branches) < 2 ^ 31" by (simp add: demo_history)
  have keep: "map_option (\<lambda>s. map im_extra (inserted s)) (map_option Importer.truncate x) = map_option (\<lambda>s. map im_extra (inserted s)) x"
    for x :: "advanced_state option"
    by (cases x) (simp_all add: Importer.truncate_def)
  have "map_option (\<lambda>s. map im_extra (inserted s))
      (import_trace (two_pass demo_instrs [False, True]) demo_branches demo_advanced) = Some [Some (9, 2 ^ 15), None]"
    by code_simp
  then show ?thesis
    using arg_cong [OF advanced_import_is_two_pass [OF demo_advanced_ok(1,3) short], of "map_option (\<lambda>s. map im_extra (inserted s))"]
    unfolding keep demo_history by (rule trans [rotated])
qed

theorem advanced_import_refines_memory_witness:
  "map_option (\<lambda>s. map (instrs \<circ> im_row) (inserted s))
     (map_option drop_columns (import_trace (AdvancedMemoryImporter demo_instrs) demo_branches demo_advanced)) =
   Some [(0, 1), (2, 3)]"
proof -
  have short: "length (branch_history demo_instrs None demo_branches) < 2 ^ 31" by (simp add: demo_history)
  have "map_option (\<lambda>s. map (instrs \<circ> im_row) (inserted s))
      (import_trace MemoryImporter demo_branches (drop_columns demo_advanced)) = Some [(0, 1), (2, 3)]"
    by code_simp
  then show ?thesis
    by (simp only: advanced_import_refines_memory [OF demo_advanced_ok(1-4) short demo_advanced_ok(5)])
qed

end
