(* ===== verification/Sal_Listeners.thy ===== *)
theory Sal_Listeners
  imports Fail_Prelude
begin

unbundle bit_operations_syntax

text \<open>
  Events and listeners of the simulator abstraction layer (\<^verbatim>\<open>src/core/sal/Event.hpp\<close>, \<open>Listener.hpp\<close>,
  \<open>Listener.cc\<close>). A listener is an object with a counter, its place in the listener manager and the
  data of its class: what it watches. Pointers to listeners, CPUs and experiment flows are numbers,
  \<open>None\<close> is \<open>NULL\<close>, and \<open>INVALID_INDEX\<close> is \<open>None\<close> as well.
\<close>

section \<open>Events\<close>

type_synonym cpu = nat
type_synonym flow = nat
type_synonym listener = nat

definition ANY_ADDR :: address_t where
  "ANY_ADDR = - 1"

definition ANY_TRAP :: u32 where
  "ANY_TRAP = - 1"

text \<open>The flags of \<open>access_type_t\<close>.\<close>

definition MEM_READ :: u8 where
  "MEM_READ = 1"

definition MEM_WRITE :: u8 where
  "MEM_WRITE = 2"

datatype event =
    BPEvent (e_ip: address_t) (e_aspace: address_t) (e_cpu: "cpu option")
  | MemAccessEvent (e_addr: address_t) (e_width: u64) (e_ip: address_t) (e_acc: u8) (e_cpu: "cpu option")
  | InterruptEvent (e_nmi: bool) (e_number: u32) (e_cpu: "cpu option")
  | TrapEvent (e_number: u32) (e_cpu: "cpu option")
  | GuestEvent (e_data: u8) (e_port: u32)
  | JumpEvent (e_opcode: u32) (e_flag: bool) (e_cpu: "cpu option")

section \<open>Listeners\<close>

text \<open>The classes derived from \<open>BaseListener\<close> with what they watch.\<close>

datatype watch =
    BPSingleListener (m_WatchInstrPtr: address_t) (m_AddressSpace: address_t)
  | BPRangeListener (m_WatchStartAddr: address_t) (m_WatchEndAddr: address_t) (m_AddressSpace: address_t)
  | MemAccessListener (m_WatchAddr: address_t) (m_WatchWidth: u64) (m_WatchType: u8)
  | InterruptListener (m_WatchNumbers: "u32 list")
  | TrapListener (m_WatchNumbers: "u32 list")
  | GuestListener
  | JumpListener

text \<open>Performance buffers: single breakpoints, breakpoint ranges and memory accesses.\<close>

datatype perf_buffer = SingleListeners | RangeListeners | MemoryListeners

text \<open>\<open>m_Data\<close> is the event that triggered the listener last.\<close>

record BaseListener =
  m_OccCounter :: u32
  m_OccCounterInit :: u32
  m_Parent :: "flow option"
  m_Loc :: "nat option"
  m_Home :: "perf_buffer option"
  m_CPU :: "cpu option"
  m_Class :: watch
  m_Data :: "event option"

definition BaseListener_new :: "watch \<Rightarrow> cpu option \<Rightarrow> BaseListener" where
  "BaseListener_new w cpu = \<lparr>m_OccCounter = 1, m_OccCounterInit = 1, m_Parent = None, m_Loc = None, m_Home = None,
     m_CPU = cpu, m_Class = w, m_Data = None\<rparr>"

definition decreaseCounter :: "BaseListener \<Rightarrow> BaseListener" where
  "decreaseCounter li = li\<lparr>m_OccCounter := m_OccCounter li - 1\<rparr>"

definition setCounter :: "u32 \<Rightarrow> BaseListener \<Rightarrow> BaseListener" where
  "setCounter val li = li\<lparr>m_OccCounter := val, m_OccCounterInit := val\<rparr>"

definition resetCounter :: "BaseListener \<Rightarrow> BaseListener" where
  "resetCounter li = li\<lparr>m_OccCounter := m_OccCounterInit li\<rparr>"

section \<open>Watch numbers\<close>

fun remove_watch :: "u32 \<Rightarrow> u32 list \<Rightarrow> bool \<times> u32 list" where
  "remove_watch n [] = (False, [])"
| "remove_watch n (x # xs) = (if x = n then (True, xs) else (let (b, ys) = remove_watch n xs in (b, x # ys)))"

definition add_watch :: "u32 \<Rightarrow> u32 list \<Rightarrow> bool \<times> u32 list" where
  "add_watch n xs = (if n \<in> set xs then (False, xs) else (True, xs @ [n]))"

section \<open>Matching\<close>

definition cpu_matches :: "cpu option \<Rightarrow> cpu option \<Rightarrow> bool" where
  "cpu_matches wanted cpu \<longleftrightarrow> wanted = None \<or> wanted = cpu"

definition aspaceIsMatching :: "address_t \<Rightarrow> address_t \<Rightarrow> bool" where
  "aspaceIsMatching own address_space \<longleftrightarrow> own = ANY_ADDR \<or> own = address_space"

definition bp_single_isMatching :: "address_t \<Rightarrow> address_t \<Rightarrow> cpu option \<Rightarrow> address_t \<Rightarrow> address_t \<Rightarrow> cpu option \<Rightarrow> bool" where
  "bp_single_isMatching watch_ip own wanted iptr address_space cpu \<longleftrightarrow>
     aspaceIsMatching own address_space \<and> cpu_matches wanted cpu \<and> (watch_ip = ANY_ADDR \<or> watch_ip = iptr)"

definition bp_range_isMatching ::
  "address_t \<Rightarrow> address_t \<Rightarrow> address_t \<Rightarrow> cpu option \<Rightarrow> address_t \<Rightarrow> address_t \<Rightarrow> cpu option \<Rightarrow> bool" where
  "bp_range_isMatching start stop own wanted iptr address_space cpu \<longleftrightarrow>
     aspaceIsMatching own address_space \<and> cpu_matches wanted cpu \<and>
     \<not> (start \<noteq> ANY_ADDR \<and> iptr < start \<or> stop \<noteq> ANY_ADDR \<and> iptr > stop)"

text \<open>Both ends of the ranges wrap around at 64 bits.\<close>

definition mem_isMatching ::
  "address_t \<Rightarrow> u64 \<Rightarrow> u8 \<Rightarrow> cpu option \<Rightarrow> address_t \<Rightarrow> u64 \<Rightarrow> u8 \<Rightarrow> cpu option \<Rightarrow> bool" where
  "mem_isMatching watch_addr watch_width watch_type wanted addr len acc cpu \<longleftrightarrow>
     watch_type AND acc \<noteq> 0 \<and>
     \<not> (watch_addr \<noteq> ANY_ADDR \<and> (watch_addr \<ge> addr + len \<or> watch_addr + watch_width \<le> addr)) \<and>
     cpu_matches wanted cpu"

definition trouble_isMatching :: "u32 list \<Rightarrow> cpu option \<Rightarrow> u32 \<Rightarrow> cpu option \<Rightarrow> bool" where
  "trouble_isMatching numbers wanted n cpu \<longleftrightarrow>
     (\<exists>w \<in> set numbers. cpu_matches wanted cpu \<and> (w = n \<or> w = ANY_TRAP))"

text \<open>
  The test of the event loops: the dynamic cast to the class the event is for, and \<open>isMatching\<close> where
  the loop calls it.
\<close>

fun matches :: "event \<Rightarrow> BaseListener \<Rightarrow> bool" where
  "matches (BPEvent iptr aspace cpu) li =
     (case m_Class li of
        BPSingleListener w own \<Rightarrow> bp_single_isMatching w own (m_CPU li) iptr aspace cpu
      | BPRangeListener start stop own \<Rightarrow> bp_range_isMatching start stop own (m_CPU li) iptr aspace cpu
      | _ \<Rightarrow> False)"
| "matches (MemAccessEvent addr len iptr acc cpu) li =
     (case m_Class li of MemAccessListener a w t \<Rightarrow> mem_isMatching a w t (m_CPU li) addr len acc cpu | _ \<Rightarrow> False)"
| "matches (InterruptEvent nmi n cpu) li =
     (case m_Class li of InterruptListener ns \<Rightarrow> trouble_isMatching ns (m_CPU li) n cpu | _ \<Rightarrow> False)"
| "matches (TrapEvent n cpu) li =
     (case m_Class li of TrapListener ns \<Rightarrow> trouble_isMatching ns (m_CPU li) n cpu | _ \<Rightarrow> False)"
| "matches (GuestEvent d p) li = (m_Class li = GuestListener)"
| "matches (JumpEvent oc f cpu) li = (m_Class li = JumpListener)"

text \<open>The setters of the event loops; a breakpoint listener keeps its own address space in \<open>m_Data\<close>.\<close>

fun set_trigger :: "event \<Rightarrow> BaseListener \<Rightarrow> BaseListener" where
  "set_trigger (BPEvent iptr aspace cpu) li = li\<lparr>m_Data := Some (BPEvent iptr (m_AddressSpace (m_Class li)) cpu)\<rparr>"
| "set_trigger ev li = li\<lparr>m_Data := Some ev\<rparr>"

section \<open>Properties\<close>

lemma set_trigger_data: "\<exists>d. set_trigger ev li = li\<lparr>m_Data := d\<rparr>"
  by (cases ev) auto

lemma remove_watch_spec: "remove_watch n xs = (n \<in> set xs, remove1 n xs)"
  by (induction xs) (auto split: prod.splits)

text \<open>Watch numbers form a set: additions keep them distinct and a removal undoes the addition.\<close>

lemma watch_numbers_set:
  "distinct xs \<Longrightarrow> distinct (snd (add_watch n xs)) \<and> set (snd (add_watch n xs)) = insert n (set xs) \<and>
     set (snd (remove_watch n (snd (add_watch n xs)))) = set xs - {n}"
  by (auto simp: add_watch_def remove_watch_spec remove1_append)

lemma matches_cong: "m_Class x = m_Class y \<Longrightarrow> m_CPU x = m_CPU y \<Longrightarrow> matches ev x = matches ev y"
  by (cases ev) (simp_all split: watch.split)

lemma matches_update [simp]:
  "matches ev (li\<lparr>m_Loc := l\<rparr>) = matches ev li" "matches ev (li\<lparr>m_Home := b\<rparr>) = matches ev li"
  "matches ev (li\<lparr>m_OccCounter := c\<rparr>) = matches ev li" "matches ev (li\<lparr>m_Data := d\<rparr>) = matches ev li"
  by (rule matches_cong; simp)+

text \<open>
  A watchpoint fires exactly for the accesses of a watched kind that share a byte with the watched
  area, as long as neither range wraps around and both are non-empty.
\<close>

theorem watchpoint_overlap:
  assumes "watch_addr \<noteq> ANY_ADDR" and "unat watch_addr + unat watch_width < 2 ^ 64" and "unat addr + unat len < 2 ^ 64"
  shows "mem_isMatching watch_addr watch_width watch_type None addr len acc cpu \<longleftrightarrow>
    watch_type AND acc \<noteq> 0 \<and>
    unat watch_addr < unat addr + unat len \<and> unat addr < unat watch_addr + unat watch_width"
proof -
  have "unat (addr + len) = unat addr + unat len" "unat (watch_addr + watch_width) = unat watch_addr + unat watch_width"
    using assms(2,3) by (simp_all add: unat_word_ariths)
  with assms(1) show ?thesis by (auto simp: mem_isMatching_def cpu_matches_def word_le_nat_alt)
qed

theorem watchpoint_overlap_witness:
  "mem_isMatching 100 4 3 None 103 2 MEM_READ None \<and> \<not> mem_isMatching 100 4 3 None 104 2 MEM_READ None"
proof -
  have "mem_isMatching 100 4 3 None 103 2 MEM_READ None \<longleftrightarrow> (3 :: u8) AND MEM_READ \<noteq> 0 \<and>
      unat (100 :: u64) < unat (103 :: u64) + unat (2 :: u64) \<and> unat (103 :: u64) < unat (100 :: u64) + unat (4 :: u64)"
    by (rule watchpoint_overlap) (simp_all add: ANY_ADDR_def)
  moreover have "mem_isMatching 100 4 3 None 104 2 MEM_READ None \<longleftrightarrow> (3 :: u8) AND MEM_READ \<noteq> 0 \<and>
      unat (100 :: u64) < unat (104 :: u64) + unat (2 :: u64) \<and> unat (104 :: u64) < unat (100 :: u64) + unat (4 :: u64)"
    by (rule watchpoint_overlap) (simp_all add: ANY_ADDR_def)
  ultimately show ?thesis by (simp add: MEM_READ_def)
qed

text \<open>An area that ends at the top of the address space is never hit: its end wraps to 0.\<close>

lemma watchpoint_at_top_never_fires:
  "watch_addr + watch_width = 0 \<Longrightarrow> watch_addr \<noteq> ANY_ADDR \<Longrightarrow>
     \<not> mem_isMatching watch_addr watch_width watch_type wanted addr len acc cpu"
  by (simp add: mem_isMatching_def)

end
