(* ===== verification/Listener_Manager.thy ===== *)
theory Listener_Manager
  imports Sal_Listeners
begin

text \<open>
  The listener manager of \<^verbatim>\<open>src/core/sal/ListenerManager.cc\<close> with the performance buffers of
  \<^verbatim>\<open>sal/perf\<close>. The buffer list is a vector whose slots are filled by swapping: a listener knows its
  slot, and a performance buffer holds the slots of its listeners. \<open>None\<close> is a failed assertion or
  undefined behaviour. The virtual handlers \<open>onAddition\<close> and \<open>onDeletion\<close> are those of \<open>BaseListener\<close>
  unless a parameter.
\<close>

section \<open>State\<close>

text \<open>
  \<open>firing\<close> is the rest of the fire list while \<open>triggerActiveListeners\<close> iterates over it, \<open>current\<close> the
  running flow (\<open>None\<close>: the simulator), and \<open>fired\<close> lists the listeners triggered so far.
\<close>

record sal =
  m_BufferList :: "listener list"
  m_FireList :: "listener list"
  m_DeleteList :: "listener list"
  m_pFired :: "listener option"
  heap :: "listener \<Rightarrow> BaseListener"
  m_BufList :: "perf_buffer \<Rightarrow> nat list"
  firing :: "listener list option"
  current :: "flow option"
  fired :: "listener list"

definition set_listener :: "listener \<Rightarrow> (BaseListener \<Rightarrow> BaseListener) \<Rightarrow> sal \<Rightarrow> sal" where
  "set_listener li f st = st\<lparr>heap := (heap st)(li := f (heap st li))\<rparr>"

section \<open>Performance buffers\<close>

definition perf_add :: "perf_buffer \<Rightarrow> nat \<Rightarrow> sal \<Rightarrow> sal" where
  "perf_add b idx st = st\<lparr>m_BufList := (m_BufList st)(b := m_BufList st b @ [idx])\<rparr>"

definition perf_remove :: "perf_buffer \<Rightarrow> nat \<Rightarrow> sal \<Rightarrow> sal" where
  "perf_remove b idx st = st\<lparr>m_BufList := (m_BufList st)(b := remove1 idx (m_BufList st b))\<rparr>"

definition perf_clear :: "perf_buffer \<Rightarrow> sal \<Rightarrow> sal" where
  "perf_clear b st = st\<lparr>m_BufList := (m_BufList st)(b := [])\<rparr>"

section \<open>Adding and removing\<close>

definition lm_add :: "listener \<Rightarrow> flow option \<Rightarrow> sal \<Rightarrow> sal option" where
  "lm_add li pExp st =
     (if m_OccCounter (heap st li) = 0 then None
      else let st1 = set_listener li (\<lambda>x. x\<lparr>m_Parent := pExp, m_Home := None\<rparr>) st;
               st2 = st1\<lparr>m_BufferList := m_BufferList st1 @ [li]\<rparr>
           in Some (set_listener li (\<lambda>x. x\<lparr>m_Loc := Some (length (m_BufferList st2) - 1)\<rparr>) st2))"

text \<open>The overloads woven in by the fast breakpoints and watchpoints: no check of the counter.\<close>

definition lm_add_fast :: "perf_buffer \<Rightarrow> listener \<Rightarrow> flow option \<Rightarrow> sal \<Rightarrow> sal" where
  "lm_add_fast b li pExp st =
     (let st1 = set_listener li (\<lambda>x. x\<lparr>m_Parent := pExp\<rparr>) st;
          st2 = st1\<lparr>m_BufferList := m_BufferList st1 @ [li]\<rparr>;
          idx = length (m_BufferList st2) - 1
      in perf_add b idx (set_listener li (\<lambda>x. x\<lparr>m_Loc := Some idx, m_Home := Some b\<rparr>) st2))"

definition m_remove :: "nat option \<Rightarrow> sal \<Rightarrow> sal option" where
  "m_remove loc st =
     (case loc of
        None \<Rightarrow> Some st
      | Some idx \<Rightarrow>
          if m_BufferList st = [] then Some st
          else if length (m_BufferList st) \<le> idx then None
          else
            let n = length (m_BufferList st);
                st1 = set_listener (m_BufferList st ! idx) (\<lambda>x. x\<lparr>m_Home := None, m_Loc := None\<rparr>) st
            in if n > 1 \<and> idx \<noteq> n - 1 then
                 let li = m_BufferList st1 ! (n - 1);
                     st2 = st1\<lparr>m_BufferList := (m_BufferList st1)[idx := li]\<rparr>;
                     oldLoc = m_Loc (heap st2 li);
                     st3 = set_listener li (\<lambda>x. x\<lparr>m_Loc := Some idx\<rparr>) st2;
                     st4 = (case m_Home (heap st3 li) of
                              None \<Rightarrow> st3
                            | Some b \<Rightarrow> perf_add b idx (case oldLoc of None \<Rightarrow> st3 | Some l \<Rightarrow> perf_remove b l st3))
                 in Some (st4\<lparr>m_BufferList := butlast (m_BufferList st4)\<rparr>)
               else Some (st1\<lparr>m_BufferList := butlast (m_BufferList st1)\<rparr>))"

text \<open>The listener at index \<open>i\<close> leaves its performance buffer and the buffer list.\<close>

definition drop_at :: "nat \<Rightarrow> sal \<Rightarrow> sal option" where
  "drop_at i st =
     (let li = m_BufferList st ! i
      in m_remove (Some i) (case m_Home (heap st li) of None \<Rightarrow> st | Some b \<Rightarrow> perf_remove b i st))"

text \<open>The loops over all listeners of a flow: an index is inspected again after a removal.\<close>

function remove_loop :: "flow option \<Rightarrow> nat \<Rightarrow> sal \<Rightarrow> sal option" where
  "remove_loop flw i st =
     (if length (m_BufferList st) \<le> i then Some st
      else if m_Parent (heap st (m_BufferList st ! i)) = flw
      then (case drop_at i st of None \<Rightarrow> None | Some st' \<Rightarrow> remove_loop flw i st')
      else remove_loop flw (i + 1) st)"
  by pat_completeness auto

lemma m_remove_length:
  assumes "m_remove (Some i) st = Some st'" and "i < length (m_BufferList st)"
  shows "length (m_BufferList st') = length (m_BufferList st) - 1"
  using assms
  by (auto simp: m_remove_def Let_def set_listener_def perf_add_def perf_remove_def split: if_splits option.splits)

lemma drop_at_length:
  assumes "drop_at i st = Some st'" and "i < length (m_BufferList st)"
  shows "length (m_BufferList st') = length (m_BufferList st) - 1"
proof -
  define st1 where "st1 = (case m_Home (heap st (m_BufferList st ! i)) of None \<Rightarrow> st | Some b \<Rightarrow> perf_remove b i st)"
  have "m_BufferList st1 = m_BufferList st" by (simp add: st1_def perf_remove_def split: option.split)
  moreover have "m_remove (Some i) st1 = Some st'" using assms(1) by (simp add: drop_at_def Let_def st1_def)
  ultimately show ?thesis using m_remove_length [of i st1 st'] assms(2) by simp
qed

termination remove_loop
proof (relation "measure (\<lambda>(flw, i, st). length (m_BufferList st) - i)")
  show "((flw, i, st'), flw, i, st) \<in> measure (\<lambda>(flw, i, st). length (m_BufferList st) - i)"
    if "\<not> length (m_BufferList st) \<le> i" "drop_at i st = Some st'" for flw :: "flow option" and i st st'
    using drop_at_length [OF that(2)] that(1) by simp
qed auto

declare remove_loop.simps [simp del]

definition remove_listener :: "listener \<Rightarrow> sal \<Rightarrow> sal option" where
  "remove_listener li st =
     (case (case m_Loc (heap st li) of
              None \<Rightarrow> Some st
            | Some loc \<Rightarrow>
                m_remove (Some loc) (case m_Home (heap st li) of None \<Rightarrow> st | Some b \<Rightarrow> perf_remove b loc st)) of
        None \<Rightarrow> None
      | Some st1 \<Rightarrow>
          Some (if li \<in> set (m_FireList st1) then st1\<lparr>m_DeleteList := m_DeleteList st1 @ [li]\<rparr> else st1))"

text \<open>\<open>remove(NULL)\<close>: the listeners of the current flow.\<close>

definition remove_current :: "sal \<Rightarrow> sal option" where
  "remove_current st =
     map_option (\<lambda>s. s\<lparr>m_DeleteList := m_DeleteList s @ m_FireList s\<rparr>) (remove_loop (current st) 0 st)"

definition lm_remove :: "listener option \<Rightarrow> sal \<Rightarrow> sal option" where
  "lm_remove li st = (case li of None \<Rightarrow> remove_current st | Some p \<Rightarrow> remove_listener p st)"

definition clear_all :: "sal \<Rightarrow> sal" where
  "clear_all st =
     (let bufs = (\<lambda>li. m_Home (heap st li)) ` set (m_BufferList st)
      in st\<lparr>heap := (\<lambda>li. if li \<in> set (m_BufferList st) then (heap st li)\<lparr>m_Home := None, m_Loc := None\<rparr> else heap st li),
            m_BufferList := [],
            m_BufList := (\<lambda>b. if Some b \<in> bufs then [] else m_BufList st b),
            m_DeleteList := m_DeleteList st @ m_FireList st\<rparr>)"

fun delete_firing :: "flow option \<Rightarrow> listener list \<Rightarrow> sal \<Rightarrow> sal" where
  "delete_firing flw [] st = st"
| "delete_firing flw (li # ls) st =
     delete_firing flw ls
       (if li \<notin> set (m_DeleteList st) \<and> (flw = None \<or> m_Parent (heap st li) = flw)
        then st\<lparr>m_DeleteList := m_DeleteList st @ [li]\<rparr> else st)"

definition remove_flow :: "flow option \<Rightarrow> sal \<Rightarrow> sal option" where
  "remove_flow flw st =
     map_option (\<lambda>s. delete_firing flw (m_FireList s) s)
       (if flw = None then Some (clear_all st) else remove_loop flw 0 st)"

definition getExperimentOf :: "listener \<Rightarrow> sal \<Rightarrow> flow option" where
  "getExperimentOf li st = (if li \<in> set (m_BufferList st) then m_Parent (heap st li) else None)"

definition getContextCount :: "sal \<Rightarrow> nat" where
  "getContextCount st = card ((\<lambda>li. m_Parent (heap st li)) ` set (m_BufferList st))"

section \<open>Activating\<close>

text \<open>\<open>makeActive(iterator)\<close>: the iterator is an index, the result the next one.\<close>

definition makeActive_at :: "nat \<Rightarrow> sal \<Rightarrow> (nat \<times> sal) option" where
  "makeActive_at i st =
     (if length (m_BufferList st) \<le> i then None
      else let li = m_BufferList st ! i;
               st1 = set_listener li decreaseCounter st
           in if m_OccCounter (heap st1 li) > 0 then Some (i + 1, st1)
              else let st2 = set_listener li resetCounter st1
                   in if m_Home (heap st2 li) \<noteq> None then None
                      else map_option (\<lambda>s. (i, s\<lparr>m_FireList := m_FireList s @ [li]\<rparr>)) (m_remove (m_Loc (heap st2 li)) st2))"

text \<open>\<open>makeActive(BaseListener*)\<close>\<close>

definition makeActive :: "listener \<Rightarrow> sal \<Rightarrow> sal option" where
  "makeActive li st =
     (case m_Home (heap st li) of
        None \<Rightarrow> Some st
      | Some b \<Rightarrow>
          let st1 = set_listener li decreaseCounter st
          in if m_OccCounter (heap st1 li) > 0 then Some st1
             else let st2 = set_listener li resetCounter st1;
                      st3 = (case m_Loc (heap st2 li) of None \<Rightarrow> st2 | Some l \<Rightarrow> perf_remove b l st2)
                  in map_option (\<lambda>s. s\<lparr>m_FireList := m_FireList s @ [li]\<rparr>) (m_remove (m_Loc (heap st2 li)) st3))"

section \<open>Triggering\<close>

text \<open>
  \<open>triggerActiveListeners\<close> toggles to experiments in its loop. Its parts between the switches: the
  start, the step to the next listener that is not in the delete list (whose flow runs then), and
  the end. \<open>resume_flow\<close> gives control back to the loop.
\<close>

definition trigger_start :: "sal \<Rightarrow> sal" where
  "trigger_start st = st\<lparr>firing := Some (m_FireList st)\<rparr>"

fun trigger_next :: "listener list \<Rightarrow> sal \<Rightarrow> sal option" where
  "trigger_next [] st = Some (st\<lparr>m_FireList := [], m_DeleteList := [], firing := None\<rparr>)"
| "trigger_next (li # ls) st =
     (if li \<in> set (m_DeleteList st) then trigger_next ls st
      else if m_Parent (heap st li) = None then None
      else Some (st\<lparr>m_pFired := Some li, firing := Some ls, current := m_Parent (heap st li), fired := fired st @ [li]\<rparr>))"

definition resume_flow :: "sal \<Rightarrow> sal" where
  "resume_flow st = st\<lparr>current := None\<rparr>"

section \<open>The invariant\<close>

text \<open>
  Every buffered listener knows its slot, every other listener has none, and a performance buffer holds
  exactly the slots of the listeners that point to it.
\<close>

definition home_class :: "watch \<Rightarrow> perf_buffer option" where
  "home_class w = (case w of
     BPSingleListener _ _ \<Rightarrow> Some SingleListeners | BPRangeListener _ _ _ \<Rightarrow> Some RangeListeners
   | MemAccessListener _ _ _ \<Rightarrow> Some MemoryListeners | _ \<Rightarrow> None)"

definition placed :: "sal \<Rightarrow> bool" where
  "placed st \<longleftrightarrow> distinct (m_BufferList st) \<and>
     (\<forall>i < length (m_BufferList st). m_Loc (heap st (m_BufferList st ! i)) = Some i) \<and>
     (\<forall>li. li \<notin> set (m_BufferList st) \<longrightarrow> m_Loc (heap st li) = None \<and> m_Home (heap st li) = None)"

definition indexed :: "sal \<Rightarrow> bool" where
  "indexed st \<longleftrightarrow>
     (\<forall>b. distinct (m_BufList st b) \<and>
        (\<forall>i. i \<in> set (m_BufList st b) \<longleftrightarrow>
           i < length (m_BufferList st) \<and> m_Home (heap st (m_BufferList st ! i)) = Some b))"

definition typed :: "sal \<Rightarrow> bool" where
  "typed st \<longleftrightarrow> (\<forall>li b. m_Home (heap st li) = Some b \<longrightarrow> home_class (m_Class (heap st li)) = Some b)"

definition lm_inv :: "sal \<Rightarrow> bool" where
  "lm_inv st \<longleftrightarrow> placed st \<and> indexed st \<and> typed st"

text \<open>A listener without its place in the manager.\<close>

definition unplaced :: "BaseListener \<Rightarrow> BaseListener" where
  "unplaced x = x\<lparr>m_Loc := None, m_Home := None\<rparr>"

lemma unplaced_simps [simp]:
  "unplaced (x\<lparr>m_Loc := l\<rparr>) = unplaced x" "unplaced (x\<lparr>m_Home := b\<rparr>) = unplaced x"
  "unplaced (unplaced x) = unplaced x"
  "m_OccCounter (unplaced x) = m_OccCounter x" "m_Class (unplaced x) = m_Class x" "m_Parent (unplaced x) = m_Parent x"
  by (simp_all add: unplaced_def)

lemma unplaced_eq_iff:
  "unplaced x = unplaced y \<longleftrightarrow> m_OccCounter x = m_OccCounter y \<and> m_OccCounterInit x = m_OccCounterInit y \<and>
     m_Parent x = m_Parent y \<and> m_CPU x = m_CPU y \<and> m_Class x = m_Class y \<and> m_Data x = m_Data y"
  by (cases x, cases y) (auto simp: unplaced_def)

text \<open>The parts of the state the buffer operations leave alone.\<close>

definition same_round :: "sal \<Rightarrow> sal \<Rightarrow> bool" where
  "same_round st st' \<longleftrightarrow> m_FireList st' = m_FireList st \<and> m_DeleteList st' = m_DeleteList st \<and> m_pFired st' = m_pFired st \<and>
     firing st' = firing st \<and> current st' = current st \<and> fired st' = fired st"

lemma same_round_refl [simp]: "same_round st st"
  by (simp add: same_round_def)

lemma same_round_trans: "same_round a b \<Longrightarrow> same_round b c \<Longrightarrow> same_round a c"
  by (simp add: same_round_def)

section \<open>Removing a slot\<close>

lemma m_remove_last:
  assumes "m_BufferList st \<noteq> []" and "i = length (m_BufferList st) - 1"
  shows "m_remove (Some i) st = Some (set_listener (m_BufferList st ! i) (\<lambda>x. x\<lparr>m_Home := None, m_Loc := None\<rparr>) st
     \<lparr>m_BufferList := swap_remove i (m_BufferList st)\<rparr>)"
  using assms by (cases "m_BufferList st" rule: rev_cases)
    (simp_all add: m_remove_def Let_def set_listener_def swap_remove_snoc)

lemma m_remove_inner:
  assumes "i < length (m_BufferList st) - 1"
  defines "li \<equiv> m_BufferList st ! i" and "lst \<equiv> last (m_BufferList st)"
  assumes "lst \<noteq> li" and "m_Loc (heap st lst) = Some (length (m_BufferList st) - 1)"
  shows "m_remove (Some i) st = Some (st\<lparr>
      m_BufferList := swap_remove i (m_BufferList st),
      heap := (heap st)(li := (heap st li)\<lparr>m_Home := None, m_Loc := None\<rparr>, lst := (heap st lst)\<lparr>m_Loc := Some i\<rparr>),
      m_BufList := (case m_Home (heap st lst) of
         None \<Rightarrow> m_BufList st
       | Some b \<Rightarrow> (m_BufList st)(b := remove1 (length (m_BufferList st) - 1) (m_BufList st b) @ [i]))\<rparr>)"
proof -
  have ne: "m_BufferList st \<noteq> []" using assms(1) by auto
  then have "m_BufferList st ! (length (m_BufferList st) - 1) = lst" by (simp add: lst_def last_conv_nth)
  moreover have "butlast ((m_BufferList st)[i := lst]) = swap_remove i (m_BufferList st)"
    by (simp add: swap_remove_def lst_def)
  ultimately show ?thesis
    using assms ne
    by (simp add: m_remove_def Let_def set_listener_def perf_add_def perf_remove_def split: option.split)
qed

lemma drop_at_inv:
  assumes inv: "lm_inv st" and i: "i < length (m_BufferList st)"
  shows "\<exists>st'. drop_at i st = Some st' \<and> lm_inv st' \<and> m_BufferList st' = swap_remove i (m_BufferList st) \<and>
    same_round st st' \<and> (\<forall>q. unplaced (heap st' q) = unplaced (heap st q)) \<and>
    (\<forall>q. q \<noteq> m_BufferList st ! i \<longrightarrow> m_Home (heap st' q) = m_Home (heap st q))"
proof -
  let ?buf = "m_BufferList st" and ?p = "m_BufferList st ! i" and ?l = "last (m_BufferList st)"
  let ?n = "length (m_BufferList st)"
  define st1 where "st1 = (case m_Home (heap st ?p) of None \<Rightarrow> st | Some b \<Rightarrow> perf_remove b i st)"
  have st1: "m_BufferList st1 = ?buf" "heap st1 = heap st" "same_round st st1"
    by (simp_all add: st1_def perf_remove_def same_round_def split: option.split)
  have pl: "distinct ?buf" "\<And>j. j < ?n \<Longrightarrow> m_Loc (heap st (?buf ! j)) = Some j"
      "\<And>q. q \<notin> set ?buf \<Longrightarrow> m_Loc (heap st q) = None \<and> m_Home (heap st q) = None"
    using inv unfolding lm_inv_def placed_def by auto
  have ix: "distinct (m_BufList st b)" "j \<in> set (m_BufList st b) \<longleftrightarrow> j < ?n \<and> m_Home (heap st (?buf ! j)) = Some b" for b j
    using inv unfolding lm_inv_def indexed_def by auto
  have ix1: "distinct (m_BufList st1 b)"
      "j \<in> set (m_BufList st1 b) \<longleftrightarrow> j < ?n \<and> j \<noteq> i \<and> m_Home (heap st (?buf ! j)) = Some b" for b j
    using ix unfolding st1_def by (auto simp: perf_remove_def split: option.splits if_splits)
  have ty: "m_Home (heap st q) = Some b \<Longrightarrow> home_class (m_Class (heap st q)) = Some b" for q b
    using inv unfolding lm_inv_def typed_def by auto
  have step: "drop_at i st = m_remove (Some i) st1" by (simp add: drop_at_def st1_def Let_def)
  note new = distinct_swap_remove [OF i pl(1)] set_swap_remove [OF i pl(1)]
  show ?thesis
  proof (cases "i = ?n - 1")
    case True
    let ?st' = "set_listener ?p (\<lambda>x. x\<lparr>m_Home := None, m_Loc := None\<rparr>) st1\<lparr>m_BufferList := swap_remove i ?buf\<rparr>"
    have buf: "swap_remove i ?buf ! j = ?buf ! j \<and> ?buf ! j \<noteq> ?p" if "j < ?n - 1" for j
      using that i True pl(1) by (auto simp: nth_swap_remove nth_eq_iff_index_eq)
    have "m_remove (Some i) st1 = Some ?st'" using m_remove_last [of st1 i] True i st1 by force
    moreover have "placed ?st'"
      using new pl(2,3) buf i by (auto simp: placed_def set_listener_def st1)
    moreover have "indexed ?st'"
      using ix1 buf True by (auto simp: indexed_def set_listener_def st1)
    moreover have "typed ?st'" using ty by (auto simp: typed_def set_listener_def st1)
    ultimately show ?thesis
      using st1 by (intro exI [of _ ?st']) (auto simp: lm_inv_def step set_listener_def same_round_def)
  next
    case False
    then have i': "i < ?n - 1" using i by linarith
    have l: "?l = ?buf ! (?n - 1)" using i by (subst last_conv_nth) auto
    have ls: "?l \<in> set ?buf" using i by (intro last_in_set) auto
    have lp: "?l \<noteq> ?p" using pl(1) i' by (simp add: l nth_eq_iff_index_eq)
    have ll: "m_Loc (heap st ?l) = Some (?n - 1)" using pl(2) [of "?n - 1"] i by (simp add: l)
    let ?st' = "st1\<lparr>m_BufferList := swap_remove i ?buf,
      heap := (heap st)(?p := (heap st ?p)\<lparr>m_Home := None, m_Loc := None\<rparr>, ?l := (heap st ?l)\<lparr>m_Loc := Some i\<rparr>),
      m_BufList := (case m_Home (heap st ?l) of
         None \<Rightarrow> m_BufList st1
       | Some b \<Rightarrow> (m_BufList st1)(b := remove1 (?n - 1) (m_BufList st1 b) @ [i]))\<rparr>"
    have buf: "swap_remove i ?buf ! j = (if j = i then ?l else ?buf ! j)"
        "j \<noteq> i \<Longrightarrow> ?buf ! j \<noteq> ?p \<and> ?buf ! j \<noteq> ?l" if "j < ?n - 1" for j
      using that i pl(1) by (auto simp: nth_swap_remove l nth_eq_iff_index_eq)
    have "m_remove (Some i) st1 = Some ?st'" by (rule m_remove_inner [of i st1, unfolded st1(1,2), OF i' lp ll])
    moreover have "placed ?st'"
      using new pl(2,3) buf i ls lp by (auto simp: placed_def st1)
    moreover have "indexed ?st'"
    proof -
      have home: "m_Home (heap ?st' (swap_remove i ?buf ! j)) = (if j = i then m_Home (heap st ?l) else m_Home (heap st (?buf ! j)))"
        if "j < ?n - 1" for j using buf [OF that] lp by simp
      have "distinct (m_BufList ?st' b) \<and>
          (j \<in> set (m_BufList ?st' b) \<longleftrightarrow> j < ?n - 1 \<and> m_Home (heap ?st' (swap_remove i ?buf ! j)) = Some b)" for b j
      proof (cases "m_Home (heap st ?l) = Some b")
        case True
        then have eq: "m_BufList ?st' b = remove1 (?n - 1) (m_BufList st1 b) @ [i]" by simp
        have "i \<notin> set (m_BufList st1 b)" by (simp add: ix1(2))
        moreover have "j \<in> set (remove1 (?n - 1) (m_BufList st1 b)) \<longleftrightarrow>
            j < ?n - 1 \<and> j \<noteq> i \<and> m_Home (heap st (?buf ! j)) = Some b"
          by (simp add: ix1) (use i' in linarith)
        ultimately show ?thesis unfolding eq using True i' ix1(1) home [of j] by (cases "j = i") auto
      next
        case False
        then have eq: "m_BufList ?st' b = m_BufList st1 b" by (simp split: option.split)
        have "j \<in> set (m_BufList st1 b) \<longleftrightarrow> j < ?n - 1 \<and> j \<noteq> i \<and> m_Home (heap st (?buf ! j)) = Some b"
        proof (cases "j = ?n - 1")
          case True
          with False l show ?thesis by (simp add: ix1(2))
        qed (auto simp: ix1(2))
        then show ?thesis unfolding eq using False ix1(1) home [of j] by (cases "j < ?n - 1") auto
      qed
      then show ?thesis unfolding indexed_def by simp
    qed
    moreover have "typed ?st'" using ty lp by (auto simp: typed_def)
    ultimately show ?thesis
      using st1 lp by (intro exI [of _ ?st']) (auto simp: lm_inv_def step same_round_def)
  qed
qed

section \<open>The other operations\<close>

lemma lm_inv_set_listener:
  assumes "\<And>x. m_Loc (f x) = m_Loc x \<and> m_Home (f x) = m_Home x \<and> m_Class (f x) = m_Class x"
  shows "lm_inv (set_listener li f st) = lm_inv st"
proof -
  have h: "m_Loc (heap (set_listener li f st) q) = m_Loc (heap st q)" "m_Home (heap (set_listener li f st) q) = m_Home (heap st q)"
    "m_Class (heap (set_listener li f st) q) = m_Class (heap st q)" for q
    using assms by (simp_all add: set_listener_def)
  have b: "m_BufferList (set_listener li f st) = m_BufferList st" "m_BufList (set_listener li f st) = m_BufList st"
    by (simp_all add: set_listener_def)
  show ?thesis unfolding lm_inv_def placed_def indexed_def typed_def h b ..
qed

lemma set_listener_simps [simp]:
  "m_BufferList (set_listener li f st) = m_BufferList st" "m_BufList (set_listener li f st) = m_BufList st"
  "m_FireList (set_listener li f st) = m_FireList st"
  "heap (set_listener li f st) q = (if q = li then f (heap st li) else heap st q)"
  "same_round st (set_listener li f st)"
  by (simp_all add: set_listener_def same_round_def)

lemma placed_location:
  assumes "lm_inv st"
  shows "m_Loc (heap st li) = Some i \<longleftrightarrow> i < length (m_BufferList st) \<and> m_BufferList st ! i = li"
proof
  assume l: "m_Loc (heap st li) = Some i"
  then have "li \<in> set (m_BufferList st)" using assms by (auto simp: lm_inv_def placed_def)
  then obtain j where j: "j < length (m_BufferList st)" "m_BufferList st ! j = li" by (auto simp: in_set_conv_nth)
  then have "m_Loc (heap st li) = Some j" using assms by (auto simp: lm_inv_def placed_def)
  with l j show "i < length (m_BufferList st) \<and> m_BufferList st ! i = li" by simp
qed (use assms in \<open>auto simp: lm_inv_def placed_def\<close>)

lemma remove_listener_drop:
  assumes "lm_inv st" and "m_Loc (heap st li) = Some i"
  shows "m_remove (Some i) (case m_Home (heap st li) of None \<Rightarrow> st | Some b \<Rightarrow> perf_remove b i st) = drop_at i st"
  using placed_location [OF assms(1)] assms(2) by (simp add: drop_at_def Let_def)

lemma lm_inv_lists [simp]:
  "lm_inv (st\<lparr>m_FireList := fl\<rparr>) = lm_inv st" "lm_inv (st\<lparr>m_DeleteList := dl\<rparr>) = lm_inv st"
  "lm_inv (st\<lparr>m_pFired := p\<rparr>) = lm_inv st" "lm_inv (st\<lparr>firing := fr\<rparr>) = lm_inv st"
  "lm_inv (st\<lparr>current := c\<rparr>) = lm_inv st" "lm_inv (st\<lparr>fired := fd\<rparr>) = lm_inv st"
  by (simp_all add: lm_inv_def placed_def indexed_def typed_def)

lemma lm_add_inv:
  assumes inv: "lm_inv st" and new: "m_Loc (heap st li) = None" and c: "m_OccCounter (heap st li) \<noteq> 0"
  shows "\<exists>st'. lm_add li flw st = Some st' \<and> lm_inv st' \<and> m_BufferList st' = m_BufferList st @ [li] \<and> same_round st st' \<and>
    heap st' = (heap st)(li := (heap st li)\<lparr>m_Parent := flw, m_Home := None, m_Loc := Some (length (m_BufferList st))\<rparr>)"
proof -
  have li: "li \<notin> set (m_BufferList st)" using inv new by (auto simp: lm_inv_def placed_def in_set_conv_nth)
  then have h: "m_Home (heap st li) = None" using inv by (auto simp: lm_inv_def placed_def)
  let ?st = "set_listener li (\<lambda>x. x\<lparr>m_Parent := flw, m_Home := None, m_Loc := Some (length (m_BufferList st))\<rparr>)
      (st\<lparr>m_BufferList := m_BufferList st @ [li]\<rparr>)"
  have "lm_add li flw st = Some ?st" using c by (simp add: lm_add_def Let_def set_listener_def)
  moreover have "placed ?st" using inv li by (auto simp: lm_inv_def placed_def nth_append)
  moreover have "indexed ?st" using inv li h by (fastforce simp: lm_inv_def indexed_def nth_append)
  moreover have "typed ?st" using inv by (auto simp: lm_inv_def typed_def)
  ultimately show ?thesis by (intro exI [of _ ?st]) (simp add: lm_inv_def same_round_def set_listener_def)
qed

lemma lm_add_fast_inv:
  assumes inv: "lm_inv st" and new: "m_Loc (heap st li) = None" and b: "home_class (m_Class (heap st li)) = Some b"
  shows "lm_inv (lm_add_fast b li flw st) \<and> m_BufferList (lm_add_fast b li flw st) = m_BufferList st @ [li] \<and>
    same_round st (lm_add_fast b li flw st) \<and>
    heap (lm_add_fast b li flw st) =
      (heap st)(li := (heap st li)\<lparr>m_Parent := flw, m_Loc := Some (length (m_BufferList st)), m_Home := Some b\<rparr>)"
proof -
  have li: "li \<notin> set (m_BufferList st)" using inv new by (auto simp: lm_inv_def placed_def in_set_conv_nth)
  let ?n = "length (m_BufferList st)"
  let ?st = "set_listener li (\<lambda>x. x\<lparr>m_Parent := flw, m_Loc := Some ?n, m_Home := Some b\<rparr>)
      (st\<lparr>m_BufferList := m_BufferList st @ [li], m_BufList := (m_BufList st)(b := m_BufList st b @ [?n])\<rparr>)"
  have eq: "lm_add_fast b li flw st = ?st" by (simp add: lm_add_fast_def Let_def set_listener_def perf_add_def)
  have "placed ?st" using inv li by (auto simp: lm_inv_def placed_def nth_append)
  moreover have "indexed ?st"
  proof -
    have ix: "distinct (m_BufList st c)" "i \<in> set (m_BufList st c) \<longleftrightarrow> i < ?n \<and> m_Home (heap st (m_BufferList st ! i)) = Some c" for c i
      using inv by (auto simp: lm_inv_def indexed_def)
    have ne: "m_BufferList st ! i \<noteq> li" if "i < ?n" for i using li that by (metis nth_mem)
    show ?thesis unfolding indexed_def
      using ix ne by (auto simp: nth_append less_Suc_eq)
  qed
  moreover have "typed ?st" using inv b by (auto simp: lm_inv_def typed_def)
  ultimately show ?thesis unfolding eq by (simp add: lm_inv_def same_round_def set_listener_def)
qed

lemma remove_loop_inv:
  assumes "lm_inv st" and "i \<le> length (m_BufferList st)"
  shows "\<exists>st'. remove_loop flw i st = Some st' \<and> lm_inv st' \<and> same_round st st' \<and>
    (\<forall>q. unplaced (heap st' q) = unplaced (heap st q)) \<and>
    (\<forall>q \<in> set (m_BufferList st'). m_Home (heap st' q) = m_Home (heap st q)) \<and>
    mset (m_BufferList st') = mset (take i (m_BufferList st)) +
      {#li \<in># mset (drop i (m_BufferList st)). m_Parent (heap st li) \<noteq> flw#}"
  using assms
proof (induction flw i st rule: remove_loop.induct)
  case (1 flw i st)
  let ?buf = "m_BufferList st"
  show ?case
  proof (cases "i < length ?buf")
    case True
    then have d: "drop i ?buf = ?buf ! i # drop (Suc i) ?buf" by (simp add: Cons_nth_drop_Suc)
    show ?thesis
    proof (cases "m_Parent (heap st (?buf ! i)) = flw")
      case own: True
      obtain s where s: "drop_at i st = Some s" "lm_inv s" "m_BufferList s = swap_remove i ?buf" "same_round st s"
          "\<forall>q. unplaced (heap s q) = unplaced (heap st q)"
          "\<forall>q. q \<noteq> ?buf ! i \<longrightarrow> m_Home (heap s q) = m_Home (heap st q)"
        using drop_at_inv [OF 1(3) True] by blast
      have par: "m_Parent (heap s q) = m_Parent (heap st q)" for q using s(5) unplaced_simps(6) by metis
      have le: "i \<le> length (m_BufferList s)" using True s(3) by simp
      obtain s' where s': "remove_loop flw i s = Some s'" "lm_inv s'" "same_round s s'"
          "\<forall>q. unplaced (heap s' q) = unplaced (heap s q)"
          "mset (m_BufferList s') = mset (take i (m_BufferList s)) +
             {#li \<in># mset (drop i (m_BufferList s)). m_Parent (heap s li) \<noteq> flw#}"
          "\<forall>q \<in> set (m_BufferList s'). m_Home (heap s' q) = m_Home (heap s q)"
        using 1(1) [OF _ own s(1,2) le] True by auto
      have "remove_loop flw i st = Some s'" using True own s(1) s'(1) by (simp add: remove_loop.simps [of flw i st])
      moreover have "mset (m_BufferList s') = mset (take i ?buf) + {#li \<in># mset (drop i ?buf). m_Parent (heap st li) \<noteq> flw#}"
        unfolding s'(5) s(3) take_swap_remove [OF True] mset_drop_swap_remove [OF True] by (simp add: par d own)
      moreover have "\<forall>q \<in> set (m_BufferList s'). m_Home (heap s' q) = m_Home (heap st q)"
      proof
        fix q assume q: "q \<in> set (m_BufferList s')"
        have "set_mset (mset (m_BufferList s')) \<subseteq> set (m_BufferList s)"
          unfolding s'(5) by (auto dest: in_set_takeD in_set_dropD)
        then have "q \<in> set (m_BufferList s)" using q by auto
        moreover have "distinct ?buf" using 1(3) by (simp add: lm_inv_def placed_def)
        ultimately have "q \<noteq> ?buf ! i" using set_swap_remove [OF True] s(3) by auto
        then show "m_Home (heap s' q) = m_Home (heap st q)" using s'(6) s(6) q by simp
      qed
      ultimately show ?thesis using s(4,5) s'(2-4) by (intro exI [of _ s']) (auto intro: same_round_trans)
    next
      case False
      obtain s' where s': "remove_loop flw (i + 1) st = Some s'" "lm_inv s'" "same_round st s'"
          "\<forall>q. unplaced (heap s' q) = unplaced (heap st q)"
          "mset (m_BufferList s') = mset (take (i + 1) ?buf) + {#li \<in># mset (drop (i + 1) ?buf). m_Parent (heap st li) \<noteq> flw#}"
          "\<forall>q \<in> set (m_BufferList s'). m_Home (heap s' q) = m_Home (heap st q)"
        using 1(2) [OF _ False 1(3)] True by auto
      have "remove_loop flw i st = Some s'" using True False s'(1) by (simp add: remove_loop.simps [of flw i st])
      then show ?thesis using s' True False by (simp add: d take_Suc_conv_app_nth)
    qed
  next
    case False
    then have "remove_loop flw i st = Some st" by (simp add: remove_loop.simps [of flw i st])
    with False 1(3,4) show ?thesis by simp
  qed
qed

lemma remove_listener_inv:
  assumes inv: "lm_inv st"
  shows "\<exists>st'. remove_listener li st = Some st' \<and> lm_inv st' \<and> li \<notin> set (m_BufferList st') \<and>
    set (m_BufferList st') = set (m_BufferList st) - {li} \<and>
    (\<forall>q. unplaced (heap st' q) = unplaced (heap st q)) \<and> (\<forall>q. q \<noteq> li \<longrightarrow> m_Home (heap st' q) = m_Home (heap st q)) \<and>
    m_FireList st' = m_FireList st \<and> firing st' = firing st \<and> fired st' = fired st \<and> current st' = current st \<and>
    set (m_DeleteList st') = set (m_DeleteList st) \<union> ({li} \<inter> set (m_FireList st))"
proof (cases "m_Loc (heap st li)")
  case None
  then have "li \<notin> set (m_BufferList st)" using inv by (auto simp: lm_inv_def placed_def in_set_conv_nth)
  with None inv show ?thesis by (auto simp: remove_listener_def)
next
  case (Some i)
  then have i: "i < length (m_BufferList st)" "m_BufferList st ! i = li" using placed_location [OF inv] by auto
  obtain s where s: "drop_at i st = Some s" "lm_inv s" "m_BufferList s = swap_remove i (m_BufferList st)" "same_round st s"
      "\<forall>q. unplaced (heap s q) = unplaced (heap st q)" "\<forall>q. q \<noteq> li \<longrightarrow> m_Home (heap s q) = m_Home (heap st q)"
    using drop_at_inv [OF inv i(1)] i(2) by auto
  have "distinct (m_BufferList st)" using inv by (simp add: lm_inv_def placed_def)
  from set_swap_remove [OF i(1) this] have "set (m_BufferList s) = set (m_BufferList st) - {li}" by (simp add: s(3) i(2))
  with s Some remove_listener_drop [OF inv Some] show ?thesis
    by (auto simp: remove_listener_def same_round_def)
qed

lemma clear_all_inv:
  assumes inv: "lm_inv st"
  shows "lm_inv (clear_all st) \<and> m_BufferList (clear_all st) = []"
proof -
  have "m_BufList (clear_all st) b = []" for b
  proof (cases "Some b \<in> (\<lambda>li. m_Home (heap st li)) ` set (m_BufferList st)")
    case False
    have "i \<notin> set (m_BufList st b)" for i
      using inv False by (auto simp: lm_inv_def indexed_def image_iff) (metis nth_mem)
    then have "m_BufList st b = []" by (cases "m_BufList st b") auto
    with False show ?thesis by (simp add: clear_all_def Let_def)
  qed (simp add: clear_all_def Let_def)
  moreover have "placed (clear_all st)" using inv by (auto simp: lm_inv_def placed_def clear_all_def Let_def)
  moreover have "typed (clear_all st)" using inv by (auto simp: lm_inv_def typed_def clear_all_def Let_def)
  ultimately show ?thesis by (simp add: lm_inv_def indexed_def clear_all_def Let_def)
qed

lemma delete_firing_spec:
  "\<exists>dl. delete_firing flw ls st = st\<lparr>m_DeleteList := dl\<rparr> \<and>
     set dl = set (m_DeleteList st) \<union> {li \<in> set ls. flw = None \<or> m_Parent (heap st li) = flw}"
proof (induction ls arbitrary: st)
  case Nil
  show ?case by (intro exI [of _ "m_DeleteList st"]) simp
next
  case (Cons li ls)
  let ?st = "if li \<notin> set (m_DeleteList st) \<and> (flw = None \<or> m_Parent (heap st li) = flw)
      then st\<lparr>m_DeleteList := m_DeleteList st @ [li]\<rparr> else st"
  from Cons [of ?st] obtain dl where "delete_firing flw ls ?st = ?st\<lparr>m_DeleteList := dl\<rparr>"
      "set dl = set (m_DeleteList ?st) \<union> {x \<in> set ls. flw = None \<or> m_Parent (heap ?st x) = flw}" by blast
  then show ?case by (intro exI [of _ dl]) (auto split: if_splits)
qed

section \<open>Activation\<close>

text \<open>What one matching event does to a listener, and whether it makes it fire.\<close>

definition count_down :: "BaseListener \<Rightarrow> BaseListener" where
  "count_down x = (if m_OccCounter x - 1 > 0 then decreaseCounter x else resetCounter (decreaseCounter x))"

lemma count_down_keeps [simp]:
  "m_Loc (count_down x) = m_Loc x" "m_Home (count_down x) = m_Home x" "m_Class (count_down x) = m_Class x"
  "m_CPU (count_down x) = m_CPU x" "m_Parent (count_down x) = m_Parent x"
  by (simp_all add: count_down_def decreaseCounter_def resetCounter_def)

lemma unplaced_count_down: "unplaced x = unplaced y \<Longrightarrow> unplaced (count_down x) = unplaced (count_down y)"
  by (simp add: unplaced_eq_iff count_down_def decreaseCounter_def resetCounter_def)

lemma counter_positive: "0 < (c :: u32) - 1 \<longleftrightarrow> c \<noteq> 1"
  by (metis diff_eq_eq add_0 word_neq_0_conv)

text \<open>
  Both variants of \<open>makeActive\<close>: the listener is counted down and, when its counter has expired, moved
  from the buffer list to the fire list.
\<close>

definition activated :: "nat \<Rightarrow> sal \<Rightarrow> sal \<Rightarrow> bool" where
  "activated i st st' \<longleftrightarrow> (let li = m_BufferList st ! i in
     lm_inv st' \<and> (\<forall>q. unplaced (heap st' q) = unplaced (if q = li then count_down (heap st li) else heap st q)) \<and>
     (\<forall>q. q \<noteq> li \<longrightarrow> m_Home (heap st' q) = m_Home (heap st q)) \<and>
     same_round (st\<lparr>m_FireList := m_FireList st'\<rparr>) st' \<and>
     (if m_OccCounter (heap st li) = 1
      then m_BufferList st' = swap_remove i (m_BufferList st) \<and> m_FireList st' = m_FireList st @ [li]
      else m_BufferList st' = m_BufferList st \<and> m_FireList st' = m_FireList st \<and> m_Home (heap st' li) = m_Home (heap st li)))"

lemma set_listener_twice: "set_listener li g (set_listener li f st) = set_listener li (\<lambda>x. g (f x)) st"
  by (simp add: set_listener_def)

lemma counted_drop:
  assumes inv: "lm_inv st" and i: "i < length (m_BufferList st)" and c: "m_OccCounter (heap st (m_BufferList st ! i)) = 1"
  defines "s \<equiv> set_listener (m_BufferList st ! i) (\<lambda>x. resetCounter (decreaseCounter x)) st"
  shows "\<exists>st'. map_option (\<lambda>s. s\<lparr>m_FireList := m_FireList s @ [m_BufferList st ! i]\<rparr>) (drop_at i s) = Some st' \<and> activated i st st'"
proof -
  let ?li = "m_BufferList st ! i"
  have s: "lm_inv s" unfolding s_def
    by (subst lm_inv_set_listener) (simp_all add: inv resetCounter_def decreaseCounter_def)
  have cd: "count_down (heap st ?li) = resetCounter (decreaseCounter (heap st ?li))" using c by (simp add: count_down_def)
  obtain s' where s': "drop_at i s = Some s'" "lm_inv s'" "m_BufferList s' = swap_remove i (m_BufferList s)" "same_round s s'"
      "\<forall>q. unplaced (heap s' q) = unplaced (heap s q)" "\<forall>q. q \<noteq> m_BufferList s ! i \<longrightarrow> m_Home (heap s' q) = m_Home (heap s q)"
    using drop_at_inv [OF s, of i] i by (auto simp: s_def)
  let ?st' = "s'\<lparr>m_FireList := m_FireList s' @ [?li]\<rparr>"
  have "activated i st ?st'"
    using s' c cd unfolding activated_def Let_def s_def by (auto simp: same_round_def set_listener_def)
  with s'(1) show ?thesis by (intro exI [of _ ?st']) simp
qed

lemma counted_keep:
  assumes inv: "lm_inv st" and c: "m_OccCounter (heap st (m_BufferList st ! i)) \<noteq> 1"
  shows "activated i st (set_listener (m_BufferList st ! i) decreaseCounter st)"
proof -
  have "lm_inv (set_listener (m_BufferList st ! i) decreaseCounter st)"
    by (subst lm_inv_set_listener) (simp_all add: inv decreaseCounter_def)
  then show ?thesis using c
    by (auto simp: activated_def Let_def count_down_def counter_positive decreaseCounter_def same_round_def set_listener_def)
qed

lemma makeActive_at_ok:
  assumes inv: "lm_inv st" and i: "i < length (m_BufferList st)" and h: "m_Home (heap st (m_BufferList st ! i)) = None"
  shows "\<exists>st'. makeActive_at i st =
      Some (if m_OccCounter (heap st (m_BufferList st ! i)) = 1 then i else i + 1, st') \<and> activated i st st'"
proof (cases "m_OccCounter (heap st (m_BufferList st ! i)) = 1")
  case True
  let ?li = "m_BufferList st ! i"
  let ?s = "set_listener ?li (\<lambda>x. resetCounter (decreaseCounter x)) st"
  have "m_remove (m_Loc (heap ?s ?li)) ?s = drop_at i ?s"
    using placed_location [OF inv, of ?li i] i h by (simp add: drop_at_def resetCounter_def decreaseCounter_def)
  then have "makeActive_at i st = map_option (\<lambda>s. (i, s\<lparr>m_FireList := m_FireList s @ [?li]\<rparr>)) (drop_at i ?s)"
    using i h True by (simp add: makeActive_at_def Let_def set_listener_twice decreaseCounter_def resetCounter_def)
  with counted_drop [OF inv i True] True show ?thesis by (auto simp: option.map_comp comp_def)
next
  case False
  then have "makeActive_at i st = Some (i + 1, set_listener (m_BufferList st ! i) decreaseCounter st)"
    using i by (simp add: makeActive_at_def Let_def decreaseCounter_def counter_positive)
  with counted_keep [OF inv False] False show ?thesis by simp
qed

lemma makeActive_ok:
  assumes inv: "lm_inv st" and h: "m_Home (heap st li) = Some b"
  shows "\<exists>i st'. i < length (m_BufferList st) \<and> m_BufferList st ! i = li \<and> makeActive li st = Some st' \<and> activated i st st'"
proof -
  have "li \<in> set (m_BufferList st)" using inv h by (auto simp: lm_inv_def placed_def)
  then obtain i where i: "i < length (m_BufferList st)" "m_BufferList st ! i = li" by (auto simp: in_set_conv_nth)
  then have loc: "m_Loc (heap st li) = Some i" using placed_location [OF inv] by simp
  show ?thesis
  proof (cases "m_OccCounter (heap st li) = 1")
    case True
    let ?s = "set_listener li (\<lambda>x. resetCounter (decreaseCounter x)) st"
    have "m_remove (Some i) (perf_remove b i ?s) = drop_at i ?s"
      using i h by (simp add: drop_at_def resetCounter_def decreaseCounter_def)
    then have "makeActive li st = map_option (\<lambda>s. s\<lparr>m_FireList := m_FireList s @ [li]\<rparr>) (drop_at i ?s)"
      using h loc True by (simp add: makeActive_def Let_def set_listener_twice decreaseCounter_def resetCounter_def)
    with counted_drop [OF inv i(1)] True i show ?thesis by auto
  next
    case False
    then have "makeActive li st = Some (set_listener li decreaseCounter st)"
      using h by (simp add: makeActive_def Let_def decreaseCounter_def counter_positive)
    with counted_keep [OF inv, of i] False i show ?thesis by auto
  qed
qed

end
