(* ===== verification/Sal_Dispatch.thy ===== *)
theory Sal_Dispatch
  imports Listener_Manager
begin

text \<open>
  Event dispatch of \<^verbatim>\<open>src/core/sal/SimulatorController.cc\<close>: the loops that look for the listeners of an
  event, in the plain build over the whole buffer list and in the build with fast breakpoints and
  watchpoints (\<^verbatim>\<open>sal/perf\<close>) over the performance buffers. Both activate the same listeners.
\<close>

section \<open>The event loops\<close>

text \<open>
  The common shape of the six handlers: look at the listener under the iterator; when it matches, set
  its trigger data and let \<open>makeActive\<close> give the next iterator. The loop need not end, so not returning
  is \<open>None\<close> as well.
\<close>

partial_function (option) dispatch_loop :: "event \<Rightarrow> nat \<Rightarrow> sal \<Rightarrow> sal option" where
  "dispatch_loop ev i st =
     (if length (m_BufferList st) \<le> i then Some st
      else if matches ev (heap st (m_BufferList st ! i))
      then Option.bind (makeActive_at i (set_listener (m_BufferList st ! i) (set_trigger ev) st))
             (\<lambda>(j, st'). dispatch_loop ev j st')
      else dispatch_loop ev (i + 1) st)"

definition onBreakpoint :: "cpu option \<Rightarrow> address_t \<Rightarrow> address_t \<Rightarrow> sal \<Rightarrow> sal option" where
  "onBreakpoint cpu instrPtr address_space st =
     map_option trigger_start (dispatch_loop (BPEvent instrPtr address_space cpu) 0 st)"

definition onMemoryAccess :: "cpu option \<Rightarrow> address_t \<Rightarrow> u64 \<Rightarrow> bool \<Rightarrow> address_t \<Rightarrow> sal \<Rightarrow> sal option" where
  "onMemoryAccess cpu addr len is_write instrPtr st =
     (let accesstype = (if is_write then MEM_WRITE else MEM_READ)
      in map_option trigger_start (dispatch_loop (MemAccessEvent addr len instrPtr accesstype cpu) 0 st))"

definition onInterrupt :: "cpu option \<Rightarrow> u32 \<Rightarrow> bool \<Rightarrow> sal \<Rightarrow> sal option" where
  "onInterrupt cpu interruptNum nmi st = map_option trigger_start (dispatch_loop (InterruptEvent nmi interruptNum cpu) 0 st)"

definition onTrap :: "cpu option \<Rightarrow> u32 \<Rightarrow> sal \<Rightarrow> sal option" where
  "onTrap cpu trapNum st = map_option trigger_start (dispatch_loop (TrapEvent trapNum cpu) 0 st)"

definition onGuestSystem :: "u8 \<Rightarrow> u32 \<Rightarrow> sal \<Rightarrow> sal option" where
  "onGuestSystem data port st = map_option trigger_start (dispatch_loop (GuestEvent data port) 0 st)"

definition onJump :: "cpu option \<Rightarrow> bool \<Rightarrow> u32 \<Rightarrow> sal \<Rightarrow> sal option" where
  "onJump cpu flagTriggered opcode st = map_option trigger_start (dispatch_loop (JumpEvent opcode flagTriggered cpu) 0 st)"

section \<open>Fast breakpoints and watchpoints\<close>

text \<open>
  \<open>gather\<close> collects the matching listeners of a performance buffer and sets their trigger data. The
  result set is a stack. \<open>dereference\<close> asserts that the index is valid.
\<close>

fun gather_loop :: "event \<Rightarrow> nat list \<Rightarrow> listener list \<Rightarrow> sal \<Rightarrow> (listener list \<times> sal) option" where
  "gather_loop ev [] res st = Some (res, st)"
| "gather_loop ev (idx # ids) res st =
     (if length (m_BufferList st) \<le> idx then None
      else let li = m_BufferList st ! idx
           in if matches ev (heap st li)
              then gather_loop ev ids (res @ [li]) (set_listener li (set_trigger ev) st)
              else gather_loop ev ids res st)"

definition gather :: "perf_buffer \<Rightarrow> event \<Rightarrow> sal \<Rightarrow> (listener list \<times> sal) option" where
  "gather b ev st = gather_loop ev (m_BufList st b) [] st"

fun activate_all :: "listener list \<Rightarrow> sal \<Rightarrow> sal option" where
  "activate_all [] st = Some st"
| "activate_all (li # ls) st = (case makeActive li st of None \<Rightarrow> None | Some st' \<Rightarrow> activate_all ls st')"

definition fast_dispatch :: "perf_buffer \<Rightarrow> event \<Rightarrow> sal \<Rightarrow> sal option" where
  "fast_dispatch b ev st = (case gather b ev st of None \<Rightarrow> None | Some (res, st') \<Rightarrow> activate_all (rev res) st')"

definition onBreakpoint_fast :: "cpu option \<Rightarrow> address_t \<Rightarrow> address_t \<Rightarrow> sal \<Rightarrow> sal option" where
  "onBreakpoint_fast cpu instrPtr address_space st =
     (let tmp = BPEvent instrPtr address_space cpu
      in case fast_dispatch SingleListeners tmp st of
           None \<Rightarrow> None
         | Some st' \<Rightarrow> map_option trigger_start (fast_dispatch RangeListeners tmp st'))"

definition onMemoryAccess_fast :: "cpu option \<Rightarrow> address_t \<Rightarrow> u64 \<Rightarrow> bool \<Rightarrow> address_t \<Rightarrow> sal \<Rightarrow> sal option" where
  "onMemoryAccess_fast cpu addr len is_write instrPtr st =
     (let tmp = MemAccessEvent addr len instrPtr (if is_write then MEM_WRITE else MEM_READ) cpu
      in map_option trigger_start (fast_dispatch MemoryListeners tmp st))"

section \<open>What a dispatch does\<close>

definition struck :: "event \<Rightarrow> BaseListener \<Rightarrow> BaseListener" where
  "struck ev x = count_down (set_trigger ev x)"

definition last_count :: "sal \<Rightarrow> listener \<Rightarrow> bool" where
  "last_count st li \<longleftrightarrow> m_OccCounter (heap st li) = 1"

text \<open>
  The contract: the listeners \<open>R\<close> are changed by \<open>f\<close>, and those of them that were at their last count move
  from the buffer list to the fire list; nothing else changes except places.
\<close>

definition moved :: "(BaseListener \<Rightarrow> BaseListener) \<Rightarrow> listener multiset \<Rightarrow> sal \<Rightarrow> sal \<Rightarrow> bool" where
  "moved f R st st' \<longleftrightarrow> lm_inv st' \<and>
     (\<forall>q. unplaced (heap st' q) = unplaced (if q \<in># R then f (heap st q) else heap st q)) \<and>
     mset (m_FireList st') = mset (m_FireList st) + {#li \<in># R. last_count st li#} \<and>
     mset (m_BufferList st') + {#li \<in># R. last_count st li#} = mset (m_BufferList st) \<and>
     (\<forall>q. m_Home (heap st' q) = (if q \<in># R \<and> last_count st q then None else m_Home (heap st q))) \<and>
     same_round (st\<lparr>m_FireList := m_FireList st'\<rparr>) st'"

definition hits :: "event \<Rightarrow> sal \<Rightarrow> listener multiset \<Rightarrow> listener multiset" where
  "hits ev st R = {#li \<in># R. matches ev (heap st li)#}"

lemma unplaced_struck: "unplaced x = unplaced y \<Longrightarrow> unplaced (struck ev x) = unplaced (struck ev y)"
proof -
  assume eq: "unplaced x = unplaced y"
  have "unplaced (set_trigger ev x) = unplaced (set_trigger ev y)"
    using eq by (cases ev) (simp_all add: unplaced_eq_iff)
  then show ?thesis unfolding struck_def by (rule unplaced_count_down)
qed

lemma matches_unplaced: "unplaced x = unplaced y \<Longrightarrow> matches ev x = matches ev y"
  by (rule matches_cong) (simp_all add: unplaced_eq_iff)

lemma matches_set_trigger [simp]: "matches ev (set_trigger ev' x) = matches ev x"
  using set_trigger_data [of ev' x] by auto

lemma moved_refl: "lm_inv st \<Longrightarrow> moved f {#} st st"
  by (simp add: moved_def)

lemma moved_trans:
  assumes f: "\<And>x y. unplaced x = unplaced y \<Longrightarrow> unplaced (f x) = unplaced (f y)"
    and one: "moved f R st s" and two: "moved f Q s s'" and disj: "set_mset R \<inter> set_mset Q = {}"
  shows "moved f (R + Q) st s'"
proof -
  have h1: "unplaced (heap s q) = unplaced (if q \<in># R then f (heap st q) else heap st q)"
    and h2: "unplaced (heap s' q) = unplaced (if q \<in># Q then f (heap s q) else heap s q)" for q
    using one two by (auto simp: moved_def)
  have same: "unplaced (heap s q) = unplaced (heap st q)" if "q \<in># Q" for q
    using h1 [of q] that disj by auto
  then have lc: "last_count s q = last_count st q" if "q \<in># Q" for q
    using that unfolding last_count_def by (metis unplaced_simps(4))
  then have fq: "{#li \<in># Q. last_count s li#} = {#li \<in># Q. last_count st li#}" by (intro filter_mset_cong) auto
  have "unplaced (heap s' q) = unplaced (if q \<in># R + Q then f (heap st q) else heap st q)" for q
    using h1 [of q] h2 [of q] f [OF same] disj by (cases "q \<in># Q") auto
  moreover have "m_Home (heap s' q) = (if q \<in># R + Q \<and> last_count st q then None else m_Home (heap st q))" for q
    using one two lc [of q] by (auto simp: moved_def)
  moreover have "mset (m_FireList s') = mset (m_FireList st) + {#li \<in># R + Q. last_count st li#}"
    using one two fq by (simp add: moved_def)
  moreover have "mset (m_BufferList s') + {#li \<in># R + Q. last_count st li#} = mset (m_BufferList st)"
    using one two fq by (simp add: moved_def) (metis add.assoc add.commute)
  moreover have "same_round (st\<lparr>m_FireList := m_FireList s'\<rparr>) s'"
    using one two by (simp add: moved_def same_round_def)
  ultimately show ?thesis using two by (simp add: moved_def)
qed

lemma activated_moved:
  assumes inv: "lm_inv st" and i: "i < length (m_BufferList st)" and a: "activated i st st'"
  shows "moved count_down {#m_BufferList st ! i#} st st'"
proof -
  let ?li = "m_BufferList st ! i"
  have inv': "lm_inv st'" and h: "\<forall>q. unplaced (heap st' q) = unplaced (if q = ?li then count_down (heap st ?li) else heap st q)"
    and home: "\<forall>q. q \<noteq> ?li \<longrightarrow> m_Home (heap st' q) = m_Home (heap st q)"
    and r: "same_round (st\<lparr>m_FireList := m_FireList st'\<rparr>) st'"
    using a by (simp_all add: activated_def Let_def)
  show ?thesis
  proof (cases "last_count st ?li")
    case True
    then have b: "m_BufferList st' = swap_remove i (m_BufferList st)" "m_FireList st' = m_FireList st @ [?li]"
      using a by (simp_all add: activated_def Let_def last_count_def)
    have "distinct (m_BufferList st)" using inv by (simp add: lm_inv_def placed_def)
    from set_swap_remove [OF i this] have "?li \<notin> set (m_BufferList st')" by (simp add: b(1))
    then have "m_Home (heap st' ?li) = None" using inv' by (auto simp: lm_inv_def placed_def)
    moreover have "mset (m_BufferList st') + {#?li#} = mset (m_BufferList st)"
      using i by (simp add: b(1) mset_swap_remove)
    ultimately show ?thesis using True inv' h home r b(2) by (auto simp: moved_def)
  next
    case False
    then have "m_BufferList st' = m_BufferList st" "m_FireList st' = m_FireList st" "m_Home (heap st' ?li) = m_Home (heap st ?li)"
      using a by (simp_all add: activated_def Let_def last_count_def)
    moreover from this have "m_Home (heap st' q) = m_Home (heap st q)" for q using home by (cases "q = ?li") auto
    ultimately show ?thesis using False inv' h r by (auto simp: moved_def)
  qed
qed

text \<open>Setting the trigger data of the listeners beforehand.\<close>

lemma moved_triggered:
  assumes m: "moved count_down R s st'"
    and s: "s = st\<lparr>heap := (\<lambda>q. if q \<in># R then set_trigger ev (heap st q) else heap st q)\<rparr>"
  shows "moved (struck ev) R st st'"
proof -
  have k: "m_OccCounter (set_trigger ev x) = m_OccCounter x" "m_Home (set_trigger ev x) = m_Home x" for x
    using set_trigger_data [of ev x] by auto
  have eqs: "m_FireList s = m_FireList st" "m_BufferList s = m_BufferList st" "last_count s = last_count st"
    "m_Home (heap s q) = m_Home (heap st q)"
    "unplaced (if q \<in># R then count_down (heap s q) else heap s q) = unplaced (if q \<in># R then struck ev (heap st q) else heap st q)"
    "same_round (s\<lparr>m_FireList := fl\<rparr>) st' = same_round (st\<lparr>m_FireList := fl\<rparr>) st'" for q fl
    by (auto simp: s k last_count_def struck_def same_round_def fun_eq_iff)
  show ?thesis using m unfolding moved_def eqs .
qed

section \<open>The plain loop\<close>

lemma dispatch_loop_ok:
  assumes "lm_inv st" and "i \<le> length (m_BufferList st)"
    and "\<forall>li \<in> set (drop i (m_BufferList st)). matches ev (heap st li) \<longrightarrow> m_Home (heap st li) = None"
  shows "\<exists>st'. dispatch_loop ev i st = Some st' \<and> moved (struck ev) (hits ev st (mset (drop i (m_BufferList st)))) st st'"
  using assms
proof (induction "length (m_BufferList st) - i" arbitrary: i st rule: less_induct)
  case less
  let ?buf = "m_BufferList st" and ?li = "m_BufferList st ! i"
  show ?case
  proof (cases "i < length ?buf")
    case True
    then have d: "drop i ?buf = ?li # drop (Suc i) ?buf" by (simp add: Cons_nth_drop_Suc)
    have dist: "?li \<notin> set (drop (Suc i) ?buf)"
      using less.prems(1) d by (metis distinct.simps(2) distinct_drop lm_inv_def placed_def)
    show ?thesis
    proof (cases "matches ev (heap st ?li)")
      case hit: True
      let ?s = "set_listener ?li (set_trigger ev) st"
      have keeps: "m_Loc (set_trigger ev x) = m_Loc x \<and> m_Home (set_trigger ev x) = m_Home x \<and> m_Class (set_trigger ev x) = m_Class x \<and>
          m_OccCounter (set_trigger ev x) = m_OccCounter x" for x using set_trigger_data [of ev x] by auto
      have inv: "lm_inv ?s" by (subst lm_inv_set_listener) (simp_all add: keeps less.prems(1))
      have "m_Home (heap ?s ?li) = None" using less.prems(3) d hit by (simp add: keeps)
      from makeActive_at_ok [OF inv, of i] True this obtain s' where
          s': "makeActive_at i ?s = Some (if m_OccCounter (heap st ?li) = 1 then i else i + 1, s')" "activated i ?s s'"
        by (auto simp: keeps)
      let ?j = "if m_OccCounter (heap st ?li) = 1 then i else i + 1"
      have "moved count_down {#?li#} ?s s'" using activated_moved [OF inv _ s'(2)] True by simp
      then have m: "moved (struck ev) {#?li#} st s'"
        by (rule moved_triggered) (auto simp: set_listener_def fun_eq_iff)
      have buf: "m_BufferList s' = (if m_OccCounter (heap st ?li) = 1 then swap_remove i ?buf else ?buf)"
        using s'(2) by (simp add: activated_def Let_def keeps split: if_splits)
      have rest: "mset (drop ?j (m_BufferList s')) = mset (drop (Suc i) ?buf)"
        using True by (simp add: buf mset_drop_swap_remove)
      have same: "unplaced (heap s' q) = unplaced (heap st q)" "m_Home (heap s' q) = m_Home (heap st q)" if "q \<noteq> ?li" for q
        using m that by (auto simp: moved_def)
      have hs: "hits ev s' (mset (drop ?j (m_BufferList s'))) = hits ev st (mset (drop (Suc i) ?buf))"
        unfolding hits_def rest using dist same(1) matches_unplaced by (intro filter_mset_cong) (metis in_multiset_in_set)+
      obtain st' where st': "dispatch_loop ev ?j s' = Some st'"
          "moved (struck ev) (hits ev s' (mset (drop ?j (m_BufferList s')))) s' st'"
      proof (atomize_elim, rule less.hyps)
        show "length (m_BufferList s') - ?j < length ?buf - i" "?j \<le> length (m_BufferList s')" using True by (auto simp: buf)
        show "lm_inv s'" using m by (simp add: moved_def)
        have "set (drop ?j (m_BufferList s')) = set (drop (Suc i) ?buf)" using rest mset_eq_setD by blast
        moreover have "m_Home (heap s' q) = None" if "q \<in> set (drop (Suc i) ?buf)" "matches ev (heap s' q)" for q
        proof -
          have q: "q \<noteq> ?li" "q \<in> set (drop i ?buf)" using that(1) dist d by auto
          have "matches ev (heap st q)" using matches_unplaced [OF same(1) [OF q(1)]] that(2) by simp
          with less.prems(3) q(2) same(2) [OF q(1)] show ?thesis by simp
        qed
        ultimately show "\<forall>li \<in> set (drop ?j (m_BufferList s')). matches ev (heap s' li) \<longrightarrow> m_Home (heap s' li) = None" by simp
      qed
      have "moved (struck ev) ({#?li#} + hits ev st (mset (drop (Suc i) ?buf))) st st'"
        by (rule moved_trans [OF unplaced_struck m st'(2) [unfolded hs]]) (use dist in \<open>auto simp: hits_def\<close>)
      moreover have "dispatch_loop ev i st = Some st'"
        using True hit s'(1) st'(1) by (subst dispatch_loop.simps) simp
      ultimately show ?thesis using hit by (auto simp: hits_def d)
    next
      case False
      have lt: "length ?buf - (i + 1) < length ?buf - i" using True by linarith
      obtain st' where "dispatch_loop ev (i + 1) st = Some st'"
          "moved (struck ev) (hits ev st (mset (drop (i + 1) ?buf))) st st'"
        using less.hyps [OF lt less.prems(1)] less.prems(3) True d by auto
      moreover have "dispatch_loop ev i st = dispatch_loop ev (i + 1) st" using True False by (subst dispatch_loop.simps) simp
      ultimately show ?thesis using False by (auto simp: hits_def d)
    qed
  next
    case False
    then have "dispatch_loop ev i st = Some st" by (subst dispatch_loop.simps) simp
    with False less.prems(1) show ?thesis by (simp add: hits_def moved_refl)
  qed
qed

section \<open>The fast loops\<close>

lemma gather_loop_ok:
  assumes "\<forall>i \<in> set ids. i < length (m_BufferList st)" and "distinct (map (nth (m_BufferList st)) ids)"
  shows "gather_loop ev ids res st =
    Some (res @ filter (\<lambda>li. matches ev (heap st li)) (map (nth (m_BufferList st)) ids),
      st\<lparr>heap := (\<lambda>q. if q \<in> set (map (nth (m_BufferList st)) ids) \<and> matches ev (heap st q)
        then set_trigger ev (heap st q) else heap st q)\<rparr>)"
  using assms
proof (induction ids arbitrary: res st)
  case Nil
  then show ?case by simp
next
  case (Cons i ids)
  let ?li = "m_BufferList st ! i"
  show ?case
  proof (cases "matches ev (heap st ?li)")
    case True
    let ?s = "set_listener ?li (set_trigger ev) st"
    have "filter (\<lambda>li. matches ev (heap ?s li)) (map (nth (m_BufferList st)) ids) =
        filter (\<lambda>li. matches ev (heap st li)) (map (nth (m_BufferList st)) ids)"
      using Cons.prems(2) by (intro filter_cong) auto
    moreover have "(if q \<in> set (map (nth (m_BufferList st)) ids) \<and> matches ev (heap ?s q) then set_trigger ev (heap ?s q) else heap ?s q) =
        (if q \<in> set (map (nth (m_BufferList st)) (i # ids)) \<and> matches ev (heap st q) then set_trigger ev (heap st q) else heap st q)" for q
      using Cons.prems(2) True by (cases "q = ?li") auto
    moreover have "?s\<lparr>heap := h\<rparr> = st\<lparr>heap := h\<rparr>" for h by (simp add: set_listener_def)
    moreover have "gather_loop ev (i # ids) res st = gather_loop ev ids (res @ [?li]) ?s"
      using Cons.prems(1) True by (simp add: Let_def)
    ultimately show ?thesis
      using Cons.IH [of ?s "res @ [?li]"] Cons.prems True by simp
  next
    case False
    have "(\<lambda>q. if q \<in> set (map (nth (m_BufferList st)) ids) \<and> matches ev (heap st q) then set_trigger ev (heap st q) else heap st q) =
        (\<lambda>q. if q \<in> set (map (nth (m_BufferList st)) (i # ids)) \<and> matches ev (heap st q) then set_trigger ev (heap st q) else heap st q)"
      using False by auto
    with Cons.IH [of st res] Cons.prems False show ?thesis by (simp add: Let_def)
  qed
qed

lemma activate_all_ok:
  assumes "lm_inv st" and "distinct ls" and "\<forall>li \<in> set ls. m_Home (heap st li) \<noteq> None"
  shows "\<exists>st'. activate_all ls st = Some st' \<and> moved count_down (mset ls) st st'"
  using assms
proof (induction ls arbitrary: st)
  case Nil
  then show ?case by (simp add: moved_refl)
next
  case (Cons li ls)
  obtain i s where s: "i < length (m_BufferList st)" "m_BufferList st ! i = li" "makeActive li st = Some s" "activated i st s"
    using makeActive_ok [OF Cons.prems(1), of li] Cons.prems(3) by auto
  have m: "moved count_down {#li#} st s" using activated_moved [OF Cons.prems(1) s(1,4)] s(2) by simp
  have "m_Home (heap s q) \<noteq> None" if "q \<in> set ls" for q
    using m that Cons.prems(2,3) by (cases "q = li") (auto simp: moved_def)
  then obtain s' where s': "activate_all ls s = Some s'" "moved count_down (mset ls) s s'"
    using Cons.IH [of s] Cons.prems(2) m by (auto simp: moved_def)
  have "moved count_down ({#li#} + mset ls) st s'"
    by (rule moved_trans [OF unplaced_count_down m s'(2)]) (use Cons.prems(2) in auto)
  with s(3) s'(1) show ?case by simp
qed

definition homed :: "perf_buffer \<Rightarrow> sal \<Rightarrow> listener multiset" where
  "homed b st = {#li \<in># mset (m_BufferList st). m_Home (heap st li) = Some b#}"

lemma mset_perf_buffer:
  assumes "lm_inv st"
  shows "mset (map (nth (m_BufferList st)) (m_BufList st b)) = homed b st"
    and "distinct (map (nth (m_BufferList st)) (m_BufList st b))" and "\<forall>i \<in> set (m_BufList st b). i < length (m_BufferList st)"
proof -
  have ix: "distinct (m_BufList st b)" "\<And>i. i \<in> set (m_BufList st b) \<longleftrightarrow>
      i < length (m_BufferList st) \<and> m_Home (heap st (m_BufferList st ! i)) = Some b" and d: "distinct (m_BufferList st)"
    using assms by (auto simp: lm_inv_def indexed_def placed_def)
  show lt: "\<forall>i \<in> set (m_BufList st b). i < length (m_BufferList st)" using ix(2) by blast
  show dm: "distinct (map (nth (m_BufferList st)) (m_BufList st b))"
    using ix(1) lt d by (auto simp: distinct_map inj_on_def nth_eq_iff_index_eq)
  have "set (map (nth (m_BufferList st)) (m_BufList st b)) = set (filter (\<lambda>li. m_Home (heap st li) = Some b) (m_BufferList st))"
    using ix(2) by (auto simp: in_set_conv_nth)
  moreover have "distinct (filter (\<lambda>li. m_Home (heap st li) = Some b) (m_BufferList st))" using d by simp
  ultimately have "mset (map (nth (m_BufferList st)) (m_BufList st b)) = mset (filter (\<lambda>li. m_Home (heap st li) = Some b) (m_BufferList st))"
    using set_eq_iff_mset_eq_distinct [OF dm] by blast
  then show "mset (map (nth (m_BufferList st)) (m_BufList st b)) = homed b st" by (simp add: homed_def)
qed

lemma fast_dispatch_ok:
  assumes inv: "lm_inv st"
  shows "\<exists>st'. fast_dispatch b ev st = Some st' \<and> moved (struck ev) (hits ev st (homed b st)) st st'"
proof -
  let ?ls = "map (nth (m_BufferList st)) (m_BufList st b)"
  let ?res = "filter (\<lambda>li. matches ev (heap st li)) ?ls"
  let ?s = "st\<lparr>heap := (\<lambda>q. if q \<in> set ?ls \<and> matches ev (heap st q) then set_trigger ev (heap st q) else heap st q)\<rparr>"
  note perf = mset_perf_buffer [OF inv, of b]
  have g: "gather b ev st = Some (?res, ?s)" unfolding gather_def using gather_loop_ok [OF perf(3,2), of ev "[]"] by simp
  have hits: "hits ev st (homed b st) = mset (rev ?res)" by (simp add: hits_def perf(1) [symmetric])
  have eq: "?s = st\<lparr>heap := (\<lambda>q. if q \<in># mset (rev ?res) then set_trigger ev (heap st q) else heap st q)\<rparr>" by auto
  have keeps: "m_Loc (set_trigger ev x) = m_Loc x" "m_Home (set_trigger ev x) = m_Home x" "m_Class (set_trigger ev x) = m_Class x" for x
    using set_trigger_data [of ev x] by auto
  have s: "lm_inv ?s" using inv by (simp add: lm_inv_def placed_def indexed_def typed_def keeps)
  have "m_Home (heap ?s li) \<noteq> None" if "li \<in> set (rev ?res)" for li
  proof -
    have "li \<in># homed b st" using that perf(1) by (metis filter_is_subset in_mono in_multiset_in_set set_rev)
    then show ?thesis by (simp add: homed_def keeps)
  qed
  then obtain s' where "activate_all (rev ?res) ?s = Some s'" "moved count_down (mset (rev ?res)) ?s s'"
    using activate_all_ok [OF s, of "rev ?res"] perf(2) by auto
  with g moved_triggered [OF _ eq] show ?thesis unfolding fast_dispatch_def hits by auto
qed

section \<open>Both builds\<close>

text \<open>In the fast build, breakpoint and memory listeners live in the performance buffers.\<close>

definition build :: "bool \<Rightarrow> sal \<Rightarrow> bool" where
  "build fast st \<longleftrightarrow>
     (\<forall>li \<in> set (m_BufferList st). m_Home (heap st li) = (if fast then home_class (m_Class (heap st li)) else None))"

text \<open>The handler of an event in either build.\<close>

definition do_event :: "bool \<Rightarrow> event \<Rightarrow> sal \<Rightarrow> sal option" where
  "do_event fast ev st =
     (if fast then
        (case ev of
           BPEvent ip asp cpu \<Rightarrow> onBreakpoint_fast cpu ip asp st
         | MemAccessEvent a l ip acc cpu \<Rightarrow> map_option trigger_start (fast_dispatch MemoryListeners ev st)
         | _ \<Rightarrow> map_option trigger_start (dispatch_loop ev 0 st))
      else map_option trigger_start (dispatch_loop ev 0 st))"

lemma do_event_is_handler:
  "do_event False (BPEvent ip asp cpu) st = onBreakpoint cpu ip asp st"
  "do_event False (MemAccessEvent a l ip (if w then MEM_WRITE else MEM_READ) cpu) st = onMemoryAccess cpu a l w ip st"
  "do_event fast (InterruptEvent nmi n cpu) st = onInterrupt cpu n nmi st"
  "do_event fast (TrapEvent n cpu) st = onTrap cpu n st"
  "do_event fast (GuestEvent d p) st = onGuestSystem d p st"
  "do_event fast (JumpEvent oc flag cpu) st = onJump cpu flag oc st"
  "do_event True (BPEvent ip asp cpu) st = onBreakpoint_fast cpu ip asp st"
  "do_event True (MemAccessEvent a l ip (if w then MEM_WRITE else MEM_READ) cpu) st = onMemoryAccess_fast cpu a l w ip st"
  by (simp_all add: do_event_def onBreakpoint_def onMemoryAccess_def onInterrupt_def onTrap_def onGuestSystem_def onJump_def
      onMemoryAccess_fast_def Let_def)

lemma moved_build:
  assumes "moved (struck ev) (hits ev st R) st s" and "build fast st" and "distinct (m_BufferList st)"
  shows "build fast s"
proof -
  have k: "m_Class (struck ev x) = m_Class x" for x
    using set_trigger_data [of ev x] by (auto simp: struck_def)
  have cls: "m_Class (heap s q) = m_Class (heap st q)" for q
    using assms(1) unfolding moved_def by (metis k unplaced_simps(5))
  have sum: "mset (m_BufferList s) + {#li \<in># hits ev st R. last_count st li#} = mset (m_BufferList st)" and
    home: "m_Home (heap s q) = (if q \<in># hits ev st R \<and> last_count st q then None else m_Home (heap st q))" for q
    using assms(1) by (auto simp: moved_def lm_inv_def placed_def)
  show ?thesis unfolding build_def
  proof
    fix q assume q: "q \<in> set (m_BufferList s)"
    have "count (mset (m_BufferList st)) q \<le> 1" using assms(3) by (simp add: distinct_count_atmost_1)
    moreover have "count (mset (m_BufferList s)) q + count {#li \<in># hits ev st R. last_count st li#} q =
        count (mset (m_BufferList st)) q" unfolding sum [symmetric] by simp
    moreover have "0 < count (mset (m_BufferList s)) q" using q by (simp add: count_greater_zero_iff)
    ultimately have "count {#li \<in># hits ev st R. last_count st li#} q = 0" by linarith
    then have "q \<notin># {#li \<in># hits ev st R. last_count st li#}" by (simp only: not_in_iff)
    then have "m_Home (heap s q) = m_Home (heap st q)" by (auto simp: home)
    moreover have "q \<in> set (m_BufferList st)" using q sum by (metis in_multiset_in_set union_iff)
    ultimately show "m_Home (heap s q) = (if fast then home_class (m_Class (heap s q)) else None)"
      using assms(2) by (simp add: build_def cls)
  qed
qed

lemma filter_hits_moved:
  assumes m: "moved (struck ev) (hits ev st (homed b st)) st s" and bc: "b \<noteq> c"
  shows "hits ev s (homed c s) = hits ev st (homed c st)"
proof -
  let ?E = "{#li \<in># hits ev st (homed b st). last_count st li#}"
  have home: "m_Home (heap s q) = Some c \<longleftrightarrow> m_Home (heap st q) = Some c" for q
    using m bc by (auto simp: moved_def hits_def homed_def)
  have cls: "matches ev (heap s q) = matches ev (heap st q)" for q
  proof -
    have "matches ev (struck ev x) = matches ev x" for x
      by (rule matches_cong) (use set_trigger_data [of ev x] in \<open>auto simp: struck_def\<close>)
    moreover have "unplaced (heap s q) = unplaced (if q \<in># hits ev st (homed b st) then struck ev (heap st q) else heap st q)"
      using m by (simp add: moved_def)
    then have "matches ev (heap s q) = matches ev (if q \<in># hits ev st (homed b st) then struck ev (heap st q) else heap st q)"
      by (rule matches_unplaced)
    ultimately show ?thesis by simp
  qed
  have e: "{#li \<in># ?E. m_Home (heap st li) = Some c#} = {#}"
    using bc by (simp add: hits_def homed_def)
  have sum: "mset (m_BufferList s) + ?E = mset (m_BufferList st)" using m by (simp add: moved_def)
  have "homed c st = {#li \<in># mset (m_BufferList s) + ?E. m_Home (heap st li) = Some c#}" by (simp only: sum homed_def [of c])
  also have "\<dots> = {#li \<in># mset (m_BufferList s). m_Home (heap st li) = Some c#}"
    by (simp only: filter_union_mset e add_0_right)
  finally have "homed c st = {#li \<in># mset (m_BufferList s). m_Home (heap st li) = Some c#}" .
  then show ?thesis unfolding hits_def homed_def by (simp add: home cls)
qed

lemma bp_home: "matches ev x \<Longrightarrow> is_BPEvent ev \<Longrightarrow> home_class (m_Class x) \<in> {Some SingleListeners, Some RangeListeners}"
  by (cases ev; cases "m_Class x") (simp_all add: home_class_def)

lemma mem_home: "matches ev x \<Longrightarrow> is_MemAccessEvent ev \<Longrightarrow> home_class (m_Class x) = Some MemoryListeners"
  by (cases ev; cases "m_Class x") (simp_all add: home_class_def)

lemma no_home: "matches ev x \<Longrightarrow> \<not> is_BPEvent ev \<Longrightarrow> \<not> is_MemAccessEvent ev \<Longrightarrow> home_class (m_Class x) = None"
  by (cases ev; cases "m_Class x") (simp_all add: home_class_def)

lemma filter_mset_split:
  assumes "\<And>x. x \<in># M \<Longrightarrow> P x \<longleftrightarrow> A x \<or> B x" and "\<And>x. \<not> (A x \<and> B x)"
  shows "{#x \<in># M. P x#} = {#x \<in># M. A x#} + {#x \<in># M. B x#}"
proof (rule multiset_eqI)
  show "count {#x \<in># M. P x#} x = count ({#x \<in># M. A x#} + {#x \<in># M. B x#}) x" for x
    using assms [of x] by (cases "x \<in># M") (auto simp: not_in_iff)
qed

lemma do_event_ok:
  assumes inv: "lm_inv st" and bl: "build fast st"
  shows "\<exists>s. do_event fast ev st = Some (trigger_start s) \<and> build fast s \<and>
    moved (struck ev) (hits ev st (mset (m_BufferList st))) st s"
proof -
  have d: "distinct (m_BufferList st)" using inv by (simp add: lm_inv_def placed_def)
  have plain: "\<exists>s. dispatch_loop ev 0 st = Some s \<and> moved (struck ev) (hits ev st (mset (m_BufferList st))) st s"
    if "\<forall>li \<in> set (m_BufferList st). matches ev (heap st li) \<longrightarrow> m_Home (heap st li) = None"
    using dispatch_loop_ok [OF inv, of 0 ev] that by simp
  have fast_case: "\<exists>s. do_event fast ev st = Some (trigger_start s) \<and> moved (struck ev) (hits ev st (mset (m_BufferList st))) st s"
  proof (cases "fast \<and> (is_BPEvent ev \<or> is_MemAccessEvent ev)")
    case False
    have "matches ev (heap st li) \<longrightarrow> m_Home (heap st li) = None" if "li \<in> set (m_BufferList st)" for li
      using bl that False no_home by (cases fast) (auto simp: build_def)
    then obtain s where "dispatch_loop ev 0 st = Some s" "moved (struck ev) (hits ev st (mset (m_BufferList st))) st s"
      using plain by blast
    with False show ?thesis by (cases ev) (auto simp: do_event_def)
  next
    case True
    have hit: "m_Home (heap st li) = home_class (m_Class (heap st li))" if "li \<in> set (m_BufferList st)" for li
      using bl that True by (simp add: build_def)
    have hh: "hits ev st (homed b st) = {#li \<in># mset (m_BufferList st). m_Home (heap st li) = Some b \<and> matches ev (heap st li)#}" for b
      by (simp add: hits_def homed_def filter_filter_mset)
    have bp: "hits ev st (mset (m_BufferList st)) = hits ev st (homed SingleListeners st) + hits ev st (homed RangeListeners st)"
      if "is_BPEvent ev"
      unfolding hh unfolding hits_def by (rule filter_mset_split) (use hit that in \<open>auto dest: bp_home\<close>)
    have mem: "hits ev st (mset (m_BufferList st)) = hits ev st (homed MemoryListeners st)" if "is_MemAccessEvent ev"
      unfolding hh unfolding hits_def by (rule filter_mset_cong) (use hit that in \<open>auto dest: mem_home\<close>)
    show ?thesis
    proof (cases "is_BPEvent ev")
      case bpe: True
      obtain s1 where s1: "fast_dispatch SingleListeners ev st = Some s1"
          "moved (struck ev) (hits ev st (homed SingleListeners st)) st s1"
        using fast_dispatch_ok [OF inv] by blast
      then have "lm_inv s1" by (simp add: moved_def)
      then obtain s where s: "fast_dispatch RangeListeners ev s1 = Some s"
          "moved (struck ev) (hits ev s1 (homed RangeListeners s1)) s1 s"
        using fast_dispatch_ok by blast
      have eq: "hits ev s1 (homed RangeListeners s1) = hits ev st (homed RangeListeners st)"
        by (rule filter_hits_moved [OF s1(2)]) simp
      have "moved (struck ev) (hits ev st (homed SingleListeners st) + hits ev st (homed RangeListeners st)) st s"
        by (rule moved_trans [OF unplaced_struck s1(2) s(2) [unfolded eq]]) (auto simp: hits_def homed_def)
      with bp [OF bpe] s1(1) s(1) True bpe show ?thesis by (cases ev) (auto simp: do_event_def onBreakpoint_fast_def)
    next
      case False
      obtain s where "fast_dispatch MemoryListeners ev st = Some s" "moved (struck ev) (hits ev st (homed MemoryListeners st)) st s"
        using fast_dispatch_ok [OF inv] by blast
      with mem True False show ?thesis by (cases ev) (auto simp: do_event_def)
    qed
  qed
  then show ?thesis using moved_build [OF _ bl d] by blast
qed

section \<open>Properties\<close>

text \<open>
  C15. Every event loop ends, although \<open>makeActive\<close> reorders the list it iterates over, and does its work
  exactly: no assertion fails, each buffered listener that matches the event is counted down once,
  and the fire list gets each matching listener whose count has run out, which leaves the buffer list;
  this holds for the plain loops and for the performance buffers.
\<close>

theorem event_dispatch_exact:
  assumes "lm_inv st" and "build fast st"
  shows "\<exists>s. do_event fast ev st = Some (trigger_start s) \<and> lm_inv s \<and> build fast s \<and>
    mset (m_FireList s) = mset (m_FireList st) +
      {#li \<in># mset (m_BufferList st). matches ev (heap st li) \<and> m_OccCounter (heap st li) = 1#} \<and>
    mset (m_BufferList s) =
      {#li \<in># mset (m_BufferList st). \<not> (matches ev (heap st li) \<and> m_OccCounter (heap st li) = 1)#} \<and>
    (\<forall>li. unplaced (heap s li) =
       unplaced (if li \<in> set (m_BufferList st) \<and> matches ev (heap st li) then struck ev (heap st li) else heap st li))"
proof -
  obtain s where s: "do_event fast ev st = Some (trigger_start s)" "build fast s"
      "moved (struck ev) (hits ev st (mset (m_BufferList st))) st s"
    using do_event_ok [OF assms, of ev] by blast
  let ?E = "{#li \<in># mset (m_BufferList st). matches ev (heap st li) \<and> m_OccCounter (heap st li) = 1#}"
  have e: "{#li \<in># hits ev st (mset (m_BufferList st)). last_count st li#} = ?E"
    by (simp add: hits_def last_count_def filter_filter_mset)
  have "mset (m_BufferList s) + ?E = mset (m_BufferList st)" using s(3) by (simp add: moved_def e)
  from arg_cong [OF this, of "\<lambda>M. M - ?E"] have "mset (m_BufferList s) = mset (m_BufferList st) - ?E"
    by (simp only: add_diff_cancel_right')
  also have "\<dots> = {#li \<in># mset (m_BufferList st). \<not> (matches ev (heap st li) \<and> m_OccCounter (heap st li) = 1)#}"
    by (rule multiset_eqI) simp
  finally have b: "mset (m_BufferList s) = \<dots>" .
  have h: "li \<in># hits ev st (mset (m_BufferList st)) \<longleftrightarrow> li \<in> set (m_BufferList st) \<and> matches ev (heap st li)" for li
    by (simp add: hits_def)
  show ?thesis
    by (rule exI [of _ s], intro conjI) (use s(1,2) s(3) [unfolded moved_def e h] b in blast)+
qed

definition demo_listener :: "watch \<Rightarrow> u32 \<Rightarrow> BaseListener" where
  "demo_listener w n = setCounter n (BaseListener_new w None)"

text \<open>Three breakpoints at one address, the second of which waits for the second hit, and a trap listener.\<close>

definition demo_sal :: "bool \<Rightarrow> sal" where
  "demo_sal fast = \<lparr>m_BufferList = [0, 1, 2, 3], m_FireList = [], m_DeleteList = [], m_pFired = None,
     heap = (\<lambda>li. (demo_listener (if li = 3 then TrapListener [ANY_TRAP] else BPSingleListener 64 ANY_ADDR) (if li = 1 then 2 else 1))
       \<lparr>m_Parent := Some li, m_Loc := (if li < 4 then Some li else None),
        m_Home := (if fast \<and> li < 3 then Some SingleListeners else None)\<rparr>),
     m_BufList = (\<lambda>b. if fast \<and> b = SingleListeners then [0, 1, 2] else []), firing = None, current = None, fired = []\<rparr>"

lemma demo_sal_inv: "lm_inv (demo_sal fast)" "build fast (demo_sal fast)"
  by (auto simp: demo_sal_def lm_inv_def placed_def indexed_def typed_def build_def demo_listener_def BaseListener_new_def
      setCounter_def home_class_def less_Suc_eq numeral_eq_Suc nth_Cons split: nat.splits)

theorem event_dispatch_exact_witness:
  "\<exists>s. do_event False (BPEvent 64 0 None) (demo_sal False) = Some (trigger_start s) \<and> mset (m_FireList s) = {#0, 2#} \<and>
     mset (m_BufferList s) = {#1, 3#}"
proof -
  let ?ev = "BPEvent 64 0 None" and ?st = "demo_sal False"
  have "{#li \<in># mset (m_BufferList ?st). matches ?ev (heap ?st li) \<and> m_OccCounter (heap ?st li) = 1#} = {#0, 2#}"
    "{#li \<in># mset (m_BufferList ?st). \<not> (matches ?ev (heap ?st li) \<and> m_OccCounter (heap ?st li) = 1)#} = {#1, 3#}"
    "m_FireList ?st = []"
    by (simp_all add: demo_sal_def demo_listener_def BaseListener_new_def setCounter_def bp_single_isMatching_def
        aspaceIsMatching_def cpu_matches_def)
  then show ?thesis using event_dispatch_exact [OF demo_sal_inv, of False ?ev] by auto
qed

text \<open>
  C16. The performance buffers are an optimisation only: when the plain build and the fast build hold the
  same listeners, an event leaves both with the same listeners in the buffer list and in the fire list
  and with the same counters and trigger data.
\<close>

theorem fast_buffers_equal_plain:
  assumes "lm_inv p" and "build False p" and "lm_inv f" and "build True f"
    and "mset (m_BufferList p) = mset (m_BufferList f)" and "mset (m_FireList p) = mset (m_FireList f)"
    and "\<forall>li. unplaced (heap p li) = unplaced (heap f li)"
  shows "\<exists>p' f'. do_event False ev p = Some p' \<and> do_event True ev f = Some f' \<and>
    mset (m_BufferList p') = mset (m_BufferList f') \<and> mset (m_FireList p') = mset (m_FireList f') \<and>
    (\<forall>li. unplaced (heap p' li) = unplaced (heap f' li))"
proof -
  obtain p' where p': "do_event False ev p = Some (trigger_start p')" "moved (struck ev) (hits ev p (mset (m_BufferList p))) p p'"
    using do_event_ok [OF assms(1,2)] by blast
  obtain f' where f': "do_event True ev f = Some (trigger_start f')" "moved (struck ev) (hits ev f (mset (m_BufferList f))) f f'"
    using do_event_ok [OF assms(3,4)] by blast
  let ?R = "hits ev f (mset (m_BufferList f))"
  have m: "matches ev (heap p li) = matches ev (heap f li)" for li using assms(7) matches_unplaced by blast
  have c: "last_count p = last_count f" unfolding last_count_def fun_eq_iff using assms(7) by (metis unplaced_simps(4))
  have R: "hits ev p (mset (m_BufferList p)) = ?R" by (simp add: hits_def m assms(5))
  note p2 = p'(2) [unfolded R]
  let ?E = "{#li \<in># ?R. last_count f li#}"
  have "mset (m_BufferList p') + ?E = mset (m_BufferList f') + ?E"
    using p2 f'(2) assms(5) by (simp add: moved_def c)
  then have "mset (m_BufferList p') = mset (m_BufferList f')" by (rule add_right_imp_eq)
  moreover have "mset (m_FireList p') = mset (m_FireList f')" using p2 f'(2) assms(6) by (simp add: moved_def c)
  moreover have "unplaced (heap p' li) = unplaced (heap f' li)" for li
    using p2 f'(2) assms(7) unplaced_struck [of "heap p li" "heap f li" ev] by (simp add: moved_def)
  ultimately show ?thesis using p'(1) f'(1) by (auto simp: trigger_start_def)
qed

theorem fast_buffers_equal_plain_witness:
  "\<exists>p' f'. do_event False (BPEvent 64 0 None) (demo_sal False) = Some p' \<and> do_event True (BPEvent 64 0 None) (demo_sal True) = Some f' \<and>
     mset (m_FireList p') = mset (m_FireList f')"
proof -
  have "mset (m_BufferList (demo_sal False)) = mset (m_BufferList (demo_sal True))"
    "mset (m_FireList (demo_sal False)) = mset (m_FireList (demo_sal True))"
    "\<forall>li. unplaced (heap (demo_sal False) li) = unplaced (heap (demo_sal True) li)"
    by (simp_all add: demo_sal_def unplaced_eq_iff)
  from fast_buffers_equal_plain [OF demo_sal_inv demo_sal_inv this, of "BPEvent 64 0 None"] show ?thesis by blast
qed

text \<open>Steps of an event loop; \<open>None\<close> when the loop has ended or an assertion has failed.\<close>

fun loop_steps :: "nat \<Rightarrow> event \<Rightarrow> nat \<Rightarrow> sal \<Rightarrow> (nat \<times> sal) option" where
  "loop_steps 0 ev i st = Some (i, st)"
| "loop_steps (Suc n) ev i st =
     (if length (m_BufferList st) \<le> i then None
      else if matches ev (heap st (m_BufferList st ! i))
      then Option.bind (makeActive_at i (set_listener (m_BufferList st ! i) (set_trigger ev) st)) (\<lambda>(j, st'). loop_steps n ev j st')
      else loop_steps n ev (i + 1) st)"

text \<open>A buffered listener that does not know its place.\<close>

definition lost :: "event \<Rightarrow> listener \<Rightarrow> sal \<Rightarrow> bool" where
  "lost ev li st \<longleftrightarrow> m_BufferList st = [li] \<and> m_Loc (heap st li) = None \<and> m_Home (heap st li) = None \<and>
     m_OccCounter (heap st li) = 1 \<and> m_OccCounterInit (heap st li) = 1 \<and> matches ev (heap st li)"

lemma lost_step:
  assumes "lost ev li st"
  shows "\<exists>s. makeActive_at 0 (set_listener li (set_trigger ev) st) = Some (0, s) \<and> lost ev li s"
proof -
  obtain d where d: "set_trigger ev (heap st li) = (heap st li)\<lparr>m_Data := d\<rparr>" using set_trigger_data by blast
  from assms show ?thesis
    by (simp add: lost_def makeActive_at_def Let_def d set_listener_def decreaseCounter_def resetCounter_def m_remove_def)
qed

lemma lost_diverges:
  assumes "dispatch_loop ev i st = Some y"
  shows "i = 0 \<longrightarrow> \<not> lost ev li st"
proof (rule dispatch_loop.raw_induct [where P = "\<lambda>ev i st y. i = 0 \<longrightarrow> \<not> lost ev li st", OF _ assms])
  fix loop :: "event \<Rightarrow> nat \<Rightarrow> sal \<Rightarrow> sal option" and ev i st y
  assume ih: "\<And>ev i st y. loop ev i st = Some y \<Longrightarrow> i = 0 \<longrightarrow> \<not> lost ev li st"
    and body: "(if length (m_BufferList st) \<le> i then Some st
      else if matches ev (heap st (m_BufferList st ! i))
      then Option.bind (makeActive_at i (set_listener (m_BufferList st ! i) (set_trigger ev) st)) (\<lambda>(j, st'). loop ev j st')
      else loop ev (i + 1) st) = Some y"
  show "i = 0 \<longrightarrow> \<not> lost ev li st"
  proof (intro impI notI)
    assume i: "i = 0" and l: "lost ev li st"
    obtain s where s: "makeActive_at 0 (set_listener li (set_trigger ev) st) = Some (0, s)" "lost ev li s"
      using lost_step [OF l] by blast
    have "loop ev 0 s = Some y" using body i l s(1) by (simp add: lost_def)
    from ih [OF this] s(2) show False by simp
  qed
qed

text \<open>
  C37. Adding a listener that is in the buffer list already is not rejected. When the buffer list was empty
  and the listener triggers on every occurrence of its event (its counter is one and is reset to one),
  two calls of \<open>add\<close> for it make the next matching event loop forever: the listener has lost its place,
  \<open>m_remove\<close> does nothing, and the loop over the buffer list activates it again and again.
\<close>

theorem double_add_never_returns:
  assumes "lm_inv st" and "m_BufferList st = []" and "m_OccCounter (heap st li) = 1" and "m_OccCounterInit (heap st li) = 1"
    and "matches ev (heap st li)" and "lm_add li flw st = Some s1" and "lm_add li flw s1 = Some s2"
  shows "dispatch_loop ev 0 s2 = None \<and> (\<forall>n. loop_steps n ev 0 s2 \<noteq> None)"
proof -
  have s2: "m_BufferList s2 = [li, li]" "m_Loc (heap s2 li) = Some 1" "m_Home (heap s2 li) = None"
      "m_OccCounter (heap s2 li) = 1" "m_OccCounterInit (heap s2 li) = 1"
    using assms(2-7) by (auto simp: lm_add_def Let_def set_listener_def split: if_splits)
  have mt: "matches ev (heap s2 li)"
  proof -
    have "matches ev (heap s2 li) = matches ev (heap st li)"
      by (rule matches_cong) (use assms(2-7) in \<open>auto simp: lm_add_def Let_def set_listener_def split: if_splits\<close>)
    with assms(5) show ?thesis by simp
  qed
  obtain d where d: "set_trigger ev (heap s2 li) = (heap s2 li)\<lparr>m_Data := d\<rparr>" using set_trigger_data by blast
  have "\<exists>s. makeActive_at 0 (set_listener li (set_trigger ev) s2) = Some (0, s) \<and> lost ev li s"
    using s2 mt by (simp add: lost_def makeActive_at_def Let_def d set_listener_def decreaseCounter_def resetCounter_def m_remove_def)
  then obtain s where s: "makeActive_at 0 (set_listener li (set_trigger ev) s2) = Some (0, s)" "lost ev li s" by blast
  have "dispatch_loop ev 0 s2 = dispatch_loop ev 0 s" using s(1) s2 mt by (subst dispatch_loop.simps) simp
  moreover have "dispatch_loop ev 0 s = None" using lost_diverges [of ev 0 s _ li] s(2) by (cases "dispatch_loop ev 0 s") auto
  moreover have "loop_steps n ev 0 x \<noteq> None" if "lost ev li x" for n x
    using that
  proof (induction n arbitrary: x)
    case (Suc n)
    obtain y where "makeActive_at 0 (set_listener li (set_trigger ev) x) = Some (0, y)" "lost ev li y"
      using lost_step [OF Suc.prems] by blast
    with Suc.IH [of y] Suc.prems show ?case by (simp add: lost_def)
  qed simp
  then have "loop_steps n ev 0 s2 \<noteq> None" for n
    using s s2 mt by (cases n) simp_all
  ultimately show ?thesis by simp
qed

definition empty_sal :: sal where
  "empty_sal = \<lparr>m_BufferList = [], m_FireList = [], m_DeleteList = [], m_pFired = None,
     heap = (\<lambda>li. BaseListener_new GuestListener None), m_BufList = (\<lambda>b. []), firing = None, current = None, fired = []\<rparr>"

theorem double_add_never_returns_witness:
  "\<exists>s1 s2. lm_add 0 (Some 1) empty_sal = Some s1 \<and> lm_add 0 (Some 1) s1 = Some s2 \<and> dispatch_loop (GuestEvent 0 0) 0 s2 = None"
proof -
  have inv: "lm_inv empty_sal" by (simp add: empty_sal_def lm_inv_def placed_def indexed_def typed_def BaseListener_new_def)
  obtain s1 where s1: "lm_add 0 (Some 1) empty_sal = Some s1"
    by (simp add: lm_add_def Let_def empty_sal_def BaseListener_new_def)
  then obtain s2 where s2: "lm_add 0 (Some 1) s1 = Some s2"
    by (auto simp: lm_add_def Let_def empty_sal_def BaseListener_new_def set_listener_def split: if_splits)
  have "dispatch_loop (GuestEvent 0 0) 0 s2 = None \<and> (\<forall>n. loop_steps n (GuestEvent 0 0) 0 s2 \<noteq> None)"
    by (rule double_add_never_returns [OF inv _ _ _ _ s1 s2]) (simp_all add: empty_sal_def BaseListener_new_def)
  with s1 s2 show ?thesis by blast
qed

end
