(* ===== verification/Sim_Controller.thy ===== *)
theory Sim_Controller
  imports Sal_Dispatch
begin

text \<open>
  The simulator controller of \<^verbatim>\<open>src/core/sal/SimulatorController.cc\<close> with the coroutines of
  \<^verbatim>\<open>src/core/efw/CoroutineManager.cc\<close>: the simulator and the experiment flows take turns, flows add and
  remove listeners, events make listeners fire. The runs of the whole are a step relation.
\<close>

section \<open>Coroutines\<close>

text \<open>
  A flow stands for its coroutine handle as well, \<open>None\<close> for the coroutine of the simulator. The running
  coroutine is the field \<open>current\<close> of the listener manager's state.
\<close>

record controller =
  m_LstList :: sal
  m_Flows :: "flow set"
  m_togglerstack :: "flow option list"

definition co_current :: "controller \<Rightarrow> flow option" where
  "co_current c = current (m_LstList c)"

text \<open>\<open>co_call\<close>; calling a coroutine that has been deleted is undefined.\<close>

definition co_call :: "flow option \<Rightarrow> controller \<Rightarrow> controller option" where
  "co_call t c =
     (case t of
        Some f \<Rightarrow> if f \<in> m_Flows c then Some (c\<lparr>m_LstList := (m_LstList c)\<lparr>current := t\<rparr>\<rparr>) else None
      | None \<Rightarrow> Some (c\<lparr>m_LstList := (m_LstList c)\<lparr>current := t\<rparr>\<rparr>))"

definition toggle :: "flow option \<Rightarrow> controller \<Rightarrow> controller option" where
  "toggle flw c =
     (if co_current c = None \<and> flw = None then None
      else co_call flw (c\<lparr>m_togglerstack := co_current c # m_togglerstack c\<rparr>))"

definition create :: "flow \<Rightarrow> controller \<Rightarrow> controller" where
  "create f c = c\<lparr>m_Flows := insert f (m_Flows c)\<rparr>"

text \<open>
  \<open>exit_to\<close> stands for the coroutine library: the coroutine that runs after \<open>co_exit\<close> of a flow.
\<close>

definition co_remove :: "(flow \<Rightarrow> controller \<Rightarrow> flow option) \<Rightarrow> flow \<Rightarrow> controller \<Rightarrow> controller option" where
  "co_remove exit_to f c =
     (if f \<notin> m_Flows c then Some c
      else let c' = c\<lparr>m_Flows := m_Flows c - {f}\<rparr>
           in if co_current c' = Some f then co_call (exit_to f c') c' else Some c')"

definition co_resume :: "controller \<Rightarrow> controller option" where
  "co_resume c =
     (case m_togglerstack c of
        [] \<Rightarrow> None
      | t # ts \<Rightarrow> co_call t (c\<lparr>m_togglerstack := ts\<rparr>))"

definition getCurrent :: "controller \<Rightarrow> flow option" where
  "getCurrent c = (case co_current c of None \<Rightarrow> None | Some f \<Rightarrow> if f \<in> m_Flows c then Some f else None)"

section \<open>The controller's operations\<close>

text \<open>
  With fast breakpoints and watchpoints the listener's class selects the overload of \<open>add\<close>.
  \<open>onAddition\<close> is the listener's handler.
\<close>

definition add_overload :: "bool \<Rightarrow> listener \<Rightarrow> flow option \<Rightarrow> sal \<Rightarrow> sal option" where
  "add_overload fast li pFlow st =
     (case (if fast then home_class (m_Class (heap st li)) else None) of
        None \<Rightarrow> lm_add li pFlow st
      | Some b \<Rightarrow> Some (lm_add_fast b li pFlow st))"

definition addListener :: "(listener \<Rightarrow> bool) \<Rightarrow> bool \<Rightarrow> listener \<Rightarrow> controller \<Rightarrow> (bool \<times> controller) option" where
  "addListener onAddition fast li c =
     (let st = m_LstList c;
          pFlow = (case getCurrent c of None \<Rightarrow> m_Parent (heap st li) | Some f \<Rightarrow> Some f)
      in case add_overload fast li pFlow st of
           None \<Rightarrow> None
         | Some st1 \<Rightarrow>
             if \<not> onAddition li
             then map_option (\<lambda>st2. (False, c\<lparr>m_LstList := st2\<rparr>)) (lm_remove (Some li) st1)
             else Some (True, c\<lparr>m_LstList := st1\<rparr>))"

definition removeListener :: "listener option \<Rightarrow> controller \<Rightarrow> controller option" where
  "removeListener li c = map_option (\<lambda>st. c\<lparr>m_LstList := st\<rparr>) (lm_remove li (m_LstList c))"

definition clearListeners :: "flow option \<Rightarrow> controller \<Rightarrow> controller option" where
  "clearListeners flw c = map_option (\<lambda>st. c\<lparr>m_LstList := st\<rparr>) (remove_flow flw (m_LstList c))"

definition addFlow :: "flow \<Rightarrow> controller \<Rightarrow> controller option" where
  "addFlow f c = toggle (Some f) (create f c)"

definition removeFlow :: "(flow \<Rightarrow> controller \<Rightarrow> flow option) \<Rightarrow> flow \<Rightarrow> controller \<Rightarrow> controller option" where
  "removeFlow exit_to f c = Option.bind (clearListeners (Some f) c) (co_remove exit_to f)"

text \<open>The end of \<open>run\<close>: \<open>coroutine_entry\<close> clears the flow's listeners, \<open>m_invoke\<close> removes the flow.\<close>

definition flow_end :: "(flow \<Rightarrow> controller \<Rightarrow> flow option) \<Rightarrow> flow \<Rightarrow> controller \<Rightarrow> controller option" where
  "flow_end exit_to f c = Option.bind (clearListeners (Some f) c) (removeFlow exit_to f)"

text \<open>One iteration of \<open>triggerActiveListeners\<close>, up to and including the toggle of \<open>onTrigger\<close>.\<close>

definition trigger_listener :: "controller \<Rightarrow> controller option" where
  "trigger_listener c =
     (case firing (m_LstList c) of
        None \<Rightarrow> None
      | Some ls \<Rightarrow>
          Option.bind (trigger_next ls (m_LstList c))
            (\<lambda>st. if firing st = None then Some (c\<lparr>m_LstList := st\<rparr>)
                  else toggle (current st) (c\<lparr>m_LstList := st\<lparr>current := None\<rparr>\<rparr>)))"

definition setListenerCounter :: "listener \<Rightarrow> u32 \<Rightarrow> controller \<Rightarrow> controller" where
  "setListenerCounter li n c = c\<lparr>m_LstList := set_listener li (setCounter n) (m_LstList c)\<rparr>"

section \<open>Steps\<close>

datatype label = is_Event: Event event | Trigger | AddFlow flow | AddListener listener | RemoveListener "listener option"
  | ClearListeners "flow option" | RemoveFlow flow | SetCounter listener u32 | Resume | FlowEnd

text \<open>
  The simulator delivers events and iterates over the fire list; everything else is called by the
  running flow. A flow does not add a listener that is in the buffer list.
\<close>

inductive sal_step ::
  "(listener \<Rightarrow> bool) \<Rightarrow> (flow \<Rightarrow> controller \<Rightarrow> flow option) \<Rightarrow> bool \<Rightarrow> label \<Rightarrow> controller \<Rightarrow> controller \<Rightarrow> bool"
  for onAddition exit_to fast where
  step_event: "co_current c = None \<Longrightarrow> firing (m_LstList c) = None \<Longrightarrow> do_event fast ev (m_LstList c) = Some st \<Longrightarrow>
    sal_step onAddition exit_to fast (Event ev) c (c\<lparr>m_LstList := st\<rparr>)"
| step_trigger: "co_current c = None \<Longrightarrow> trigger_listener c = Some c' \<Longrightarrow> sal_step onAddition exit_to fast Trigger c c'"
| step_addFlow: "co_current c \<noteq> None \<or> firing (m_LstList c) = None \<Longrightarrow> addFlow f c = Some c' \<Longrightarrow>
    sal_step onAddition exit_to fast (AddFlow f) c c'"
| step_add: "co_current c \<noteq> None \<Longrightarrow> m_Loc (heap (m_LstList c) li) = None \<Longrightarrow>
    addListener onAddition fast li c = Some (res, c') \<Longrightarrow> sal_step onAddition exit_to fast (AddListener li) c c'"
| step_remove: "co_current c \<noteq> None \<Longrightarrow> removeListener li c = Some c' \<Longrightarrow>
    sal_step onAddition exit_to fast (RemoveListener li) c c'"
| step_clear: "co_current c \<noteq> None \<Longrightarrow> clearListeners flw c = Some c' \<Longrightarrow>
    sal_step onAddition exit_to fast (ClearListeners flw) c c'"
| step_removeFlow: "co_current c \<noteq> None \<Longrightarrow> removeFlow exit_to f c = Some c' \<Longrightarrow>
    sal_step onAddition exit_to fast (RemoveFlow f) c c'"
| step_counter: "co_current c \<noteq> None \<Longrightarrow> sal_step onAddition exit_to fast (SetCounter li n) c (setListenerCounter li n c)"
| step_resume: "co_current c \<noteq> None \<Longrightarrow> co_resume c = Some c' \<Longrightarrow> sal_step onAddition exit_to fast Resume c c'"
| step_end: "co_current c = Some f \<Longrightarrow> flow_end exit_to f c = Some c' \<Longrightarrow> sal_step onAddition exit_to fast FlowEnd c c'"

inductive sal_run ::
  "(listener \<Rightarrow> bool) \<Rightarrow> (flow \<Rightarrow> controller \<Rightarrow> flow option) \<Rightarrow> bool \<Rightarrow> label list \<Rightarrow> controller \<Rightarrow> controller \<Rightarrow> bool"
  for onAddition exit_to fast where
  run_nil: "sal_run onAddition exit_to fast [] c c"
| run_step: "sal_step onAddition exit_to fast l c c' \<Longrightarrow> sal_run onAddition exit_to fast ls c' c'' \<Longrightarrow>
    sal_run onAddition exit_to fast (l # ls) c c''"

definition sal_init :: "(listener \<Rightarrow> BaseListener) \<Rightarrow> controller" where
  "sal_init h = \<lparr>m_LstList = \<lparr>m_BufferList = [], m_FireList = [], m_DeleteList = [], m_pFired = None,
     heap = (\<lambda>li. (h li)\<lparr>m_Loc := None, m_Home := None\<rparr>), m_BufList = (\<lambda>b. []), firing = None, current = None, fired = []\<rparr>,
     m_Flows = {}, m_togglerstack = []\<rparr>"

section \<open>The invariant of the fire round\<close>

definition round_inv :: "bool \<Rightarrow> sal \<Rightarrow> bool" where
  "round_inv fast st \<longleftrightarrow> lm_inv st \<and> build fast st \<and> set (m_DeleteList st) \<subseteq> set (m_FireList st) \<and>
     (case firing st of None \<Rightarrow> m_FireList st = [] | Some ls \<Rightarrow> set ls \<subseteq> set (m_FireList st))"

text \<open>A listener that cannot fire any more unless it is added again.\<close>

definition quiet :: "listener \<Rightarrow> sal \<Rightarrow> bool" where
  "quiet li st \<longleftrightarrow> li \<notin> set (m_BufferList st) \<and> (\<forall>ls. firing st = Some ls \<longrightarrow> li \<in> set ls \<longrightarrow> li \<in> set (m_DeleteList st))"

text \<open>What the removals have in common.\<close>

definition shrunk :: "bool \<Rightarrow> sal \<Rightarrow> sal \<Rightarrow> bool" where
  "shrunk fast st st' \<longleftrightarrow> round_inv fast st' \<and> set (m_BufferList st') \<subseteq> set (m_BufferList st) \<and>
     set (m_DeleteList st) \<subseteq> set (m_DeleteList st') \<and> m_FireList st' = m_FireList st \<and> firing st' = firing st \<and>
     current st' = current st \<and> fired st' = fired st \<and> (\<forall>q. unplaced (heap st' q) = unplaced (heap st q))"

lemma quiet_shrunk: "shrunk fast st st' \<Longrightarrow> quiet li st \<Longrightarrow> quiet li st'"
  by (auto simp: shrunk_def quiet_def)

lemma shrunk_trans: "shrunk fast a b \<Longrightarrow> shrunk fast b c \<Longrightarrow> shrunk fast a c"
  by (auto simp: shrunk_def)

lemma build_subset:
  assumes "build fast st" and "set (m_BufferList st') \<subseteq> set (m_BufferList st)"
    and "\<forall>q. unplaced (heap st' q) = unplaced (heap st q)"
    and "\<forall>q \<in> set (m_BufferList st'). m_Home (heap st' q) = m_Home (heap st q)"
  shows "build fast st'"
proof -
  have "m_Class (heap st' q) = m_Class (heap st q)" for q using assms(3) by (simp add: unplaced_eq_iff)
  with assms show ?thesis by (auto simp: build_def)
qed

lemma build_lists [simp]:
  "build fast (st\<lparr>m_FireList := fl\<rparr>) = build fast st" "build fast (st\<lparr>m_DeleteList := dl\<rparr>) = build fast st"
  "build fast (st\<lparr>m_pFired := p\<rparr>) = build fast st" "build fast (st\<lparr>firing := fr\<rparr>) = build fast st"
  "build fast (st\<lparr>current := co\<rparr>) = build fast st" "build fast (st\<lparr>fired := fd\<rparr>) = build fast st"
  by (simp_all add: build_def)

lemma remove_listener_shrunk:
  assumes "round_inv fast st"
  shows "\<exists>st'. remove_listener li st = Some st' \<and> shrunk fast st st' \<and> quiet li st'"
proof -
  have inv: "lm_inv st" using assms by (simp add: round_inv_def)
  obtain s where s: "remove_listener li st = Some s" "lm_inv s" "set (m_BufferList s) = set (m_BufferList st) - {li}"
      "\<forall>q. unplaced (heap s q) = unplaced (heap st q)" "\<forall>q. q \<noteq> li \<longrightarrow> m_Home (heap s q) = m_Home (heap st q)"
      "m_FireList s = m_FireList st" "firing s = firing st" "fired s = fired st" "current s = current st"
      "set (m_DeleteList s) = set (m_DeleteList st) \<union> ({li} \<inter> set (m_FireList st))"
    using remove_listener_inv [OF inv, of li] by blast
  have "build fast s" by (rule build_subset [of _ st]) (use assms s in \<open>auto simp: round_inv_def\<close>)
  then have "shrunk fast st s" using assms s by (auto simp: shrunk_def round_inv_def split: option.splits)
  moreover have "quiet li s" using assms s by (auto simp: quiet_def round_inv_def split: option.splits)
  ultimately show ?thesis using s(1) by blast
qed

lemma remove_loop_shrunk:
  assumes "round_inv fast st"
  shows "\<exists>st'. remove_loop flw 0 st = Some st' \<and> shrunk fast st st' \<and>
    set (m_BufferList st') = {li \<in> set (m_BufferList st). m_Parent (heap st li) \<noteq> flw}"
proof -
  have inv: "lm_inv st" using assms by (simp add: round_inv_def)
  obtain s where s: "remove_loop flw 0 st = Some s" "lm_inv s" "same_round st s"
      "\<forall>q. unplaced (heap s q) = unplaced (heap st q)" "\<forall>q \<in> set (m_BufferList s). m_Home (heap s q) = m_Home (heap st q)"
      "mset (m_BufferList s) = {#li \<in># mset (m_BufferList st). m_Parent (heap st li) \<noteq> flw#}"
    using remove_loop_inv [OF inv, of 0 flw] by auto
  have set: "set (m_BufferList s) = {li \<in> set (m_BufferList st). m_Parent (heap st li) \<noteq> flw}"
    using arg_cong [OF s(6), of set_mset] by simp
  have "build fast s" by (rule build_subset [of _ st]) (use assms s set in \<open>auto simp: round_inv_def\<close>)
  then have "shrunk fast st s" using assms s set by (auto simp: shrunk_def round_inv_def same_round_def split: option.splits)
  with s(1) set show ?thesis by blast
qed

lemma deleted_shrunk:
  assumes "shrunk fast st s" and "set (m_DeleteList s) \<subseteq> set dl" and "set dl \<subseteq> set (m_FireList s)"
  shows "shrunk fast st (s\<lparr>m_DeleteList := dl\<rparr>)"
  using assms by (auto simp: shrunk_def round_inv_def split: option.splits)

lemma remove_current_shrunk:
  assumes "round_inv fast st"
  shows "\<exists>st'. remove_current st = Some st' \<and> shrunk fast st st'"
proof -
  obtain s where s: "remove_loop (current st) 0 st = Some s" "shrunk fast st s" using remove_loop_shrunk [OF assms] by blast
  have "set (m_DeleteList s) \<subseteq> set (m_FireList s)" using s(2) unfolding shrunk_def round_inv_def by blast
  then have "shrunk fast st (s\<lparr>m_DeleteList := m_DeleteList s @ m_FireList s\<rparr>)" by (intro deleted_shrunk [OF s(2)]) auto
  with s(1) show ?thesis by (simp add: remove_current_def)
qed

lemma clear_all_shrunk:
  assumes "round_inv fast st"
  shows "shrunk fast st (clear_all st)"
proof -
  have "lm_inv st" using assms by (simp add: round_inv_def)
  from clear_all_inv [OF this] have inv: "lm_inv (clear_all st)" "m_BufferList (clear_all st) = []" by auto
  moreover have "build fast (clear_all st)" using inv(2) by (simp add: build_def)
  ultimately show ?thesis using assms
    by (auto simp: shrunk_def round_inv_def clear_all_def Let_def unplaced_def split: option.splits)
qed

lemma remove_flow_shrunk:
  assumes "round_inv fast st"
  shows "\<exists>st'. remove_flow flw st = Some st' \<and> shrunk fast st st'"
proof -
  obtain s where s: "(if flw = None then Some (clear_all st) else remove_loop flw 0 st) = Some s" "shrunk fast st s"
    using remove_loop_shrunk [OF assms] clear_all_shrunk [OF assms] by (cases "flw = None") auto
  obtain dl where dl: "delete_firing flw (m_FireList s) s = s\<lparr>m_DeleteList := dl\<rparr>"
      "set dl = set (m_DeleteList s) \<union> {li \<in> set (m_FireList s). flw = None \<or> m_Parent (heap s li) = flw}"
    using delete_firing_spec by blast
  have "set (m_DeleteList s) \<subseteq> set (m_FireList s)" using s(2) unfolding shrunk_def round_inv_def by blast
  then have "shrunk fast st (s\<lparr>m_DeleteList := dl\<rparr>)" by (intro deleted_shrunk [OF s(2)]) (auto simp: dl(2))
  with s(1) dl(1) show ?thesis by (simp add: remove_flow_def)
qed

lemma lm_remove_shrunk: "round_inv fast st \<Longrightarrow> \<exists>st'. lm_remove li st = Some st' \<and> shrunk fast st st'"
  using remove_listener_shrunk remove_current_shrunk by (cases li) (fastforce simp: lm_remove_def)+

section \<open>Steps keep the invariant\<close>

lemma round_inv_lists [simp]:
  "round_inv fast (st\<lparr>current := co\<rparr>) = round_inv fast st" "round_inv fast (st\<lparr>m_pFired := p\<rparr>) = round_inv fast st"
  "round_inv fast (st\<lparr>fired := fd\<rparr>) = round_inv fast st"
  by (simp_all add: round_inv_def split: option.split)

lemma quiet_lists [simp]:
  "quiet li (st\<lparr>current := co\<rparr>) = quiet li st" "quiet li (st\<lparr>m_pFired := p\<rparr>) = quiet li st"
  "quiet li (st\<lparr>fired := fd\<rparr>) = quiet li st"
  by (simp_all add: quiet_def)

text \<open>A change that adds at most the listener \<open>new\<close> and lets no quiet listener fire.\<close>

definition calm :: "bool \<Rightarrow> listener option \<Rightarrow> sal \<Rightarrow> sal \<Rightarrow> bool" where
  "calm fast new st st' \<longleftrightarrow> round_inv fast st' \<and>
     (\<forall>li. new \<noteq> Some li \<longrightarrow> quiet li st \<longrightarrow> quiet li st' \<and> count_list (fired st') li = count_list (fired st) li)"

lemma calm_shrunk: "shrunk fast st st' \<Longrightarrow> calm fast new st st'"
  by (auto simp: calm_def quiet_shrunk) (auto simp: shrunk_def)

lemma calm_current [simp]:
  "calm fast new st (st'\<lparr>current := co\<rparr>) = calm fast new st st'" "calm fast new (st\<lparr>current := co\<rparr>) st' = calm fast new st st'"
  by (simp_all add: calm_def)

lemma calm_refl: "round_inv fast st \<Longrightarrow> calm fast new st st"
  by (simp add: calm_def)

lemma calm_trans: "calm fast new a b \<Longrightarrow> calm fast new b c \<Longrightarrow> calm fast new a c"
  by (simp add: calm_def)

lemma do_event_calm:
  assumes inv: "round_inv fast st" and idle: "firing st = None" and step: "do_event fast ev st = Some st'"
  shows "calm fast new st st'"
proof -
  have lists: "m_FireList st = []" "m_DeleteList st = []" using inv idle by (auto simp: round_inv_def)
  obtain s where s: "st' = trigger_start s" "build fast s" "moved (struck ev) (hits ev st (mset (m_BufferList st))) st s"
    using do_event_ok [of st fast ev] inv step by (auto simp: round_inv_def)
  let ?E = "{#li \<in># hits ev st (mset (m_BufferList st)). last_count st li#}"
  have m: "lm_inv s" "mset (m_FireList s) = ?E" "mset (m_BufferList s) + ?E = mset (m_BufferList st)"
      "m_DeleteList s = []" "fired s = fired st"
    using s(3) lists by (auto simp: moved_def same_round_def)
  have fire: "set (m_FireList s) = set_mset ?E" using arg_cong [OF m(2), of set_mset] by simp
  have buf: "set (m_BufferList s) \<subseteq> set (m_BufferList st)" using arg_cong [OF m(3), of set_mset] by auto
  have "round_inv fast st'" using s m by (simp add: round_inv_def trigger_start_def)
  moreover have "quiet li st'" if "quiet li st" for li
    using that buf fire by (auto simp: quiet_def s(1) trigger_start_def hits_def)
  ultimately show ?thesis by (simp add: calm_def s(1) m(5) trigger_start_def)
qed

lemma trigger_next_cases:
  assumes "trigger_next ls st = Some st'"
  obtains (ends) "set ls \<subseteq> set (m_DeleteList st)" "st' = st\<lparr>m_FireList := [], m_DeleteList := [], firing := None\<rparr>"
  | (fires) pre li post where "ls = pre @ li # post" "set pre \<subseteq> set (m_DeleteList st)" "li \<notin> set (m_DeleteList st)"
      "m_Parent (heap st li) \<noteq> None"
      "st' = st\<lparr>m_pFired := Some li, firing := Some post, current := m_Parent (heap st li), fired := fired st @ [li]\<rparr>"
  using assms
proof (induction ls arbitrary: thesis)
  case (Cons a ls)
  show ?case
  proof (cases "a \<in> set (m_DeleteList st)")
    case True
    then have step: "trigger_next ls st = Some st'" using Cons.prems(3) by simp
    show ?thesis
    proof (rule Cons.IH [OF _ _ step])
      show thesis if "set ls \<subseteq> set (m_DeleteList st)" "st' = st\<lparr>m_FireList := [], m_DeleteList := [], firing := None\<rparr>"
        using Cons.prems(1) True that by simp
      show thesis if "ls = pre @ li # post" "set pre \<subseteq> set (m_DeleteList st)" "li \<notin> set (m_DeleteList st)"
          "m_Parent (heap st li) \<noteq> None"
          "st' = st\<lparr>m_pFired := Some li, firing := Some post, current := m_Parent (heap st li), fired := fired st @ [li]\<rparr>"
        for pre li post
        using Cons.prems(2) [of "a # pre" li post] True that by simp
    qed
  next
    case False
    then show ?thesis using Cons.prems(2) [of "[]" a ls] Cons.prems(3) by (simp split: if_splits)
  qed
qed simp

lemma trigger_next_calm:
  assumes inv: "round_inv fast st" and fr: "firing st = Some ls" and step: "trigger_next ls st = Some st'"
  shows "calm fast new st st'"
  using step
proof (cases rule: trigger_next_cases)
  case ends
  with inv show ?thesis by (simp add: calm_def round_inv_def quiet_def)
next
  case (fires pre li post)
  have "round_inv fast st'" using inv fr fires by (simp add: round_inv_def)
  moreover have "quiet q st' \<and> count_list (fired st') q = count_list (fired st) q" if "quiet q st" for q
    using that fr fires by (auto simp: quiet_def)
  ultimately show ?thesis by (simp add: calm_def)
qed

lemma add_overload_calm:
  assumes inv: "round_inv fast st" and new: "m_Loc (heap st li) = None" and step: "add_overload fast li flw st = Some st'"
  shows "calm fast (Some li) st st'"
proof -
  have lm: "lm_inv st" using inv by (simp add: round_inv_def)
  have "\<exists>l. lm_inv st' \<and> m_BufferList st' = m_BufferList st @ [li] \<and> same_round st st' \<and> heap st' = (heap st)(li := (heap st li)
      \<lparr>m_Parent := flw, m_Home := if fast then home_class (m_Class (heap st li)) else None, m_Loc := l\<rparr>)"
  proof (cases "if fast then home_class (m_Class (heap st li)) else None")
    case None
    then have "lm_add li flw st = Some st'" using step by (simp add: add_overload_def)
    moreover from this have "m_OccCounter (heap st li) \<noteq> 0" by (auto simp: lm_add_def)
    ultimately show ?thesis using lm_add_inv [OF lm new, of flw] None by auto
  next
    case (Some b)
    then have "st' = lm_add_fast b li flw st" "home_class (m_Class (heap st li)) = Some b" "fast"
      using step by (auto simp: add_overload_def split: if_splits)
    with lm_add_fast_inv [OF lm new, of b flw] show ?thesis
      by (cases "heap st li") (simp add: exI [of _ "Some (length (m_BufferList st))"])
  qed
  then obtain l where s: "lm_inv st'" "m_BufferList st' = m_BufferList st @ [li]" "same_round st st'"
      "heap st' = (heap st)(li := (heap st li)\<lparr>m_Parent := flw, m_Home := if fast then home_class (m_Class (heap st li)) else None, m_Loc := l\<rparr>)"
    by blast
  then have "round_inv fast st'" using inv by (auto simp: round_inv_def build_def same_round_def split: option.splits)
  then show ?thesis using s by (auto simp: calm_def quiet_def same_round_def)
qed

text \<open>The invariant of the controller: the flow that runs has a coroutine.\<close>

definition ctl_inv :: "bool \<Rightarrow> controller \<Rightarrow> bool" where
  "ctl_inv fast c \<longleftrightarrow> round_inv fast (m_LstList c) \<and> (\<forall>f. co_current c = Some f \<longrightarrow> f \<in> m_Flows c)"

lemma co_call_spec:
  assumes "co_call t c = Some c'"
  shows "c' = c\<lparr>m_LstList := (m_LstList c)\<lparr>current := t\<rparr>\<rparr>" and "\<forall>f. t = Some f \<longrightarrow> f \<in> m_Flows c"
  using assms by (auto simp: co_call_def split: option.splits if_splits)

lemma toggle_spec:
  assumes "toggle flw c = Some c'"
  shows "c' = c\<lparr>m_LstList := (m_LstList c)\<lparr>current := flw\<rparr>, m_togglerstack := co_current c # m_togglerstack c\<rparr>"
    and "\<forall>f. flw = Some f \<longrightarrow> f \<in> m_Flows c"
proof -
  let ?c = "c\<lparr>m_togglerstack := co_current c # m_togglerstack c\<rparr>"
  have "co_call flw ?c = Some c'" using assms by (simp add: toggle_def split: if_splits)
  from co_call_spec [OF this]
  show "c' = c\<lparr>m_LstList := (m_LstList c)\<lparr>current := flw\<rparr>, m_togglerstack := co_current c # m_togglerstack c\<rparr>"
    and "\<forall>f. flw = Some f \<longrightarrow> f \<in> m_Flows c" by simp_all
qed

lemma co_remove_spec:
  assumes "co_remove exit_to f c = Some c'" and "\<forall>g. co_current c = Some g \<longrightarrow> g \<in> m_Flows c"
  shows "\<exists>t. m_LstList c' = (m_LstList c)\<lparr>current := t\<rparr> \<and> (\<forall>g. t = Some g \<longrightarrow> g \<in> m_Flows c') \<and> m_togglerstack c' = m_togglerstack c"
proof (cases "f \<in> m_Flows c \<and> co_current c = Some f")
  case True
  let ?d = "c\<lparr>m_Flows := m_Flows c - {f}\<rparr>"
  have "\<exists>t. co_call t ?d = Some c'" using True assms(1) by (auto simp: co_remove_def Let_def co_current_def)
  then obtain t where t: "co_call t ?d = Some c'" by blast
  have "m_LstList c' = (m_LstList c)\<lparr>current := t\<rparr>" "m_togglerstack c' = m_togglerstack c" "m_Flows c' = m_Flows c - {f}"
    by (simp_all add: co_call_spec(1) [OF t])
  with co_call_spec(2) [OF t] show ?thesis by (intro exI [of _ t]) simp
next
  case False
  then have "m_LstList c' = m_LstList c" "m_togglerstack c' = m_togglerstack c"
      "\<forall>g. co_current c = Some g \<longrightarrow> g \<in> m_Flows c'"
    using assms by (auto simp: co_remove_def Let_def co_current_def split: if_splits)
  then show ?thesis by (intro exI [of _ "current (m_LstList c)"]) (simp add: co_current_def)
qed

definition added :: "label \<Rightarrow> listener option" where
  "added l = (case l of AddListener li \<Rightarrow> Some li | _ \<Rightarrow> None)"

lemma ctl_inv_current:
  assumes "calm fast new (m_LstList c) st" and "m_LstList c' = st\<lparr>current := t\<rparr>" and "\<forall>g. t = Some g \<longrightarrow> g \<in> m_Flows c'"
  shows "ctl_inv fast c' \<and> calm fast new (m_LstList c) (m_LstList c')"
  using assms by (simp add: ctl_inv_def co_current_def calm_def)

lemma switch_calm:
  assumes "ctl_inv fast c" and "m_LstList c' = (m_LstList c)\<lparr>current := t\<rparr>" and "\<forall>g. t = Some g \<longrightarrow> g \<in> m_Flows c'"
  shows "ctl_inv fast c' \<and> calm fast new (m_LstList c) (m_LstList c')"
  by (rule ctl_inv_current [OF calm_refl assms(2,3)]) (use assms(1) in \<open>simp add: ctl_inv_def\<close>)

lemma removals_calm:
  assumes "ctl_inv fast c" and "f (m_LstList c) = Some st" and "\<exists>st'. f (m_LstList c) = Some st' \<and> shrunk fast (m_LstList c) st'"
  shows "ctl_inv fast (c\<lparr>m_LstList := st\<rparr>) \<and> calm fast new (m_LstList c) st"
  using assms by (auto simp: ctl_inv_def co_current_def calm_shrunk) (auto simp: shrunk_def)

lemma clearListeners_calm:
  assumes "ctl_inv fast c" and "clearListeners flw c = Some c'"
  shows "ctl_inv fast c' \<and> calm fast new (m_LstList c) (m_LstList c')"
proof -
  have r: "round_inv fast (m_LstList c)" using assms(1) by (simp add: ctl_inv_def)
  obtain st where st: "remove_flow flw (m_LstList c) = Some st" "c' = c\<lparr>m_LstList := st\<rparr>" using assms(2) by (auto simp: clearListeners_def)
  show ?thesis using removals_calm [where f = "remove_flow flw", OF assms(1) st(1) remove_flow_shrunk [OF r]] st(2) by simp
qed

lemma removeFlow_calm:
  assumes "ctl_inv fast c" and "removeFlow exit_to f c = Some c'"
  shows "ctl_inv fast c' \<and> calm fast new (m_LstList c) (m_LstList c')"
proof -
  obtain d where d: "clearListeners (Some f) c = Some d" "co_remove exit_to f d = Some c'"
    using assms(2) by (auto simp: removeFlow_def bind_eq_Some_conv)
  have inv: "ctl_inv fast d" "calm fast new (m_LstList c) (m_LstList d)" using clearListeners_calm [OF assms(1) d(1)] by auto
  obtain t where "m_LstList c' = (m_LstList d)\<lparr>current := t\<rparr>" "\<forall>g. t = Some g \<longrightarrow> g \<in> m_Flows c'"
    using co_remove_spec [OF d(2)] inv(1) by (auto simp: ctl_inv_def)
  then show ?thesis by (rule ctl_inv_current [OF inv(2)])
qed

lemma addListener_calm:
  assumes "ctl_inv fast c" and "m_Loc (heap (m_LstList c) li) = None" and "addListener onAddition fast li c = Some (res, c')"
  shows "ctl_inv fast c' \<and> calm fast (Some li) (m_LstList c) (m_LstList c')"
proof -
  have r: "round_inv fast (m_LstList c)" using assms(1) by (simp add: ctl_inv_def)
  define flw where "flw = (case getCurrent c of None \<Rightarrow> m_Parent (heap (m_LstList c) li) | Some f \<Rightarrow> Some f)"
  obtain s where s: "add_overload fast li flw (m_LstList c) = Some s"
      "if onAddition li then c' = c\<lparr>m_LstList := s\<rparr> else \<exists>s2. lm_remove (Some li) s = Some s2 \<and> c' = c\<lparr>m_LstList := s2\<rparr>"
    using assms(3) by (auto simp: addListener_def Let_def flw_def [symmetric] split: option.splits if_splits)
  have calm: "calm fast (Some li) (m_LstList c) s" by (rule add_overload_calm [OF r assms(2) s(1)])
  then have r': "round_inv fast s" by (simp add: calm_def)
  have cur: "current s = current (m_LstList c)"
    using s(1) by (auto simp: add_overload_def lm_add_def lm_add_fast_def Let_def set_listener_def perf_add_def split: option.splits if_splits)
  have "\<exists>s2. c' = c\<lparr>m_LstList := s2\<rparr> \<and> calm fast (Some li) s s2 \<and> current s2 = current s"
  proof (cases "onAddition li")
    case True
    then show ?thesis using s(2) calm_refl [OF r'] by auto
  next
    case False
    obtain s2 where "lm_remove (Some li) s = Some s2" "shrunk fast s s2" using lm_remove_shrunk [OF r'] by blast
    moreover from this(2) have "calm fast (Some li) s s2" "current s2 = current s" by (auto intro: calm_shrunk simp: shrunk_def)
    ultimately show ?thesis using False s(2) by auto
  qed
  then obtain s2 where s2: "c' = c\<lparr>m_LstList := s2\<rparr>" "calm fast (Some li) s s2" "current s2 = current s" by blast
  then have "calm fast (Some li) (m_LstList c) s2" using calm_trans [OF calm] by blast
  then show ?thesis using s2 cur assms(1) by (simp add: ctl_inv_def co_current_def calm_def)
qed

lemma trigger_listener_calm:
  assumes inv: "ctl_inv fast c" and idle: "co_current c = None" and step: "trigger_listener c = Some c'"
  shows "ctl_inv fast c' \<and> calm fast new (m_LstList c) (m_LstList c')"
proof -
  obtain ls st where st: "firing (m_LstList c) = Some ls" "trigger_next ls (m_LstList c) = Some st"
      "(if firing st = None then Some (c\<lparr>m_LstList := st\<rparr>) else toggle (current st) (c\<lparr>m_LstList := st\<lparr>current := None\<rparr>\<rparr>)) = Some c'"
    using step by (auto simp: trigger_listener_def bind_eq_Some_conv split: option.splits)
  have calm: "calm fast new (m_LstList c) st"
    using trigger_next_calm [OF _ st(1,2)] inv by (simp add: ctl_inv_def)
  show ?thesis
  proof (cases "firing st = None")
    case True
    then have "current st = current (m_LstList c)" "c' = c\<lparr>m_LstList := st\<rparr>"
      using st(2,3) by (auto elim: trigger_next_cases)
    with calm idle show ?thesis by (simp add: ctl_inv_def calm_def co_current_def)
  next
    case False
    let ?d = "c\<lparr>m_LstList := st\<lparr>current := None\<rparr>\<rparr>"
    have t: "toggle (current st) ?d = Some c'" using st(3) False by simp
    have "m_LstList c' = (st\<lparr>current := None\<rparr>)\<lparr>current := current st\<rparr>" "m_Flows c' = m_Flows c"
      by (simp_all add: toggle_spec(1) [OF t])
    moreover have "\<forall>f. current st = Some f \<longrightarrow> f \<in> m_Flows c" using toggle_spec(2) [OF t] by simp
    ultimately show ?thesis using ctl_inv_current [of fast new c "st\<lparr>current := None\<rparr>" c' "current st"] calm by simp
  qed
qed

lemma sal_step_calm:
  assumes "sal_step onAddition exit_to fast l c c'" and "ctl_inv fast c"
  shows "ctl_inv fast c' \<and> calm fast (added l) (m_LstList c) (m_LstList c')"
  using assms
proof (cases rule: sal_step.cases)
  case (step_event ev st)
  then have "calm fast (added l) (m_LstList c) st" using do_event_calm assms(2) by (simp add: ctl_inv_def)
  moreover have "current st = current (m_LstList c)"
    using do_event_ok [of "m_LstList c" fast ev] assms(2) step_event
    by (auto simp: ctl_inv_def round_inv_def moved_def same_round_def trigger_start_def)
  ultimately show ?thesis using step_event assms(2) by (simp add: ctl_inv_def calm_def co_current_def)
next
  case step_trigger
  then show ?thesis using trigger_listener_calm assms(2) by blast
next
  case (step_addFlow f)
  then have t: "toggle (Some f) (create f c) = Some c'" by (simp add: addFlow_def)
  have "m_LstList c' = (m_LstList c)\<lparr>current := Some f\<rparr>" "f \<in> m_Flows c'"
    by (simp_all add: toggle_spec(1) [OF t] create_def)
  then show ?thesis by (intro switch_calm [OF assms(2)]) auto
next
  case (step_add li res)
  then show ?thesis using addListener_calm assms(2) by (simp add: added_def)
next
  case (step_remove li)
  then obtain st where st: "lm_remove li (m_LstList c) = Some st" "c' = c\<lparr>m_LstList := st\<rparr>" by (auto simp: removeListener_def)
  have "round_inv fast (m_LstList c)" using assms(2) by (simp add: ctl_inv_def)
  with removals_calm [where f = "lm_remove li", OF assms(2) st(1) lm_remove_shrunk] st(2) show ?thesis by simp
next
  case step_clear
  then show ?thesis using clearListeners_calm assms(2) by blast
next
  case step_removeFlow
  then show ?thesis using removeFlow_calm assms(2) by blast
next
  case (step_counter li n)
  have "lm_inv (m_LstList c')" using assms(2) step_counter(2)
    by (simp add: setListenerCounter_def lm_inv_set_listener setCounter_def ctl_inv_def round_inv_def)
  with assms(2) step_counter show ?thesis
    by (auto simp: setListenerCounter_def ctl_inv_def round_inv_def calm_def build_def quiet_def co_current_def set_listener_def setCounter_def split: option.splits)
next
  case step_resume
  then obtain t ts where t: "co_call t (c\<lparr>m_togglerstack := ts\<rparr>) = Some c'" by (auto simp: co_resume_def split: list.splits)
  have "m_LstList c' = (m_LstList c)\<lparr>current := t\<rparr>" "m_Flows c' = m_Flows c" by (simp_all add: co_call_spec(1) [OF t])
  then show ?thesis using co_call_spec(2) [OF t] by (intro switch_calm [OF assms(2)]) auto
next
  case (step_end f)
  then obtain d where d: "clearListeners (Some f) c = Some d" "removeFlow exit_to f d = Some c'"
    by (auto simp: flow_end_def bind_eq_Some_conv)
  with clearListeners_calm [OF assms(2) d(1)] removeFlow_calm [OF _ d(2)] show ?thesis by (blast intro: calm_trans)
qed

lemma sal_init_inv: "ctl_inv fast (sal_init h)"
  by (simp add: ctl_inv_def round_inv_def build_def co_current_def sal_init_def lm_inv_def placed_def indexed_def typed_def)

lemma sal_run_calm:
  assumes "sal_run onAddition exit_to fast ls c c'" and "ctl_inv fast c"
  shows "ctl_inv fast c' \<and> (\<forall>li. AddListener li \<notin> set ls \<longrightarrow> quiet li (m_LstList c) \<longrightarrow>
    quiet li (m_LstList c') \<and> count_list (fired (m_LstList c')) li = count_list (fired (m_LstList c)) li)"
  using assms
proof (induction rule: sal_run.induct)
  case (run_step l c c' ls c'')
  have step: "ctl_inv fast c'" "calm fast (added l) (m_LstList c) (m_LstList c')"
    using sal_step_calm [OF run_step(1,4)] by auto
  have "added l \<noteq> Some li" if "AddListener li \<notin> set (l # ls)" for li using that by (auto simp: added_def split: label.splits)
  with step(2) run_step(3) [OF step(1)] show ?case by (auto simp: calm_def)
qed simp

lemma sal_run_append:
  "sal_run onAddition exit_to fast ls c d \<Longrightarrow> sal_run onAddition exit_to fast ks d e \<Longrightarrow> sal_run onAddition exit_to fast (ls @ ks) c e"
  by (induction rule: sal_run.induct) (auto intro: run_step)

text \<open>The listeners a call takes out of the game.\<close>

definition silences :: "label \<Rightarrow> controller \<Rightarrow> listener \<Rightarrow> bool" where
  "silences l c li \<longleftrightarrow>
     (let parent = m_Parent (heap (m_LstList c) li)
      in case l of
           RemoveListener p \<Rightarrow> p = Some li \<or> p = None \<and> parent = co_current c
         | ClearListeners flw \<Rightarrow> flw = None \<or> parent = flw
         | RemoveFlow f \<Rightarrow> parent = Some f
         | FlowEnd \<Rightarrow> parent = co_current c
         | _ \<Rightarrow> False)"

lemma remove_flow_quiet:
  assumes inv: "round_inv fast st" and step: "remove_flow flw st = Some st'" and li: "flw = None \<or> m_Parent (heap st li) = flw"
  shows "quiet li st'"
proof -
  have buf: "\<exists>s. (if flw = None then Some (clear_all st) else remove_loop flw 0 st) = Some s \<and> shrunk fast st s \<and> li \<notin> set (m_BufferList s)"
    using remove_loop_shrunk [OF inv, of flw] clear_all_shrunk [OF inv] li by (auto simp: clear_all_def Let_def)
  then obtain s where s: "(if flw = None then Some (clear_all st) else remove_loop flw 0 st) = Some s"
      "shrunk fast st s" "li \<notin> set (m_BufferList s)" by blast
  obtain dl where dl: "delete_firing flw (m_FireList s) s = s\<lparr>m_DeleteList := dl\<rparr>"
      "set dl = set (m_DeleteList s) \<union> {li \<in> set (m_FireList s). flw = None \<or> m_Parent (heap s li) = flw}"
    using delete_firing_spec by blast
  have "m_Parent (heap s li) = m_Parent (heap st li)" using s(2) by (simp add: shrunk_def unplaced_eq_iff)
  then have fire: "li \<in> set (m_FireList s) \<Longrightarrow> li \<in> set dl" using li dl(2) by auto
  have "st' = s\<lparr>m_DeleteList := dl\<rparr>" using step s(1) dl(1) by (simp add: remove_flow_def)
  moreover have "\<forall>ls. firing s = Some ls \<longrightarrow> set ls \<subseteq> set (m_FireList s)"
    using s(2) unfolding shrunk_def round_inv_def by (auto split: option.splits)
  ultimately show ?thesis using s(3) fire by (auto simp: quiet_def)
qed

lemma remove_current_quiet:
  assumes inv: "round_inv fast st" and step: "remove_current st = Some st'"
  shows "m_Parent (heap st li) = current st \<Longrightarrow> quiet li st'" and "\<forall>ls. firing st' = Some ls \<longrightarrow> set ls \<subseteq> set (m_DeleteList st')"
proof -
  obtain s where s: "remove_loop (current st) 0 st = Some s" "shrunk fast st s"
      "set (m_BufferList s) = {li \<in> set (m_BufferList st). m_Parent (heap st li) \<noteq> current st}"
    using remove_loop_shrunk [OF inv] by blast
  have st': "st' = s\<lparr>m_DeleteList := m_DeleteList s @ m_FireList s\<rparr>" using step s(1) by (simp add: remove_current_def)
  have fire: "\<forall>ls. firing s = Some ls \<longrightarrow> set ls \<subseteq> set (m_FireList s)"
    using s(2) unfolding shrunk_def round_inv_def by (auto split: option.splits)
  then show "\<forall>ls. firing st' = Some ls \<longrightarrow> set ls \<subseteq> set (m_DeleteList st')" by (auto simp: st')
  show "quiet li st'" if "m_Parent (heap st li) = current st" using that fire s(3) by (auto simp: st' quiet_def)
qed

lemma clearListeners_quiet:
  assumes inv: "ctl_inv fast c" and step: "clearListeners flw c = Some d"
    and li: "flw = None \<or> m_Parent (heap (m_LstList c) li) = flw"
  shows "ctl_inv fast d \<and> quiet li (m_LstList d) \<and> fired (m_LstList d) = fired (m_LstList c)"
proof -
  have r: "round_inv fast (m_LstList c)" using inv by (simp add: ctl_inv_def)
  obtain st where st: "remove_flow flw (m_LstList c) = Some st" "d = c\<lparr>m_LstList := st\<rparr>" using step by (auto simp: clearListeners_def)
  then show ?thesis using remove_flow_quiet [OF r st(1) li] remove_flow_shrunk [OF r, of flw] clearListeners_calm [OF inv step]
    by (auto simp: shrunk_def)
qed

lemma removeFlow_keeps_quiet:
  assumes q: "quiet li (m_LstList c)" and step: "removeFlow exit_to f c = Some e" and inv: "ctl_inv fast c"
  shows "quiet li (m_LstList e) \<and> fired (m_LstList e) = fired (m_LstList c)"
proof -
  obtain d st where d: "remove_flow (Some f) (m_LstList c) = Some st" "d = c\<lparr>m_LstList := st\<rparr>" "co_remove exit_to f d = Some e"
    using step by (auto simp: removeFlow_def bind_eq_Some_conv clearListeners_def)
  have sh: "shrunk fast (m_LstList c) st"
    using remove_flow_shrunk [of fast "m_LstList c" "Some f"] inv d(1) by (auto simp: ctl_inv_def)
  then have "\<forall>g. co_current d = Some g \<longrightarrow> g \<in> m_Flows d"
    using inv by (auto simp: d(2) shrunk_def ctl_inv_def co_current_def)
  from co_remove_spec [OF d(3) this] have "quiet li (m_LstList e) = quiet li st" "fired (m_LstList e) = fired st"
    by (auto simp: d(2))
  then show ?thesis using quiet_shrunk [OF sh q] sh by (auto simp: shrunk_def)
qed

lemma removeListener_quiet:
  assumes inv: "ctl_inv fast c" and step: "removeListener p c = Some c'" and li: "silences (RemoveListener p) c li"
  shows "quiet li (m_LstList c') \<and> fired (m_LstList c') = fired (m_LstList c)"
proof -
  have r: "round_inv fast (m_LstList c)" using inv by (simp add: ctl_inv_def)
  obtain st where st: "lm_remove p (m_LstList c) = Some st" "c' = c\<lparr>m_LstList := st\<rparr>" using step by (auto simp: removeListener_def)
  have f: "fired st = fired (m_LstList c)" using lm_remove_shrunk [OF r, of p] st(1) by (auto simp: shrunk_def)
  have "quiet li st"
  proof (cases p)
    case None
    then show ?thesis using remove_current_quiet(1) [OF r, of st li] st(1) li
      by (simp add: silences_def co_current_def lm_remove_def)
  next
    case (Some q)
    then show ?thesis using remove_listener_shrunk [OF r, of li] st(1) li by (auto simp: silences_def lm_remove_def)
  qed
  with f st(2) show ?thesis by simp
qed

lemma silences_quiet:
  assumes step: "sal_step onAddition exit_to fast l c c'" and inv: "ctl_inv fast c" and li: "silences l c li"
  shows "quiet li (m_LstList c') \<and> fired (m_LstList c') = fired (m_LstList c)"
  using step
proof (cases rule: sal_step.cases)
  case (step_remove p)
  with removeListener_quiet [OF inv] li show ?thesis by simp
next
  case (step_clear flw)
  then show ?thesis using clearListeners_quiet [OF inv] li by (simp add: silences_def Let_def)
next
  case (step_removeFlow f)
  then obtain d where d: "clearListeners (Some f) c = Some d" "co_remove exit_to f d = Some c'"
    by (auto simp: removeFlow_def bind_eq_Some_conv)
  then show ?thesis using clearListeners_quiet [OF inv d(1)] co_remove_spec [OF d(2)] li step_removeFlow(1)
    by (auto simp: ctl_inv_def silences_def)
next
  case (step_end f)
  then obtain d where d: "clearListeners (Some f) c = Some d" "removeFlow exit_to f d = Some c'"
    by (auto simp: flow_end_def bind_eq_Some_conv)
  have "m_Parent (heap (m_LstList c) li) = Some f" using li step_end(1,2) by (simp add: silences_def)
  then have "ctl_inv fast d" "quiet li (m_LstList d)" "fired (m_LstList d) = fired (m_LstList c)"
    using clearListeners_quiet [OF inv d(1), of li] by auto
  with removeFlow_keeps_quiet [OF _ d(2), of li fast] show ?thesis by simp
qed (use li in \<open>simp_all add: silences_def\<close>)

section \<open>Experiments that only wait\<close>

text \<open>
  To state when a listener fires, the flows of an \<open>idle\<close> run resume at once: one trigger and one resume per
  listener of the fire list, and the trigger step that ends the round.
\<close>

fun idle_round :: "listener list \<Rightarrow> controller \<Rightarrow> controller option" where
  "idle_round [] c = trigger_listener c"
| "idle_round (li # ls) c = Option.bind (trigger_listener c) (\<lambda>c'. Option.bind (co_resume c') (idle_round ls))"

definition idle_event :: "bool \<Rightarrow> event \<Rightarrow> controller \<Rightarrow> controller option" where
  "idle_event fast ev c =
     Option.bind (do_event fast ev (m_LstList c)) (\<lambda>st. idle_round (m_FireList st) (c\<lparr>m_LstList := st\<rparr>))"

fun idle_events :: "bool \<Rightarrow> event list \<Rightarrow> controller \<Rightarrow> controller option" where
  "idle_events fast [] c = Some c"
| "idle_events fast (ev # evs) c = Option.bind (idle_event fast ev c) (idle_events fast evs)"

text \<open>The labels of an idle run.\<close>

definition round_labels :: "nat \<Rightarrow> label list" where
  "round_labels n = concat (replicate n [Trigger, Resume]) @ [Trigger]"

definition waiting :: "bool \<Rightarrow> controller \<Rightarrow> bool" where
  "waiting fast c \<longleftrightarrow> ctl_inv fast c \<and> co_current c = None \<and> firing (m_LstList c) = None \<and>
     (\<forall>li \<in> set (m_BufferList (m_LstList c)). \<exists>f \<in> m_Flows c. m_Parent (heap (m_LstList c) li) = Some f)"

lemma idle_round_ok:
  assumes "firing (m_LstList c) = Some ls" and "m_DeleteList (m_LstList c) = []" and "co_current c = None"
    and "\<forall>li \<in> set ls. \<exists>f \<in> m_Flows c. m_Parent (heap (m_LstList c) li) = Some f"
  shows "\<exists>p. idle_round ls c = Some (c\<lparr>m_LstList := (m_LstList c)
    \<lparr>m_FireList := [], m_DeleteList := [], m_pFired := p, firing := None, fired := fired (m_LstList c) @ ls\<rparr>\<rparr>) \<and>
    sal_run onAddition exit_to fast (round_labels (length ls)) c (the (idle_round ls c))"
  using assms
proof (induction ls arbitrary: c)
  case Nil
  have t: "trigger_listener c = Some (c\<lparr>m_LstList := (m_LstList c)
      \<lparr>m_FireList := [], m_DeleteList := [], m_pFired := m_pFired (m_LstList c), firing := None, fired := fired (m_LstList c) @ []\<rparr>\<rparr>)"
    using Nil by (simp add: trigger_listener_def)
  from step_trigger [OF Nil(3) t] have "sal_run onAddition exit_to fast [Trigger] c (the (trigger_listener c))"
    unfolding t option.sel by (rule run_step [OF _ run_nil])
  with t show ?case by (intro exI [of _ "m_pFired (m_LstList c)"]) (simp add: round_labels_def)
next
  case (Cons li ls)
  let ?st = "m_LstList c"
  obtain f where f: "f \<in> m_Flows c" "m_Parent (heap ?st li) = Some f" using Cons.prems(4) by auto
  let ?s = "?st\<lparr>m_pFired := Some li, firing := Some ls, fired := fired ?st @ [li]\<rparr>"
  have cur: "current ?st = None" using Cons.prems(3) by (simp add: co_current_def)
  let ?c1 = "c\<lparr>m_LstList := ?s\<lparr>current := Some f\<rparr>, m_togglerstack := None # m_togglerstack c\<rparr>"
  have t1: "trigger_listener c = Some (c\<lparr>m_LstList := ?s\<lparr>current := Some f\<rparr>, m_togglerstack := None # m_togglerstack c\<rparr>)"
    using Cons.prems f by (simp add: trigger_listener_def toggle_def co_call_def co_current_def)
  have t2: "co_resume (c\<lparr>m_LstList := ?s\<lparr>current := Some f\<rparr>, m_togglerstack := None # m_togglerstack c\<rparr>)
      = Some (c\<lparr>m_LstList := ?s\<rparr>)"
    using cur by (simp add: co_resume_def co_call_def)
  have step: "idle_round (li # ls) c = idle_round ls (c\<lparr>m_LstList := ?s\<rparr>)" using t1 t2 by simp
  have run: "sal_run onAddition exit_to fast (Trigger # Resume # ks) c e"
    if "sal_run onAddition exit_to fast ks (c\<lparr>m_LstList := ?s\<rparr>) e" for ks e
    by (rule run_step [OF step_trigger [OF Cons.prems(3) t1] run_step [OF step_resume [OF _ t2] that]]) (simp add: co_current_def)
  obtain p where p: "idle_round ls (c\<lparr>m_LstList := ?s\<rparr>) = Some (c\<lparr>m_LstList := ?s
      \<lparr>m_FireList := [], m_DeleteList := [], m_pFired := p, firing := None, fired := fired ?s @ ls\<rparr>\<rparr>)"
      "sal_run onAddition exit_to fast (round_labels (length ls)) (c\<lparr>m_LstList := ?s\<rparr>) (the (idle_round ls (c\<lparr>m_LstList := ?s\<rparr>)))"
    using Cons.IH [of "c\<lparr>m_LstList := ?s\<rparr>"] Cons.prems by (auto simp: co_current_def)
  from run [OF p(2)] p(1) show ?case unfolding step by (intro exI [of _ p]) (simp add: round_labels_def)
qed

lemma idle_event_ok:
  assumes "waiting fast c"
  defines "st \<equiv> m_LstList c"
  shows "\<exists>c'. idle_event fast ev c = Some c' \<and> waiting fast c' \<and>
    (\<exists>n. sal_run onAddition exit_to fast (Event ev # round_labels n) c c') \<and>
    mset (fired (m_LstList c')) = mset (fired st) + {#li \<in># mset (m_BufferList st). matches ev (heap st li) \<and> m_OccCounter (heap st li) = 1#} \<and>
    mset (m_BufferList (m_LstList c')) + {#li \<in># mset (m_BufferList st). matches ev (heap st li) \<and> m_OccCounter (heap st li) = 1#}
      = mset (m_BufferList st) \<and>
    (\<forall>li \<in> set (m_BufferList st). unplaced (heap (m_LstList c') li) =
       unplaced (if matches ev (heap st li) then struck ev (heap st li) else heap st li))"
proof -
  have inv: "lm_inv st" "build fast st" "m_FireList st = []" "m_DeleteList st = []" "firing st = None" "current st = None"
    using assms by (auto simp: waiting_def ctl_inv_def round_inv_def co_current_def)
  let ?E = "{#li \<in># mset (m_BufferList st). matches ev (heap st li) \<and> m_OccCounter (heap st li) = 1#}"
  obtain s where s: "do_event fast ev st = Some (trigger_start s)" "build fast s"
      "moved (struck ev) (hits ev st (mset (m_BufferList st))) st s" using do_event_ok [OF inv(1,2)] by blast
  have e: "{#li \<in># hits ev st (mset (m_BufferList st)). last_count st li#} = ?E"
    by (simp add: hits_def last_count_def filter_filter_mset)
  have m: "lm_inv s" "mset (m_FireList s) = ?E" "mset (m_BufferList s) + ?E = mset (m_BufferList st)"
      "m_DeleteList s = []" "fired s = fired st" "current s = None"
      "\<forall>q. unplaced (heap s q) = unplaced (if q \<in># hits ev st (mset (m_BufferList st)) then struck ev (heap st q) else heap st q)"
    using s(3) inv(3-6) unfolding moved_def e by (auto simp: same_round_def)
  have par: "m_Parent (heap s q) = m_Parent (heap st q)" for q
    using m(7) [rule_format, of q, THEN arg_cong, of m_Parent] set_trigger_data [of ev "heap st q"]
    by (auto simp: struck_def split: if_splits)
  have sub: "set (m_FireList s) \<subseteq> set (m_BufferList st)" "set (m_BufferList s) \<subseteq> set (m_BufferList st)"
    using arg_cong [OF m(2), of set_mset] arg_cong [OF m(3), of set_mset] by auto
  have reg: "\<forall>q \<in> set (m_BufferList st). \<exists>f \<in> m_Flows c. m_Parent (heap s q) = Some f"
    using assms(1) by (auto simp: waiting_def st_def [symmetric] par)
  let ?d = "c\<lparr>m_LstList := trigger_start s\<rparr>"
  obtain p where p: "idle_round (m_FireList s) ?d = Some (?d\<lparr>m_LstList := (trigger_start s)
      \<lparr>m_FireList := [], m_DeleteList := [], m_pFired := p, firing := None, fired := fired s @ m_FireList s\<rparr>\<rparr>)"
      "sal_run onAddition exit_to fast (round_labels (length (m_FireList s))) ?d (the (idle_round (m_FireList s) ?d))"
  proof -
    have "\<forall>li \<in> set (m_FireList s). \<exists>f \<in> m_Flows ?d. m_Parent (heap (m_LstList ?d) li) = Some f"
      using reg sub(1) by (auto simp: trigger_start_def)
    from idle_round_ok [OF _ _ _ this, of onAddition exit_to fast] that show thesis
      using m(4,6) by (auto simp: trigger_start_def co_current_def)
  qed
  have run: "idle_event fast ev c = Some (c\<lparr>m_LstList := s\<lparr>m_FireList := [], m_DeleteList := [], m_pFired := p, firing := None,
      fired := fired st @ m_FireList s\<rparr>\<rparr>)"
    using s(1) m(5) p(1) by (simp add: idle_event_def st_def [symmetric] trigger_start_def)
  have "sal_step onAddition exit_to fast (Event ev) c ?d"
    using s(1) inv(5,6) by (intro step_event) (simp_all add: co_current_def st_def)
  moreover have "the (idle_event fast ev c) = the (idle_round (m_FireList s) ?d)"
    using s(1) by (simp add: idle_event_def st_def [symmetric] trigger_start_def)
  ultimately have runs: "\<exists>n. sal_run onAddition exit_to fast (Event ev # round_labels n) c (the (idle_event fast ev c))"
    using p(2) run_step by metis
  show ?thesis
  proof (intro exI [of _ "the (idle_event fast ev c)"] conjI runs)
    show "idle_event fast ev c = Some (the (idle_event fast ev c))" by (simp add: run)
    show "waiting fast (the (idle_event fast ev c))" unfolding run option.sel
      using m(1,6) s(2) reg sub by (auto simp: waiting_def ctl_inv_def round_inv_def co_current_def)
  qed (use m in \<open>auto simp: hits_def run\<close>)
qed

lemma matches_struck [simp]: "matches ev' (struck ev x) = matches ev' x"
proof -
  have "matches ev' (count_down y) = matches ev' y" for y by (rule matches_cong) (simp_all add: count_down_keeps)
  then show ?thesis by (simp add: struck_def)
qed

lemma counter_struck: "m_OccCounter x \<noteq> 1 \<Longrightarrow> m_OccCounter (struck ev x) = m_OccCounter x - 1"
  using set_trigger_data [of ev x] by (auto simp: struck_def count_down_def counter_positive decreaseCounter_def)

lemma idle_events_run:
  assumes "waiting fast c"
  shows "\<exists>c' ls. idle_events fast evs c = Some c' \<and> sal_run onAddition exit_to fast ls c c' \<and> filter is_Event ls = map Event evs"
  using assms
proof (induction evs arbitrary: c)
  case Nil
  then show ?case by (intro exI [of _ c] exI [of _ "[]"]) (simp add: run_nil)
next
  case (Cons ev evs)
  obtain d n where d: "idle_event fast ev c = Some d" "waiting fast d" "sal_run onAddition exit_to fast (Event ev # round_labels n) c d"
    using idle_event_ok [OF Cons.prems] by blast
  obtain e ls where e: "idle_events fast evs d = Some e" "sal_run onAddition exit_to fast ls d e" "filter is_Event ls = map Event evs"
    using Cons.IH [OF d(2)] by blast
  have "filter is_Event (concat (replicate m [Trigger, Resume])) = []" for m by (induction m) auto
  then have "filter is_Event (round_labels n) = []" by (simp add: round_labels_def)
  with d(1) e sal_run_append [OF d(3) e(2)] show ?case
    by (intro exI [of _ e] exI [of _ "(Event ev # round_labels n) @ ls"]) simp
qed

lemma idle_events_absent:
  assumes "waiting fast c" and "li \<notin> set (m_BufferList (m_LstList c))"
  shows "\<exists>c'. idle_events fast evs c = Some c' \<and> count_list (fired (m_LstList c')) li = count_list (fired (m_LstList c)) li"
  using assms
proof (induction evs arbitrary: c)
  case (Cons ev evs)
  obtain d where d: "idle_event fast ev c = Some d" "waiting fast d"
      "mset (fired (m_LstList d)) = mset (fired (m_LstList c)) + {#q \<in># mset (m_BufferList (m_LstList c)).
         matches ev (heap (m_LstList c) q) \<and> m_OccCounter (heap (m_LstList c) q) = 1#}"
      "mset (m_BufferList (m_LstList d)) + {#q \<in># mset (m_BufferList (m_LstList c)).
         matches ev (heap (m_LstList c) q) \<and> m_OccCounter (heap (m_LstList c) q) = 1#} = mset (m_BufferList (m_LstList c))"
    using idle_event_ok [OF Cons.prems(1)] by blast
  have "count (mset (m_BufferList (m_LstList c))) li = 0" using Cons.prems(2) by (simp add: not_in_iff [symmetric])
  then have "count_list (fired (m_LstList d)) li = count_list (fired (m_LstList c)) li"
    using arg_cong [OF d(3), of "\<lambda>M. count M li"] by (auto simp: count_mset [symmetric])
  moreover have "li \<notin> set (m_BufferList (m_LstList d))" using arg_cong [OF d(4), of set_mset] Cons.prems(2) by auto
  ultimately show ?case using Cons.IH [OF d(2)] d(1) by simp
qed simp

lemma idle_events_count:
  assumes "waiting fast c" and "li \<in> set (m_BufferList (m_LstList c))" and "m_OccCounter (heap (m_LstList c) li) \<noteq> 0"
  shows "\<exists>c'. idle_events fast evs c = Some c' \<and> count_list (fired (m_LstList c')) li = count_list (fired (m_LstList c)) li +
    (if unat (m_OccCounter (heap (m_LstList c) li)) \<le> length (filter (\<lambda>ev. matches ev (heap (m_LstList c) li)) evs) then 1 else 0)"
  using assms
proof (induction evs arbitrary: c)
  case Nil
  then show ?case by (simp add: unat_eq_zero)
next
  case (Cons ev evs)
  let ?st = "m_LstList c"
  let ?E = "{#q \<in># mset (m_BufferList ?st). matches ev (heap ?st q) \<and> m_OccCounter (heap ?st q) = 1#}"
  let ?x = "heap ?st li"
  obtain d where d: "idle_event fast ev c = Some d" "waiting fast d"
      "mset (fired (m_LstList d)) = mset (fired ?st) + ?E"
      "mset (m_BufferList (m_LstList d)) + ?E = mset (m_BufferList ?st)"
      "unplaced (heap (m_LstList d) li) = unplaced (if matches ev ?x then struck ev ?x else ?x)"
    using idle_event_ok [OF Cons.prems(1), of ev] Cons.prems(2) by blast
  have "distinct (m_BufferList ?st)"
    using Cons.prems(1) by (simp add: waiting_def ctl_inv_def round_inv_def lm_inv_def placed_def)
  then have one: "count (mset (m_BufferList ?st)) li = 1" using Cons.prems(2) by (simp add: distinct_count_atmost_1)
  have fired: "count_list (fired (m_LstList d)) li = count_list (fired ?st) li + count ?E li"
    using arg_cong [OF d(3), of "\<lambda>M. count M li"] by (simp add: count_mset [symmetric])
  have buf: "count (mset (m_BufferList (m_LstList d))) li + count ?E li = 1"
    using arg_cong [OF d(4), of "\<lambda>M. count M li"] one by simp
  have m: "matches e (heap (m_LstList d) li) = matches e ?x" for e
    using matches_unplaced [OF d(5), of e] by (simp split: if_splits)
  have cnt: "m_OccCounter (heap (m_LstList d) li) = m_OccCounter (if matches ev ?x then struck ev ?x else ?x)"
    using d(5) by (simp add: unplaced_eq_iff)
  show ?case
  proof (cases "matches ev ?x \<and> m_OccCounter ?x = 1")
    case True
    then have "count ?E li = 1" using one by simp
    then have "li \<notin> set (m_BufferList (m_LstList d))" using buf by (simp add: not_in_iff [symmetric])
    then show ?thesis using idle_events_absent [OF d(2), of li evs] d(1) fired \<open>count ?E li = 1\<close> True by auto
  next
    case False
    then have E: "count ?E li = 0" by auto
    then have "count (mset (m_BufferList (m_LstList d))) li = 1" using buf by simp
    then have in_d: "li \<in> set (m_BufferList (m_LstList d))" by (metis count_greater_zero_iff set_mset_mset zero_less_one)
    have cnt': "unat (m_OccCounter (heap (m_LstList d) li)) = unat (m_OccCounter ?x) - (if matches ev ?x then 1 else 0)"
        "m_OccCounter (heap (m_LstList d) li) \<noteq> 0"
      using False Cons.prems(3) cnt counter_struck [of ?x ev] by (auto simp: unat_minus_one eq_neg_iff_add_eq_0)
    have "unat (m_OccCounter ?x) \<noteq> 0" using Cons.prems(3) by (simp add: unat_eq_zero)
    with Cons.IH [OF d(2) in_d cnt'(2)] d(1) fired E cnt'(1) show ?thesis by (auto simp: m split: if_splits)
  qed
qed

section \<open>The stack of togglers\<close>

definition toggled :: "controller \<Rightarrow> bool" where
  "toggled c \<longleftrightarrow>
     (case co_current c of
        None \<Rightarrow> m_togglerstack c = []
      | Some f \<Rightarrow> \<exists>fs. m_togglerstack c = map Some fs @ [None] \<and> set fs \<subseteq> m_Flows c)"

lemma toggled_lists: "current st = current (m_LstList c) \<Longrightarrow> toggled (c\<lparr>m_LstList := st\<rparr>) = toggled c"
  by (simp add: toggled_def co_current_def split: option.split)

lemma toggle_toggled:
  assumes "toggled c" and "\<forall>f. co_current c = Some f \<longrightarrow> f \<in> m_Flows c" and "toggle (Some f) c = Some c'"
  shows "toggled c'"
proof -
  have c': "co_current c' = Some f" "m_togglerstack c' = co_current c # m_togglerstack c" "m_Flows c' = m_Flows c"
    by (simp_all add: toggle_spec(1) [OF assms(3)] co_current_def)
  show ?thesis
  proof (cases "co_current c")
    case None
    then have "m_togglerstack c' = [None]" using assms(1) c'(2) by (simp add: toggled_def)
    then show ?thesis using c'(1) by (simp add: toggled_def)
  next
    case (Some g)
    then obtain fs where "m_togglerstack c' = map Some (g # fs) @ [None]" "set (g # fs) \<subseteq> m_Flows c'"
      using assms(1,2) c' by (auto simp: toggled_def)
    then show ?thesis unfolding toggled_def c'(1) option.case by blast
  qed
qed

lemma lm_remove_current: "round_inv fast st \<Longrightarrow> lm_remove p st = Some st' \<Longrightarrow> current st' = current st"
  using lm_remove_shrunk [of fast st p] by (auto simp: shrunk_def)

lemma remove_flow_current: "round_inv fast st \<Longrightarrow> remove_flow flw st = Some st' \<Longrightarrow> current st' = current st"
  using remove_flow_shrunk [of fast st flw] by (auto simp: shrunk_def)

lemma addListener_current:
  assumes "ctl_inv fast c" and "m_Loc (heap (m_LstList c) li) = None" and "addListener onAddition fast li c = Some (res, c')"
  shows "\<exists>st. c' = c\<lparr>m_LstList := st\<rparr> \<and> current st = current (m_LstList c)"
proof -
  obtain flw s where s: "add_overload fast li flw (m_LstList c) = Some s"
      "c' = c\<lparr>m_LstList := s\<rparr> \<or> (\<exists>s2. lm_remove (Some li) s = Some s2 \<and> c' = c\<lparr>m_LstList := s2\<rparr>)"
    using assms(3) by (auto simp: addListener_def Let_def split: option.splits if_splits)
  have "current s = current (m_LstList c)"
    using s(1) by (auto simp: add_overload_def lm_add_def lm_add_fast_def Let_def set_listener_def perf_add_def split: option.splits if_splits)
  moreover have "round_inv fast s" using add_overload_calm [OF _ assms(2) s(1)] assms(1) by (simp add: ctl_inv_def calm_def)
  ultimately show ?thesis using s(2) lm_remove_current by auto
qed

lemma trigger_listener_toggled:
  assumes "trigger_listener c = Some c'" and "co_current c = None" and "toggled c"
  shows "toggled c'"
proof -
  obtain ls st where st: "firing (m_LstList c) = Some ls" "trigger_next ls (m_LstList c) = Some st"
      "(if firing st = None then Some (c\<lparr>m_LstList := st\<rparr>) else toggle (current st) (c\<lparr>m_LstList := st\<lparr>current := None\<rparr>\<rparr>)) = Some c'"
    using assms(1) by (auto simp: trigger_listener_def bind_eq_Some_conv split: option.splits)
  show ?thesis using st(2)
  proof (cases rule: trigger_next_cases)
    case ends
    then show ?thesis using st(3) assms(3) toggled_lists [of st c] by simp
  next
    case (fires pre li post)
    then obtain f where f: "current st = Some f" by auto
    let ?d = "c\<lparr>m_LstList := st\<lparr>current := None\<rparr>\<rparr>"
    have t: "toggle (Some f) ?d = Some c'" using st(3) fires f by simp
    have "toggled ?d" using assms(2,3) by (simp add: toggled_def co_current_def)
    from toggle_toggled [OF this _ t] show ?thesis by (simp add: co_current_def)
  qed
qed

lemma sal_step_toggled:
  assumes "sal_step onAddition exit_to fast l c c'" and "ctl_inv fast c" and "toggled c" and "l \<noteq> FlowEnd" and "\<forall>f. l \<noteq> RemoveFlow f"
  shows "toggled c'"
  using assms(1)
proof (cases rule: sal_step.cases)
  case (step_event ev st)
  then have "current st = current (m_LstList c)"
    using do_event_ok [of "m_LstList c" fast ev] assms(2)
    by (auto simp: ctl_inv_def round_inv_def moved_def same_round_def trigger_start_def)
  then show ?thesis using step_event assms(3) by (simp add: toggled_lists)
next
  case step_trigger
  then show ?thesis using trigger_listener_toggled assms(3) by blast
next
  case (step_addFlow f)
  have "toggled (create f c)" using assms(3) by (auto simp: toggled_def create_def co_current_def split: option.splits)
  moreover have "\<forall>g. co_current (create f c) = Some g \<longrightarrow> g \<in> m_Flows (create f c)"
    using assms(2) by (simp add: create_def ctl_inv_def co_current_def)
  ultimately show ?thesis using step_addFlow(3) unfolding addFlow_def by (rule toggle_toggled)
next
  case (step_add li res)
  then show ?thesis using addListener_current [OF assms(2)] assms(3) toggled_lists by blast
next
  case (step_remove p)
  then show ?thesis using lm_remove_current [of fast "m_LstList c" p] assms(2,3) by (auto simp: removeListener_def ctl_inv_def toggled_lists)
next
  case (step_clear flw)
  then show ?thesis using remove_flow_current [of fast "m_LstList c" flw] assms(2,3) by (auto simp: clearListeners_def ctl_inv_def toggled_lists)
next
  case (step_counter li n)
  then show ?thesis using assms(3) by (simp add: setListenerCounter_def toggled_lists set_listener_def)
next
  case step_resume
  then obtain f fs where fs: "m_togglerstack c = map Some fs @ [None]" "set fs \<subseteq> m_Flows c"
    using assms(3) by (auto simp: toggled_def split: option.splits)
  show ?thesis
  proof (cases fs)
    case Nil
    then show ?thesis using step_resume(3) fs by (simp add: co_resume_def co_call_def toggled_def co_current_def) (auto simp: toggled_def co_current_def)
  next
    case (Cons g gs)
    then show ?thesis using step_resume(3) fs by (auto simp: co_resume_def co_call_def toggled_def co_current_def)
  qed
qed (use assms(4,5) in simp_all)

end
