(* ===== verification/Sal_Runs.thy ===== *)
theory Sal_Runs
  imports Sim_Controller
begin

text \<open>
  What the runs of the simulator controller guarantee: the performance buffers stay well typed, a
  removed listener never fires, a listener fires when its count of matching events is reached, and the
  stack of coroutines never underflows while no flow ends. Two calls that do not do what they should
  are shown as well.
\<close>

section \<open>Concrete runs\<close>

definition demo_heap :: "listener \<Rightarrow> BaseListener" where
  "demo_heap li = demo_listener (BPSingleListener 64 ANY_ADDR) 1"

definition co_caller :: "flow \<Rightarrow> controller \<Rightarrow> flow option" where
  "co_caller f c = None"

definition demo_flow :: controller where
  "demo_flow = the (addFlow 7 (sal_init demo_heap))"

definition demo_added :: controller where
  "demo_added = snd (the (addListener (\<lambda>li. True) True 0 demo_flow))"

lemmas demo_simps = demo_flow_def demo_added_def demo_heap_def demo_listener_def sal_init_def addFlow_def toggle_def create_def
  co_call_def co_current_def getCurrent_def addListener_def add_overload_def lm_add_fast_def set_listener_def perf_add_def home_class_def
  setCounter_def BaseListener_new_def Let_def

lemma demo_flow_state:
  "addFlow 7 (sal_init demo_heap) = Some demo_flow" "co_current demo_flow = Some 7" "m_Loc (heap (m_LstList demo_flow) 0) = None"
  by (simp_all add: demo_simps)

lemma demo_added_state:
  "addListener (\<lambda>li. True) True 0 demo_flow = Some (True, demo_added)" "co_current demo_added = Some 7"
  "m_BufferList (m_LstList demo_added) = [0]" "fired (m_LstList demo_added) = []"
  by (simp_all add: demo_simps)

lemma sal_demo_run: "sal_run (\<lambda>li. True) co_caller True [AddFlow 7, AddListener 0] (sal_init demo_heap) demo_added"
proof -
  have idle: "firing (m_LstList (sal_init demo_heap)) = None" by (simp add: sal_init_def)
  have "sal_step (\<lambda>li. True) co_caller True (AddFlow 7) (sal_init demo_heap) demo_flow"
    by (rule step_addFlow) (simp_all add: idle demo_flow_state)
  moreover have "sal_step (\<lambda>li. True) co_caller True (AddListener 0) demo_flow demo_added"
    by (rule step_add) (simp_all add: demo_flow_state demo_added_state)
  ultimately show ?thesis by (meson run_nil run_step)
qed

section \<open>Properties\<close>

text \<open>
  C19. In every run, the performance buffers are well typed: an index stored in a performance buffer is
  the slot of a listener of the buffer's class, so that \<open>dereference\<close> and the cast of \<open>gather\<close> are safe,
  and with fast breakpoints each buffered listener of the class has its slot there exactly once.
\<close>

theorem perf_buffers_well_typed:
  assumes "sal_run onAddition exit_to fast ls (sal_init h) c"
  defines "st \<equiv> m_LstList c"
  shows "(\<forall>b i. i \<in> set (m_BufList st b) \<longrightarrow> i < length (m_BufferList st) \<and> home_class (m_Class (heap st (m_BufferList st ! i))) = Some b) \<and>
    (\<forall>b. fast \<longrightarrow> mset (map ((!) (m_BufferList st)) (m_BufList st b)) =
       {#li \<in># mset (m_BufferList st). home_class (m_Class (heap st li)) = Some b#})"
proof -
  have inv: "lm_inv st" "build fast st"
    using sal_run_calm [OF assms(1) sal_init_inv] by (auto simp: ctl_inv_def round_inv_def st_def)
  have "i < length (m_BufferList st) \<and> home_class (m_Class (heap st (m_BufferList st ! i))) = Some b" if "i \<in> set (m_BufList st b)" for b i
    using inv(1) that by (simp add: lm_inv_def indexed_def typed_def)
  moreover have "mset (map ((!) (m_BufferList st)) (m_BufList st b)) =
      {#li \<in># mset (m_BufferList st). home_class (m_Class (heap st li)) = Some b#}" if fast for b
  proof -
    have "homed b st = {#li \<in># mset (m_BufferList st). home_class (m_Class (heap st li)) = Some b#}"
      unfolding homed_def using inv(2) that by (intro filter_mset_cong) (auto simp: build_def)
    with mset_perf_buffer [OF inv(1), of b] show ?thesis by simp
  qed
  ultimately show ?thesis by simp
qed

theorem perf_buffers_well_typed_witness:
  "mset (map ((!) (m_BufferList (m_LstList demo_added))) (m_BufList (m_LstList demo_added) SingleListeners)) = {#0#}"
proof -
  have "home_class (m_Class (heap (m_LstList demo_added) 0)) = Some SingleListeners" by (simp add: demo_simps)
  with perf_buffers_well_typed [OF sal_demo_run] show ?thesis by (simp add: demo_added_state)
qed

text \<open>
  C17. Once a listener has been removed, directly or with all listeners of its flow or by the end of its
  flow, it never fires again unless it is added again, even when it was about to fire in the current
  round.
\<close>

theorem removed_listener_never_fires:
  assumes "sal_run onAddition exit_to fast ls1 (sal_init h) c" and "sal_step onAddition exit_to fast l c d" and "silences l c li"
    and "sal_run onAddition exit_to fast ls2 d e" and "AddListener li \<notin> set ls2"
  shows "count_list (fired (m_LstList e)) li = count_list (fired (m_LstList c)) li"
proof -
  have c: "ctl_inv fast c" using sal_run_calm [OF assms(1) sal_init_inv] by blast
  have d: "ctl_inv fast d" using sal_step_calm [OF assms(2) c] by blast
  have "quiet li (m_LstList d)" "fired (m_LstList d) = fired (m_LstList c)" using silences_quiet [OF assms(2) c assms(3)] by auto
  with sal_run_calm [OF assms(4) d] assms(5) show ?thesis by simp
qed

definition demo_removed :: controller where
  "demo_removed = the (removeListener (Some 0) demo_added)"

definition demo_resumed :: controller where
  "demo_resumed = the (co_resume demo_removed)"

lemmas demo_remove_simps = demo_simps demo_removed_def demo_resumed_def removeListener_def lm_remove_def remove_listener_def m_remove_def
  perf_remove_def co_resume_def

theorem removed_listener_never_fires_witness:
  "\<exists>e. sal_run (\<lambda>li. True) co_caller True [Resume, Event (BPEvent 64 0 None), Trigger] demo_removed e \<and> count_list (fired (m_LstList e)) 0 = 0"
proof -
  let ?S = "sal_step (\<lambda>li. True) co_caller True"
  have rem: "removeListener (Some 0) demo_added = Some demo_removed" by (simp add: demo_remove_simps)
  then have step: "?S (RemoveListener (Some 0)) demo_added demo_removed" by (rule step_remove [rotated]) (simp add: demo_added_state)
  have res: "co_resume demo_removed = Some demo_resumed" "co_current demo_removed = Some 7" by (simp_all add: demo_remove_simps)
  then have r1: "?S Resume demo_removed demo_resumed" by (intro step_resume) simp_all
  let ?st = "trigger_start (m_LstList demo_resumed)"
  have ev: "do_event True (BPEvent 64 0 None) (m_LstList demo_resumed) = Some ?st" "co_current demo_resumed = None"
      "firing (m_LstList demo_resumed) = None" "m_FireList (m_LstList demo_resumed) = []"
    by (simp_all add: demo_remove_simps do_event_def onBreakpoint_fast_def fast_dispatch_def gather_def trigger_start_def)
  then have r2: "?S (Event (BPEvent 64 0 None)) demo_resumed (demo_resumed\<lparr>m_LstList := ?st\<rparr>)" by (intro step_event)
  have "\<exists>e. trigger_listener (demo_resumed\<lparr>m_LstList := ?st\<rparr>) = Some e"
    using ev(4) by (simp add: trigger_listener_def trigger_start_def)
  then obtain e where "trigger_listener (demo_resumed\<lparr>m_LstList := ?st\<rparr>) = Some e" by blast
  then have r3: "?S Trigger (demo_resumed\<lparr>m_LstList := ?st\<rparr>) e"
    using ev(2) by (intro step_trigger) (simp_all add: co_current_def trigger_start_def)
  have run: "sal_run (\<lambda>li. True) co_caller True [Resume, Event (BPEvent 64 0 None), Trigger] demo_removed e"
    using r1 r2 r3 by (meson run_nil run_step)
  have sil: "silences (RemoveListener (Some 0)) demo_added 0" by (simp add: silences_def)
  have "count_list (fired (m_LstList e)) 0 = 0"
    using removed_listener_never_fires [OF sal_demo_run step sil run] by (simp add: demo_added_state)
  with run show ?thesis by blast
qed

text \<open>
  C18. A listener fires when its count is reached: while the experiments only wait, the events run
  through, and a buffered listener with counter \<open>n\<close> fires exactly once if at least \<open>n\<close> of the events match
  it, and not at all otherwise.
\<close>

theorem listener_fires_on_count:
  assumes "waiting fast c" and "li \<in> set (m_BufferList (m_LstList c))" and "m_OccCounter (heap (m_LstList c) li) \<noteq> 0"
  shows "\<exists>c' ls. idle_events fast evs c = Some c' \<and> sal_run onAddition exit_to fast ls c c' \<and> filter is_Event ls = map Event evs \<and>
    count_list (fired (m_LstList c')) li = count_list (fired (m_LstList c)) li +
      (if unat (m_OccCounter (heap (m_LstList c) li)) \<le> length (filter (\<lambda>ev. matches ev (heap (m_LstList c) li)) evs) then 1 else 0)"
proof -
  obtain c' ls where "idle_events fast evs c = Some c'" "sal_run onAddition exit_to fast ls c c'" "filter is_Event ls = map Event evs"
    using idle_events_run [OF assms(1)] by blast
  with idle_events_count [OF assms, of evs] show ?thesis by auto
qed

definition demo_waiting :: controller where
  "demo_waiting = the (co_resume demo_added)"

theorem listener_fires_on_count_witness:
  "\<exists>c'. idle_events True [BPEvent 65 0 None, BPEvent 64 0 None, BPEvent 64 0 None] demo_waiting = Some c' \<and>
     count_list (fired (m_LstList c')) 0 = 1"
proof -
  have res: "co_resume demo_added = Some demo_waiting" by (simp add: demo_simps demo_waiting_def co_resume_def)
  then have "sal_step (\<lambda>li. True) co_caller True Resume demo_added demo_waiting"
    by (intro step_resume) (simp_all add: demo_added_state)
  then have "ctl_inv True demo_waiting" using sal_step_calm sal_run_calm [OF sal_demo_run sal_init_inv] by blast
  then have "waiting True demo_waiting"
    by (simp add: waiting_def) (simp add: demo_simps demo_waiting_def co_resume_def)
  from listener_fires_on_count [OF this, of 0 "[BPEvent 65 0 None, BPEvent 64 0 None, BPEvent 64 0 None]" "\<lambda>li. True" co_caller]
  show ?thesis by (auto simp: demo_simps demo_waiting_def co_resume_def ANY_ADDR_def cpu_matches_def bp_single_isMatching_def aspaceIsMatching_def)
qed

text \<open>
  While no flow has ended or been removed, the stack of coroutines is a chain of registered flows
  on top of the simulator: a running flow's \<open>resume\<close> never finds the stack empty nor a dead coroutine, and
  when the simulator runs, no flow waits for another one.
\<close>

theorem resume_finds_its_toggler:
  assumes "sal_run onAddition exit_to fast ls (sal_init h) c" and "FlowEnd \<notin> set ls" and "\<forall>f. RemoveFlow f \<notin> set ls"
  shows "toggled c \<and> (co_current c \<noteq> None \<longrightarrow> (\<exists>c'. sal_step onAddition exit_to fast Resume c c'))"
proof -
  have run: "toggled c'" if "sal_run onAddition exit_to fast ls d c'" "ctl_inv fast d" "toggled d"
      "FlowEnd \<notin> set ls" "\<forall>f. RemoveFlow f \<notin> set ls" for ls d c'
    using that
  proof (induction rule: sal_run.induct)
    case (run_step l c c' ls c'')
    have "ctl_inv fast c'" using sal_step_calm [OF run_step(1,4)] by blast
    moreover have "toggled c'" using sal_step_toggled [OF run_step(1,4,5)] run_step(6,7) by auto
    ultimately show ?case using run_step(3,6,7) by simp
  qed simp
  have t: "toggled c" by (rule run [OF assms(1) sal_init_inv _ assms(2,3)]) (simp add: toggled_def co_current_def sal_init_def)
  moreover have "\<exists>c'. sal_step onAddition exit_to fast Resume c c'" if cur: "co_current c \<noteq> None"
  proof -
    obtain fs where fs: "m_togglerstack c = map Some fs @ [None]" "set fs \<subseteq> m_Flows c"
      using t cur by (auto simp: toggled_def)
    then have "\<exists>c'. co_resume c = Some c'" by (cases fs) (simp_all add: co_resume_def co_call_def)
    then show ?thesis using cur step_resume by blast
  qed
  ultimately show ?thesis by blast
qed

theorem resume_finds_its_toggler_witness: "toggled demo_added \<and> co_current demo_added = Some 7"
  using resume_finds_its_toggler [OF sal_demo_run] by (simp add: demo_added_state)

text \<open>
  C38. A flow that ends leaves its toggler's entry on the stack: when a flow \<open>a\<close> adds a flow \<open>b\<close> that ends and
  the coroutine library continues with \<open>a\<close>, the next \<open>resume\<close> of \<open>a\<close> pops \<open>a\<close> itself and control stays with \<open>a\<close>
  instead of going to the simulator.
\<close>

theorem ended_flow_blocks_resume:
  assumes "ctl_inv fast c" and "co_current c = Some a" and "b \<noteq> a" and "\<And>d. exit_to b d = Some a"
  shows "\<exists>c1 c2 c3. addFlow b c = Some c1 \<and> flow_end exit_to b c1 = Some c2 \<and> m_togglerstack c2 = Some a # m_togglerstack c \<and>
    co_resume c2 = Some c3 \<and> co_current c3 = Some a"
proof -
  let ?c1 = "c\<lparr>m_LstList := (m_LstList c)\<lparr>current := Some b\<rparr>, m_Flows := insert b (m_Flows c), m_togglerstack := Some a # m_togglerstack c\<rparr>"
  have c1: "addFlow b c = Some ?c1" using assms(2) by (simp add: addFlow_def toggle_def create_def co_call_def co_current_def)
  have a: "a \<in> m_Flows c" using assms(1,2) by (simp add: ctl_inv_def)
  have "round_inv fast (m_LstList ?c1)" using assms(1) by (simp add: ctl_inv_def)
  then obtain s where s: "remove_flow (Some b) (m_LstList ?c1) = Some s" "shrunk fast (m_LstList ?c1) s" using remove_flow_shrunk by blast
  then have "round_inv fast s" by (simp add: shrunk_def)
  then obtain s2 where s2: "remove_flow (Some b) s = Some s2" "shrunk fast s s2" using remove_flow_shrunk by blast
  have cur: "current s2 = Some b" using s(2) s2(2) by (simp add: shrunk_def)
  let ?c2 = "c\<lparr>m_LstList := s2\<lparr>current := Some a\<rparr>, m_Flows := m_Flows c - {b}, m_togglerstack := Some a # m_togglerstack c\<rparr>"
  have c2: "flow_end exit_to b ?c1 = Some ?c2"
    using s(1) s2(1) cur a assms(3,4)
    by (simp add: flow_end_def removeFlow_def clearListeners_def co_remove_def co_current_def co_call_def Let_def)
  have "\<exists>c3. co_resume ?c2 = Some c3 \<and> co_current c3 = Some a" using a assms(3) by (simp add: co_resume_def co_call_def co_current_def)
  with c1 c2 show ?thesis by auto
qed

theorem ended_flow_blocks_resume_witness:
  "\<exists>c1 c2 c3. addFlow 8 demo_added = Some c1 \<and> flow_end (\<lambda>f c. Some 7) 8 c1 = Some c2 \<and> co_resume c2 = Some c3 \<and> co_current c3 = Some 7"
proof -
  have "ctl_inv True demo_added" using sal_run_calm [OF sal_demo_run sal_init_inv] by blast
  from ended_flow_blocks_resume [OF this demo_added_state(2), of 8 "\<lambda>f c. Some 7"] show ?thesis by auto
qed

text \<open>
  \<open>removeListener(NULL)\<close> removes more than the listeners of the calling flow: every listener that is
  about to fire in the current round is cancelled, whichever flow it belongs to, so that the round ends
  without any of them firing.
\<close>

theorem remove_null_cancels_round:
  assumes "ctl_inv fast c" and "firing (m_LstList c) = Some ls" and "removeListener None c = Some c'" and "co_call None c' = Some d"
  shows "\<exists>e. trigger_listener d = Some e \<and> firing (m_LstList e) = None \<and> fired (m_LstList e) = fired (m_LstList c)"
proof -
  have r: "round_inv fast (m_LstList c)" using assms(1) by (simp add: ctl_inv_def)
  obtain st where st: "remove_current (m_LstList c) = Some st" "c' = c\<lparr>m_LstList := st\<rparr>"
    using assms(3) by (auto simp: removeListener_def lm_remove_def)
  have keep: "firing st = Some ls" "fired st = fired (m_LstList c)"
    using remove_current_shrunk [OF r] st(1) assms(2) by (auto simp: shrunk_def)
  then have del: "set ls \<subseteq> set (m_DeleteList st)" using remove_current_quiet(2) [OF r st(1)] by blast
  have "trigger_next ks s = Some (s\<lparr>m_FireList := [], m_DeleteList := [], firing := None\<rparr>)" if "set ks \<subseteq> set (m_DeleteList s)" for ks s
    using that by (induction ks) auto
  then have "trigger_next ls (st\<lparr>current := None\<rparr>) = Some (st\<lparr>current := None, m_FireList := [], m_DeleteList := [], firing := None\<rparr>)"
    using del by simp
  moreover have "m_LstList d = st\<lparr>current := None\<rparr>" using co_call_spec(1) [OF assms(4)] st(2) by simp
  ultimately show ?thesis using keep by (simp add: trigger_listener_def)
qed

text \<open>Two flows wait for the same address; the first to be called removes its listeners.\<close>

definition demo_round :: controller where
  "demo_round = \<lparr>m_LstList = \<lparr>m_BufferList = [], m_FireList = [0, 1], m_DeleteList = [], m_pFired = Some 0,
     heap = (\<lambda>li. (demo_heap li)\<lparr>m_Parent := Some (li + 7)\<rparr>), m_BufList = (\<lambda>b. []), firing = Some [1], current = Some 7, fired = [0]\<rparr>,
     m_Flows = {7, 8}, m_togglerstack = [None]\<rparr>"

theorem remove_null_cancels_round_witness:
  "\<exists>c' d e. removeListener None demo_round = Some c' \<and> co_call None c' = Some d \<and> trigger_listener d = Some e \<and>
     m_Parent (heap (m_LstList demo_round) 1) = Some 8 \<and> firing (m_LstList e) = None \<and> fired (m_LstList e) = [0]"
proof -
  have inv: "ctl_inv True demo_round"
    by (simp add: ctl_inv_def round_inv_def build_def co_current_def demo_round_def lm_inv_def placed_def indexed_def typed_def demo_simps)
  have "round_inv True (m_LstList demo_round)" using inv by (simp add: ctl_inv_def)
  from remove_current_shrunk [OF this] obtain c' where c': "removeListener None demo_round = Some c'"
    by (auto simp: removeListener_def lm_remove_def)
  obtain d where d: "co_call None c' = Some d" by (simp add: co_call_def)
  have "firing (m_LstList demo_round) = Some [1]" by (simp add: demo_round_def)
  from remove_null_cancels_round [OF inv this c' d] c' d show ?thesis by (auto simp: demo_round_def)
qed

end
