(* ===== verification/Job_Client.thy ===== *)
theory Job_Client
  imports Job_Server "HOL-Library.Sublist"
begin

text \<open>
  The client side of a campaign: \<open>JobClient\<close> of \<^verbatim>\<open>src/core/efw/JobClient.cc\<close>. A client fetches a batch of jobs,
  hands them to the experiment one by one and sends the results back when the batch is done or
  has taken too long.

  The network is a script of what the socket operations come back with (\<open>net\<close>). \<open>None\<close> means that the
  script does not fit the operations, or undefined behaviour. What the clock and the floating-point
  estimate of the throughput yield are arguments.
\<close>

section \<open>Model\<close>

datatype 'm net =
    Try_connect bool             \<comment> \<open>one attempt to resolve the server and connect\<close>
  | Sent bool                    \<comment> \<open>whether \<open>sendMsg\<close> succeeded\<close>
  | Got_ctrl FailControlMessage  \<comment> \<open>\<open>rcvMsg\<close> read a control message\<close>
  | Got_msg 'm                   \<comment> \<open>\<open>rcvMsg\<close> read a job\<close>
  | Got_none                     \<comment> \<open>\<open>rcvMsg\<close> failed\<close>

definition CLIENT_RETRY_COUNT :: nat where
  "CLIENT_RETRY_COUNT = 3"

definition CLIENT_JOB_INITIAL :: int where
  "CLIENT_JOB_INITIAL = 1"

definition CLIENT_JOB_LIMIT :: int where
  "CLIENT_JOB_LIMIT = 1000"

record 'm JobClient =
  m_server_runid :: u64
  m_job_throughput :: int
  m_parameters :: "'m ExperimentData list"
  m_results :: "'m ExperimentData list"
  m_connect_failed :: bool

definition JobClient_new :: "'m JobClient" where
  "JobClient_new = \<lparr>m_server_runid = 0, m_job_throughput = CLIENT_JOB_INITIAL, m_parameters = [], m_results = [], m_connect_failed = False\<rparr>"

fun connect_tries :: "nat \<Rightarrow> 'm net list \<Rightarrow> (bool \<times> 'm net list) option" where
  "connect_tries 0 net = Some (False, net)"
| "connect_tries (Suc tries) (Try_connect ok # net) = (if ok then Some (True, net) else connect_tries tries net)"
| "connect_tries (Suc tries) _ = None"

definition connectToServer :: "'m net list \<Rightarrow> 'm JobClient \<Rightarrow> (bool \<times> 'm net list \<times> 'm JobClient) option" where
  "connectToServer net c =
     (if m_connect_failed c then Some (False, net, c)
      else case connect_tries (Suc CLIENT_RETRY_COUNT) net of
             None \<Rightarrow> None
           | Some (True, net') \<Rightarrow> Some (True, net', c)
           | Some (False, net') \<Rightarrow> Some (False, net', c\<lparr>m_connect_failed := True\<rparr>))"

definition need_work_msg :: "'m JobClient \<Rightarrow> FailControlMessage" where
  "need_work_msg c =
     \<lparr>command = NEED_WORK, workloadid = [], build_id = 42, run_id = Some (m_server_runid c),
      job_size = Some (word_of_int (m_job_throughput c))\<rparr>"

text \<open>
  The loop that receives \<open>job_size\<close> jobs. It stops at the first failure; \<open>False\<close> when there was
  no job before it.
\<close>

fun rcv_jobs :: "nat \<Rightarrow> u32 list \<Rightarrow> 'm net list \<Rightarrow> 'm ExperimentData list \<Rightarrow> (bool \<times> 'm net list \<times> 'm ExperimentData list) option" where
  "rcv_jobs 0 ids net params = Some (True, net, params)"
| "rcv_jobs (Suc n) (i # ids) (Got_msg m # net) params = rcv_jobs n ids net (params @ [\<lparr>msg = m, m_workloadID = i\<rparr>])"
| "rcv_jobs (Suc n) ids (Got_none # net) params = Some (params \<noteq> [], net, params)"
| "rcv_jobs (Suc n) _ _ _ = None"

text \<open>The part of \<open>tryToGetExperimentData\<close> that hands out the first job.\<close>

definition hand_out ::
  "Command \<Rightarrow> 'm ExperimentData \<Rightarrow> 'm JobClient \<Rightarrow> Command \<times> 'm ExperimentData \<times> 'm JobClient" where
  "hand_out cmd exp c =
     (case m_parameters c of
        p # ps \<Rightarrow> (WORK_FOLLOWS, p, c\<lparr>m_parameters := ps\<rparr>)
      | [] \<Rightarrow> (cmd, exp, c))"

text \<open>The answer to a request for work.\<close>

definition receive_work ::
  "'m net list \<Rightarrow> 'm ExperimentData \<Rightarrow> 'm JobClient \<Rightarrow> (Command \<times> 'm ExperimentData \<times> 'm net list \<times> 'm JobClient) option" where
  "receive_work net exp c =
     (case net of
        Got_none # net' \<Rightarrow> Some (COME_AGAIN, exp, net', c)
      | Got_ctrl ctrlmsg # net' \<Rightarrow>
          (let c1 = c\<lparr>m_server_runid := (case run_id ctrlmsg of None \<Rightarrow> 0 | Some r \<Rightarrow> r)\<rparr>
           in if command ctrlmsg = WORK_FOLLOWS then
                (case rcv_jobs (case job_size ctrlmsg of None \<Rightarrow> 0 | Some n \<Rightarrow> unat n) (workloadid ctrlmsg) net' [] of
                   None \<Rightarrow> None
                 | Some (False, net'', params) \<Rightarrow> Some (COME_AGAIN, exp, net'', c1)
                 | Some (True, net'', params) \<Rightarrow>
                     (case hand_out WORK_FOLLOWS exp (c1\<lparr>m_parameters := params\<rparr>) of (cmd, exp', c2) \<Rightarrow> Some (cmd, exp', net'', c2)))
              else (case hand_out (command ctrlmsg) exp c1 of (cmd, exp', c2) \<Rightarrow> Some (cmd, exp', net', c2)))
      | _ \<Rightarrow> None)"

definition tryToGetExperimentData ::
  "'m net list \<Rightarrow> 'm ExperimentData \<Rightarrow> 'm JobClient \<Rightarrow> (Command \<times> 'm ExperimentData \<times> 'm net list \<times> 'm JobClient) option" where
  "tryToGetExperimentData net exp c =
     (if m_parameters c \<noteq> [] then (case hand_out DIE exp c of (cmd, exp', c') \<Rightarrow> Some (cmd, exp', net, c'))
      else case connectToServer net c of
             None \<Rightarrow> None
           | Some (False, net1, c1) \<Rightarrow> Some (DIE, exp, net1, c1)
           | Some (True, net1, c1) \<Rightarrow>
               (case net1 of
                  Sent False # net2 \<Rightarrow> Some (COME_AGAIN, exp, net2, c1)
                | Sent True # net2 \<Rightarrow> receive_work net2 exp c1
                | _ \<Rightarrow> None))"

partial_function (option) getParam ::
  "'m net list \<Rightarrow> 'm ExperimentData \<Rightarrow> 'm JobClient \<Rightarrow> (bool \<times> 'm ExperimentData \<times> 'm net list \<times> 'm JobClient) option" where
  "getParam net exp c =
     (if m_connect_failed c then Some (False, exp, net, c)
      else case tryToGetExperimentData net exp c of
             None \<Rightarrow> None
           | Some (cmd, exp', net', c') \<Rightarrow>
               (if cmd = WORK_FOLLOWS then Some (True, exp', net', c')
                else if cmd = COME_AGAIN then getParam net' exp' c'
                else Some (False, exp', net', c')))"

definition results_msg :: "'m JobClient \<Rightarrow> FailControlMessage" where
  "results_msg c =
     \<lparr>command = RESULT_FOLLOWS, workloadid = map m_workloadID (m_results c), build_id = 42, run_id = Some (m_server_runid c),
      job_size = Some (of_nat (length (m_results c)))\<rparr>"

text \<open>The loop that sends \<open>job_size\<close> results; the second component is what was sent.\<close>

fun send_results ::
  "nat \<Rightarrow> 'm net list \<Rightarrow> 'm JobClient \<Rightarrow> (bool \<times> 'm ExperimentData list \<times> 'm net list \<times> 'm JobClient) option" where
  "send_results 0 net c = Some (True, [], net, c)"
| "send_results (Suc n) (Sent ok # net) c =
     (case m_results c of
        [] \<Rightarrow> None
      | r # rs \<Rightarrow>
          if \<not> ok then Some (False, [], net, c)
          else map_option (\<lambda>(ok', sent, net', c'). (ok', r # sent, net', c')) (send_results n net (c\<lparr>m_results := rs\<rparr>)))"
| "send_results (Suc n) _ c = None"

definition sendResultsToServer ::
  "'m net list \<Rightarrow> 'm JobClient \<Rightarrow> (bool \<times> 'm ExperimentData list \<times> 'm net list \<times> 'm JobClient) option" where
  "sendResultsToServer net c =
     (if m_results c = [] then Some (True, [], net, c)
      else case connectToServer net c of
             None \<Rightarrow> None
           | Some (False, net1, c1) \<Rightarrow> Some (False, [], net1, c1\<lparr>m_results := []\<rparr>)
           | Some (True, net1, c1) \<Rightarrow>
               (case net1 of
                  Sent False # net2 \<Rightarrow> Some (False, [], net2, c1)
                | Sent True # net2 \<Rightarrow> send_results (unat (the (job_size (results_msg c1)))) net2 c1
                | _ \<Rightarrow> None))"

definition limit_throughput :: "int \<Rightarrow> int" where
  "limit_throughput t = (if CLIENT_JOB_LIMIT < t then CLIENT_JOB_LIMIT else if t < 1 then 1 else t)"

text \<open>
  \<open>late\<close>: more than \<open>CLIENT_JOB_REQUEST_SEC\<close> seconds have passed; \<open>estimate\<close>: the new throughput as computed
  from the measured time.
\<close>

definition sendResult ::
  "bool \<Rightarrow> int \<Rightarrow> 'm ExperimentData \<Rightarrow> 'm net list \<Rightarrow> 'm JobClient \<Rightarrow>
   (bool \<times> 'm ExperimentData list \<times> 'm net list \<times> 'm JobClient) option" where
  "sendResult late estimate result net c =
     (let c1 = c\<lparr>m_results := m_results c @ [result]\<rparr>
      in if m_parameters c1 \<noteq> [] then
           (if late then sendResultsToServer net c1 else Some (True, [], net, c1))
         else sendResultsToServer net (c1\<lparr>m_job_throughput := limit_throughput estimate\<rparr>))"

section \<open>Results are sent at most once and in order\<close>

text \<open>What an experiment does with its client, and the results it has handed over and the client has sent.\<close>

datatype 'm client_op =
    Get_param "'m net list" "'m ExperimentData"
  | Send_result bool int "'m ExperimentData" "'m net list"
  | Destroy "'m net list"

record 'm client_log =
  client :: "'m JobClient"
  handed_over :: "'m ExperimentData list"
  sent_back :: "'m ExperimentData list"

fun client_step :: "'m client_op \<Rightarrow> 'm client_log \<Rightarrow> 'm client_log option" where
  "client_step (Get_param net exp) l = map_option (\<lambda>(ok, exp', net', c). l\<lparr>client := c\<rparr>) (getParam net exp (client l))"
| "client_step (Send_result late estimate r net) l =
     map_option (\<lambda>(ok, sent, net', c). l\<lparr>client := c, handed_over := handed_over l @ [r], sent_back := sent_back l @ sent\<rparr>)
       (sendResult late estimate r net (client l))"
| "client_step (Destroy net) l =
     map_option (\<lambda>(ok, sent, net', c). l\<lparr>client := c, sent_back := sent_back l @ sent\<rparr>) (sendResultsToServer net (client l))"

fun client_run :: "'m client_op list \<Rightarrow> 'm client_log \<Rightarrow> 'm client_log option" where
  "client_run [] l = Some l"
| "client_run (op # ops) l = (case client_step op l of None \<Rightarrow> None | Some l' \<Rightarrow> client_run ops l')"

definition log_new :: "'m client_log" where
  "log_new = \<lparr>client = JobClient_new, handed_over = [], sent_back = []\<rparr>"

definition log_inv :: "'m client_log \<Rightarrow> bool" where
  "log_inv l \<longleftrightarrow> 1 \<le> m_job_throughput (client l) \<and> m_job_throughput (client l) \<le> CLIENT_JOB_LIMIT \<and>
     (\<exists>rest. handed_over l = sent_back l @ rest \<and> (\<not> m_connect_failed (client l) \<longrightarrow> rest = m_results (client l)))"

lemma connectToServer_frame:
  "connectToServer net c = Some (ok, net', c') \<Longrightarrow>
    m_results c' = m_results c \<and> m_job_throughput c' = m_job_throughput c \<and> m_parameters c' = m_parameters c \<and>
    (ok \<longrightarrow> c' = c \<and> \<not> m_connect_failed c) \<and> (\<not> ok \<longrightarrow> m_connect_failed c')"
  by (auto simp: connectToServer_def split: if_splits option.splits bool.splits)

lemma connect_first: "\<not> m_connect_failed c \<Longrightarrow> connectToServer (Try_connect True # net) c = Some (True, net, c)"
  by (simp add: connectToServer_def)

lemma results_count: "length (m_results c) < 2 ^ 32 \<Longrightarrow> unat (the (job_size (results_msg c))) = length (m_results c)"
  by (simp add: results_msg_def unat_of_nat_u32)

lemma send_results_prefix:
  "send_results n net c = Some (ok, sent, net', c') \<Longrightarrow>
    m_results c = sent @ m_results c' \<and> c' = c\<lparr>m_results := m_results c'\<rparr>"
proof (induction n net c arbitrary: sent c' rule: send_results.induct)
  case (2 n okay net c)
  then obtain r rs where r: "m_results c = r # rs" by (cases "m_results c") auto
  show ?case
  proof (cases okay)
    case True
    then obtain sent' where s: "send_results n net (c\<lparr>m_results := rs\<rparr>) = Some (ok, sent', net', c')" "sent = r # sent'"
      using "2.prems" r by auto
    with "2.IH" [OF r] True have "rs = sent' @ m_results c'" "c' = c\<lparr>m_results := m_results c'\<rparr>" by fastforce+
    with r s show ?thesis by simp
  next
    case False
    then show ?thesis using "2.prems" r by auto
  qed
qed auto

lemma sendResultsToServer_prefix:
  assumes "sendResultsToServer net c = Some (ok, sent, net', c')"
  shows "m_job_throughput c' = m_job_throughput c \<and> m_parameters c' = m_parameters c \<and> (m_connect_failed c \<longrightarrow> m_connect_failed c') \<and>
    (if m_connect_failed c' then sent = [] else m_results c = sent @ m_results c')"
proof (cases "m_results c = []")
  case True
  then show ?thesis using assms by (auto simp: sendResultsToServer_def)
next
  case False
  then obtain okc net1 c1 where con: "connectToServer net c = Some (okc, net1, c1)"
    using assms by (auto simp: sendResultsToServer_def split: option.splits)
  note frame = connectToServer_frame [OF con]
  show ?thesis
  proof (cases okc)
    case True
    then have c1: "c1 = c" using frame by simp
    from assms False con True obtain b net2 where net1: "net1 = Sent b # net2"
      by (auto simp: sendResultsToServer_def split: list.splits net.splits)
    show ?thesis
    proof (cases b)
      case True
      then have "send_results (unat (the (job_size (results_msg c)))) net2 c = Some (ok, sent, net', c')"
        using assms False con \<open>okc\<close> net1 c1 by (simp add: sendResultsToServer_def)
      from send_results_prefix [OF this] have pre: "m_results c = sent @ m_results c'" and c': "c' = c\<lparr>m_results := m_results c'\<rparr>" by simp_all
      have "m_job_throughput c' = m_job_throughput c" "m_parameters c' = m_parameters c" "m_connect_failed c' = m_connect_failed c"
        by (subst c', simp)+
      with pre frame \<open>okc\<close> show ?thesis by simp
    next
      case False
      then show ?thesis using assms \<open>m_results c \<noteq> []\<close> con \<open>okc\<close> net1 c1 by (auto simp: sendResultsToServer_def)
    qed
  next
    case False
    then show ?thesis using assms \<open>m_results c \<noteq> []\<close> con frame by (auto simp: sendResultsToServer_def)
  qed
qed

lemma hand_out_frame:
  "hand_out cmd exp c = (cmd', exp', c') \<Longrightarrow>
    m_results c' = m_results c \<and> m_job_throughput c' = m_job_throughput c \<and> m_connect_failed c' = m_connect_failed c"
  by (auto simp: hand_out_def split: list.splits)

lemma receive_work_frame:
  "receive_work net exp c = Some (cmd, exp', net', c') \<Longrightarrow>
    m_results c' = m_results c \<and> m_job_throughput c' = m_job_throughput c \<and> m_connect_failed c' = m_connect_failed c"
  by (auto simp: receive_work_def Let_def dest!: hand_out_frame split: list.splits net.splits option.splits if_splits bool.splits prod.splits)

lemma tryToGet_frame:
  "tryToGetExperimentData net exp c = Some (cmd, exp', net', c') \<Longrightarrow>
    m_results c' = m_results c \<and> m_job_throughput c' = m_job_throughput c \<and> (m_connect_failed c \<longrightarrow> m_connect_failed c')"
  by (auto simp: tryToGetExperimentData_def dest!: hand_out_frame receive_work_frame connectToServer_frame
      split: list.splits net.splits option.splits if_splits bool.splits prod.splits)

lemma getParam_frame:
  assumes "getParam net exp c = Some (ok, exp', net', c')"
  shows "m_results c' = m_results c \<and> m_job_throughput c' = m_job_throughput c \<and> (m_connect_failed c \<longrightarrow> m_connect_failed c')"
proof -
  have "case r of (ok, exp', net', c') \<Rightarrow>
      m_results c' = m_results c \<and> m_job_throughput c' = m_job_throughput c \<and> (m_connect_failed c \<longrightarrow> m_connect_failed c')"
    if "getParam net exp c = Some r" for net exp c and r :: "bool \<times> 'a ExperimentData \<times> 'a net list \<times> 'a JobClient"
  proof (rule getParam.raw_induct [where P = "\<lambda>net exp c r. case r of (ok, exp', net', c') \<Rightarrow>
      m_results c' = m_results c \<and> m_job_throughput c' = m_job_throughput c \<and> (m_connect_failed c \<longrightarrow> m_connect_failed c')", OF _ that])
    fix get and net :: "'a net list" and exp c and r :: "bool \<times> 'a ExperimentData \<times> 'a net list \<times> 'a JobClient"
    assume IH: "\<And>net exp c r. get net exp c = Some r \<Longrightarrow> case r of (ok, exp', net', c') \<Rightarrow>
      m_results c' = m_results c \<and> m_job_throughput c' = m_job_throughput c \<and> (m_connect_failed c \<longrightarrow> m_connect_failed c')"
      and r: "(if m_connect_failed c then Some (False, exp, net, c)
        else case tryToGetExperimentData net exp c of
             None \<Rightarrow> None
           | Some (cmd, exp', net', c') \<Rightarrow>
               (if cmd = WORK_FOLLOWS then Some (True, exp', net', c')
                else if cmd = COME_AGAIN then get net' exp' c'
                else Some (False, exp', net', c'))) = Some r"
    show "case r of (ok, exp', net', c') \<Rightarrow>
      m_results c' = m_results c \<and> m_job_throughput c' = m_job_throughput c \<and> (m_connect_failed c \<longrightarrow> m_connect_failed c')"
    proof (cases "m_connect_failed c")
      case True
      then show ?thesis using r by auto
    next
      case False
      then obtain cmd exp1 net1 c1 where t: "tryToGetExperimentData net exp c = Some (cmd, exp1, net1, c1)"
        using r by (auto split: option.splits)
      then show ?thesis using r False tryToGet_frame [OF t] IH [of net1 exp1 c1 r] by (auto split: if_splits prod.splits)
    qed
  qed
  from this [OF assms] show ?thesis by simp
qed

lemma limit_throughput_range: "1 \<le> limit_throughput t \<and> limit_throughput t \<le> CLIENT_JOB_LIMIT"
  by (simp add: limit_throughput_def CLIENT_JOB_LIMIT_def)

lemma log_inv_send:
  assumes inv: "log_inv l" and send: "sendResultsToServer net c = Some (ok, sent, net', c')"
    and c: "m_results c = m_results (client l) @ new" "m_connect_failed c = m_connect_failed (client l)"
      "1 \<le> m_job_throughput c \<and> m_job_throughput c \<le> CLIENT_JOB_LIMIT"
  shows "log_inv (l\<lparr>client := c', handed_over := handed_over l @ new, sent_back := sent_back l @ sent\<rparr>)"
proof -
  obtain rest where rest: "handed_over l = sent_back l @ rest" "\<not> m_connect_failed (client l) \<longrightarrow> rest = m_results (client l)"
    using inv by (auto simp: log_inv_def)
  note p = sendResultsToServer_prefix [OF send]
  show ?thesis
  proof (cases "m_connect_failed c'")
    case True
    then show ?thesis using p c(3) rest(1) by (simp add: log_inv_def)
  next
    case False
    then have "m_results c = sent @ m_results c'" "rest = m_results (client l)" using p c(2) rest(2) by auto
    then show ?thesis using p c(1,3) rest(1) by (simp add: log_inv_def)
  qed
qed

lemma client_step_inv:
  assumes inv: "log_inv l" and step: "client_step op l = Some l'"
  shows "log_inv l'"
proof (cases op)
  case (Get_param net exp)
  then obtain ok exp' net' c where g: "getParam net exp (client l) = Some (ok, exp', net', c)" "l' = l\<lparr>client := c\<rparr>" using step by auto
  then show ?thesis using getParam_frame [OF g(1)] inv by (auto simp: log_inv_def)
next
  case (Send_result late estimate r net)
  then obtain ok sent net' c where g: "sendResult late estimate r net (client l) = Some (ok, sent, net', c)"
      "l' = l\<lparr>client := c, handed_over := handed_over l @ [r], sent_back := sent_back l @ sent\<rparr>" using step by auto
  let ?c = "client l\<lparr>m_results := m_results (client l) @ [r]\<rparr>"
  consider "sendResultsToServer net ?c = Some (ok, sent, net', c)" | "sent = []" "c = ?c"
    | "sendResultsToServer net (?c\<lparr>m_job_throughput := limit_throughput estimate\<rparr>) = Some (ok, sent, net', c)"
    using g(1) by (auto simp: sendResult_def Let_def split: if_splits)
  then show ?thesis
  proof cases
    case 1
    from log_inv_send [OF inv 1, of "[r]"] inv g(2) show ?thesis by (simp add: log_inv_def)
  next
    case 2
    then show ?thesis using inv g(2) by (auto simp: log_inv_def)
  next
    case 3
    from log_inv_send [OF inv 3, of "[r]"] limit_throughput_range g(2) show ?thesis by simp
  qed
next
  case (Destroy net)
  then obtain ok sent net' c where g: "sendResultsToServer net (client l) = Some (ok, sent, net', c)"
      "l' = l\<lparr>client := c, sent_back := sent_back l @ sent\<rparr>" using step by auto
  from log_inv_send [OF inv g(1), of "[]"] inv g(2) show ?thesis by (simp add: log_inv_def)
qed

lemma client_run_inv: "log_inv l \<Longrightarrow> client_run ops l = Some l' \<Longrightarrow> log_inv l'"
  by (induction ops arbitrary: l) (auto split: option.splits dest: client_step_inv)

text \<open>
  C11. The results whose \<open>sendMsg\<close> returned true at the client are an initial segment, in order, of the
  results the client was given; each leaves the client's list with that and is not sent again. Results
  that are neither sent in this sense nor still pending exist only after the server could not be
  reached in four attempts. This is what the client sees: whether a message that the local socket took
  arrives at the server is not decided here, and a result whose send was reported as failed is tried
  again. The number of jobs the client asks for stays between 1 and the limit.
\<close>

theorem client_sends_results_once:
  assumes "client_run ops log_new = Some l"
  shows "prefix (sent_back l) (handed_over l) \<and>
    (\<not> m_connect_failed (client l) \<longrightarrow> handed_over l = sent_back l @ m_results (client l)) \<and>
    1 \<le> uint (the (job_size (need_work_msg (client l)))) \<and> uint (the (job_size (need_work_msg (client l)))) \<le> CLIENT_JOB_LIMIT"
proof -
  have "log_inv log_new" by (simp add: log_inv_def log_new_def JobClient_new_def CLIENT_JOB_INITIAL_def CLIENT_JOB_LIMIT_def)
  from client_run_inv [OF this assms] have inv: "log_inv l" .
  then have t: "1 \<le> m_job_throughput (client l)" "m_job_throughput (client l) \<le> 1000" by (simp_all add: log_inv_def CLIENT_JOB_LIMIT_def)
  then have "uint (word_of_int (m_job_throughput (client l)) :: u32) = m_job_throughput (client l)"
    by (simp add: uint_word_of_int_eq take_bit_int_eq_self)
  with inv t show ?thesis by (auto simp: log_inv_def need_work_msg_def CLIENT_JOB_LIMIT_def)
qed

text \<open>Sending the first result fails; the next attempt sends it, but not the second one.\<close>

theorem client_sends_results_once_witness:
  "\<exists>l. client_run [Send_result False 7 \<lparr>msg = ''a'', m_workloadID = 3\<rparr> [Try_connect True, Sent True, Sent False],
      Send_result False 7 \<lparr>msg = ''b'', m_workloadID = 4\<rparr> [Try_connect True, Sent True, Sent True, Sent False]] log_new = Some l \<and>
    prefix (sent_back l) (handed_over l) \<and> map msg (sent_back l) = [''a''] \<and> map msg (m_results (client l)) = [''b'']"
proof -
  let ?ops = "[Send_result False 7 \<lparr>msg = ''a'', m_workloadID = 3\<rparr> [Try_connect True, Sent True, Sent False],
      Send_result False 7 \<lparr>msg = ''b'', m_workloadID = 4\<rparr> [Try_connect True, Sent True, Sent True, Sent False]]"
  obtain l where l: "client_run ?ops log_new = Some l" "map msg (sent_back l) = [''a'']" "map msg (m_results (client l)) = [''b'']"
    by (simp add: log_new_def JobClient_new_def sendResult_def sendResultsToServer_def connect_first results_count)
  show ?thesis by (intro exI [of _ l] conjI l client_sends_results_once [OF l(1), THEN conjunct1])
qed

end
