(* ===== verification/Client_Sessions.thy ===== *)
theory Client_Sessions
  imports Job_Client
begin

text \<open>
  Client and server together, on a network without failures: the server's coroutine answers what the
  client asks, and an experiment that keeps asking for jobs completes the campaign.
\<close>

section \<open>Connections without failures\<close>

text \<open>What a coroutine sends next.\<close>

fun outgoing :: "'m JobServer \<Rightarrow> coro \<Rightarrow> 'm net option" where
  "outgoing js (Send_die ctrlmsg) = Some (Got_ctrl ctrlmsg)"
| "outgoing js (Send_work ctrlmsg es) = Some (Got_ctrl ctrlmsg)"
| "outgoing js (Send_jobs (e # es)) = Some (Got_msg (msg (exps js e)))"
| "outgoing js (Send_second ctrlmsg e) = Some (Got_ctrl ctrlmsg)"
| "outgoing js (Resend e) = Some (Got_msg (msg (exps js e)))"
| "outgoing js _ = None"

fun left_to_send :: "coro \<Rightarrow> nat" where
  "left_to_send (Send_work _ es) = length es + 2"
| "left_to_send (Send_jobs es) = length es + 1"
| "left_to_send (Send_second _ _) = 2"
| "left_to_send (Resend _) = 1"
| "left_to_send (Send_die _) = 1"
| "left_to_send _ = 0"

lemma left_to_send_decreases: "outgoing js c = Some m \<Longrightarrow> coro_step js c Send_ok = Some (js', c') \<Longrightarrow> left_to_send c' < left_to_send c"
  by (induction js c rule: outgoing.induct) (auto split: option.splits)

function serve :: "'m JobServer \<Rightarrow> coro \<Rightarrow> 'm net list \<times> 'm JobServer" where
  "serve js c =
     (case outgoing js c of
        None \<Rightarrow> ([], js)
      | Some m \<Rightarrow>
          (case coro_step js c Send_ok of
             None \<Rightarrow> ([m], js)
           | Some (js', c') \<Rightarrow> (let (ms, js'') = serve js' c' in (m # ms, js''))))"
  by pat_completeness auto
termination
  by (relation "measure (\<lambda>(js, c). left_to_send c)") (auto dest: left_to_send_decreases)

declare serve.simps [simp del]

fun accept :: "'m JobServer \<Rightarrow> coro \<Rightarrow> 'm list \<Rightarrow> ('m JobServer \<times> coro) option" where
  "accept js c [] = Some (js, c)"
| "accept js c (m # ms) = (case coro_step js c (Rcv_msg m) of None \<Rightarrow> None | Some (js', c') \<Rightarrow> accept js' c' ms)"

definition get_session ::
  "'m JobServer \<Rightarrow> 'm ExperimentData \<Rightarrow> 'm JobClient \<Rightarrow> (Command \<times> 'm ExperimentData \<times> 'm JobServer \<times> 'm JobClient) option" where
  "get_session js exp c =
     (if m_parameters c \<noteq> [] then map_option (\<lambda>(cmd, exp', net, c'). (cmd, exp', js, c')) (tryToGetExperimentData [] exp c)
      else case coro_step js Await_ctrl (Rcv_ctrl (need_work_msg c)) of
             None \<Rightarrow> None
           | Some (js1, co) \<Rightarrow>
               (case serve js1 co of (ms, js2) \<Rightarrow>
                  map_option (\<lambda>(cmd, exp', net, c'). (cmd, exp', js2, c'))
                    (tryToGetExperimentData (Try_connect True # Sent True # ms) exp c)))"

definition send_session ::
  "bool \<Rightarrow> int \<Rightarrow> 'm ExperimentData \<Rightarrow> 'm JobServer \<Rightarrow> 'm JobClient \<Rightarrow> ('m JobServer \<times> 'm JobClient) option" where
  "send_session late estimate r js c =
     (if m_parameters c \<noteq> [] \<and> \<not> late
      then map_option (\<lambda>(ok, sent, net, c'). (js, c')) (sendResult late estimate r [] c)
      else let c1 = c\<lparr>m_results := m_results c @ [r]\<rparr>
           in case coro_step js Await_ctrl (Rcv_ctrl (results_msg c1)) of
                None \<Rightarrow> None
              | Some (js1, co) \<Rightarrow>
                  (case sendResult late estimate r (Try_connect True # Sent True # replicate (length (m_results c1)) (Sent True)) c of
                     None \<Rightarrow> None
                   | Some (ok, sent, net, c') \<Rightarrow> map_option (\<lambda>(js2, co'). (js2, c')) (accept js1 co (map msg sent))))"

text \<open>
  An experiment \<open>f\<close> that asks for jobs until there are none. \<open>clock\<close> says for each job whether the time is
  over and what the new estimate of the throughput is; the number bounds the jobs and retries.
\<close>

fun minion :: "('m \<Rightarrow> 'm) \<Rightarrow> nat \<Rightarrow> (nat \<Rightarrow> bool \<times> int) \<Rightarrow> 'm ExperimentData \<Rightarrow> 'm JobServer \<Rightarrow> 'm JobClient \<Rightarrow>
    ('m JobServer \<times> 'm JobClient) option" where
  "minion f 0 clock exp js c = None"
| "minion f (Suc n) clock exp js c =
     (case get_session js exp c of
        None \<Rightarrow> None
      | Some (WORK_FOLLOWS, exp', js1, c1) \<Rightarrow>
          (case send_session (fst (clock n)) (snd (clock n)) (exp'\<lparr>msg := f (msg exp')\<rparr>) js1 c1 of
             None \<Rightarrow> None
           | Some (js2, c2) \<Rightarrow> minion f n clock exp' js2 c2)
      | Some (COME_AGAIN, exp', js1, c1) \<Rightarrow> minion f n clock exp' js1 c1
      | Some (cmd, exp', js1, c1) \<Rightarrow> Some (js1, c1))"

section \<open>Handing over a batch of jobs\<close>

lemma fetch_jobs_words:
  "m_counter js = of_nat n0 \<Longrightarrow> n0 + length (fst (fetch_jobs n js)) < 2 ^ 32 \<Longrightarrow>
    fst (snd (fetch_jobs n js)) = map of_nat [Suc n0..<Suc n0 + length (fst (fetch_jobs n js))]"
proof (induction n arbitrary: js n0)
  case (Suc n)
  show ?case
  proof (cases "Dequeue_nb (m_undoneJobs js)")
    case (Some p)
    obtain e q where p: "p = (e, q)" by fastforce
    define js1 where "js1 = js\<lparr>m_undoneJobs := q, m_counter := m_counter js + 1,
       exps := (exps js)(e := (exps js e)\<lparr>m_workloadID := m_counter js + 1\<rparr>)\<rparr>"
    have step: "fetch_jobs (Suc n) js =
       (e # fst (fetch_jobs n js1), (m_counter js + 1) # fst (snd (fetch_jobs n js1)), snd (snd (fetch_jobs n js1)))"
      unfolding js1_def by (rule fetch_jobs_step) (simp add: Some p)
    have "m_counter js1 = of_nat (Suc n0)" using Suc.prems(1) by (simp add: js1_def)
    from Suc.IH [OF this] Suc.prems(2)
    have "fst (snd (fetch_jobs n js1)) = map of_nat [Suc (Suc n0)..<Suc (Suc n0) + length (fst (fetch_jobs n js1))]" unfolding step by simp
    then show ?thesis unfolding step using Suc.prems(1)
      by (simp add: upt_conv_Cons del: upt_Suc)
  qed simp
qed simp

lemma sorted_put_last: "\<forall>p \<in> set xs. fst p < k \<Longrightarrow> sorted_put k v xs = xs @ [(k, v)]"
proof (induction xs)
  case (Cons p xs)
  then show ?case by (cases p) (auto dest: less_imp_not_less)
qed simp

lemma serve_jobs:
  assumes "es \<noteq> []" and "sorted_wrt (<) (map fst (m_map (m_runningJobs js)) @ map (wid (exps js)) es)"
  shows "serve js (Send_jobs es) = (map (\<lambda>e. Got_msg (msg (exps js e))) es,
    js\<lparr>m_runningJobs := (m_runningJobs js)\<lparr>m_map := m_map (m_runningJobs js) @ map (\<lambda>e. (wid (exps js) e, e)) es\<rparr>\<rparr>)"
  using assms
proof (induction es arbitrary: js)
  case (Cons e es)
  let ?m = "m_runningJobs js"
  have less: "\<forall>p \<in> set (m_map ?m). fst p < wid (exps js) e" using Cons.prems(2) by (auto simp: sorted_wrt_append)
  then have "map_of (m_map ?m) (wid (exps js) e) = None" by (auto simp: map_of_eq_None_iff)
  then have ins: "snd (smap_insert (wid (exps js) e) e ?m) = ?m\<lparr>m_map := m_map ?m @ [(wid (exps js) e, e)]\<rparr>"
    by (simp add: smap_insert_def sorted_put_last [OF less])
  let ?js = "js\<lparr>m_runningJobs := ?m\<lparr>m_map := m_map ?m @ [(wid (exps js) e, e)]\<rparr>\<rparr>"
  have out: "serve js (Send_jobs (e # es)) =
      (let (ms, js') = serve ?js (if es = [] then Terminated else Send_jobs es) in (Got_msg (msg (exps js e)) # ms, js'))"
    by (subst serve.simps) (simp add: ins)
  show ?case
  proof (cases "es = []")
    case True
    then show ?thesis unfolding out by (simp add: serve.simps [of _ Terminated])
  next
    case False
    have "sorted_wrt (<) (map fst (m_map (m_runningJobs ?js)) @ map (wid (exps ?js)) es)" using Cons.prems(2) by (simp add: sorted_wrt_append)
    from Cons.IH [OF False this] show ?thesis unfolding out using False by simp
  qed
qed simp

lemma rcv_jobs_all:
  "length ids = length ms \<Longrightarrow>
    rcv_jobs (length ms) ids (map Got_msg ms @ net) params = Some (True, net, params @ map2 (\<lambda>m i. \<lparr>msg = m, m_workloadID = i\<rparr>) ms ids)"
proof (induction ms arbitrary: ids params)
  case (Cons m ms)
  then obtain i ids' where "ids = i # ids'" by (cases ids) auto
  with Cons show ?case by simp
qed simp

section \<open>The jobs on their way\<close>

text \<open>
  The jobs in order: \<open>P\<close> are done, the client has results for \<open>R\<close> and still has to do \<open>Q\<close>, \<open>U\<close> were not sent yet.
\<close>

definition server_inv ::
  "('m \<Rightarrow> 'm) \<Rightarrow> (exp_ptr \<Rightarrow> 'm) \<Rightarrow> exp_ptr list \<Rightarrow> exp_ptr list \<Rightarrow> exp_ptr list \<Rightarrow> 'm JobServer \<Rightarrow> bool" where
  "server_inv f orig P S U js \<longleftrightarrow>
     m_queue (m_undoneJobs js) = U \<and> m_queue (m_doneJobs js) = P \<and> capacity (m_doneJobs js) = 0 \<and>
     m_map (m_runningJobs js) = map (\<lambda>e. (wid (exps js) e, e)) S \<and> sorted_wrt (<) (map (wid (exps js)) S) \<and>
     unat (m_counter js) + length U < 2 ^ 32 \<and> distinct (P @ S @ U) \<and> noMoreExps js \<and>
     (\<forall>e \<in> set P. msg (exps js e) = f (orig e)) \<and> (\<forall>e \<in> set (S @ U). msg (exps js e) = orig e) \<and>
     (S = [] \<and> U = [] \<longrightarrow> finished (m_doneJobs js))"

definition client_inv ::
  "('m \<Rightarrow> 'm) \<Rightarrow> (exp_ptr \<Rightarrow> 'm) \<Rightarrow> exp_ptr list \<Rightarrow> exp_ptr list \<Rightarrow> 'm JobServer \<Rightarrow> 'm JobClient \<Rightarrow> bool" where
  "client_inv f orig R Q js c \<longleftrightarrow>
     m_parameters c = map (exps js) Q \<and> m_results c = map (\<lambda>e. (exps js e)\<lparr>msg := f (orig e)\<rparr>) R \<and>
     \<not> m_connect_failed c \<and> m_server_runid c \<in> {0, m_runid js} \<and> (R @ Q \<noteq> [] \<longrightarrow> m_server_runid c = m_runid js) \<and>
     1 \<le> m_job_throughput c \<and> m_job_throughput c \<le> CLIENT_JOB_LIMIT"

lemma throughput_size:
  assumes "client_inv f orig R Q js c"
  shows "0 < unat (the (job_size (need_work_msg c)))"
proof -
  have t: "1 \<le> m_job_throughput c" "m_job_throughput c \<le> 1000" using assms by (simp_all add: client_inv_def CLIENT_JOB_LIMIT_def)
  then have "uint (word_of_int (m_job_throughput c) :: u32) = m_job_throughput c" by (simp add: uint_word_of_int_eq take_bit_int_eq_self)
  then have "0 < uint (word_of_int (m_job_throughput c) :: u32)" using t by simp
  then have "(word_of_int (m_job_throughput c) :: u32) \<noteq> 0" by auto
  then show ?thesis by (simp add: need_work_msg_def unat_gt_0)
qed

lemma need_work_dispatch:
  assumes "client_inv f orig R Q js c"
  shows "coro_step js Await_ctrl (Rcv_ctrl (need_work_msg c)) = Some (sendPendingExperimentData (the (job_size (need_work_msg c))) js)"
  using assms by (auto simp: client_inv_def dispatch_def need_work_msg_def)

lemma fetch_batch:
  assumes inv: "server_inv f orig P [] U js" and n: "0 < unat n" and U: "U \<noteq> []"
  shows "\<exists>js' ctrlmsg. sendPendingExperimentData n js = (js', Send_work ctrlmsg (take (unat n) U)) \<and>
    command ctrlmsg = WORK_FOLLOWS \<and> run_id ctrlmsg = Some (m_runid js) \<and> workloadid ctrlmsg = map (wid (exps js')) (take (unat n) U) \<and>
    (\<exists>k. job_size ctrlmsg = Some k \<and> unat k = length (take (unat n) U)) \<and> m_runid js' = m_runid js \<and>
    server_inv f orig P (take (unat n) U) (drop (unat n) U)
      (js'\<lparr>m_runningJobs := (m_runningJobs js')\<lparr>m_map := map (\<lambda>e. (wid (exps js') e, e)) (take (unat n) U)\<rparr>\<rparr>) \<and>
    m_map (m_runningJobs js') = [] \<and> sorted_wrt (<) (map (wid (exps js')) (take (unat n) U))"
proof -
  let ?es = "fst (fetch_jobs (unat n) js)" and ?js = "snd (snd (fetch_jobs (unat n) js))"
  have i: "m_queue (m_undoneJobs js) = U" "m_map (m_runningJobs js) = []" "unat (m_counter js) + length U < 2 ^ 32" "distinct (P @ U)"
    using inv by (simp_all add: server_inv_def)
  have es: "?es = take (unat n) U" and rest: "m_queue (m_undoneJobs ?js) = drop (unat n) U" by (simp_all add: fetch_jobs_queue i(1))
  have ne: "?es \<noteq> []" using n U by (simp add: es)
  have cnt: "m_counter js = of_nat (unat (m_counter js))" by simp
  have len: "unat (m_counter js) + length ?es < 2 ^ 32" using i(3) by (simp add: es)
  have ids: "fst (snd (fetch_jobs (unat n) js)) = map (wid (exps ?js)) ?es"
    using fetch_jobs_ids [of js "unat (m_counter js)" "{}" "unat n"] i(1,4) len by (simp add: ids_ok_def)
  have "map (wid (exps ?js)) ?es = map of_nat [Suc (unat (m_counter js))..<Suc (unat (m_counter js)) + length ?es]"
    using fetch_jobs_words [OF cnt len] ids by simp
  moreover have asc: "sorted_wrt (<) (map (of_nat :: nat \<Rightarrow> u32) [a..<b])" if "b \<le> 2 ^ 32" for a b
    using that unfolding sorted_wrt_map
    by (intro sorted_wrt_mono_rel [OF _ sorted_wrt_upt]) (simp add: word_less_nat_alt unat_of_nat_u32)
  have "Suc (unat (m_counter js)) + length ?es \<le> 2 ^ 32" using len by simp
  ultimately have sorted: "sorted_wrt (<) (map (wid (exps ?js)) ?es)" using asc by metis
  note fr = fetch_jobs_frame [of "unat n" js]
  have cnt': "unat (m_counter ?js) = unat (m_counter js) + length ?es"
    using fr unat_of_nat_u32 [OF len] cnt by (metis of_nat_add)
  have msgs: "msg (exps ?js e) = msg (exps js e)" for e using fetch_jobs_exps [of e "unat n" js] by simp
  have U': "set U = set ?es \<union> set (drop (unat n) U)" unfolding es by (metis append_take_drop_id set_append)
  have "unat (m_counter ?js) + length (drop (unat n) U) < 2 ^ 32" unfolding cnt' using i(3) by (simp add: es)
  moreover have "distinct (P @ ?es @ drop (unat n) U)" unfolding es using i(4) by simp
  ultimately have "server_inv f orig P ?es (drop (unat n) U) (?js\<lparr>m_runningJobs := (m_runningJobs ?js)\<lparr>m_map := map (\<lambda>e. (wid (exps ?js) e, e)) ?es\<rparr>\<rparr>)"
    using inv rest sorted fr ne U' by (auto simp: server_inv_def msgs)
  moreover have "unat (of_nat (length ?es) :: u32) = length ?es" using len by (intro unat_of_nat_u32) simp
  moreover have "sendPendingExperimentData n js = (?js, Send_work \<lparr>command = WORK_FOLLOWS, workloadid = map (wid (exps ?js)) ?es,
      build_id = 42, run_id = Some (m_runid js), job_size = Some (of_nat (length ?es))\<rparr> ?es)"
    using ne ids unfolding sendPendingExperimentData_def by (simp add: case_prod_beta Let_def)
  ultimately show ?thesis using fr i(2) sorted unfolding es by auto
qed

lemma get_session_fetch:
  assumes sinv: "server_inv f orig P [] U js" and cinv: "client_inv f orig [] [] js c" and U: "U \<noteq> []"
  shows "\<exists>e Q V js' c'. U = e # Q @ V \<and> get_session js exp c = Some (WORK_FOLLOWS, exps js' e, js', c') \<and>
    server_inv f orig P (e # Q) V js' \<and> client_inv f orig [] Q js' c' \<and> m_server_runid c' = m_runid js'"
proof -
  let ?n = "the (job_size (need_work_msg c))"
  let ?es = "take (unat ?n) U"
  obtain js1 ctrlmsg k where b: "sendPendingExperimentData ?n js = (js1, Send_work ctrlmsg ?es)" "command ctrlmsg = WORK_FOLLOWS"
      "run_id ctrlmsg = Some (m_runid js)" "workloadid ctrlmsg = map (wid (exps js1)) ?es" "job_size ctrlmsg = Some k" "unat k = length ?es"
      "m_runid js1 = m_runid js" "m_map (m_runningJobs js1) = []" "sorted_wrt (<) (map (wid (exps js1)) ?es)"
    and inv1: "server_inv f orig P ?es (drop (unat ?n) U)
      (js1\<lparr>m_runningJobs := (m_runningJobs js1)\<lparr>m_map := map (\<lambda>e. (wid (exps js1) e, e)) ?es\<rparr>\<rparr>)"
    using fetch_batch [OF sinv throughput_size [OF cinv] U] by blast
  define js2 where "js2 = js1\<lparr>m_runningJobs := (m_runningJobs js1)\<lparr>m_map := map (\<lambda>e. (wid (exps js1) e, e)) ?es\<rparr>\<rparr>"
  have js2: "exps js2 = exps js1" "m_runid js2 = m_runid js" by (simp_all add: js2_def b(7))
  obtain e Q where es: "?es = e # Q" using U throughput_size [OF cinv] by (cases ?es) auto
  have "serve js1 (Send_jobs ?es) = (map Got_msg (map (\<lambda>e. msg (exps js1 e)) ?es), js2)"
    using serve_jobs [of ?es js1] b(8,9) es by (simp add: comp_def js2_def)
  then have serve: "serve js1 (Send_work ctrlmsg ?es) = (Got_ctrl ctrlmsg # map Got_msg (map (\<lambda>e. msg (exps js1 e)) ?es), js2)"
    by (subst serve.simps) simp
  have jobs: "map2 (\<lambda>m i. \<lparr>msg = m, m_workloadID = i\<rparr>) (map (\<lambda>e. msg (exps js1 e)) ?es) (map (wid (exps js1)) ?es) = map (exps js1) ?es"
    by (simp add: zip_map_map zip_same_conv_map comp_def)
  have rcv: "rcv_jobs (length ?es) (map (wid (exps js1)) ?es) (map Got_msg (map (\<lambda>e. msg (exps js1 e)) ?es)) [] = Some (True, [], map (exps js1) ?es)"
    using rcv_jobs_all [of "map (wid (exps js1)) ?es" "map (\<lambda>e. msg (exps js1 e)) ?es" "[]" "[]"] unfolding jobs by simp
  let ?c' = "c\<lparr>m_server_runid := m_runid js, m_parameters := map (exps js1) Q\<rparr>"
  have c: "m_parameters c = []" "\<not> m_connect_failed c" using cinv by (simp_all add: client_inv_def)
  have "receive_work (Got_ctrl ctrlmsg # map Got_msg (map (\<lambda>e. msg (exps js1 e)) ?es)) exp c = Some (WORK_FOLLOWS, exps js1 e, [], ?c')"
    unfolding receive_work_def using b(2-6) rcv es by (simp add: hand_out_def)
  then have "tryToGetExperimentData (Try_connect True # Sent True # Got_ctrl ctrlmsg # map Got_msg (map (\<lambda>e. msg (exps js1 e)) ?es)) exp c =
      Some (WORK_FOLLOWS, exps js1 e, [], ?c')"
    using c by (simp add: tryToGetExperimentData_def connect_first)
  then have "get_session js exp c = Some (WORK_FOLLOWS, exps js2 e, js2, ?c')"
    using c(1) need_work_dispatch [OF cinv] b(1) serve by (simp add: get_session_def js2(1))
  moreover have "U = e # Q @ drop (unat ?n) U" using es by (metis append_Cons append_take_drop_id)
  moreover have "client_inv f orig [] Q js2 ?c'" using cinv js2 by (simp add: client_inv_def)
  moreover have "server_inv f orig P (e # Q) (drop (unat ?n) U) js2" using inv1 [folded js2_def] unfolding es .
  moreover have "m_server_runid ?c' = m_runid js2" by (simp add: js2(2))
  ultimately show ?thesis by blast
qed

lemma get_session_local:
  assumes "client_inv f orig R (e # Q) js c"
  shows "\<exists>c'. get_session js exp c = Some (WORK_FOLLOWS, exps js e, js, c') \<and> client_inv f orig R Q js c' \<and> m_server_runid c' = m_runid js"
  using assms by (auto simp: get_session_def tryToGetExperimentData_def hand_out_def client_inv_def)

lemma get_session_end:
  assumes sinv: "server_inv f orig P [] [] js" and cinv: "client_inv f orig [] [] js c"
  shows "\<exists>cmd exp' js' c'. get_session js exp c = Some (cmd, exp', js', c') \<and> cmd = DIE \<and> server_inv f orig P [] [] js'"
proof -
  let ?n = "the (job_size (need_work_msg c))"
  have q: "m_queue (m_undoneJobs js) = []" "m_map (m_runningJobs js) = []" "noMoreExps js" using sinv by (simp_all add: server_inv_def)
  then have "Dequeue_nb (m_undoneJobs js) = None" by (simp add: Dequeue_nb_None_iff)
  then have f: "fetch_jobs (unat ?n) js = ([], [], js)" by (cases "unat ?n") simp_all
  have p: "pickone (m_runningJobs js) = (None, m_runningJobs js)" by (simp add: pickone_def smap_Size_def q(2))
  let ?m = "\<lparr>command = DIE, workloadid = [], build_id = 42, run_id = Some (m_runid js), job_size = None\<rparr>"
  have send: "sendPendingExperimentData ?n js = (js, Send_second ?m None)"
    by (simp add: sendPendingExperimentData_def f p q(3) noMoreExperiments_def)
  have serve: "serve js (Send_second ?m None) = ([Got_ctrl ?m], js)"
    by (subst serve.simps) (simp add: serve.simps [of js Terminated])
  have c: "m_parameters c = []" "\<not> m_connect_failed c" using cinv by (simp_all add: client_inv_def)
  then have "tryToGetExperimentData (Try_connect True # Sent True # [Got_ctrl ?m]) exp c = Some (DIE, exp, [], c\<lparr>m_server_runid := m_runid js\<rparr>)"
    by (simp add: tryToGetExperimentData_def connect_first receive_work_def hand_out_def)
  then show ?thesis using c(1) need_work_dispatch [OF cinv] send serve sinv by (simp add: get_session_def)
qed

section \<open>Sending results back\<close>

lemma take_ids_front:
  assumes "distinct (map w (es @ qs))" and "m_map m = map (\<lambda>e. (w e, e)) (es @ qs)"
  shows "take_ids smap_remove (map w es) m = (map (\<lambda>e. (Some e, w e)) es, m\<lparr>m_map := map (\<lambda>e. (w e, e)) qs\<rparr>)"
  using assms
proof (induction es arbitrary: m)
  case (Cons e es)
  have "filter (\<lambda>p. fst p \<noteq> w e) (map (\<lambda>e. (w e, e)) (es @ qs)) = map (\<lambda>e. (w e, e)) (es @ qs)"
    using Cons.prems(1) by (intro filter_True) (auto simp: image_iff)
  then have "smap_remove (w e) m = Some (e, m\<lparr>m_map := map (\<lambda>e. (w e, e)) (es @ qs)\<rparr>)"
    using Cons.prems(2) by (simp add: smap_remove_def key_erase_def)
  then show ?case using Cons.IH [of "m\<lparr>m_map := map (\<lambda>e. (w e, e)) (es @ qs)\<rparr>"] Cons.prems(1) by simp
qed simp

lemma store_results_all:
  assumes "capacity (m_doneJobs js) = 0"
  shows "store_results (map (\<lambda>e. (e, w e, True)) es) js = Some (js\<lparr>m_doneJobs := (m_doneJobs js)\<lparr>m_queue := m_queue (m_doneJobs js) @ es\<rparr>\<rparr>)"
  using assms by (induction es arbitrary: js) (simp_all add: Enqueue_def)

text \<open>The server after it has read the results \<open>g e\<close> of the jobs \<open>es\<close>.\<close>

definition read_results :: "(exp_ptr \<Rightarrow> 'm) \<Rightarrow> exp_ptr list \<Rightarrow> 'm JobServer \<Rightarrow> 'm JobServer" where
  "read_results g es js =
     js\<lparr>exps := (\<lambda>e. if e \<in> set es then (exps js e)\<lparr>msg := g e\<rparr> else exps js e), m_DoneCount := m_DoneCount js + of_nat (length es)\<rparr>"

lemma read_results_fields [simp]:
  "m_doneJobs (read_results g es js) = m_doneJobs js" "m_undoneJobs (read_results g es js) = m_undoneJobs js"
  "m_runningJobs (read_results g es js) = m_runningJobs js" "m_counter (read_results g es js) = m_counter js"
  "noMoreExps (read_results g es js) = noMoreExps js" "m_runid (read_results g es js) = m_runid js"
  by (simp_all add: read_results_def)

lemma read_results_Cons:
  "read_results g es (js\<lparr>exps := (exps js)(e := (exps js e)\<lparr>msg := g e\<rparr>), m_DoneCount := m_DoneCount js + 1\<rparr>) = read_results g (e # es) js"
  by (simp add: read_results_def fun_eq_iff add.assoc)

lemma accept_all:
  assumes "capacity (m_doneJobs js) = 0" and "es \<noteq> []"
  shows "accept js (Receive (map (\<lambda>e. (Some e, w e)) es) (map (\<lambda>e. (e, w e, True)) ds)) (map g es) =
    Some (check_complete ((read_results g es js)\<lparr>m_doneJobs := (m_doneJobs js)\<lparr>m_queue := m_queue (m_doneJobs js) @ ds @ es\<rparr>\<rparr>), Terminated)"
  using assms
proof (induction es arbitrary: js ds)
  case (Cons e es)
  let ?js = "js\<lparr>exps := (exps js)(e := (exps js e)\<lparr>msg := g e\<rparr>), m_DoneCount := m_DoneCount js + 1\<rparr>"
  show ?case
  proof (cases "es = []")
    case True
    have "store_results (map (\<lambda>e. (e, w e, True)) (ds @ [e])) ?js =
        Some (?js\<lparr>m_doneJobs := (m_doneJobs ?js)\<lparr>m_queue := m_queue (m_doneJobs ?js) @ ds @ [e]\<rparr>\<rparr>)"
      using store_results_all [of ?js w "ds @ [e]"] Cons.prems(1) by simp
    moreover have "(exps js)(e := (exps js e)\<lparr>msg := g e\<rparr>) = (\<lambda>e'. if e' \<in> set [e] then (exps js e')\<lparr>msg := g e'\<rparr> else exps js e')" by auto
    then have "?js = read_results g [e] js" by (simp add: read_results_def)
    ultimately show ?thesis using True by (simp add: receive_one_def receive_next_def)
  next
    case False
    have "capacity (m_doneJobs ?js) = 0" using Cons.prems(1) by simp
    from Cons.IH [OF this False, of "ds @ [e]"] show ?thesis
      using False by (simp add: receive_one_def receive_next_def read_results_Cons)
  qed
qed simp

lemma send_results_all:
  "send_results (length (m_results c)) (replicate (length (m_results c)) (Sent True)) c = Some (True, m_results c, [], c\<lparr>m_results := []\<rparr>)"
proof (induction "m_results c" arbitrary: c)
  case (Cons r rs)
  then have rs: "m_results c = r # rs" by simp
  from Cons.hyps(1) [of "c\<lparr>m_results := rs\<rparr>"] show ?case unfolding rs by (simp add: rs)
qed simp

lemma sendResultsToServer_all:
  assumes "m_results c \<noteq> []" and "\<not> m_connect_failed c" and "length (m_results c) < 2 ^ 32"
  shows "sendResultsToServer (Try_connect True # Sent True # replicate (length (m_results c)) (Sent True)) c =
    Some (True, m_results c, [], c\<lparr>m_results := []\<rparr>)"
  using assms send_results_all [of c] by (simp add: sendResultsToServer_def connect_first results_count)

lemma check_complete_fields [simp]:
  "m_undoneJobs (check_complete js) = m_undoneJobs js" "m_runningJobs (check_complete js) = m_runningJobs js"
  "m_counter (check_complete js) = m_counter js" "noMoreExps (check_complete js) = noMoreExps js" "m_runid (check_complete js) = m_runid js"
  "exps (check_complete js) = exps js" "m_queue (m_doneJobs (check_complete js)) = m_queue (m_doneJobs js)"
  "capacity (m_doneJobs (check_complete js)) = capacity (m_doneJobs js)"
  by (simp_all add: check_complete_def setIsFinished_def)

lemma server_inv_results:
  assumes inv: "server_inv f orig P (D @ Q) U js"
  shows "server_inv f orig (P @ D) Q U (check_complete ((read_results (\<lambda>e. f (orig e)) D
    (js\<lparr>m_runningJobs := (m_runningJobs js)\<lparr>m_map := map (\<lambda>e. (wid (exps js) e, e)) Q\<rparr>\<rparr>))
    \<lparr>m_doneJobs := (m_doneJobs js)\<lparr>m_queue := m_queue (m_doneJobs js) @ D\<rparr>\<rparr>))" (is "server_inv _ _ _ _ _ (check_complete ?js)")
proof -
  have ex: "exps ?js e = (if e \<in> set D then (exps js e)\<lparr>msg := f (orig e)\<rparr> else exps js e)" for e by (simp add: read_results_def)
  have w: "wid (exps ?js) e = wid (exps js) e" for e by (simp add: read_results_def)
  have d: "distinct (P @ D @ Q @ U)" using inv by (simp add: server_inv_def)
  have msgs: "\<forall>e \<in> set (P @ D). msg (exps ?js e) = f (orig e)" "\<forall>e \<in> set (Q @ U). msg (exps ?js e) = orig e"
    unfolding ex using inv d by (auto simp: server_inv_def)
  have fin: "finished (m_doneJobs (check_complete ?js))" if "Q = []" "U = []"
    using that inv by (simp add: check_complete_def setIsFinished_def server_inv_def Size_def smap_Size_def noMoreExperiments_def)
  have s: "sorted_wrt (<) (map (wid (exps js)) Q)" using inv by (simp add: server_inv_def sorted_wrt_append)
  show ?thesis unfolding server_inv_def check_complete_fields w using inv d msgs fin s by (simp add: server_inv_def)
qed

lemma send_session_ok:
  assumes sinv: "server_inv f orig P (R @ e # Q) U js" and cinv: "client_inv f orig R Q js c" and runid: "m_server_runid c = m_runid js"
    and small: "length R < 2 ^ 32 - 1"
  shows "\<exists>js' c' P' R'. send_session late estimate ((exps js e)\<lparr>msg := f (msg (exps js e))\<rparr>) js c = Some (js', c') \<and> P' @ R' = P @ R @ [e] \<and>
    server_inv f orig P' (R' @ Q) U js' \<and> client_inv f orig R' Q js' c' \<and> (Q = [] \<longrightarrow> R' = []) \<and> length R' \<le> Suc (length R)"
proof -
  let ?r = "(exps js e)\<lparr>msg := f (msg (exps js e))\<rparr>" and ?D = "R @ [e]"
  have orig: "msg (exps js e) = orig e" using sinv by (simp add: server_inv_def)
  have res: "m_results c @ [?r] = map (\<lambda>e. (exps js e)\<lparr>msg := f (orig e)\<rparr>) ?D" using cinv orig by (simp add: client_inv_def)
  show ?thesis
  proof (cases "m_parameters c \<noteq> [] \<and> \<not> late")
    case True
    then have "send_session late estimate ?r js c = Some (js, c\<lparr>m_results := m_results c @ [?r]\<rparr>)"
      by (simp add: send_session_def sendResult_def)
    moreover have "client_inv f orig ?D Q js (c\<lparr>m_results := m_results c @ [?r]\<rparr>)" unfolding res using cinv runid by (simp add: client_inv_def)
    moreover have "Q \<noteq> []" using True cinv by (auto simp: client_inv_def)
    ultimately show ?thesis using sinv by (intro exI [of _ js] exI [of _ "c\<lparr>m_results := m_results c @ [?r]\<rparr>"] exI [of _ P] exI [of _ ?D]) simp
  next
    case False
    define c1 where "c1 = c\<lparr>m_results := m_results c @ [?r]\<rparr>"
    define c2 where "c2 = (if m_parameters c \<noteq> [] then c1 else c1\<lparr>m_job_throughput := limit_throughput estimate\<rparr>)"
    define js1 where "js1 = js\<lparr>m_runningJobs := (m_runningJobs js)\<lparr>m_map := map (\<lambda>e. (wid (exps js) e, e)) Q\<rparr>\<rparr>"
    define js2 where "js2 = check_complete ((read_results (\<lambda>e. f (orig e)) ?D js1)
      \<lparr>m_doneJobs := (m_doneJobs js)\<lparr>m_queue := m_queue (m_doneJobs js) @ ?D\<rparr>\<rparr>)"
    have r2: "m_results c2 = map (\<lambda>e. (exps js e)\<lparr>msg := f (orig e)\<rparr>) ?D" "m_results c1 = m_results c2" unfolding c2_def c1_def using res by simp_all
    have ok2: "m_results c2 \<noteq> []" "\<not> m_connect_failed c2" "length (m_results c2) < 2 ^ 32"
      using r2(1) cinv small by (simp_all add: c2_def c1_def client_inv_def)
    have "sendResult late estimate ?r net c = sendResultsToServer net c2" for net
      unfolding sendResult_def c2_def c1_def Let_def using False by auto
    then have send: "sendResult late estimate ?r (Try_connect True # Sent True # replicate (length (m_results c1)) (Sent True)) c =
        Some (True, m_results c2, [], c2\<lparr>m_results := []\<rparr>)" unfolding r2(2) using sendResultsToServer_all [OF ok2] by simp
    have "sorted_wrt (<) (map (wid (exps js)) (?D @ Q))" using sinv by (simp add: server_inv_def)
    then have "distinct (map (wid (exps js)) (?D @ Q))" unfolding strict_sorted_iff by (rule conjunct2)
    moreover have "m_map (m_runningJobs js) = map (\<lambda>e. (wid (exps js) e, e)) (?D @ Q)" using sinv by (simp add: server_inv_def)
    ultimately have take: "take_ids smap_remove (map (wid (exps js)) ?D) (m_runningJobs js) =
        (map (\<lambda>e. (Some e, wid (exps js) e)) ?D, m_runningJobs js1)" unfolding js1_def by (subst take_ids_front) simp_all
    have ids: "workloadid (results_msg c1) = map (wid (exps js)) ?D" "command (results_msg c1) = RESULT_FOLLOWS" "run_id (results_msg c1) = Some (m_runid js)"
      using r2 runid by (simp_all add: results_msg_def c1_def comp_def)
    have step: "coro_step js Await_ctrl (Rcv_ctrl (results_msg c1)) = Some (js1, Receive (map (\<lambda>e. (Some e, wid (exps js) e)) ?D) [])"
      using take by (simp add: dispatch_def ids receiveExperimentResults_def receive_next_def js1_def)
    have cap: "capacity (m_doneJobs js1) = 0" "m_doneJobs js1 = m_doneJobs js" using sinv by (simp_all add: js1_def server_inv_def)
    have "map msg (m_results c2) = map (\<lambda>e. f (orig e)) ?D" unfolding r2(1) by (simp add: comp_def)
    then have acc: "accept js1 (Receive (map (\<lambda>e. (Some e, wid (exps js) e)) ?D) []) (map msg (m_results c2)) = Some (js2, Terminated)"
      using accept_all [OF cap(1), of ?D "wid (exps js)" "[]" "\<lambda>e. f (orig e)"] by (simp add: js2_def cap(2))
    have "send_session late estimate ?r js c = Some (js2, c2\<lparr>m_results := []\<rparr>)"
      unfolding send_session_def if_not_P [OF False] Let_def c1_def [symmetric] step using send acc by simp
    moreover have "server_inv f orig (P @ ?D) Q U js2" unfolding js2_def js1_def using sinv by (intro server_inv_results) simp
    moreover have "set ?D \<inter> set Q = {}" using sinv by (auto simp: server_inv_def)
    then have "map (exps js2) Q = map (exps js) Q" by (auto simp: js2_def js1_def read_results_def)
    then have "client_inv f orig [] Q js2 (c2\<lparr>m_results := []\<rparr>)"
      using cinv runid limit_throughput_range [of estimate] by (auto simp: client_inv_def c2_def c1_def js2_def js1_def)
    ultimately show ?thesis by (intro exI [of _ js2] exI [of _ "c2\<lparr>m_results := []\<rparr>"] exI [of _ "P @ ?D"] exI [of _ "[]"]) simp
  qed
qed

section \<open>One client completes a campaign\<close>

text \<open>One round: the next job is fetched or taken from the batch, and its result is handed back.\<close>

lemma session_round:
  assumes sinv: "server_inv f orig P (R @ Q) U js" and cinv: "client_inv f orig R Q js c" and "Q = [] \<longrightarrow> R = []"
    and small: "length (R @ Q @ U) < 2 ^ 32 - 1" and "Q @ U \<noteq> []"
  shows "\<exists>e Q' V P' R' js1 c1 js2 c2. Q @ U = e # Q' @ V \<and> get_session js exp c = Some (WORK_FOLLOWS, exps js1 e, js1, c1) \<and> msg (exps js1 e) = orig e \<and>
    send_session late estimate ((exps js1 e)\<lparr>msg := f (msg (exps js1 e))\<rparr>) js1 c1 = Some (js2, c2) \<and> P' @ R' = P @ R @ [e] \<and>
    server_inv f orig P' (R' @ Q') V js2 \<and> client_inv f orig R' Q' js2 c2 \<and> (Q' = [] \<longrightarrow> R' = []) \<and> length (R' @ Q' @ V) < 2 ^ 32 - 1"
proof -
  have "\<exists>e Q' V js1 c1. Q @ U = e # Q' @ V \<and> get_session js exp c = Some (WORK_FOLLOWS, exps js1 e, js1, c1) \<and>
      server_inv f orig P (R @ e # Q') V js1 \<and> client_inv f orig R Q' js1 c1 \<and> m_server_runid c1 = m_runid js1"
  proof (cases Q)
    case Nil
    then have "R = []" "U \<noteq> []" using assms(3,5) by auto
    then show ?thesis using get_session_fetch [of f orig P U js c exp] sinv cinv Nil by simp
  next
    case (Cons e Q')
    then show ?thesis using get_session_local [of f orig R e Q' js c exp] sinv cinv by auto
  qed
  then obtain e Q' V js1 c1 where g: "Q @ U = e # Q' @ V" "get_session js exp c = Some (WORK_FOLLOWS, exps js1 e, js1, c1)"
      "server_inv f orig P (R @ e # Q') V js1" "client_inv f orig R Q' js1 c1" "m_server_runid c1 = m_runid js1" by blast
  have "length R < 2 ^ 32 - 1" using small by simp
  from send_session_ok [OF g(3-5) this]
  obtain js2 c2 P' R' where st: "send_session late estimate ((exps js1 e)\<lparr>msg := f (msg (exps js1 e))\<rparr>) js1 c1 = Some (js2, c2)"
      "P' @ R' = P @ R @ [e]" "server_inv f orig P' (R' @ Q') V js2" "client_inv f orig R' Q' js2 c2" "Q' = [] \<longrightarrow> R' = []" "length R' \<le> Suc (length R)"
    by blast
  have "length (R' @ Q' @ V) < 2 ^ 32 - 1" using arg_cong [OF g(1), of length] small st(6) by simp
  moreover have "msg (exps js1 e) = orig e" using g(3) by (simp add: server_inv_def)
  ultimately show ?thesis using g(1,2) st(1-5) by blast
qed

lemma minion_completes:
  "server_inv f orig P (R @ Q) U js \<Longrightarrow> client_inv f orig R Q js c \<Longrightarrow> (Q = [] \<longrightarrow> R = []) \<Longrightarrow> length (R @ Q @ U) < 2 ^ 32 - 1 \<Longrightarrow>
    \<exists>js' c'. minion f (Suc (length (Q @ U))) clock exp js c = Some (js', c') \<and> server_inv f orig (P @ R @ Q @ U) [] [] js'"
proof (induction "length (Q @ U)" arbitrary: P R Q U js c exp)
  case 0
  then have "Q = []" "U = []" "R = []" by simp_all
  with 0 obtain exp' js' c' where "get_session js exp c = Some (DIE, exp', js', c')" "server_inv f orig P [] [] js'"
    using get_session_end [of f orig P js c exp] by auto
  then show ?case using \<open>Q = []\<close> \<open>U = []\<close> \<open>R = []\<close> by simp
next
  case (Suc n)
  let ?k = "length (Q @ U)"
  have "Q @ U \<noteq> []" using Suc.hyps(2) by auto
  from session_round [OF Suc.prems this, of exp "fst (clock ?k)" "snd (clock ?k)"]
  obtain e Q' V P' R' js1 c1 js2 c2 where r: "Q @ U = e # Q' @ V" "get_session js exp c = Some (WORK_FOLLOWS, exps js1 e, js1, c1)"
      "send_session (fst (clock ?k)) (snd (clock ?k)) ((exps js1 e)\<lparr>msg := f (msg (exps js1 e))\<rparr>) js1 c1 = Some (js2, c2)" "P' @ R' = P @ R @ [e]"
      "server_inv f orig P' (R' @ Q') V js2" "client_inv f orig R' Q' js2 c2" "Q' = [] \<longrightarrow> R' = []" "length (R' @ Q' @ V) < 2 ^ 32 - 1" by blast
  have n: "n = length (Q' @ V)" "?k = Suc n" using Suc.hyps(2) arg_cong [OF r(1), of length] by simp_all
  obtain js' c' where m: "minion f (Suc (length (Q' @ V))) clock (exps js1 e) js2 c2 = Some (js', c')"
      "server_inv f orig (P' @ R' @ Q' @ V) [] [] js'" using Suc.hyps(1) [OF n(1) r(5-8)] by blast
  have all: "P' @ R' @ Q' @ V = P @ R @ Q @ U" using r(1,4) by (metis append.assoc append_Cons append_Nil)
  have "minion f (Suc ?k) clock exp js c = minion f ?k clock (exps js1 e) js2 c2" using r(2,3) by simp
  then have "minion f (Suc ?k) clock exp js c = Some (js', c')" unfolding n(2) using m(1) unfolding n(1) by (rule trans)
  then show ?case using m(2) unfolding all by blast
qed

lemma add_params:
  assumes "capacity (m_undoneJobs (server s)) = 0" and "distinct (map fst jobs)" and "fst ` set jobs \<inter> set (added s) = {}"
  shows "\<exists>s'. sys_run s (map (\<lambda>(e, m). AddParam e m) jobs) = Some s' \<and>
    m_queue (m_undoneJobs (server s')) = m_queue (m_undoneJobs (server s)) @ map fst jobs \<and>
    (\<forall>e. msg (exps (server s') e) = (if e \<in> fst ` set jobs then the (map_of jobs e) else msg (exps (server s) e))) \<and>
    m_doneJobs (server s') = m_doneJobs (server s) \<and> m_runningJobs (server s') = m_runningJobs (server s) \<and>
    m_counter (server s') = m_counter (server s) \<and> m_runid (server s') = m_runid (server s)"
  using assms
proof (induction jobs arbitrary: s)
  case (Cons j jobs)
  obtain e m where j: "j = (e, m)" by fastforce
  let ?q = "(m_undoneJobs (server s))\<lparr>m_queue := m_queue (m_undoneJobs (server s)) @ [e]\<rparr>"
  let ?js = "(server s)\<lparr>m_inOutCounter := snd (increment (m_inOutCounter (server s))), m_undoneJobs := ?q,
    exps := (exps (server s))(e := \<lparr>msg = m, m_workloadID = 0\<rparr>)\<rparr>"
  let ?s = "s\<lparr>server := ?js, added := added s @ [e]\<rparr>"
  have new: "e \<notin> set (added s)" using Cons.prems(3) j by auto
  have step: "sys_step s (AddParam e m) = Some ?s" using new Cons.prems(1) by (simp add: addParam_def Enqueue_def)
  have "distinct (map fst jobs)" "fst ` set jobs \<inter> set (added ?s) = {}" using Cons.prems(2,3) j by auto
  from Cons.IH [OF _ this] Cons.prems(1) obtain s' where s': "sys_run ?s (map (\<lambda>(e, m). AddParam e m) jobs) = Some s'"
      "m_queue (m_undoneJobs (server s')) = m_queue (m_undoneJobs (server s)) @ [e] @ map fst jobs"
      "\<forall>x. msg (exps (server s') x) = (if x \<in> fst ` set jobs then the (map_of jobs x) else msg (exps ?js x))"
      "m_doneJobs (server s') = m_doneJobs (server s)" "m_runningJobs (server s') = m_runningJobs (server s)"
      "m_counter (server s') = m_counter (server s)" "m_runid (server s') = m_runid (server s)" by auto
  have "e \<notin> fst ` set jobs" using Cons.prems(2) j by simp
  then have "\<forall>x. msg (exps (server s') x) = (if x \<in> fst ` set (j # jobs) then the (map_of (j # jobs) x) else msg (exps (server s) x))"
    using s'(3) j by simp
  then show ?case using s' step j by auto
qed auto

text \<open>A campaign's start: all jobs are handed to a fresh server and the end is announced.\<close>

lemma campaign_start:
  fixes m0 :: 'm
  assumes "distinct (map fst jobs)" and "length jobs < 2 ^ 32 - 1"
  shows "\<exists>s. sys_run (sys_new runid 0 m0) (map (\<lambda>(e, m). AddParam e m) jobs @ [SetNoMoreExperiments]) = Some s \<and>
    server_inv f (\<lambda>e. the (map_of jobs e)) [] [] (map fst jobs) (server s) \<and>
    client_inv f (\<lambda>e. the (map_of jobs e)) [] [] (server s) JobClient_new"
proof -
  let ?init = "sys_new runid 0 m0 :: 'm sys"
  have "capacity (m_undoneJobs (server ?init)) = 0" "fst ` set jobs \<inter> set (added ?init) = {}"
    by (simp_all add: sys_new_def JobServer_new_def SynchronizedQueue_new_def)
  from add_params [OF this(1) assms(1) this(2)] obtain s1 where s1: "sys_run ?init (map (\<lambda>(e, m). AddParam e m) jobs) = Some s1"
      "m_queue (m_undoneJobs (server s1)) = map fst jobs"
      "\<forall>e. msg (exps (server s1) e) = (if e \<in> fst ` set jobs then the (map_of jobs e) else m0)"
      "m_doneJobs (server s1) = SynchronizedQueue_new 0" "m_runningJobs (server s1) = SynchronizedMap_new" "m_counter (server s1) = 0"
    by (auto simp: sys_new_def JobServer_new_def SynchronizedQueue_new_def)
  let ?s = "s1\<lparr>server := setNoMoreExperiments (server s1)\<rparr>"
  have run_append: "sys_run s (xs @ [y]) = (case sys_run s xs of None \<Rightarrow> None | Some t \<Rightarrow> sys_run t [y])" for s :: "'m sys" and xs y
    by (induction xs arbitrary: s) (auto split: option.splits)
  have run: "sys_run ?init (map (\<lambda>(e, m). AddParam e m) jobs @ [SetNoMoreExperiments]) = Some ?s" by (simp add: run_append s1(1))
  define orig where "orig = (\<lambda>e. the (map_of jobs e))"
  have orig: "msg (exps (server s1) e) = orig e" if "e \<in> fst ` set jobs" for e
    using s1(3) that by (simp add: orig_def)
  have "server_inv f orig [] [] (map fst jobs) (setNoMoreExperiments (server s1))"
    using s1 assms orig by (auto simp: server_inv_def setNoMoreExperiments_def Let_def setIsFinished_def Size_def smap_Size_def
        SynchronizedQueue_new_def SynchronizedMap_new_def)
  moreover have "client_inv f orig [] [] (setNoMoreExperiments (server s1)) (JobClient_new :: 'm JobClient)"
    by (simp add: client_inv_def JobClient_new_def CLIENT_JOB_INITIAL_def CLIENT_JOB_LIMIT_def)
  ultimately show ?thesis using run unfolding orig_def by (intro exI [of _ ?s]) simp
qed

lemma server_inv_results_of:
  assumes "server_inv f (\<lambda>e. the (map_of jobs e)) P R U js" and "distinct (map fst jobs)" and "(e, m) \<in> set jobs" "e \<in> set P"
  shows "msg (exps js e) = f m"
  using assms by (simp add: server_inv_def)

text \<open>
  C9. On a network without failures one client completes the campaign, whatever its clock measures: when
  the server tells it to die, every job is done exactly once and in order, each with the result
  the experiment computed from its parameters, and the campaign is told that the results are complete.
\<close>

theorem client_completes_campaign:
  assumes "distinct (map fst jobs)" and "length jobs < 2 ^ 32 - 1"
  shows "\<exists>s js c. sys_run (sys_new runid 0 m0) (map (\<lambda>(e, m). AddParam e m) jobs @ [SetNoMoreExperiments]) = Some s \<and>
    minion f (Suc (length jobs)) clock exp (server s) JobClient_new = Some (js, c) \<and>
    m_queue (m_doneJobs js) = map fst jobs \<and> (\<forall>(e, m) \<in> set jobs. msg (exps js e) = f m) \<and>
    m_queue (m_undoneJobs js) = [] \<and> m_map (m_runningJobs js) = [] \<and> finished (m_doneJobs js)"
proof -
  let ?orig = "\<lambda>e. the (map_of jobs e)"
  obtain s where s: "sys_run (sys_new runid 0 m0) (map (\<lambda>(e, m). AddParam e m) jobs @ [SetNoMoreExperiments]) = Some s"
      "server_inv f ?orig [] [] (map fst jobs) (server s)" "client_inv f ?orig [] [] (server s) JobClient_new"
    using campaign_start [OF assms] by blast
  obtain js c where m: "minion f (Suc (length jobs)) clock exp (server s) JobClient_new = Some (js, c)" "server_inv f ?orig (map fst jobs) [] [] js"
    using minion_completes [of f ?orig "[]" "[]" "[]" "map fst jobs" "server s" JobClient_new clock exp] s(2,3) assms(2) by auto
  have "e \<in> set (map fst jobs)" if "(e, m) \<in> set jobs" for e m using that by force
  then have res: "\<forall>(e, m) \<in> set jobs. msg (exps js e) = f m" using server_inv_results_of [OF m(2) assms(1)] by blast
  show ?thesis using s(1) m res by (intro exI [of _ s] exI [of _ js] exI [of _ c]) (simp add: server_inv_def)
qed

text \<open>Two jobs, negated by the experiment; the first batch is a single job.\<close>

theorem client_completes_campaign_witness:
  "\<exists>s js c. sys_run (sys_new 9 0 False) [AddParam 4 True, AddParam 7 False, SetNoMoreExperiments] = Some s \<and>
     minion Not 3 (\<lambda>n. (False, 50)) \<lparr>msg = False, m_workloadID = 0\<rparr> (server s) JobClient_new = Some (js, c) \<and>
     m_queue (m_doneJobs js) = [4, 7] \<and> \<not> msg (exps js 4) \<and> msg (exps js 7)"
proof -
  have "distinct (map fst [(4 :: nat, True), (7, False)])" "length [(4 :: nat, True), (7, False)] < 2 ^ 32 - 1" by simp_all
  from client_completes_campaign [OF this, of 9 False Not "\<lambda>n. (False, 50)" "\<lparr>msg = False, m_workloadID = 0\<rparr>"]
  show ?thesis by (simp add: numeral_3_eq_3 del: sys_run.simps minion.simps) blast
qed

end
