(* ===== verification/Trace_Reader.thy ===== *)
theory Trace_Reader
  imports Proto_Stream
begin

text \<open>
  The trace reader of \<^verbatim>\<open>src/core/util/smarthops/TraceReader.cc\<close>: it hands out the events of one
  instruction after the other, the instruction itself and one event per accessed byte. The messages of
  the trace stream are a list.
\<close>

section \<open>Model\<close>

datatype mem_access_type_e = ACCESS_NONE | ACCESS_READ | ACCESS_WRITE | ACCESS_READORWRITE | ACCESS_CHECKPOINT

type_synonym trace_pos_t = u32
type_synonym trace_event_tuple_t = "address_t \<times> mem_access_type_e"

record TraceReader =
  m_current_position :: u32
  ps :: "Trace_Event list"
  m_max_num_inst :: u32
  ev :: Trace_Event
  ev_avail :: bool

definition openTraceFile :: "Trace_Event list \<Rightarrow> u32 \<Rightarrow> Trace_Event \<Rightarrow> TraceReader" where
  "openTraceFile stream num_inst blank =
     \<lparr>m_current_position = 1, ps = stream, m_max_num_inst = num_inst, ev = blank, ev_avail = False\<rparr>"

text \<open>One event per byte of a memory access.\<close>

definition access_tuples :: "Trace_Event \<Rightarrow> trace_event_tuple_t list" where
  "access_tuples e =
     map (\<lambda>i. ((case memaddr e of None \<Rightarrow> 0 | Some a \<Rightarrow> a) + of_nat i, if accesstype e = READ then ACCESS_READ else ACCESS_WRITE))
       [0..<unat (width e)]"

text \<open>The loop over the accesses of an instruction: it ends with the next instruction or the stream.\<close>

fun read_accesses ::
  "Trace_Event \<Rightarrow> Trace_Event list \<Rightarrow> trace_event_tuple_t list \<Rightarrow> trace_event_tuple_t list \<times> Trace_Event \<times> bool \<times> Trace_Event list" where
  "read_accesses cur [] acc = (acc, cur, False, [])"
| "read_accesses cur (e # es) acc =
     (if memaddr e = None then (acc, e, True, es) else read_accesses e es (acc @ access_tuples e))"

text \<open>
  The result, the two reference parameters and the reader. A failing call may have changed its
  parameters.
\<close>

definition getNextTraceEvents ::
  "trace_pos_t \<Rightarrow> trace_event_tuple_t list \<Rightarrow> TraceReader \<Rightarrow> bool \<times> trace_pos_t \<times> trace_event_tuple_t list \<times> TraceReader" where
  "getNextTraceEvents pos events tr =
     (let cur = m_current_position tr
      in if m_max_num_inst tr > 0 \<and> cur > m_max_num_inst tr then (False, pos, events, tr)
         else case (if cur = 1
                    then (case ps tr of [] \<Rightarrow> None | e # es \<Rightarrow> Some (tr\<lparr>ps := es, ev := e, ev_avail := True\<rparr>))
                    else Some tr) of
                None \<Rightarrow> (False, cur, [], tr)
              | Some tr1 \<Rightarrow>
                  if \<not> ev_avail tr1 then (False, cur, [], tr1)
                  else let (acc, e, avail, rest) = read_accesses (ev tr1) (ps tr1) [(ip (ev tr1), ACCESS_NONE)]
                       in (True, cur, acc, tr1\<lparr>ev := e, ev_avail := avail, ps := rest, m_current_position := cur + 1\<rparr>))"

section \<open>The instructions of a stream\<close>

text \<open>
  The specification: the accesses up to the next instruction belong to an instruction; a leading access
  is taken for an instruction.
\<close>

function instructions :: "Trace_Event list \<Rightarrow> trace_event_tuple_t list list" where
  "instructions [] = []"
| "instructions (e # es) =
     ((ip e, ACCESS_NONE) # concat (map access_tuples (takeWhile (\<lambda>x. memaddr x \<noteq> None) es))) #
     instructions (dropWhile (\<lambda>x. memaddr x \<noteq> None) es)"
  by pat_completeness auto
termination
  by (relation "measure length") (auto simp: length_dropWhile_le less_Suc_eq_le)

text \<open>What a reader has still to give.\<close>

definition unread :: "TraceReader \<Rightarrow> Trace_Event list" where
  "unread tr = (if m_current_position tr = 1 then ps tr else if ev_avail tr then ev tr # ps tr else [])"

lemma read_accesses_spec:
  fixes es :: "Trace_Event list"
  defines "rest \<equiv> dropWhile (\<lambda>x. memaddr x \<noteq> None) es"
  shows "\<exists>e'. read_accesses cur es acc =
      (acc @ concat (map access_tuples (takeWhile (\<lambda>x. memaddr x \<noteq> None) es)), e', rest \<noteq> [], tl rest) \<and>
    (rest \<noteq> [] \<longrightarrow> e' = hd rest)"
  unfolding rest_def
proof (induction cur es acc rule: read_accesses.induct)
  case (2 cur e es acc)
  show ?case
  proof (cases "memaddr e = None")
    case False
    with 2 show ?thesis by auto
  qed simp
qed simp

text \<open>One call takes the next instruction off the stream.\<close>

lemma getNext_instructions:
  assumes "m_max_num_inst tr = 0 \<or> m_current_position tr \<le> m_max_num_inst tr" and "m_current_position tr + 1 \<noteq> 1"
  shows "case instructions (unread tr) of
      [] \<Rightarrow> \<exists>tr'. getNextTraceEvents pos events tr = (False, m_current_position tr, [], tr')
    | i # is \<Rightarrow> \<exists>tr'. getNextTraceEvents pos events tr = (True, m_current_position tr, i, tr') \<and> instructions (unread tr') = is \<and>
        m_current_position tr' = m_current_position tr + 1 \<and> m_max_num_inst tr' = m_max_num_inst tr \<and> length (unread tr') < length (unread tr)"
proof -
  have max: "\<not> (m_max_num_inst tr > 0 \<and> m_current_position tr > m_max_num_inst tr)" using assms(1) by auto
  show ?thesis
  proof (cases "unread tr")
    case Nil
    then show ?thesis using max
      by (auto simp: getNextTraceEvents_def Let_def unread_def split: if_splits)
  next
    case (Cons e es)
    let ?rest = "dropWhile (\<lambda>x. memaddr x \<noteq> None) es"
    define tr1 where "tr1 = tr\<lparr>ps := es, ev := e, ev_avail := True\<rparr>"
    have tr1: "(if m_current_position tr = 1
                then (case ps tr of [] \<Rightarrow> None | e # es \<Rightarrow> Some (tr\<lparr>ps := es, ev := e, ev_avail := True\<rparr>)) else Some tr) = Some tr1"
      using Cons by (auto simp: unread_def tr1_def split: if_splits)
    obtain e' where e': "read_accesses e es [(ip e, ACCESS_NONE)] =
        ([(ip e, ACCESS_NONE)] @ concat (map access_tuples (takeWhile (\<lambda>x. memaddr x \<noteq> None) es)), e', ?rest \<noteq> [], tl ?rest)"
        "?rest \<noteq> [] \<longrightarrow> e' = hd ?rest"
      using read_accesses_spec by blast
    let ?tr' = "tr1\<lparr>ev := e', ev_avail := ?rest \<noteq> [], ps := tl ?rest, m_current_position := m_current_position tr + 1\<rparr>"
    have "getNextTraceEvents pos events tr = (True, m_current_position tr, hd (instructions (unread tr)), ?tr')"
      unfolding getNextTraceEvents_def Let_def tr1 using max
      by (simp add: Cons) (simp add: tr1_def e'(1))
    moreover have "unread ?tr' = ?rest"
    proof -
      have "unread (t\<lparr>ev := x, ev_avail := r \<noteq> [], ps := tl r, m_current_position := m_current_position tr + 1\<rparr>) = r"
        if "r \<noteq> [] \<longrightarrow> x = hd r" for t x r
        using that assms(2) by (simp add: unread_def)
      from this [OF e'(2)] show ?thesis .
    qed
    moreover have "length ?rest < length (unread tr)" using Cons by (simp add: length_dropWhile_le less_Suc_eq_le)
    ultimately show ?thesis by (simp add: Cons tr1_def)
  qed
qed

text \<open>A successful call leaves less to read, whatever the positions: loops over the reader end.\<close>

definition left_to_read :: "TraceReader \<Rightarrow> nat" where
  "left_to_read tr = length (ps tr) + (if ev_avail tr then 1 else 0)"

lemma getNext_decreases:
  assumes "getNextTraceEvents pos events tr = (True, pos', events', tr')"
  shows "left_to_read tr' < left_to_read tr"
proof -
  have read: "left_to_read (t\<lparr>ev := e, ev_avail := avail, ps := rest, m_current_position := c\<rparr>) \<le> length es"
    if "read_accesses cur es acc = (a, e, avail, rest)" for t :: TraceReader and cur es acc a e avail rest c
  proof -
    let ?rest = "dropWhile (\<lambda>x. memaddr x \<noteq> None) es"
    have "avail = (?rest \<noteq> [])" "rest = tl ?rest" using read_accesses_spec [of cur es acc] that by auto
    then show ?thesis using length_dropWhile_le [of "\<lambda>x. memaddr x \<noteq> None" es] by (cases ?rest) (auto simp: left_to_read_def)
  qed
  show ?thesis
  proof (cases "m_current_position tr = 1")
    case True
    then obtain e es where es: "ps tr = e # es" using assms by (auto simp: getNextTraceEvents_def Let_def split: list.splits if_splits)
    with True assms read show ?thesis
      by (fastforce simp: getNextTraceEvents_def Let_def left_to_read_def split: if_splits prod.splits)
  next
    case False
    with assms read show ?thesis
      by (fastforce simp: getNextTraceEvents_def Let_def left_to_read_def split: if_splits prod.splits)
  qed
qed

end
