(* ===== verification/Smart_Hops.thy ===== *)
theory Smart_Hops
  imports Trace_Reader
begin

text \<open>
  The hop-chain calculator of \<^verbatim>\<open>src/core/util/smarthops/SmartHops.cc\<close>. A hop chain leads through the
  trace to an instruction: each hop waits for the next occurrence of an instruction or memory access.
  The calculator reads the trace once and keeps one chain, the one to the current position.
\<close>

section \<open>Model\<close>

type_synonym result_tuple = "trace_event_tuple_t \<times> trace_pos_t"
type_synonym checkpoint_tuple_t = "u32 \<times> result_tuple list"

definition COST_CHANGE :: u32 where
  "COST_CHANGE = 1"

definition COST_NO_CHANGE :: u32 where
  "COST_NO_CHANGE = 2"

text \<open>The switches and thresholds; they are constants of \<open>SmartHops\<close> and options of \<open>compute-hops\<close>.\<close>

record hops_config =
  use_watchpoints :: bool
  use_weights :: bool
  use_checkpoints :: bool
  cp_thresh :: u32
  cost_cp :: u32
  rollback_thresh :: u32

record hops_state =
  m_costs :: u32
  m_next_cp_id :: u32
  m_last_positions :: "trace_event_tuple_t \<Rightarrow> trace_pos_t option"
  m_checkpoints :: "checkpoint_tuple_t list"
  m_result :: "result_tuple list"

text \<open>The loop over the events of an instruction: best candidate, its last position, whether a hop was found.\<close>

fun scan_events :: "hops_config \<Rightarrow> trace_pos_t \<Rightarrow> trace_event_tuple_t list \<Rightarrow> trace_event_tuple_t option \<Rightarrow> trace_pos_t \<Rightarrow> bool \<Rightarrow>
    hops_state \<Rightarrow> trace_event_tuple_t option \<times> trace_pos_t \<times> bool \<times> hops_state" where
  "scan_events cfg pos [] best_te last_pos hop_found st = (best_te, last_pos, hop_found, st)"
| "scan_events cfg pos (te # tes) best_te last_pos hop_found st =
     (if \<not> use_watchpoints cfg \<and> snd te \<noteq> ACCESS_NONE then scan_events cfg pos tes best_te last_pos hop_found st
      else let st' = st\<lparr>m_last_positions := (m_last_positions st)(te \<mapsto> pos)\<rparr>
           in case m_last_positions st te of
                None \<Rightarrow>
                  scan_events cfg pos tes best_te last_pos True
                    (if \<not> hop_found then st'\<lparr>m_result := [(te, pos)], m_costs := COST_CHANGE\<rparr> else st')
              | Some lp \<Rightarrow>
                  if lp < last_pos then scan_events cfg pos tes (Some te) lp hop_found st'
                  else scan_events cfg pos tes best_te last_pos hop_found st')"

definition checkpoint_at :: "checkpoint_tuple_t list \<Rightarrow> address_t \<Rightarrow> checkpoint_tuple_t option" where
  "checkpoint_at cps i = (if unat i < length cps then Some (cps ! unat i) else None)"

text \<open>
  The hop left of the last one, in a reversed chain. \<open>Inl\<close> ends the deletion and says whether a checkpoint
  is forbidden; left of a checkpoint is the chain it was made for.
\<close>

definition left_hop ::
  "hops_config \<Rightarrow> checkpoint_tuple_t list \<Rightarrow> trace_pos_t \<Rightarrow> result_tuple \<Rightarrow> result_tuple list \<Rightarrow> (bool + result_tuple) option" where
  "left_hop cfg cps last_pos lst rest =
     (case rest of
        pre # _ \<Rightarrow> Some (Inr pre)
      | [] \<Rightarrow>
          if snd (fst lst) \<noteq> ACCESS_CHECKPOINT then Some (Inl False)
          else case checkpoint_at cps (fst (fst lst)) of
                 None \<Rightarrow> None
               | Some (c, chain) \<Rightarrow>
                   (case rev chain of
                      [] \<Rightarrow> Some (Inl False)
                    | pre # _ \<Rightarrow>
                        if length chain \<le> unat (rollback_thresh cfg) then None
                        else if snd (rev chain ! unat (rollback_thresh cfg)) < last_pos then Some (Inl True)
                        else Some (Inr pre)))"

text \<open>The deletion of unnecessary hops, on the reversed chain; \<open>None\<close> is undefined behaviour or not returning.\<close>

partial_function (option) delete_hops ::
  "hops_config \<Rightarrow> checkpoint_tuple_t list \<Rightarrow> trace_event_tuple_t \<Rightarrow> trace_pos_t \<Rightarrow> result_tuple list \<Rightarrow> u32 \<Rightarrow>
   (result_tuple list \<times> u32 \<times> bool) option" where
  "delete_hops cfg cps best_te last_pos chain costs =
     (case chain of
        [] \<Rightarrow> Some ([], costs, False)
      | lst # rest \<Rightarrow>
          (case left_hop cfg cps last_pos lst rest of
             None \<Rightarrow> None
           | Some (Inl forbidden) \<Rightarrow> Some (chain, costs, forbidden)
           | Some (Inr pre) \<Rightarrow>
               if \<not> use_weights cfg \<and> \<not> last_pos \<le> snd pre \<or> use_weights cfg \<and> \<not> last_pos < snd pre
               then Some (chain, costs, False)
               else if last_pos = snd pre \<and> fst pre \<noteq> best_te then Some (chain, costs, False)
               else if snd (fst lst) = ACCESS_CHECKPOINT
               then (case checkpoint_at cps (fst (fst lst)) of
                       None \<Rightarrow> None
                     | Some (c, saved) \<Rightarrow> delete_hops cfg cps best_te last_pos (rev saved) c)
               else delete_hops cfg cps best_te last_pos rest
                      (costs - (if fst pre = fst lst then COST_NO_CHANGE else COST_CHANGE))))"

text \<open>The new hop, or the checkpoint that takes the place of the chain.\<close>

definition add_hop ::
  "hops_config \<Rightarrow> trace_pos_t \<Rightarrow> trace_event_tuple_t \<Rightarrow> result_tuple list \<Rightarrow> u32 \<Rightarrow> bool \<Rightarrow> hops_state \<Rightarrow> hops_state option" where
  "add_hop cfg pos best_te chain costs forbidden st =
     (case chain of
        [] \<Rightarrow> None
      | lst # _ \<Rightarrow>
          let costs' = costs + (if best_te = fst lst then COST_NO_CHANGE else COST_CHANGE)
          in if use_checkpoints cfg \<and> costs' > cp_thresh cfg \<and> \<not> forbidden
             then Some (st\<lparr>m_checkpoints := m_checkpoints st @ [(costs', rev chain)],
                           m_result := [((ucast (m_next_cp_id st), ACCESS_CHECKPOINT), pos)],
                           m_next_cp_id := m_next_cp_id st + 1, m_costs := cost_cp cfg\<rparr>)
             else Some (st\<lparr>m_result := rev chain @ [(best_te, pos)], m_costs := costs'\<rparr>))"

text \<open>One instruction.\<close>

definition hop_step :: "hops_config \<Rightarrow> trace_pos_t \<Rightarrow> trace_event_tuple_t list \<Rightarrow> hops_state \<Rightarrow> hops_state option" where
  "hop_step cfg pos events st =
     (let (best_te, last_pos, hop_found, st1) = scan_events cfg pos events None (- 1) False st
      in if hop_found then Some st1
         else case best_te of
                None \<Rightarrow> None
              | Some te \<Rightarrow>
                  if m_result st1 = [] then None
                  else (case delete_hops cfg (m_checkpoints st1) te last_pos (rev (m_result st1)) (m_costs st1) of
                          None \<Rightarrow> None
                        | Some (chain, costs, forbidden) \<Rightarrow> add_hop cfg pos te chain costs forbidden st1))"

section \<open>Messages\<close>

datatype hop_access = EXECUTE | HOP_READ | HOP_WRITE

record InjectionPointMessage =
  checkpoint_id :: "u32 option"
  target_trace_position :: u32
  ip_costs :: u32
  ip_hops :: "(address_t \<times> hop_access) list"

fun hop_of :: "trace_event_tuple_t \<Rightarrow> (address_t \<times> hop_access) option" where
  "hop_of (a, ACCESS_NONE) = Some (a, EXECUTE)"
| "hop_of (a, ACCESS_READ) = Some (a, HOP_READ)"
| "hop_of (a, ACCESS_WRITE) = Some (a, HOP_WRITE)"
| "hop_of (a, ACCESS_READORWRITE) = None"
| "hop_of (a, ACCESS_CHECKPOINT) = None"

fun hops_of :: "result_tuple list \<Rightarrow> (address_t \<times> hop_access) list option" where
  "hops_of [] = Some []"
| "hops_of (h # hs) = (case hop_of (fst h) of None \<Rightarrow> None | Some x \<Rightarrow> map_option ((#) x) (hops_of hs))"

definition convertToIPM :: "result_tuple list \<Rightarrow> u32 \<Rightarrow> InjectionPointMessage option" where
  "convertToIPM result costs =
     (let (cp, hops) = (case result of
                          h # hs \<Rightarrow> if snd (fst h) = ACCESS_CHECKPOINT then (Some (ucast (fst (fst h))), hs) else (None, result)
                        | [] \<Rightarrow> (None, []))
      in map_option
           (\<lambda>hs. \<lparr>checkpoint_id = cp,
                  target_trace_position = (if result \<noteq> [] \<and> snd (fst (last result)) \<noteq> ACCESS_CHECKPOINT then snd (last result) else 0),
                  ip_costs = costs, ip_hops = hs\<rparr>)
           (hops_of hops))"

section \<open>The calculator\<close>

record SmartHops =
  sh_state :: hops_state
  m_trace_reader :: TraceReader
  m_trace_pos :: trace_pos_t
  m_trace_events :: "trace_event_tuple_t list"

definition SmartHops_config :: hops_config where
  "SmartHops_config = \<lparr>use_watchpoints = True, use_weights = True, use_checkpoints = False, cp_thresh = 0, cost_cp = 0, rollback_thresh = 0\<rparr>"

definition hops_init :: hops_state where
  "hops_init = \<lparr>m_costs = 0, m_next_cp_id = 0, m_last_positions = (\<lambda>te. None), m_checkpoints = [], m_result = []\<rparr>"

definition SmartHops_init :: "TraceReader \<Rightarrow> SmartHops" where
  "SmartHops_init tr = \<lparr>sh_state = hops_init, m_trace_reader = tr, m_trace_pos = 0, m_trace_events = []\<rparr>"

text \<open>The loop of \<open>calculateFollowingHop\<close>: \<open>False\<close> when the trace ends; \<open>None\<close> for undefined behaviour.\<close>

function hops_loop :: "u32 \<Rightarrow> SmartHops \<Rightarrow> (bool \<times> SmartHops) option" where
  "hops_loop offset sh =
     (if m_trace_pos sh < offset then
        (case getNextTraceEvents (m_trace_pos sh) (m_trace_events sh) (m_trace_reader sh) of
           (ok, pos, events, tr) \<Rightarrow>
             let sh' = sh\<lparr>m_trace_pos := pos, m_trace_events := events, m_trace_reader := tr\<rparr>
             in if \<not> ok then Some (False, sh')
                else (case hop_step SmartHops_config pos events (sh_state sh') of
                        None \<Rightarrow> None
                      | Some st \<Rightarrow> hops_loop offset (sh'\<lparr>sh_state := st\<rparr>)))
      else Some (True, sh))"
  by pat_completeness auto
termination
proof (relation "measure (\<lambda>(offset, sh). left_to_read (m_trace_reader sh))")
qed (auto dest: getNext_decreases [OF sym])

declare hops_loop.simps [simp del]

definition calculateFollowingHop :: "u32 \<Rightarrow> SmartHops \<Rightarrow> (InjectionPointMessage option \<times> SmartHops) option" where
  "calculateFollowingHop offset sh =
     (if offset = 0 then
        let sh' = sh\<lparr>sh_state := (sh_state sh)\<lparr>m_result := [], m_costs := 0\<rparr>\<rparr>
        in map_option (\<lambda>m. (Some m, sh')) (convertToIPM [] 0)
      else case hops_loop offset sh of
             None \<Rightarrow> None
           | Some (False, sh') \<Rightarrow> Some (None, sh')
           | Some (True, sh') \<Rightarrow>
               map_option (\<lambda>m. (Some m, sh')) (convertToIPM (m_result (sh_state sh')) (m_costs (sh_state sh'))))"

text \<open>\<open>calculate_costs\<close> of \<^verbatim>\<open>tools/compute-hops/ResultCollector.cc\<close>: the costs of a chain from scratch.\<close>

fun calculate_costs :: "result_tuple list \<Rightarrow> u32" where
  "calculate_costs (a # b # res) = (if fst a = fst b then COST_NO_CHANGE else COST_CHANGE) + calculate_costs (b # res)"
| "calculate_costs res = COST_CHANGE"

section \<open>Chains that lead somewhere\<close>

text \<open>
  \<open>E p\<close> are the events of the instruction at position \<open>p\<close>, from 1. A chain can be followed from position \<open>q\<close>
  when each hop's event occurs where the hop ends and nowhere before.
\<close>

fun navigable :: "(nat \<Rightarrow> trace_event_tuple_t list) \<Rightarrow> nat \<Rightarrow> result_tuple list \<Rightarrow> bool" where
  "navigable E q [] \<longleftrightarrow> True"
| "navigable E q ((e, p) # hs) \<longleftrightarrow>
     q < unat p \<and> e \<in> set (E (unat p)) \<and> (\<forall>r. q < r \<and> r < unat p \<longrightarrow> e \<notin> set (E r)) \<and> navigable E (unat p) hs"

definition end_of :: "nat \<Rightarrow> result_tuple list \<Rightarrow> nat" where
  "end_of q hs = (if hs = [] then q else unat (snd (last hs)))"

lemma navigable_append: "navigable E q (hs @ hs') \<longleftrightarrow> navigable E q hs \<and> navigable E (end_of q hs) hs'"
  by (induction E q hs rule: navigable.induct) (auto simp: end_of_def)

lemma navigable_advances: "navigable E q hs \<Longrightarrow> hs \<noteq> [] \<Longrightarrow> q < end_of q hs"
  by (induction E q hs rule: navigable.induct) (auto simp: end_of_def split: if_splits)

text \<open>The position of the last occurrence of an event among the first \<open>n\<close> instructions, 0 for none.\<close>

primrec last_at :: "(nat \<Rightarrow> trace_event_tuple_t list) \<Rightarrow> nat \<Rightarrow> trace_event_tuple_t \<Rightarrow> nat" where
  "last_at E 0 e = 0"
| "last_at E (Suc n) e = (if e \<in> set (E (Suc n)) then Suc n else last_at E n e)"

lemma last_at_le: "last_at E n e \<le> n"
  by (induction n) auto

lemma last_at_occurs: "0 < last_at E n e \<Longrightarrow> e \<in> set (E (last_at E n e))"
  by (induction n) (auto split: if_splits)

lemma last_at_none_after: "last_at E n e < r \<Longrightarrow> r \<le> n \<Longrightarrow> e \<notin> set (E r)"
  by (induction n) (auto simp: le_Suc_eq split: if_splits)

lemma last_at_ge: "0 < r \<Longrightarrow> r \<le> n \<Longrightarrow> e \<in> set (E r) \<Longrightarrow> r \<le> last_at E n e"
  using last_at_none_after [of E n e r] by force

section \<open>Costs\<close>

definition hop_cost :: "result_tuple \<Rightarrow> trace_event_tuple_t \<Rightarrow> u32" where
  "hop_cost a e = (if fst a = e then COST_NO_CHANGE else COST_CHANGE)"

lemma calculate_costs_snoc: "xs \<noteq> [] \<Longrightarrow> calculate_costs (xs @ [b]) = calculate_costs xs + hop_cost (last xs) (fst b)"
proof (induction xs rule: calculate_costs.induct)
  case (1 a c res)
  then show ?case by (simp add: hop_cost_def)
qed (simp_all add: hop_cost_def)

lemma calculate_costs_rev:
  "calculate_costs (rev (lst # pre # rest)) = calculate_costs (rev (pre # rest)) + hop_cost pre (fst lst)"
  using calculate_costs_snoc [of "rev (pre # rest)" lst] by simp

section \<open>The deletion loop without checkpoints\<close>

definition plain_chain :: "result_tuple list \<Rightarrow> bool" where
  "plain_chain hs \<longleftrightarrow> (\<forall>h \<in> set hs. snd (fst h) \<noteq> ACCESS_CHECKPOINT)"

text \<open>Where the loop stops: at the first hop, or when the hop left of the last one is too early.\<close>

definition kept :: "hops_config \<Rightarrow> trace_event_tuple_t \<Rightarrow> trace_pos_t \<Rightarrow> result_tuple list \<Rightarrow> bool" where
  "kept cfg te lp r \<longleftrightarrow>
     (case r of
        lst # pre # _ \<Rightarrow> (if use_weights cfg then \<not> lp < snd pre else \<not> lp \<le> snd pre \<or> lp = snd pre \<and> fst pre \<noteq> te)
      | _ \<Rightarrow> True)"

lemma delete_hops_ok:
  assumes "plain_chain r" and "r \<noteq> []"
  shows "\<exists>k. k < length r \<and> delete_hops cfg cps te lp r (calculate_costs (rev r)) = Some (drop k r, calculate_costs (rev (drop k r)), False) \<and>
    kept cfg te lp (drop k r) \<and> (\<forall>i. 0 < i \<longrightarrow> i \<le> k \<longrightarrow> lp \<le> snd (r ! i) \<and> (use_weights cfg \<longrightarrow> lp < snd (r ! i)))"
  using assms
proof (induction r)
  case (Cons lst rest)
  show ?case
  proof (cases rest)
    case Nil
    then show ?thesis using Cons.prems
      by (intro exI [of _ 0]) (simp add: delete_hops.simps [of cfg cps te lp "[lst]"] left_hop_def plain_chain_def kept_def)
  next
    case (Cons pre rest')
    have unf: "delete_hops cfg cps te lp (lst # pre # rest') c =
        (if \<not> use_weights cfg \<and> \<not> lp \<le> snd pre \<or> use_weights cfg \<and> \<not> lp < snd pre then Some (lst # pre # rest', c, False)
         else if lp = snd pre \<and> fst pre \<noteq> te then Some (lst # pre # rest', c, False)
         else delete_hops cfg cps te lp (pre # rest') (c - hop_cost pre (fst lst)))" for c
      using Cons.prems(1)
      by (subst delete_hops.simps) (simp add: left_hop_def plain_chain_def hop_cost_def)
    show ?thesis
    proof (cases "kept cfg te lp (lst # rest)")
      case True
      then show ?thesis by (intro exI [of _ 0]) (auto simp: unf kept_def Cons split: if_splits)
    next
      case False
      then have go: "delete_hops cfg cps te lp (lst # pre # rest') c = delete_hops cfg cps te lp (pre # rest') (c - hop_cost pre (fst lst))" for c
        by (auto simp: unf kept_def Cons split: if_splits)
      have lp: "lp \<le> snd pre \<and> (use_weights cfg \<longrightarrow> lp < snd pre)" using False by (auto simp: kept_def Cons split: if_splits)
      have costs: "calculate_costs (rev (lst # rest)) - hop_cost pre (fst lst) = calculate_costs (rev rest)"
        unfolding Cons calculate_costs_rev by simp
      obtain k where k: "k < length rest" "delete_hops cfg cps te lp rest (calculate_costs (rev rest)) =
          Some (drop k rest, calculate_costs (rev (drop k rest)), False)" "kept cfg te lp (drop k rest)"
          "\<forall>i. 0 < i \<longrightarrow> i \<le> k \<longrightarrow> lp \<le> snd (rest ! i) \<and> (use_weights cfg \<longrightarrow> lp < snd (rest ! i))"
        using Cons.IH Cons.prems(1) Cons by (auto simp: plain_chain_def)
      have "lp \<le> snd ((lst # rest) ! i) \<and> (use_weights cfg \<longrightarrow> lp < snd ((lst # rest) ! i))" if "0 < i" "i \<le> Suc k" for i
        using that k(4) lp Cons by (cases i; cases "i - 1") auto
      then show ?thesis using k costs unfolding Cons go by (intro exI [of _ "Suc k"]) simp
    qed
  qed
qed simp

section \<open>The scan\<close>

definition usable :: "hops_config \<Rightarrow> trace_event_tuple_t \<Rightarrow> bool" where
  "usable cfg te \<longleftrightarrow> use_watchpoints cfg \<or> snd te = ACCESS_NONE"

text \<open>
  The state of the scan after the events \<open>S\<close>, when \<open>known\<close> were the last positions before: either one of the
  events is new and makes a chain of a single hop, or all are known and the candidate is the one seen
  least recently.
\<close>

definition scanned :: "hops_config \<Rightarrow> trace_pos_t \<Rightarrow> hops_state \<Rightarrow> trace_event_tuple_t set \<Rightarrow>
    trace_event_tuple_t option \<times> trace_pos_t \<times> bool \<times> hops_state \<Rightarrow> bool" where
  "scanned cfg pos st S = (\<lambda>(best, lp, found, st').
     (\<forall>e. usable cfg e \<longrightarrow> m_last_positions st' e = (if e \<in> S then Some pos else m_last_positions st e)) \<and>
     m_checkpoints st' = m_checkpoints st \<and> m_next_cp_id st' = m_next_cp_id st \<and>
     (if found then \<exists>e \<in> S. m_last_positions st e = None \<and> m_result st' = [(e, pos)] \<and> m_costs st' = COST_CHANGE
      else (\<forall>e \<in> S. m_last_positions st e \<noteq> None) \<and> m_result st' = m_result st \<and> m_costs st' = m_costs st \<and>
        (case best of
           None \<Rightarrow> S = {} \<and> lp = - 1
         | Some b \<Rightarrow> b \<in> S \<and> m_last_positions st b = Some lp \<and> (\<forall>e \<in> S. lp \<le> the (m_last_positions st e)))))"

lemma scan_step:
  assumes old: "\<forall>e p. usable cfg e \<longrightarrow> m_last_positions st e = Some p \<longrightarrow> p < pos" and inv: "scanned cfg pos st S (best, lp, found, st1)"
    and te: "usable cfg te" and S: "\<forall>e \<in> S. usable cfg e"
  shows "\<exists>best' lp' found' st2. scan_events cfg pos (te # tes) best lp found st1 = scan_events cfg pos tes best' lp' found' st2 \<and>
    scanned cfg pos st (insert te S) (best', lp', found', st2)"
proof -
  let ?st = "st1\<lparr>m_last_positions := (m_last_positions st1)(te \<mapsto> pos)\<rparr>"
  have use: "\<not> (\<not> use_watchpoints cfg \<and> snd te \<noteq> ACCESS_NONE)" using te by (auto simp: usable_def)
  have pos: "p < - 1" if "usable cfg e" "m_last_positions st e = Some p" for e p
    using old that by (metis order_less_le_trans word_order.extremum)
  have lps: "m_last_positions st1 te = (if te \<in> S then Some pos else m_last_positions st te)"
    using inv [unfolded scanned_def prod.case, THEN conjunct1] te by blast
  show ?thesis
  proof (cases "m_last_positions st1 te")
    case None
    then have new: "te \<notin> S" "m_last_positions st te = None" using lps by (auto split: if_splits)
    let ?st2 = "if \<not> found then ?st\<lparr>m_result := [(te, pos)], m_costs := COST_CHANGE\<rparr> else ?st"
    have "scan_events cfg pos (te # tes) best lp found st1 = scan_events cfg pos tes best lp True ?st2"
      using use None by (auto simp: Let_def)
    moreover have "scanned cfg pos st (insert te S) (best, lp, True, ?st2)" using inv new by (auto simp: scanned_def)
    ultimately show ?thesis by blast
  next
    case (Some p)
    have keep: "scanned cfg pos st (insert te S) (best, lp, found, ?st)" if "\<not> p < lp" "found \<or> te \<in> S \<or> best \<noteq> None"
      using inv Some lps that by (auto simp: scanned_def split: option.splits if_splits)
    show ?thesis
    proof (cases "p < lp")
      case True
      have "scan_events cfg pos (te # tes) best lp found st1 = scan_events cfg pos tes (Some te) p found ?st"
        using use Some True by (auto simp: Let_def)
      moreover have "scanned cfg pos st (insert te S) (Some te, p, found, ?st)"
      proof (cases found)
        case False
        have "te \<notin> S"
        proof
          assume "te \<in> S"
          then obtain b where "best = Some b" "m_last_positions st b = Some lp" "p = pos"
            using inv False Some lps by (auto simp: scanned_def split: option.splits)
          moreover have "usable cfg b" using calculation(1) inv S False by (auto simp: scanned_def)
          ultimately show False using old True by fastforce
        qed
        then show ?thesis using inv Some lps False True by (auto simp: scanned_def split: option.splits)
      qed (use inv Some lps in \<open>auto simp: scanned_def split: if_splits\<close>)
      ultimately show ?thesis by blast
    next
      case False
      have "scan_events cfg pos (te # tes) best lp found st1 = scan_events cfg pos tes best lp found ?st"
        using use Some False by (auto simp: Let_def)
      moreover have "found \<or> te \<in> S \<or> best \<noteq> None"
      proof (rule ccontr)
        assume "\<not> (found \<or> te \<in> S \<or> best \<noteq> None)"
        then have none: "\<not> found" "te \<notin> S" "best = None" by blast+
        then have "lp = - 1" using inv by (simp add: scanned_def)
        moreover have "m_last_positions st te = Some p" using lps Some none(2) by simp
        ultimately show False using pos te False by blast
      qed
      ultimately show ?thesis using keep [OF False] by blast
    qed
  qed
qed

lemma scan_events_ok:
  assumes old: "\<forall>e p. usable cfg e \<longrightarrow> m_last_positions st e = Some p \<longrightarrow> p < pos"
  shows "scanned cfg pos st S (best, lp, found, st1) \<Longrightarrow> \<forall>e \<in> S. usable cfg e \<Longrightarrow>
    scanned cfg pos st (S \<union> {e \<in> set tes. usable cfg e}) (scan_events cfg pos tes best lp found st1)"
proof (induction tes arbitrary: S best lp found st1)
  case (Cons te tes)
  show ?case
  proof (cases "usable cfg te")
    case True
    obtain best' lp' found' st2 where step: "scan_events cfg pos (te # tes) best lp found st1 = scan_events cfg pos tes best' lp' found' st2"
        "scanned cfg pos st (insert te S) (best', lp', found', st2)"
      using scan_step [OF old Cons.prems(1) True Cons.prems(2)] by blast
    have "insert te S \<union> {e \<in> set tes. usable cfg e} = S \<union> {e \<in> set (te # tes). usable cfg e}" using True by auto
    with Cons.IH [OF step(2)] Cons.prems(2) True show ?thesis unfolding step(1) by auto
  next
    case False
    then have "{e \<in> set (te # tes). usable cfg e} = {e \<in> set tes. usable cfg e}" by auto
    moreover have "scan_events cfg pos (te # tes) best lp found st1 = scan_events cfg pos tes best lp found st1"
      using False by (simp add: usable_def)
    ultimately show ?thesis using Cons.IH [OF Cons.prems] by simp
  qed
qed simp

section \<open>One instruction\<close>

definition hops_inv :: "hops_config \<Rightarrow> (nat \<Rightarrow> trace_event_tuple_t list) \<Rightarrow> nat \<Rightarrow> hops_state \<Rightarrow> bool" where
  "hops_inv cfg E n st \<longleftrightarrow>
     (\<forall>e. usable cfg e \<longrightarrow> m_last_positions st e = (if last_at E n e = 0 then None else Some (of_nat (last_at E n e)))) \<and>
     plain_chain (m_result st) \<and> navigable E 0 (m_result st) \<and> end_of 0 (m_result st) = n \<and>
     (m_result st \<noteq> [] \<longrightarrow> m_costs st = calculate_costs (m_result st))"

text \<open>
  How the chain to the next position comes about: a single hop to a new event, or a hop from a prefix of
  the chain, to the event seen least recently.
\<close>

definition extended :: "hops_config \<Rightarrow> (nat \<Rightarrow> trace_event_tuple_t list) \<Rightarrow> nat \<Rightarrow> trace_pos_t \<Rightarrow> result_tuple list \<Rightarrow> result_tuple list \<Rightarrow> bool" where
  "extended cfg E n pos chain chain' \<longleftrightarrow>
     (\<exists>e \<in> set (E (Suc n)). usable cfg e \<and> last_at E n e = 0 \<and> chain' = [(e, pos)]) \<or>
     (\<exists>te \<in> set (E (Suc n)). \<exists>k. usable cfg te \<and> 0 < last_at E n te \<and>
        (\<forall>e \<in> set (E (Suc n)). usable cfg e \<longrightarrow> last_at E n te \<le> last_at E n e) \<and>
        k < length chain \<and> chain' = rev (drop k (rev chain)) @ [(te, pos)] \<and>
        kept cfg te (of_nat (last_at E n te)) (drop k (rev chain)) \<and>
        (\<forall>i. 0 < i \<longrightarrow> i \<le> k \<longrightarrow> of_nat (last_at E n te) \<le> snd (rev chain ! i) \<and>
           (use_weights cfg \<longrightarrow> of_nat (last_at E n te) < snd (rev chain ! i))))"

lemma of_nat_u32_less_iff:
  "a < 2 ^ 32 \<Longrightarrow> b < 2 ^ 32 \<Longrightarrow> (of_nat a :: u32) < of_nat b \<longleftrightarrow> a < b" for a b :: nat
  by (simp add: word_less_nat_alt unat_of_nat_u32)

lemma of_nat_u32_le_iff:
  "a < 2 ^ 32 \<Longrightarrow> b < 2 ^ 32 \<Longrightarrow> (of_nat a :: u32) \<le> of_nat b \<longleftrightarrow> a \<le> b" for a b :: nat
  by (simp add: word_le_nat_alt unat_of_nat_u32)

lemma hops_inv_last:
  "hops_inv cfg E n st \<Longrightarrow> usable cfg e \<Longrightarrow> m_last_positions st e = (if last_at E n e = 0 then None else Some (of_nat (last_at E n e)))"
  unfolding hops_inv_def by blast

lemma scanned_start: "scanned cfg pos st {} (None, - 1, False, st)"
  by (simp add: scanned_def)

lemma last_positions_old:
  assumes "hops_inv cfg E n st" and "unat pos = Suc n"
  shows "\<forall>e p. usable cfg e \<longrightarrow> m_last_positions st e = Some p \<longrightarrow> p < pos"
proof (intro allI impI)
  fix e p assume "usable cfg e" "m_last_positions st e = Some p"
  then have "p = of_nat (last_at E n e)" using hops_inv_last [OF assms(1), of e] by (simp split: if_splits)
  moreover have "last_at E n e < Suc n" using last_at_le [of E n e] by simp
  ultimately show "p < pos" using assms(2) unat_less_u32 [of pos] by (simp add: word_less_nat_alt unat_of_nat_u32)
qed

lemma extended_ok:
  assumes inv: "hops_inv cfg E n st" and pos: "unat pos = Suc n" and ext: "extended cfg E n pos (m_result st) (m_result st')"
    and events: "\<forall>e \<in> set (E (Suc n)). snd e \<noteq> ACCESS_CHECKPOINT"
  shows "plain_chain (m_result st') \<and> navigable E 0 (m_result st') \<and> end_of 0 (m_result st') = Suc n"
  using ext unfolding extended_def
proof (elim disjE bexE exE conjE)
  fix e assume e: "e \<in> set (E (Suc n))" "last_at E n e = 0" "m_result st' = [(e, pos)]"
  then show ?thesis using last_at_none_after [of E n e] events pos
    by (auto simp: plain_chain_def end_of_def)
next
  fix te k
  let ?r = "rev (m_result st)" and ?l = "last_at E n te"
  let ?prefix = "rev (drop k ?r)"
  assume te: "te \<in> set (E (Suc n))" "0 < ?l" "k < length (m_result st)" "m_result st' = ?prefix @ [(te, pos)]"
    and left: "\<forall>i. 0 < i \<longrightarrow> i \<le> k \<longrightarrow> of_nat ?l \<le> snd (?r ! i) \<and> (use_weights cfg \<longrightarrow> of_nat ?l < snd (?r ! i))"
  have pre: "m_result st = ?prefix @ rev (take k ?r)" by (simp flip: rev_append)
  have "navigable E 0 (?prefix @ rev (take k ?r))" "plain_chain (m_result st)" "end_of 0 (m_result st) = n"
    using inv unfolding hops_inv_def pre [symmetric] by blast+
  note chain = this(1) [unfolded navigable_append] this(2,3)
  have plain: "plain_chain ?prefix" using chain(2) in_set_dropD [of _ k ?r] by (fastforce simp: plain_chain_def)
  have ne: "?prefix \<noteq> []" using te(3) by simp
  have last: "last ?prefix = ?r ! k" using te(3) by (simp add: last_rev hd_drop_conv_nth)
  have l: "?l \<le> n" by (rule last_at_le)
  have "?l \<le> unat (snd (?r ! k)) \<and> unat (snd (?r ! k)) < Suc n"
  proof (cases k)
    case 0
    have "unat (snd (?r ! 0)) = n" using inv te(3) by (cases "m_result st" rule: rev_cases) (auto simp: hops_inv_def end_of_def)
    then show ?thesis using 0 l by simp
  next
    case (Suc j)
    then have "of_nat ?l \<le> snd (?r ! k)" using left by blast
    then have le: "?l \<le> unat (snd (?r ! k))" using l pos unat_less_u32 [of pos] by (simp add: word_le_nat_alt unat_of_nat_u32)
    have nav: "navigable E (end_of 0 ?prefix) (rev (take k ?r))" using chain(1) by blast
    moreover have "rev (take k ?r) \<noteq> []" using Suc te(3) by auto
    moreover have "end_of 0 (m_result st) = end_of (end_of 0 ?prefix) (rev (take k ?r))"
      using arg_cong [OF pre, of "end_of 0"] calculation(2) by (simp add: end_of_def)
    ultimately have "end_of 0 ?prefix < n" using chain(3) navigable_advances by metis
    then show ?thesis using le ne last by (simp add: end_of_def)
  qed
  moreover have "te \<notin> set (E r)" if "unat (snd (?r ! k)) < r" "r < Suc n" for r
    using last_at_none_after [of E n te r] that calculation by simp
  ultimately have "navigable E (end_of 0 ?prefix) [(te, pos)]"
    using te(1) pos ne last by (simp add: end_of_def)
  with chain(1) plain show ?thesis
    using te(1,4) events pos by (auto simp: navigable_append plain_chain_def end_of_def)
qed

lemma hops_invI:
  assumes "hops_inv cfg E n st" and "unat pos = Suc n" and "\<forall>e \<in> set (E (Suc n)). snd e \<noteq> ACCESS_CHECKPOINT"
    and "\<forall>e. usable cfg e \<longrightarrow> m_last_positions st' e = (if e \<in> set (E (Suc n)) then Some pos else m_last_positions st e)"
    and "extended cfg E n pos (m_result st) (m_result st')" and "m_costs st' = calculate_costs (m_result st')"
  shows "hops_inv cfg E (Suc n) st'"
proof -
  have p: "pos = of_nat (Suc n)" using arg_cong [OF assms(2), of "of_nat :: nat \<Rightarrow> u32"] by simp
  have "m_last_positions st' e = (if last_at E (Suc n) e = 0 then None else Some (of_nat (last_at E (Suc n) e)))" if "usable cfg e" for e
    using assms(4) [rule_format, OF that] hops_inv_last [OF assms(1) that] by (simp add: p)
  then show ?thesis using extended_ok [OF assms(1,2,5,3)] assms(6) unfolding hops_inv_def by blast
qed

lemma hop_step_ok:
  assumes inv: "hops_inv cfg E n st" and pos: "unat pos = Suc n" and events: "\<forall>e \<in> set (E (Suc n)). snd e \<noteq> ACCESS_CHECKPOINT"
    and cfg: "\<not> use_checkpoints cfg" and ex: "\<exists>e \<in> set (E (Suc n)). usable cfg e"
  shows "\<exists>st'. hop_step cfg pos (E (Suc n)) st = Some st' \<and> hops_inv cfg E (Suc n) st' \<and> extended cfg E n pos (m_result st) (m_result st')"
proof -
  let ?S = "{e \<in> set (E (Suc n)). usable cfg e}"
  obtain best lp found st1 where scan: "scan_events cfg pos (E (Suc n)) None (- 1) False st = (best, lp, found, st1)"
    by (metis prod_cases4)
  have sc: "scanned cfg pos st ?S (best, lp, found, st1)"
    using scan_events_ok [OF last_positions_old [OF inv pos] scanned_start, of "E (Suc n)"] by (simp add: scan)
  note sc = sc [unfolded scanned_def prod.case]
  have lps: "\<forall>e. usable cfg e \<longrightarrow> m_last_positions st1 e = (if e \<in> set (E (Suc n)) then Some pos else m_last_positions st e)"
    using sc [THEN conjunct1] by simp
  show ?thesis
  proof (cases found)
    case True
    then obtain e where e: "e \<in> ?S" "m_last_positions st e = None" "m_result st1 = [(e, pos)]" "m_costs st1 = COST_CHANGE"
      using sc by auto
    have "last_at E n e = 0" using e(1,2) hops_inv_last [OF inv, of e] by (simp split: if_splits)
    then have ext: "extended cfg E n pos (m_result st) (m_result st1)" using e unfolding extended_def by blast
    have "hops_inv cfg E (Suc n) st1" by (rule hops_invI [OF inv pos events lps ext]) (simp add: e)
    with ext True show ?thesis by (simp add: hop_step_def scan)
  next
    case False
    then have known: "\<forall>e \<in> ?S. m_last_positions st e \<noteq> None" "m_result st1 = m_result st" "m_costs st1 = m_costs st"
      using sc by auto
    have best: "case best of None \<Rightarrow> ?S = {} \<and> lp = - 1
        | Some b \<Rightarrow> b \<in> ?S \<and> m_last_positions st b = Some lp \<and> (\<forall>e \<in> ?S. lp \<le> the (m_last_positions st e))"
      using sc False by simp
    have "best \<noteq> None"
    proof
      assume "best = None"
      then have "?S = {}" using best by simp
      with ex show False by blast
    qed
    then obtain te where te: "best = Some te" "te \<in> ?S" "m_last_positions st te = Some lp" "\<forall>e \<in> ?S. lp \<le> the (m_last_positions st e)"
      using best by auto
    let ?l = "last_at E n te"
    have l: "0 < ?l" "lp = of_nat ?l" using te(2,3) hops_inv_last [OF inv, of te] by (simp_all split: if_splits)
    have least: "?l \<le> last_at E n e" if "e \<in> ?S" for e
    proof -
      have "m_last_positions st e = Some (of_nat (last_at E n e))"
        using hops_inv_last [OF inv, of e] known(1) [rule_format, OF that] that by (simp split: if_splits)
      then have "lp \<le> of_nat (last_at E n e)" using te(4) [rule_format, OF that] by simp
      then show ?thesis using last_at_le [of E n e] last_at_le [of E n te] unat_less_u32 [of pos] pos
        by (simp add: l(2) word_le_nat_alt unat_of_nat_u32)
    qed
    have n: "0 < n" using l(1) last_at_le [of E n te] by simp
    then have ne: "m_result st \<noteq> []" using inv by (auto simp: hops_inv_def end_of_def)
    have chain: "plain_chain (rev (m_result st))" "rev (m_result st) \<noteq> []" "m_costs st1 = calculate_costs (rev (rev (m_result st)))"
      using inv ne known(3) by (auto simp: hops_inv_def plain_chain_def)
    let ?r = "rev (m_result st)"
    obtain k where k: "k < length ?r"
        "delete_hops cfg (m_checkpoints st1) te lp ?r (calculate_costs (rev ?r)) = Some (drop k ?r, calculate_costs (rev (drop k ?r)), False)"
        "kept cfg te lp (drop k ?r)" "\<forall>i. 0 < i \<longrightarrow> i \<le> k \<longrightarrow> lp \<le> snd (?r ! i) \<and> (use_weights cfg \<longrightarrow> lp < snd (?r ! i))"
      using delete_hops_ok [OF chain(1,2)] by blast
    obtain lst rest where d: "drop k ?r = lst # rest" using k(1) by (cases "drop k ?r") auto
    let ?st' = "st1\<lparr>m_result := rev (drop k ?r) @ [(te, pos)], m_costs := calculate_costs (rev (drop k ?r)) + hop_cost lst te\<rparr>"
    have add: "add_hop cfg pos te (drop k ?r) c False st1 = Some (st1\<lparr>m_result := rev (drop k ?r) @ [(te, pos)], m_costs := c + hop_cost lst te\<rparr>)" for c
      unfolding d using cfg by (auto simp: add_hop_def Let_def hop_cost_def)
    have "m_result st1 \<noteq> []" "m_costs st1 = calculate_costs (rev ?r)" using ne known(2) chain(3) by simp_all
    then have step: "hop_step cfg pos (E (Suc n)) st = Some ?st'"
      unfolding hop_step_def scan using False te(1) known(2) k(2) add by simp
    have ext: "extended cfg E n pos (m_result st) (m_result ?st')"
      unfolding extended_def using te(2) l least k(1,3,4) by (intro disjI2 bexI [of _ te] exI [of _ k]) auto
    have "m_costs ?st' = calculate_costs (m_result ?st')"
      using calculate_costs_snoc [of "rev (drop k ?r)" "(te, pos)"] by (simp add: d)
    moreover have "\<forall>e. usable cfg e \<longrightarrow> m_last_positions ?st' e = (if e \<in> set (E (Suc n)) then Some pos else m_last_positions st e)"
      using lps by simp
    ultimately have "hops_inv cfg E (Suc n) ?st'" using hops_invI [OF inv pos events _ ext] by blast
    with step ext show ?thesis by blast
  qed
qed

end
