(* ===== verification/Hop_Chains.thy ===== *)
theory Hop_Chains
  imports Smart_Hops
begin

text \<open>
  What the hop-chain calculator delivers: whoever waits for the hops of a message one after the other
  arrives at the target instruction, and the costs are those of the chain.
\<close>

section \<open>Following a chain\<close>

definition next_occurrence :: "(nat \<Rightarrow> trace_event_tuple_t list) \<Rightarrow> nat \<Rightarrow> nat \<Rightarrow> trace_event_tuple_t \<Rightarrow> nat option" where
  "next_occurrence E N q e = find (\<lambda>r. e \<in> set (E r)) [Suc q..<Suc N]"

fun follow :: "(nat \<Rightarrow> trace_event_tuple_t list) \<Rightarrow> nat \<Rightarrow> nat \<Rightarrow> trace_event_tuple_t list \<Rightarrow> nat option" where
  "follow E N q [] = Some q"
| "follow E N q (e # es) = (case next_occurrence E N q e of None \<Rightarrow> None | Some r \<Rightarrow> follow E N r es)"

lemma next_occurrence_Some:
  "next_occurrence E N q e = Some r \<longleftrightarrow> q < r \<and> r \<le> N \<and> e \<in> set (E r) \<and> (\<forall>s. q < s \<and> s < r \<longrightarrow> e \<notin> set (E s))"
proof -
  have "next_occurrence E N q e = Some r \<longleftrightarrow>
      (\<exists>i < length [Suc q..<Suc N]. e \<in> set (E ([Suc q..<Suc N] ! i)) \<and> r = [Suc q..<Suc N] ! i \<and>
        (\<forall>j < i. e \<notin> set (E ([Suc q..<Suc N] ! j))))"
    unfolding next_occurrence_def find_Some_iff by blast
  also have "\<dots> \<longleftrightarrow> (\<exists>i < N - q. e \<in> set (E (Suc q + i)) \<and> r = Suc q + i \<and> (\<forall>j < i. e \<notin> set (E (Suc q + j))))"
    by (auto simp del: upt_Suc)
  also have "\<dots> \<longleftrightarrow> q < r \<and> r \<le> N \<and> e \<in> set (E r) \<and> (\<forall>s. q < s \<and> s < r \<longrightarrow> e \<notin> set (E s))" (is "?L \<longleftrightarrow> ?R")
  proof
    assume ?L
    then obtain i where i: "i < N - q" "e \<in> set (E (Suc q + i))" "r = Suc q + i" "\<forall>j < i. e \<notin> set (E (Suc q + j))" by blast
    have "e \<notin> set (E s)" if "q < s" "s < r" for s using i(3) i(4) [rule_format, of "s - Suc q"] that by simp
    with i show ?R by auto
  next
    assume ?R
    then show ?L by (intro exI [of _ "r - Suc q"]) auto
  qed
  finally show ?thesis .
qed

lemma navigable_follow:
  assumes "navigable E q hs" and "\<forall>h \<in> set hs. unat (snd h) \<le> N"
  shows "follow E N q (map fst hs) = Some (end_of q hs)"
  using assms
proof (induction E q hs rule: navigable.induct)
  case (2 E q e p hs)
  then have "next_occurrence E N q e = Some (unat p)" by (simp add: next_occurrence_Some)
  with 2 show ?case by (simp add: end_of_def)
qed (simp add: end_of_def)

lemma navigable_end: "navigable E q hs \<Longrightarrow> h \<in> set hs \<Longrightarrow> unat (snd h) \<le> end_of q hs"
proof (induction E q hs rule: navigable.induct)
  case (2 E q e p hs)
  have "unat p \<le> end_of (unat p) hs" using navigable_advances [of E "unat p" hs] 2(2) by (cases "hs = []") (auto simp: end_of_def)
  moreover have "end_of q ((e, p) # hs) = end_of (unat p) hs" by (simp add: end_of_def)
  ultimately show ?case using 2 by auto
qed simp

section \<open>Messages\<close>

fun event_of :: "address_t \<times> hop_access \<Rightarrow> trace_event_tuple_t" where
  "event_of (a, EXECUTE) = (a, ACCESS_NONE)"
| "event_of (a, HOP_READ) = (a, ACCESS_READ)"
| "event_of (a, HOP_WRITE) = (a, ACCESS_WRITE)"

text \<open>The events a reader delivers.\<close>

definition simple_event :: "trace_event_tuple_t \<Rightarrow> bool" where
  "simple_event e \<longleftrightarrow> snd e \<in> {ACCESS_NONE, ACCESS_READ, ACCESS_WRITE}"

lemma hop_of_simple: "simple_event e \<Longrightarrow> \<exists>x. hop_of e = Some x \<and> event_of x = e"
  by (cases e) (auto simp: simple_event_def)

lemma hops_of_simple: "\<forall>h \<in> set hs. simple_event (fst h) \<Longrightarrow> \<exists>xs. hops_of hs = Some xs \<and> map event_of xs = map fst hs"
proof (induction hs)
  case (Cons h hs)
  obtain x where "hop_of (fst h) = Some x" "event_of x = fst h" using hop_of_simple [of "fst h"] Cons.prems by (meson list.set_intros(1))
  with Cons show ?case by auto
qed simp

lemma convertToIPM_simple:
  assumes "hs \<noteq> []" and "\<forall>h \<in> set hs. simple_event (fst h)"
  shows "\<exists>xs. convertToIPM hs c = Some \<lparr>checkpoint_id = None, target_trace_position = snd (last hs), ip_costs = c, ip_hops = xs\<rparr> \<and>
    map event_of xs = map fst hs"
proof -
  obtain xs where xs: "hops_of hs = Some xs" "map event_of xs = map fst hs" using hops_of_simple assms(2) by blast
  have "snd (fst h) \<noteq> ACCESS_CHECKPOINT" if "h \<in> set hs" for h using assms(2) that by (auto simp: simple_event_def)
  then have "snd (fst (hd hs)) \<noteq> ACCESS_CHECKPOINT" "snd (fst (last hs)) \<noteq> ACCESS_CHECKPOINT" using assms(1) by simp_all
  with xs assms(1) show ?thesis by (cases hs) (auto simp: convertToIPM_def)
qed

lemma calculate_costs_cong: "map fst hs = map fst hs' \<Longrightarrow> calculate_costs hs = calculate_costs hs'"
proof (induction hs arbitrary: hs' rule: calculate_costs.induct)
  case (1 a b res)
  then obtain a' b' res' where "hs' = a' # b' # res'" "fst a = fst a'" "fst b = fst b'" "map fst res = map fst res'"
    by (auto simp: map_eq_Cons_conv Cons_eq_map_conv)
  with 1(1) [of "b' # res'"] show ?case by simp
qed (auto simp: map_eq_Cons_conv Cons_eq_map_conv)

text \<open>The costs of the hops of a message.\<close>

definition message_costs :: "(address_t \<times> hop_access) list \<Rightarrow> u32" where
  "message_costs hs = calculate_costs (map (\<lambda>h. (event_of h, 0)) hs)"

lemma message_costs_chain: "map event_of xs = map fst hs \<Longrightarrow> message_costs xs = calculate_costs hs"
  unfolding message_costs_def by (rule calculate_costs_cong) (simp add: comp_def)

section \<open>The calculator's state along the trace\<close>

definition at_position :: "trace_event_tuple_t list list \<Rightarrow> nat \<Rightarrow> trace_event_tuple_t list" where
  "at_position is p = is ! (p - 1)"

text \<open>A chain that has come about instruction by instruction.\<close>

definition history :: "(nat \<Rightarrow> trace_event_tuple_t list) \<Rightarrow> nat \<Rightarrow> result_tuple list \<Rightarrow> bool" where
  "history E n chain \<longleftrightarrow>
     (\<exists>H. H 0 = [] \<and> H n = chain \<and> (\<forall>q < n. extended SmartHops_config E q (of_nat (Suc q)) (H q) (H (Suc q))))"

lemma history_Suc:
  assumes "history E n chain" and "extended SmartHops_config E n (of_nat (Suc n)) chain chain'"
  shows "history E (Suc n) chain'"
proof -
  obtain H where "H 0 = []" "H n = chain" "\<forall>q < n. extended SmartHops_config E q (of_nat (Suc q)) (H q) (H (Suc q))"
    using assms(1) by (auto simp: history_def)
  with assms(2) show ?thesis unfolding history_def by (intro exI [of _ "H(Suc n := chain')"]) (auto simp: less_Suc_eq)
qed

lemma history_0: "history E 0 []"
  unfolding history_def by (rule exI [of _ "\<lambda>n. []"]) simp

definition sh_inv :: "trace_event_tuple_t list list \<Rightarrow> nat \<Rightarrow> SmartHops \<Rightarrow> bool" where
  "sh_inv is n sh \<longleftrightarrow> n \<le> length is \<and> hops_inv SmartHops_config (at_position is) n (sh_state sh) \<and> m_trace_pos sh = of_nat n \<and>
     history (at_position is) n (m_result (sh_state sh)) \<and>
     m_max_num_inst (m_trace_reader sh) = 0 \<and> m_current_position (m_trace_reader sh) = of_nat n + 1 \<and>
     instructions (unread (m_trace_reader sh)) = drop n is"

lemma access_tuples_simple: "e \<in> set (access_tuples x) \<Longrightarrow> simple_event e"
  by (auto simp: access_tuples_def simple_event_def split: if_splits)

lemma simple_ip: "simple_event (a, ACCESS_NONE)"
  by (simp add: simple_event_def)

lemma instructions_shape: "i \<in> set (instructions es) \<Longrightarrow> i \<noteq> [] \<and> (\<forall>e \<in> set i. simple_event e)"
  by (induction es rule: instructions.induct) (auto simp: simple_ip intro: access_tuples_simple)

lemma sh_inv_init: "sh_inv (instructions stream) 0 (SmartHops_init (openTraceFile stream 0 blank))"
  by (simp add: sh_inv_def SmartHops_init_def openTraceFile_def hops_inv_def hops_init_def plain_chain_def end_of_def unread_def history_0)

lemma hops_loop_step:
  assumes inv: "sh_inv is n sh" and off: "n < unat offset" and bound: "length is < 2 ^ 32 - 1"
    and shape: "\<forall>i \<in> set is. i \<noteq> [] \<and> (\<forall>e \<in> set i. simple_event e)"
  shows "if n < length is
    then \<exists>sh'. hops_loop offset sh = hops_loop offset sh' \<and> sh_inv is (Suc n) sh'
    else \<exists>sh'. hops_loop offset sh = Some (False, sh')"
proof -
  let ?tr = "m_trace_reader sh" and ?pos = "of_nat n + 1 :: u32"
  have n: "n \<le> length is" and st: "hops_inv SmartHops_config (at_position is) n (sh_state sh)" and tp: "m_trace_pos sh = of_nat n"
    and hist: "history (at_position is) n (m_result (sh_state sh))"
    and max: "m_max_num_inst ?tr = 0" and cur: "m_current_position ?tr = ?pos" and un: "instructions (unread ?tr) = drop n is"
    using inv by (auto simp: sh_inv_def)
  have less: "m_trace_pos sh < offset" using off n bound by (simp add: tp word_less_nat_alt unat_of_nat_u32)
  have pos: "unat ?pos = Suc n" using n bound unat_of_nat_u32 [of "Suc n"] by (simp add: add.commute)
  have wrap: "m_current_position ?tr + 1 \<noteq> 1"
  proof
    assume "m_current_position ?tr + 1 = 1"
    then have "?pos = 0" by (simp add: cur add.commute)
    then show False using pos by simp
  qed
  note next_instr = getNext_instructions [of ?tr "m_trace_pos sh" "m_trace_events sh", OF disjI1 [OF max] wrap, unfolded un cur]
  show ?thesis
  proof (cases "n < length is")
    case True
    then have d: "drop n is = at_position is (Suc n) # drop (Suc n) is" by (simp add: at_position_def Cons_nth_drop_Suc)
    obtain tr' where tr': "getNextTraceEvents (m_trace_pos sh) (m_trace_events sh) ?tr = (True, ?pos, at_position is (Suc n), tr')"
        "instructions (unread tr') = drop (Suc n) is" "m_current_position tr' = ?pos + 1" "m_max_num_inst tr' = 0"
      using next_instr unfolding d by (auto simp: max)
    have mem: "at_position is (Suc n) \<in> set is" using True by (simp add: at_position_def)
    have ev: "\<forall>e \<in> set (at_position is (Suc n)). snd e \<noteq> ACCESS_CHECKPOINT" "\<exists>e \<in> set (at_position is (Suc n)). usable SmartHops_config e"
    proof -
      show "\<forall>e \<in> set (at_position is (Suc n)). snd e \<noteq> ACCESS_CHECKPOINT" using shape mem by (fastforce simp: simple_event_def)
      show "\<exists>e \<in> set (at_position is (Suc n)). usable SmartHops_config e"
        using shape mem by (cases "at_position is (Suc n)") (auto simp: usable_def SmartHops_config_def)
    qed
    obtain st' where st': "hop_step SmartHops_config ?pos (at_position is (Suc n)) (sh_state sh) = Some st'"
        "hops_inv SmartHops_config (at_position is) (Suc n) st'"
        "extended SmartHops_config (at_position is) n ?pos (m_result (sh_state sh)) (m_result st')"
      using hop_step_ok [OF st pos ev(1) _ ev(2)] by (auto simp: SmartHops_config_def)
    let ?sh' = "sh\<lparr>m_trace_pos := ?pos, m_trace_events := at_position is (Suc n), m_trace_reader := tr', sh_state := st'\<rparr>"
    have "hops_loop offset sh = hops_loop offset ?sh'"
      using less tr'(1) st'(1) by (subst hops_loop.simps) simp
    moreover have "history (at_position is) (Suc n) (m_result st')" using history_Suc [OF hist] st'(3) by (simp add: add.commute)
    then have "sh_inv is (Suc n) ?sh'" using True st'(2) tr' by (simp add: sh_inv_def add.commute)
    ultimately show ?thesis using True by auto
  next
    case False
    then have "drop n is = []" by simp
    then obtain tr' where "getNextTraceEvents (m_trace_pos sh) (m_trace_events sh) ?tr = (False, ?pos, [], tr')"
      using next_instr by auto
    then show ?thesis using False less by (subst hops_loop.simps) simp
  qed
qed

lemma hops_loop_ok:
  assumes "sh_inv is n sh" and "n \<le> unat offset" and bound: "length is < 2 ^ 32 - 1"
    and shape: "\<forall>i \<in> set is. i \<noteq> [] \<and> (\<forall>e \<in> set i. simple_event e)"
  shows "if unat offset \<le> length is then \<exists>sh'. hops_loop offset sh = Some (True, sh') \<and> sh_inv is (unat offset) sh'
    else \<exists>sh'. hops_loop offset sh = Some (False, sh')"
  using assms(1,2)
proof (induction "unat offset - n" arbitrary: n sh)
  case 0
  then have n: "n = unat offset" "n \<le> length is" by (simp_all add: sh_inv_def)
  then have "\<not> m_trace_pos sh < offset" using 0(2) by (simp add: sh_inv_def)
  then have "hops_loop offset sh = Some (True, sh)" by (subst hops_loop.simps) simp
  then show ?case using 0 n by auto
next
  case (Suc d)
  then have less: "n < unat offset" by simp
  note step = hops_loop_step [OF Suc.prems(1) less bound shape]
  show ?case
  proof (cases "n < length is")
    case True
    then obtain sh' where sh': "hops_loop offset sh = hops_loop offset sh'" "sh_inv is (Suc n) sh'" using step by auto
    have "d = unat offset - Suc n" "Suc n \<le> unat offset" using Suc(2) less by simp_all
    from Suc(1) [OF this(1) sh'(2) this(2)] show ?thesis by (simp add: sh'(1))
  next
    case False
    then have "\<not> unat offset \<le> length is" using less by simp
    with step False show ?thesis by simp
  qed
qed

lemma chain_events:
  assumes "navigable E q hs" and "h \<in> set hs"
  shows "fst h \<in> set (E (unat (snd h))) \<and> q < unat (snd h)"
  using assms by (induction E q hs rule: navigable.induct) auto

text \<open>What a message for position \<open>p\<close> promises.\<close>

definition good_message :: "trace_event_tuple_t list list \<Rightarrow> u32 \<Rightarrow> InjectionPointMessage \<Rightarrow> bool" where
  "good_message is p m \<longleftrightarrow> checkpoint_id m = None \<and> target_trace_position m = p \<and>
     follow (at_position is) (length is) 0 (map event_of (ip_hops m)) = Some (unat p) \<and> ip_costs m = message_costs (ip_hops m)"

lemma calculateFollowingHop_ok:
  assumes inv: "sh_inv is n sh" and off: "n \<le> unat offset" "0 < offset" and bound: "length is < 2 ^ 32 - 1"
    and shape: "\<forall>i \<in> set is. i \<noteq> [] \<and> (\<forall>e \<in> set i. simple_event e)"
  shows "if unat offset \<le> length is
    then \<exists>m sh'. calculateFollowingHop offset sh = Some (Some m, sh') \<and> sh_inv is (unat offset) sh' \<and> good_message is offset m \<and>
      map event_of (ip_hops m) = map fst (m_result (sh_state sh'))
    else \<exists>sh'. calculateFollowingHop offset sh = Some (None, sh')"
proof (cases "unat offset \<le> length is")
  case True
  obtain sh' where sh': "hops_loop offset sh = Some (True, sh')" "sh_inv is (unat offset) sh'"
    using hops_loop_ok [OF inv off(1) bound shape] True by auto
  let ?hs = "m_result (sh_state sh')" and ?E = "at_position is"
  have nav: "navigable ?E 0 ?hs" "end_of 0 ?hs = unat offset" and costs: "?hs \<noteq> [] \<longrightarrow> m_costs (sh_state sh') = calculate_costs ?hs"
    using sh'(2) by (simp_all add: sh_inv_def hops_inv_def)
  have pos: "0 < unat offset" using off(2) by (simp add: word_less_nat_alt)
  then have ne: "?hs \<noteq> []" using nav(2) by (auto simp: end_of_def)
  have le: "\<forall>h \<in> set ?hs. unat (snd h) \<le> length is" using navigable_end [OF nav(1)] nav(2) True by fastforce
  have simple: "\<forall>h \<in> set ?hs. simple_event (fst h)"
  proof
    fix h assume h: "h \<in> set ?hs"
    have "at_position is (unat (snd h)) \<in> set is"
      using chain_events [OF nav(1) h] le h by (auto simp: at_position_def intro!: nth_mem)
    with chain_events [OF nav(1) h] shape show "simple_event (fst h)" by blast
  qed
  have last: "snd (last ?hs) = offset" using nav(2) ne by (simp add: end_of_def unsigned_word_eqI)
  obtain xs where xs: "convertToIPM ?hs (m_costs (sh_state sh')) =
      Some \<lparr>checkpoint_id = None, target_trace_position = offset, ip_costs = m_costs (sh_state sh'), ip_hops = xs\<rparr>"
      "map event_of xs = map fst ?hs"
    using convertToIPM_simple [OF ne simple] last by auto
  have "follow ?E (length is) 0 (map event_of xs) = Some (unat offset)"
    unfolding xs(2) using navigable_follow [OF nav(1) le] nav(2) by simp
  with xs sh' off(2) True costs ne show ?thesis
    by (auto simp: calculateFollowingHop_def good_message_def message_costs_chain)
next
  case False
  then obtain sh' where "hops_loop offset sh = Some (False, sh')" using hops_loop_ok [OF inv off(1) bound shape] by auto
  with False off(2) show ?thesis by (auto simp: calculateFollowingHop_def)
qed

section \<open>Property\<close>

text \<open>A client that asks for one chain after the other.\<close>

fun following_hops :: "u32 list \<Rightarrow> SmartHops \<Rightarrow> (InjectionPointMessage option list \<times> SmartHops) option" where
  "following_hops [] sh = Some ([], sh)"
| "following_hops (p # offsets) sh =
     (case calculateFollowingHop p sh of
        None \<Rightarrow> None
      | Some (m, sh') \<Rightarrow> map_option (\<lambda>(ms, sh''). (m # ms, sh'')) (following_hops offsets sh'))"

lemma following_hops_ok:
  assumes "length is < 2 ^ 32 - 1" and "\<forall>i \<in> set is. i \<noteq> [] \<and> (\<forall>e \<in> set i. simple_event e)"
  shows "sh_inv is n sh \<Longrightarrow> sorted offsets \<Longrightarrow> \<forall>p \<in> set offsets. 0 < p \<and> n \<le> unat p \<and> unat p \<le> length is \<Longrightarrow>
    \<exists>ms sh' n'. following_hops offsets sh = Some (map Some ms, sh') \<and> list_all2 (good_message is) offsets ms \<and> sh_inv is n' sh'"
proof (induction offsets arbitrary: n sh)
  case Nil
  then show ?case by auto
next
  case (Cons p offsets)
  obtain m sh1 where m: "calculateFollowingHop p sh = Some (Some m, sh1)" "sh_inv is (unat p) sh1" "good_message is p m"
    using calculateFollowingHop_ok [OF Cons.prems(1) _ _ assms, of p] Cons.prems(3) by auto
  have "\<forall>r \<in> set offsets. 0 < r \<and> unat p \<le> unat r \<and> unat r \<le> length is"
    using Cons.prems(2,3) by (auto simp: word_le_nat_alt)
  then obtain ms sh' n' where "following_hops offsets sh1 = Some (map Some ms, sh')" "list_all2 (good_message is) offsets ms" "sh_inv is n' sh'"
    using Cons.IH [OF m(2)] Cons.prems(2) by auto
  with m show ?case by (intro exI [of _ "m # ms"]) auto
qed

text \<open>
  C25. For ascending positions of the trace the calculator always delivers a chain: waiting for the hops of
  the message one after the other leads exactly to the wanted position, and the costs in the message
  are those of its hops.
\<close>

theorem hop_messages_reach_their_targets:
  assumes "length (instructions stream) < 2 ^ 32 - 1" and "sorted offsets"
    and "\<forall>p \<in> set offsets. 0 < p \<and> unat p \<le> length (instructions stream)"
  shows "\<exists>ms sh. following_hops offsets (SmartHops_init (openTraceFile stream 0 blank)) = Some (map Some ms, sh) \<and>
    list_all2 (\<lambda>p m. target_trace_position m = p \<and> checkpoint_id m = None \<and> ip_costs m = message_costs (ip_hops m) \<and>
      follow (at_position (instructions stream)) (length (instructions stream)) 0 (map event_of (ip_hops m)) = Some (unat p)) offsets ms"
proof -
  let ?is = "instructions stream"
  have "\<forall>i \<in> set ?is. i \<noteq> [] \<and> (\<forall>e \<in> set i. simple_event e)" using instructions_shape by blast
  from following_hops_ok [OF assms(1) this sh_inv_init [of stream blank] assms(2)] assms(3)
  obtain ms sh where "following_hops offsets (SmartHops_init (openTraceFile stream 0 blank)) = Some (map Some ms, sh)"
      "list_all2 (good_message ?is) offsets ms" by auto
  then show ?thesis by (auto simp: good_message_def elim!: list_all2_mono)
qed

text \<open>An instruction is executed twice, the second time after another one that writes two bytes.\<close>

definition exec :: "u64 \<Rightarrow> Trace_Event" where
  "exec a = \<lparr>ip = a, time_delta = None, memaddr = None, width = 0, accesstype = READ, trace_ext = None\<rparr>"

definition write_access :: "u64 \<Rightarrow> u64 \<Rightarrow> u32 \<Rightarrow> Trace_Event" where
  "write_access a m w = \<lparr>ip = a, time_delta = None, memaddr = Some m, width = w, accesstype = WRITE, trace_ext = None\<rparr>"

definition demo_stream :: "Trace_Event list" where
  "demo_stream = [exec 16, exec 20, write_access 20 64 2, exec 16]"

lemma demo_stream_instructions:
  "instructions demo_stream = [[(16, ACCESS_NONE)], [(20, ACCESS_NONE), (64, ACCESS_WRITE), (65, ACCESS_WRITE)], [(16, ACCESS_NONE)]]"
  by (simp add: demo_stream_def exec_def write_access_def access_tuples_def upt_rec)

theorem hop_messages_reach_their_targets_witness:
  "\<exists>m sh. following_hops [3] (SmartHops_init (openTraceFile demo_stream 0 (exec 0))) = Some ([Some m], sh) \<and>
     target_trace_position m = 3 \<and>
     follow (at_position (instructions demo_stream)) (length (instructions demo_stream)) 0 (map event_of (ip_hops m)) = Some 3"
proof -
  have "length (instructions demo_stream) < 2 ^ 32 - 1" "sorted [3 :: u32]"
      "\<forall>p \<in> set [3 :: u32]. 0 < p \<and> unat p \<le> length (instructions demo_stream)"
    unfolding demo_stream_instructions by simp_all
  from hop_messages_reach_their_targets [OF this, of "exec 0"] show ?thesis by (auto simp: list_all2_Cons1)
qed

end
