(* ===== verification/Hops_Optimal.thy ===== *)
theory Hops_Optimal
  imports Hop_Chains "HOL-Library.Sublist"
begin

text \<open>
  The hop chains of traces without memory accesses are optimal in the cost model: no other chain to the
  same position is cheaper. The calculator keeps the positions of its chain like a staircase of the
  cheapest positions so far.
\<close>

section \<open>Staircases\<close>

text \<open>
  \<open>x p\<close> is the event at position \<open>p\<close> and \<open>before p\<close> the position of its previous occurrence, 0 for none.
  \<open>Q n\<close> are the positions of the chain to \<open>n\<close>, the last one first.
\<close>

definition occurrences :: "(nat \<Rightarrow> 'e) \<Rightarrow> (nat \<Rightarrow> nat) \<Rightarrow> nat \<Rightarrow> bool" where
  "occurrences x before N \<longleftrightarrow>
     (\<forall>p. 0 < p \<longrightarrow> p \<le> N \<longrightarrow> before p < p \<and> (0 < before p \<longrightarrow> x (before p) = x p) \<and> (\<forall>q. before p < q \<and> q < p \<longrightarrow> x q \<noteq> x p))"

definition stair_step :: "(nat \<Rightarrow> nat) \<Rightarrow> (nat \<Rightarrow> nat list) \<Rightarrow> nat \<Rightarrow> bool" where
  "stair_step before Q n \<longleftrightarrow>
     before (Suc n) = 0 \<and> Q (Suc n) = [Suc n] \<or>
     0 < before (Suc n) \<and> (\<exists>k < length (Q n). Q (Suc n) = Suc n # drop k (Q n) \<and>
        (\<forall>a b R. drop k (Q n) = a # b # R \<longrightarrow> b \<le> before (Suc n)) \<and> (\<forall>i. 0 < i \<longrightarrow> i \<le> k \<longrightarrow> before (Suc n) < Q n ! i))"

definition stairs :: "(nat \<Rightarrow> nat) \<Rightarrow> (nat \<Rightarrow> nat list) \<Rightarrow> nat \<Rightarrow> bool" where
  "stairs before Q N \<longleftrightarrow> Q 0 = [] \<and> (\<forall>n < N. stair_step before Q n)"

fun stair_cost :: "(nat \<Rightarrow> 'e) \<Rightarrow> nat list \<Rightarrow> nat" where
  "stair_cost x (a # b # R) = stair_cost x (b # R) + (if x b = x a then 2 else 1)"
| "stair_cost x R = length R"

text \<open>The costs of any chain.\<close>

inductive chain_to :: "(nat \<Rightarrow> 'e) \<Rightarrow> (nat \<Rightarrow> nat) \<Rightarrow> nat \<Rightarrow> nat \<Rightarrow> bool" for x before where
  single: "0 < p \<Longrightarrow> before p = 0 \<Longrightarrow> chain_to x before p 1"
| hop: "chain_to x before q c \<Longrightarrow> before p \<le> q \<Longrightarrow> q < p \<Longrightarrow> chain_to x before p (c + (if x q = x p then 2 else 1))"

lemma stair_step_shape:
  assumes "stair_step before Q n"
  obtains "before (Suc n) = 0" "Q (Suc n) = [Suc n]"
  | b R k where "0 < before (Suc n)" "Q (Suc n) = Suc n # b # R" "k < length (Q n)" "drop k (Q n) = b # R"
      "\<forall>b' R'. R = b' # R' \<longrightarrow> b' \<le> before (Suc n)" "\<forall>i. 0 < i \<longrightarrow> i \<le> k \<longrightarrow> before (Suc n) < Q n ! i"
proof (cases "before (Suc n) = 0")
  case True
  with assms that(1) show ?thesis by (auto simp: stair_step_def)
next
  case False
  then obtain k where k: "k < length (Q n)" "Q (Suc n) = Suc n # drop k (Q n)" "\<forall>a b R. drop k (Q n) = a # b # R \<longrightarrow> b \<le> before (Suc n)"
      "\<forall>i. 0 < i \<longrightarrow> i \<le> k \<longrightarrow> before (Suc n) < Q n ! i"
    using assms by (auto simp: stair_step_def)
  obtain b R where "drop k (Q n) = b # R" using k(1) by (cases "drop k (Q n)") auto
  with k False that(2) show ?thesis by fastforce
qed

lemma stairs_hd:
  assumes "stairs before Q N" and "0 < n" and "n \<le> N"
  shows "\<exists>R. Q n = n # R"
proof -
  obtain m where m: "n = Suc m" using assms(2) by (cases n) auto
  then have "stair_step before Q m" using assms by (simp add: stairs_def)
  then show ?thesis unfolding m by (rule stair_step_shape) auto
qed

lemma stairs_suffix:
  assumes "stairs before Q N"
  shows "n \<le> N \<Longrightarrow> suffix (a # R) (Q n) \<Longrightarrow> Q a = a # R \<and> 0 < a \<and> a \<le> n"
proof (induction n)
  case 0
  then show ?case using assms by (simp add: stairs_def)
next
  case (Suc n)
  then have step: "stair_step before Q n" using assms by (simp add: stairs_def)
  show ?case
  proof (cases "a # R = Q (Suc n)")
    case True
    with stairs_hd [OF assms, of "Suc n"] Suc.prems(1) show ?thesis by auto
  next
    case False
    from step show ?thesis
    proof (cases rule: stair_step_shape)
      case 1
      with Suc.prems(2) False show ?thesis by (simp add: suffix_Cons)
    next
      case (2 b R' k)
      then have "suffix (a # R) (drop k (Q n))" using Suc.prems(2) False by (auto simp: suffix_Cons)
      then have "suffix (a # R) (Q n)" using suffix_drop suffix_order.trans by blast
      with Suc show ?thesis by auto
    qed
  qed
qed

lemma stair_cost_pos: "R \<noteq> [] \<Longrightarrow> 0 < stair_cost x R"
  by (induction x R rule: stair_cost.induct) auto

lemma stair_cost_suffix: "suffix R' R \<Longrightarrow> stair_cost x R' \<le> stair_cost x R"
proof (induction R)
  case (Cons a R)
  show ?case
  proof (cases "R' = a # R")
    case False
    then have "suffix R' R" using Cons.prems by (simp add: suffix_Cons)
    with Cons.IH show ?thesis by (cases R) (auto intro: le_trans [OF _ le_add1])
  qed simp
qed simp

text \<open>No position above a step is cheaper than the step.\<close>

definition cheapest :: "(nat \<Rightarrow> 'e) \<Rightarrow> (nat \<Rightarrow> nat list) \<Rightarrow> nat \<Rightarrow> bool" where
  "cheapest x Q n \<longleftrightarrow>
     (\<forall>a b R q. suffix (a # b # R) (Q n) \<longrightarrow> b < q \<longrightarrow> q \<le> n \<longrightarrow> stair_cost x (Q a) \<le> stair_cost x (Q q))"

lemma step_from:
  assumes st: "stairs before Q N" and oc: "occurrences x before N" and n: "Suc n \<le> N"
    and shape: "Q (Suc n) = Suc n # b # R" "drop k (Q n) = b # R" "k < length (Q n)" "0 < before (Suc n)"
      "\<forall>i. 0 < i \<longrightarrow> i \<le> k \<longrightarrow> before (Suc n) < Q n ! i"
  shows "Q b = b # R" and "0 < b" and "b \<le> n" and "before (Suc n) < b \<and> x b \<noteq> x (Suc n) \<or> b = n \<and> before (Suc n) = n \<and> x b = x (Suc n)"
proof -
  have suf: "suffix (b # R) (Q n)" using suffix_drop shape(2) by metis
  from stairs_suffix [OF st _ suf] n show b: "Q b = b # R" "0 < b" "b \<le> n" by simp_all
  have bk: "b = Q n ! k" using shape(2,3) hd_drop_conv_nth by (metis list.sel(1))
  have oc': "before (Suc n) < Suc n" "x (before (Suc n)) = x (Suc n)" "\<forall>q. before (Suc n) < q \<and> q < Suc n \<longrightarrow> x q \<noteq> x (Suc n)"
    using oc n shape(4) by (auto simp: occurrences_def)
  show "before (Suc n) < b \<and> x b \<noteq> x (Suc n) \<or> b = n \<and> before (Suc n) = n \<and> x b = x (Suc n)"
  proof (cases "before (Suc n) < b")
    case True
    with oc'(3) b(3) show ?thesis by simp
  next
    case False
    then have "k = 0" using shape(5) bk by blast
    moreover have "0 < n" using b by simp
    ultimately have "b = n" using stairs_hd [OF st, of n] n bk by auto
    moreover have "before (Suc n) = n" using False oc'(1) \<open>b = n\<close> by simp
    ultimately show ?thesis using oc'(2) by simp
  qed
qed

lemma cheapest_Suc:
  assumes st: "stairs before Q N" and oc: "occurrences x before N" and n: "Suc n \<le> N" and ch: "cheapest x Q n"
  shows "cheapest x Q (Suc n)"
  unfolding cheapest_def
proof (intro allI impI)
  fix a b R q assume suf: "suffix (a # b # R) (Q (Suc n))" and q: "b < q" "q \<le> Suc n"
  have step: "stair_step before Q n" using st n by (simp add: stairs_def)
  from step show "stair_cost x (Q a) \<le> stair_cost x (Q q)"
  proof (cases rule: stair_step_shape)
    case 1
    with suf show ?thesis by (simp add: suffix_Cons)
  next
    case (2 c S k)
    note from_c = step_from [OF st oc n 2(2,4,3,1,6)]
    have cost: "stair_cost x (Q (Suc n)) = stair_cost x (Q c) + (if x c = x (Suc n) then 2 else 1)" using 2(2) from_c(1) by simp
    have sufc: "suffix (c # S) (Q n)" using suffix_drop 2(4) by metis
    show ?thesis
    proof (cases "a # b # R = Q (Suc n)")
      case True
      then have a: "a = Suc n" "b = c" "R = S" using 2(2) by auto
      show ?thesis
      proof (cases "q = Suc n")
        case False
        then have qn: "c < q" "q \<le> n" using q a by auto
        then have c: "before (Suc n) < c" "x c \<noteq> x (Suc n)" using from_c(3,4) by auto
        obtain T where T: "Q n = n # T" using stairs_hd [OF st, of n] n qn by auto
        have "k \<noteq> 0"
        proof
          assume "k = 0"
          then have "c = n" using 2(4) T by simp
          with qn show False by simp
        qed
        then obtain j where j: "k = Suc j" by (cases k) auto
        let ?d = "Q n ! j"
        have "drop j (Q n) = ?d # c # S" using 2(3,4) j by (metis Cons_nth_drop_Suc Suc_lessD)
        then have sufd: "suffix (?d # c # S) (Q n)" using suffix_drop by metis
        have "stair_cost x (Q ?d) \<le> stair_cost x (Q q)" using ch sufd qn unfolding cheapest_def by blast
        moreover have "Q ?d = ?d # c # S" using stairs_suffix [OF st _ sufd] n by simp
        ultimately show ?thesis using cost c(2) a(1) from_c(1) by (auto split: if_splits)
      qed (simp add: a)
    next
      case False
      then have suf': "suffix (a # b # R) (c # S)" using suf 2(2) by (auto simp: suffix_Cons)
      then have sufn: "suffix (a # b # R) (Q n)" using sufc suffix_order.trans by blast
      show ?thesis
      proof (cases "q = Suc n")
        case True
        have "Q a = a # b # R" using stairs_suffix [OF st _ sufn] n by simp
        with stair_cost_suffix [OF suf', of x] from_c(1) have "stair_cost x (Q a) \<le> stair_cost x (Q c)" by simp
        with cost True show ?thesis by simp
      next
        case False
        then have "q \<le> n" using q by simp
        with ch sufn q(1) show ?thesis unfolding cheapest_def by blast
      qed
    qed
  qed
qed

lemma stairs_cheapest:
  assumes "stairs before Q N" and "occurrences x before N"
  shows "n \<le> N \<Longrightarrow> cheapest x Q n"
proof (induction n)
  case 0
  then show ?case using assms(1) by (simp add: cheapest_def stairs_def)
next
  case (Suc n)
  then show ?case using cheapest_Suc [OF assms] by simp
qed

lemma stair_locally_optimal:
  assumes st: "stairs before Q N" and oc: "occurrences x before N" and p: "p \<le> N" and q: "0 < q" "before p \<le> q" "q < p"
  shows "stair_cost x (Q p) \<le> stair_cost x (Q q) + (if x q = x p then 2 else 1)"
proof -
  obtain n where n: "p = Suc n" using q(3) by (cases p) auto
  have step: "stair_step before Q n" using st p n by (simp add: stairs_def)
  have Qq: "0 < stair_cost x (Q q)" using stairs_hd [OF st q(1)] q(3) p by (fastforce intro: stair_cost_pos)
  from step show ?thesis
  proof (cases rule: stair_step_shape)
    case 1
    then show ?thesis using Qq n by simp
  next
    case (2 c S k)
    have nN: "Suc n \<le> N" using p n by simp
    note from_c = step_from [OF st oc nN 2(2,4,3,1,6)]
    have cost: "stair_cost x (Q p) = stair_cost x (Q c) + (if x c = x p then 2 else 1)" using 2(2) from_c(1) n by simp
    have same: "x q = x p \<longleftrightarrow> q = before p" using oc p q 2(1) n unfolding occurrences_def by (metis le_neq_implies_less zero_less_Suc)
    consider "before p < c" "x c \<noteq> x p" | "c = n" "before p = n" "x c = x p" using from_c(4) n by auto
    then show ?thesis
    proof cases
      case 1
      have "stair_cost x (Q c) \<le> stair_cost x (Q q) + (if x q = x p then 1 else 0)"
      proof (cases S)
        case Nil
        then show ?thesis using from_c(1) Qq by simp
      next
        case (Cons b T)
        have b: "b \<le> before p" using 2(5) Cons n by simp
        have "suffix (c # b # T) (Q n)" using suffix_drop 2(4) Cons by metis
        moreover have "cheapest x Q n" using stairs_cheapest [OF st oc] nN by simp
        ultimately have above: "stair_cost x (Q c) \<le> stair_cost x (Q r)" if "b < r" "r \<le> n" for r
          using that unfolding cheapest_def by blast
        show ?thesis
        proof (cases "b < q")
          case True
          then show ?thesis using above [of q] q(3) n by simp
        next
          case False
          then have "q = b" "q = before p" using b q(2) by simp_all
          moreover have "Q b = b # T" using stairs_suffix [OF st, of n b T] nN
            suffix_drop [of k "Q n"] 2(4) Cons by (metis Suc_leD suffix_ConsI suffix_order.trans suffix_order.refl)
          moreover have "x c \<noteq> x b" using 1(2) same calculation(1,2) by auto
          ultimately show ?thesis using from_c(1) Cons same by simp
        qed
      qed
      then show ?thesis using cost 1(2) by (simp split: if_splits)
    next
      case 2
      then have "q = n" using q n by simp
      then show ?thesis using cost 2 by simp
    qed
  qed
qed

theorem stairs_optimal:
  assumes "stairs before Q N" and "occurrences x before N"
  shows "chain_to x before p c \<Longrightarrow> p \<le> N \<Longrightarrow> 0 < p \<and> stair_cost x (Q p) \<le> c"
proof (induction rule: chain_to.induct)
  case (single p)
  then obtain n where n: "p = Suc n" by (cases p) auto
  then have "stair_step before Q n" using assms(1) single by (simp add: stairs_def)
  then show ?case using single n by (cases rule: stair_step_shape) auto
next
  case (hop q c p)
  then show ?case using stair_locally_optimal [OF assms hop(5), of q] by fastforce
qed

section \<open>Costs of event lists\<close>

fun costs_from :: "'e \<Rightarrow> 'e list \<Rightarrow> nat" where
  "costs_from d [] = 0"
| "costs_from d (e # es) = (if d = e then 2 else 1) + costs_from e es"

text \<open>The costs of a list of hops, without a bound.\<close>

definition total_costs :: "'e list \<Rightarrow> nat" where
  "total_costs es = (case es of [] \<Rightarrow> 0 | e # es' \<Rightarrow> 1 + costs_from e es')"

lemma calculate_costs_total: "hs \<noteq> [] \<Longrightarrow> calculate_costs hs = of_nat (total_costs (map fst hs))"
proof (induction hs rule: calculate_costs.induct)
  case (1 a b res)
  then show ?case by (simp add: total_costs_def COST_CHANGE_def COST_NO_CHANGE_def)
qed (simp_all add: total_costs_def COST_CHANGE_def)

lemma total_costs_le: "total_costs es \<le> 2 * length es"
proof -
  have from_le: "costs_from d es \<le> 2 * length es" for d and es :: "'a list"
  proof (induction es arbitrary: d)
    case (Cons e es)
    have "costs_from e es \<le> 2 * length es" by (rule Cons)
    then show ?case by simp
  qed simp
  show ?thesis
  proof (cases es)
    case (Cons e es')
    then show ?thesis using from_le [of e es'] by (simp add: total_costs_def)
  qed (simp add: total_costs_def)
qed

lemma total_costs_snoc: "es \<noteq> [] \<Longrightarrow> total_costs (es @ [e]) = total_costs es + (if last es = e then 2 else 1)"
proof -
  have "costs_from d (es @ [e]) = costs_from d es + (if last (d # es) = e then 2 else 1)" for d and es :: "'a list"
    by (induction es arbitrary: d) auto
  then show "es \<noteq> [] \<Longrightarrow> ?thesis" by (cases es) (auto simp: total_costs_def)
qed

lemma stair_cost_total: "stair_cost x R = total_costs (map x (rev R))"
proof (induction x R rule: stair_cost.induct)
  case (1 x a b R)
  then show ?case using total_costs_snoc [of "map x (rev (b # R))" "x a"] by simp
qed (simp_all add: total_costs_def)

section \<open>The calculator's chains are staircases\<close>

text \<open>A trace without memory accesses.\<close>

definition plain_trace :: "trace_event_tuple_t list list \<Rightarrow> bool" where
  "plain_trace is \<longleftrightarrow> (\<forall>i \<in> set is. length i = 1)"

definition event_at :: "trace_event_tuple_t list list \<Rightarrow> nat \<Rightarrow> trace_event_tuple_t" where
  "event_at is p = hd (at_position is p)"

definition previous :: "trace_event_tuple_t list list \<Rightarrow> nat \<Rightarrow> nat" where
  "previous is p = last_at (at_position is) (p - 1) (event_at is p)"

lemma at_position_plain: "plain_trace is \<Longrightarrow> 0 < p \<Longrightarrow> p \<le> length is \<Longrightarrow> at_position is p = [event_at is p]"
proof -
  assume "plain_trace is" "0 < p" "p \<le> length is"
  then have "length (at_position is p) = 1" by (simp add: plain_trace_def at_position_def)
  then show ?thesis unfolding event_at_def by (cases "at_position is p") auto
qed

lemma previous_occurrences: "plain_trace is \<Longrightarrow> occurrences (event_at is) (previous is) (length is)"
  unfolding occurrences_def
proof (intro allI impI conjI)
  fix p assume plain: "plain_trace is" and p: "0 < p" "p \<le> length is"
  let ?e = "event_at is p"
  have le: "previous is p \<le> p - 1" by (simp add: previous_def last_at_le)
  then show "previous is p < p" using p by simp
  show "event_at is (previous is p) = ?e" if "0 < previous is p"
    using last_at_occurs [of "at_position is" "p - 1" ?e] that le p at_position_plain [OF plain, of "previous is p"]
    by (simp add: previous_def)
  show "event_at is q \<noteq> ?e" if "previous is p < q \<and> q < p" for q
  proof -
    have "q \<le> p - 1" using that by auto
    with last_at_none_after [of "at_position is" "p - 1" ?e q] that have "?e \<notin> set (at_position is q)" by (simp add: previous_def)
    moreover have "at_position is q = [event_at is q]" using at_position_plain [OF plain, of q] that p by simp
    ultimately show ?thesis by auto
  qed
qed

definition positions :: "result_tuple list \<Rightarrow> nat list" where
  "positions hs = rev (map (\<lambda>h. unat (snd h)) hs)"

lemma extended_stair_step:
  assumes plain: "plain_trace is" and n: "n < length is" and bound: "length is < 2 ^ 32 - 1"
    and ext: "extended SmartHops_config (at_position is) n (of_nat (Suc n)) (H n) (H (Suc n))"
  shows "stair_step (previous is) (\<lambda>m. positions (H m)) n"
proof -
  let ?E = "at_position is" and ?e = "event_at is (Suc n)"
  let ?l = "last_at ?E n ?e"
  have prev: "previous is (Suc n) = ?l" by (simp add: previous_def)
  have E: "?E (Suc n) = [?e]" using at_position_plain [OF plain] n by simp
  have pos: "unat (of_nat (Suc n) :: u32) = Suc n" using n bound unat_of_nat_u32 [of "Suc n"] by simp
  have less: "(of_nat ?l :: u32) < w \<longleftrightarrow> ?l < unat w" for w
    using last_at_le [of ?E n ?e] n bound by (simp add: word_less_nat_alt unat_of_nat_u32)
  from ext [unfolded extended_def E] consider "?l = 0" "H (Suc n) = [(?e, of_nat (Suc n))]"
    | k where "0 < ?l" "k < length (H n)" "H (Suc n) = rev (drop k (rev (H n))) @ [(?e, of_nat (Suc n))]"
        "kept SmartHops_config ?e (of_nat ?l) (drop k (rev (H n)))"
        "\<forall>i. 0 < i \<longrightarrow> i \<le> k \<longrightarrow> (of_nat ?l :: u32) < snd (rev (H n) ! i)"
    by (auto simp: SmartHops_config_def)
  then show ?thesis
  proof cases
    case 1
    then show ?thesis using pos by (simp add: stair_step_def prev positions_def)
  next
    case 2
    let ?Q = "\<lambda>m. positions (H m)"
    have Q: "?Q n = map (\<lambda>h. unat (snd h)) (rev (H n))" by (simp add: positions_def rev_map)
    have "?Q (Suc n) = Suc n # drop k (?Q n)" using 2(3) pos by (simp add: positions_def rev_map drop_map)
    moreover have "b \<le> ?l" if "drop k (?Q n) = a # b # R" for a b R
    proof -
      obtain h1 h2 hs where h: "drop k (rev (H n)) = h1 # h2 # hs" "unat (snd h2) = b"
        using \<open>drop k (?Q n) = a # b # R\<close> unfolding Q by (auto simp: drop_map map_eq_Cons_conv)
      then have "\<not> (of_nat ?l :: u32) < snd h2" using 2(4) by (simp add: kept_def SmartHops_config_def)
      with h(2) less show ?thesis by simp
    qed
    moreover have "?l < ?Q n ! i" if "0 < i" "i \<le> k" for i
      using 2(2,5) that less by (simp add: Q)
    ultimately show ?thesis using 2(1,2) unfolding stair_step_def prev by (intro disjI2 conjI exI [of _ k]) (auto simp: Q)
  qed
qed

lemma follow_chain_to:
  assumes plain: "plain_trace is"
  shows "follow (at_position is) (length is) q es = Some p \<Longrightarrow> 0 < q \<Longrightarrow> q \<le> length is \<Longrightarrow> chain_to (event_at is) (previous is) q c \<Longrightarrow>
    p \<le> length is \<and> chain_to (event_at is) (previous is) p (c + costs_from (event_at is q) es)"
proof (induction es arbitrary: q c)
  case (Cons e es)
  then obtain r where r: "next_occurrence (at_position is) (length is) q e = Some r" "follow (at_position is) (length is) r es = Some p"
    by (auto split: option.splits)
  then have o: "q < r" "r \<le> length is" "e \<in> set (at_position is r)" "\<forall>s. q < s \<and> s < r \<longrightarrow> e \<notin> set (at_position is s)"
    by (auto simp: next_occurrence_Some)
  have e: "e = event_at is r" using o(1-3) at_position_plain [OF plain, of r] by simp
  have "previous is r \<le> q"
  proof (rule ccontr)
    assume "\<not> previous is r \<le> q"
    moreover from this have "e \<in> set (at_position is (previous is r))"
      using last_at_occurs [of "at_position is" "r - 1" e] by (simp add: previous_def e)
    moreover have "previous is r < r" using last_at_le [of "at_position is" "r - 1" e] o(1) by (simp add: previous_def e)
    ultimately show False using o(4) by auto
  qed
  from Cons.IH [OF r(2) _ o(2) hop [OF Cons.prems(4) this o(1)]] o(1) show ?case by (simp add: e add.assoc)
qed simp

lemma follow_start:
  assumes plain: "plain_trace is" and f: "follow (at_position is) (length is) 0 es = Some p" and p: "0 < p"
  shows "p \<le> length is \<and> chain_to (event_at is) (previous is) p (total_costs es)"
proof -
  obtain e es' where es: "es = e # es'" using f p by (cases es) auto
  then obtain r where r: "next_occurrence (at_position is) (length is) 0 e = Some r" "follow (at_position is) (length is) r es' = Some p"
    using f by (auto split: option.splits)
  then have o: "0 < r" "r \<le> length is" "e \<in> set (at_position is r)" "\<forall>s. 0 < s \<and> s < r \<longrightarrow> e \<notin> set (at_position is s)"
    by (auto simp: next_occurrence_Some)
  have e: "e = event_at is r" using o(1-3) at_position_plain [OF plain, of r] by simp
  have "previous is r = 0"
  proof (rule ccontr)
    assume "previous is r \<noteq> 0"
    then have "0 < previous is r" "e \<in> set (at_position is (previous is r))"
      using last_at_occurs [of "at_position is" "r - 1" e] by (simp_all add: previous_def e)
    moreover have "previous is r < r" using last_at_le [of "at_position is" "r - 1" e] o(1) by (simp add: previous_def e)
    ultimately show False using o(4) by auto
  qed
  then have "chain_to (event_at is) (previous is) r 1" by (intro single o(1))
  from follow_chain_to [OF plain r(2) o(1,2) this] show ?thesis by (simp add: total_costs_def es e)
qed

lemma history_optimal:
  assumes plain: "plain_trace is" and bound: "length is < 2 ^ 32 - 1" and hist: "history (at_position is) p chain" and p: "p \<le> length is"
    and nav: "navigable (at_position is) 0 chain" "end_of 0 chain = p" and other: "chain_to (event_at is) (previous is) p c"
  shows "total_costs (map fst chain) \<le> c"
proof -
  obtain H where H: "H 0 = []" "H p = chain" "\<forall>q < p. extended SmartHops_config (at_position is) q (of_nat (Suc q)) (H q) (H (Suc q))"
    using hist by (auto simp: history_def)
  let ?Q = "\<lambda>m. positions (H m)"
  have "stairs (previous is) ?Q p"
    unfolding stairs_def using H(1,3) extended_stair_step [OF plain _ bound] p by (auto simp: positions_def)
  moreover have "occurrences (event_at is) (previous is) p"
    using previous_occurrences [OF plain] p by (auto simp: occurrences_def)
  ultimately have "stair_cost (event_at is) (?Q p) \<le> c" using stairs_optimal other by blast
  moreover have "fst h = event_at is (unat (snd h))" if h: "h \<in> set chain" for h
    using chain_events [OF nav(1) h] navigable_end [OF nav(1) h] nav(2) p at_position_plain [OF plain, of "unat (snd h)"] by simp
  then have "map (event_at is) (rev (?Q p)) = map fst chain" by (simp add: positions_def H(2))
  ultimately show ?thesis by (simp add: stair_cost_total)
qed

lemma navigable_length: "navigable E q hs \<Longrightarrow> q + length hs \<le> end_of q hs"
  by (induction E q hs rule: navigable.induct) (auto simp: end_of_def split: if_splits)

lemma plain_instructions: "\<forall>e \<in> set stream. memaddr e = None \<Longrightarrow> plain_trace (instructions stream)"
proof (induction stream rule: instructions.induct)
  case (2 e es)
  have es: "takeWhile (\<lambda>x. memaddr x \<noteq> None) es = []" using "2.prems" by (cases es) auto
  have "\<forall>x \<in> set (dropWhile (\<lambda>x. memaddr x \<noteq> None) es). memaddr x = None" using "2.prems" by (auto dest: set_dropWhileD)
  with "2.IH" have "plain_trace (instructions (dropWhile (\<lambda>x. memaddr x \<noteq> None) es))" by blast
  then show ?case unfolding instructions.simps es by (simp add: plain_trace_def)
qed (simp add: plain_trace_def)

text \<open>
  C26. For a trace without memory accesses the calculated chain is optimal: every list of hops that leads to
  the position costs at least as much, and the costs in the message are the true ones.
\<close>

theorem hop_chains_are_optimal:
  assumes "\<forall>e \<in> set stream. memaddr e = None" and "length (instructions stream) < 2 ^ 31" and "0 < p"
    and "follow (at_position (instructions stream)) (length (instructions stream)) 0 es = Some (unat p)"
  shows "\<exists>m sh. calculateFollowingHop p (SmartHops_init (openTraceFile stream 0 blank)) = Some (Some m, sh) \<and>
    unat (ip_costs m) = total_costs (map event_of (ip_hops m)) \<and> total_costs (map event_of (ip_hops m)) \<le> total_costs es"
proof -
  let ?is = "instructions stream"
  have bound: "length ?is < 2 ^ 32 - 1" using assms(2) by simp
  have plain: "plain_trace ?is" by (rule plain_instructions [OF assms(1)])
  have pos: "0 < unat p" using assms(3) by (simp add: word_less_nat_alt)
  have other: "unat p \<le> length ?is" "chain_to (event_at ?is) (previous ?is) (unat p) (total_costs es)"
    using follow_start [OF plain assms(4) pos] by auto
  have shape: "\<forall>i \<in> set ?is. i \<noteq> [] \<and> (\<forall>e \<in> set i. simple_event e)" using instructions_shape by blast
  obtain m sh where m: "calculateFollowingHop p (SmartHops_init (openTraceFile stream 0 blank)) = Some (Some m, sh)"
      "sh_inv ?is (unat p) sh" "good_message ?is p m" "map event_of (ip_hops m) = map fst (m_result (sh_state sh))"
    using calculateFollowingHop_ok [OF sh_inv_init [of stream blank] _ assms(3) bound shape] other(1) by auto
  let ?hs = "m_result (sh_state sh)"
  have nav: "history (at_position ?is) (unat p) ?hs" "navigable (at_position ?is) 0 ?hs" "end_of 0 ?hs = unat p"
    using m(2) by (simp_all add: sh_inv_def hops_inv_def)
  have opt: "total_costs (map fst ?hs) \<le> total_costs es" by (rule history_optimal [OF plain bound nav(1) other(1) nav(2,3) other(2)])
  have ne: "?hs \<noteq> []" using nav(3) pos by (auto simp: end_of_def)
  have len: "length ?hs \<le> unat p" using navigable_length [OF nav(2)] nav(3) by simp
  have "total_costs (map fst ?hs) < 2 ^ 32" using total_costs_le [of "map fst ?hs"] len other(1) assms(2) by simp
  moreover have "ip_costs m = of_nat (total_costs (map fst ?hs))"
    using m(3,4) ne by (simp add: good_message_def message_costs_chain calculate_costs_total)
  ultimately show ?thesis using m(1,4) opt by (auto simp: unat_of_nat_u32)
qed

text \<open>Four instructions; the third repeats the first, the fourth the second.\<close>

theorem hop_chains_are_optimal_witness:
  "\<exists>m sh. calculateFollowingHop 4 (SmartHops_init (openTraceFile [exec 16, exec 20, exec 16, exec 20] 0 (exec 0))) = Some (Some m, sh) \<and>
    unat (ip_costs m) \<le> 3"
proof -
  let ?t = "[exec 16, exec 20, exec 16, exec 20]"
  have ins: "instructions ?t = [[(16, ACCESS_NONE)], [(20, ACCESS_NONE)], [(16, ACCESS_NONE)], [(20, ACCESS_NONE)]]"
    by (simp add: exec_def)
  have "\<forall>e \<in> set ?t. memaddr e = None" by (simp add: exec_def)
  moreover have "length (instructions ?t) < 2 ^ 31" "0 < (4 :: u32)" unfolding ins by simp_all
  moreover have "follow (at_position (instructions ?t)) (length (instructions ?t)) 0 [(20, ACCESS_NONE), (20, ACCESS_NONE)] = Some (unat (4 :: u32))"
    unfolding ins by (simp add: next_occurrence_def at_position_def upt_rec)
  ultimately have "\<exists>m sh. calculateFollowingHop 4 (SmartHops_init (openTraceFile ?t 0 (exec 0))) = Some (Some m, sh) \<and>
    unat (ip_costs m) = total_costs (map event_of (ip_hops m)) \<and>
    total_costs (map event_of (ip_hops m)) \<le> total_costs [(20 :: u64, ACCESS_NONE), (20, ACCESS_NONE)]"
    by (rule hop_chains_are_optimal)
  then show ?thesis by (auto simp: total_costs_def)
qed

end
