(* ===== verification/Injection_Points.thy ===== *)
theory Injection_Points
  imports Hops_Optimal
begin

text \<open>
  Injection points (\<^verbatim>\<open>src/core/cpn/InjectionPoint.hpp\<close>, \<^verbatim>\<open>InjectionPointHops.cc\<close>, \<^verbatim>\<open>InjectionPointSteps.cc\<close>):
  the server turns the borders of an equivalence class into the message that tells a client where to
  inject. \<open>InjectionPointHops\<close> keeps the hop chains of the instructions around the current class and
  takes the cheapest one.
\<close>

section \<open>Model\<close>

text \<open>\<open>m_sa\<close> is there once the object is initialised; \<open>None\<close> results are exits and undefined behaviour.\<close>

record InjectionPointHops =
  m_sa :: "SmartHops option"
  m_curr_instr1 :: int
  m_curr_instr2 :: int
  m_results :: "InjectionPointMessage list"
  m_ip :: "InjectionPointMessage option"

definition InjectionPointHops_new :: InjectionPointHops where
  "InjectionPointHops_new = \<lparr>m_sa = None, m_curr_instr1 = - 1, m_curr_instr2 = - 1, m_results = [], m_ip = None\<rparr>"

text \<open>\<open>trace_path\<close> is the reader for the file that \<open>FAIL_TRACE_PATH\<close> names, \<open>None\<close> when the variable is not set.\<close>

definition iph_init :: "TraceReader option \<Rightarrow> InjectionPointHops \<Rightarrow> InjectionPointHops option" where
  "iph_init trace_path iph =
     (case m_sa iph of
        Some sa \<Rightarrow> Some iph
      | None \<Rightarrow> map_option (\<lambda>tr. iph\<lparr>m_sa := Some (SmartHops_init tr)\<rparr>) trace_path)"

text \<open>The last index of a result for an instruction before \<open>instr1\<close>: \<open>delete_iterator\<close>.\<close>

fun delete_iterator :: "u32 \<Rightarrow> InjectionPointMessage list \<Rightarrow> nat \<Rightarrow> nat option \<Rightarrow> nat option" where
  "delete_iterator instr1 [] i found = found"
| "delete_iterator instr1 (m # ms) i found =
     delete_iterator instr1 ms (i + 1) (if target_trace_position m < instr1 then Some i else found)"

definition delete_old :: "u32 \<Rightarrow> InjectionPointHops \<Rightarrow> InjectionPointHops" where
  "delete_old instr1 iph =
     (case delete_iterator instr1 (m_results iph) 0 None of
        None \<Rightarrow> iph
      | Some i \<Rightarrow> iph\<lparr>m_results := drop i (m_results iph), m_curr_instr1 := uint instr1\<rparr>)"

lemma uint_of_int: "0 \<le> k \<Longrightarrow> k < 2 ^ 32 \<Longrightarrow> uint (word_of_int k :: u32) = k"
  by (simp add: uint_word_of_int_eq take_bit_int_eq_self)

lemma next_instr_advances:
  fixes instr1 instr2 :: u32
  assumes "c < uint instr2"
  shows "c < uint (if c < uint instr1 then instr1 else word_of_int (c + 1))"
proof (cases "c < uint instr1")
  case False
  have "0 \<le> uint instr1" "uint instr2 < 2 ^ 32" using uint_lt2p [of instr2] by simp_all
  then have "0 \<le> c + 1" "c + 1 < 2 ^ 32" using False assms by linarith+
  then have "uint (word_of_int (c + 1) :: u32) = c + 1" by (rule uint_of_int)
  with False show ?thesis by simp
qed simp

text \<open>The loop that calculates the chains up to \<open>instr2\<close>.\<close>

function next_results :: "u32 \<Rightarrow> u32 \<Rightarrow> SmartHops \<Rightarrow> InjectionPointHops \<Rightarrow> InjectionPointHops option" where
  "next_results instr1 instr2 sa iph =
     (if m_curr_instr2 iph < uint instr2 then
        let skip = m_curr_instr2 iph < uint instr1;
            iph1 = (if skip then iph\<lparr>m_curr_instr1 := uint instr1\<rparr> else iph);
            new_curr_instr2 = (if skip then instr1 else word_of_int (m_curr_instr2 iph + 1))
        in (case calculateFollowingHop new_curr_instr2 sa of
              Some (Some m, sa') \<Rightarrow>
                next_results instr1 instr2 sa'
                  (iph1\<lparr>m_results := m_results iph1 @ [m], m_curr_instr2 := uint new_curr_instr2\<rparr>)
            | Some (None, sa') \<Rightarrow> None
            | None \<Rightarrow> None)
      else Some (iph\<lparr>m_sa := Some sa\<rparr>))"
  by pat_completeness auto
termination
proof (relation "measure (\<lambda>(instr1, instr2, sa, iph). nat (uint instr2 - m_curr_instr2 iph))")
  fix instr1 instr2 :: u32 and sa iph x xa new aa sa' ab m
  assume "m_curr_instr2 iph < uint instr2" "x = (m_curr_instr2 iph < uint instr1)"
    "xa = (if x then iph\<lparr>m_curr_instr1 := uint instr1\<rparr> else iph)" "new = (if x then instr1 else word_of_int (m_curr_instr2 iph + 1))"
  then show "((instr1, instr2, sa', xa\<lparr>m_results := m_results xa @ [m], m_curr_instr2 := uint new\<rparr>), instr1, instr2, sa, iph)
      \<in> measure (\<lambda>(instr1, instr2, sa, iph). nat (uint instr2 - m_curr_instr2 iph))"
    using next_instr_advances [of "m_curr_instr2 iph" instr2 instr1] by (simp del: of_int_add)
qed simp

declare next_results.simps [simp del]

text \<open>The cheapest message; \<open>None\<close> when no message is cheaper than the largest number: the pointer is unset.\<close>

fun min_cost_msg :: "InjectionPointMessage list \<Rightarrow> u32 \<Rightarrow> InjectionPointMessage option \<Rightarrow> InjectionPointMessage option" where
  "min_cost_msg [] min_costs best = best"
| "min_cost_msg (m # ms) min_costs best =
     (if ip_costs m < min_costs then min_cost_msg ms (ip_costs m) (Some m) else min_cost_msg ms min_costs best)"

definition choose_minimum :: "u32 \<Rightarrow> u32 \<Rightarrow> InjectionPointHops \<Rightarrow> InjectionPointMessage option" where
  "choose_minimum instr1 instr2 iph =
     (let search = uint instr1 - m_curr_instr1 iph; search_end = uint instr2 - m_curr_instr1 iph; rs = m_results iph
      in if search < 0 \<or> int (length rs) < search_end then None
         else if search = search_end then (if nat search < length rs then Some (rs ! nat search) else None)
         else if search_end < search then None
         else min_cost_msg (take (nat (search_end - search)) (drop (nat search) rs)) (- 1) None)"

definition parseFromInjectionInstr :: "TraceReader option \<Rightarrow> u32 \<Rightarrow> u32 \<Rightarrow> InjectionPointHops \<Rightarrow> InjectionPointHops option" where
  "parseFromInjectionInstr trace_path instr1 instr2 iph =
     (case iph_init trace_path iph of
        None \<Rightarrow> None
      | Some iph1 \<Rightarrow>
          (case next_results instr1 instr2 (the (m_sa iph1)) (delete_old instr1 iph1) of
             None \<Rightarrow> None
           | Some iph2 \<Rightarrow> map_option (\<lambda>m. iph2\<lparr>m_ip := Some m\<rparr>) (choose_minimum instr1 instr2 iph2)))"

text \<open>The other kind of injection point: the number of the last instruction of the class.\<close>

record InjectionPointSteps =
  step_instr :: "u32 option"

definition steps_parseFromInjectionInstr :: "u32 \<Rightarrow> u32 \<Rightarrow> InjectionPointSteps \<Rightarrow> InjectionPointSteps" where
  "steps_parseFromInjectionInstr instr1 instr2 ips = ips\<lparr>step_instr := Some instr2\<rparr>"

section \<open>The calculator as a function of the position\<close>

lemma hops_loop_resume:
  "hops_loop p sh = Some (True, sh') \<Longrightarrow> p \<le> q \<Longrightarrow> hops_loop q sh = hops_loop q sh'"
proof (induction p sh rule: hops_loop.induct)
  case (1 p sh)
  show ?case
  proof (cases "m_trace_pos sh < p")
    case True
    obtain ok pos events tr where g: "getNextTraceEvents (m_trace_pos sh) (m_trace_events sh) (m_trace_reader sh) = (ok, pos, events, tr)"
      by (cases "getNextTraceEvents (m_trace_pos sh) (m_trace_events sh) (m_trace_reader sh)")
    let ?s = "sh\<lparr>m_trace_pos := pos, m_trace_events := events, m_trace_reader := tr\<rparr>"
    have run: "(if \<not> ok then Some (False, ?s) else case hop_step SmartHops_config pos events (sh_state ?s) of
        None \<Rightarrow> None | Some st \<Rightarrow> hops_loop p (?s\<lparr>sh_state := st\<rparr>)) = Some (True, sh')"
      using "1.prems"(1) True hops_loop.simps [of p sh] by (simp add: g Let_def)
    then have ok by (simp split: if_splits)
    with run obtain st where st: "hop_step SmartHops_config pos events (sh_state ?s) = Some st" "hops_loop p (?s\<lparr>sh_state := st\<rparr>) = Some (True, sh')"
      by (auto split: option.splits)
    have "m_trace_pos sh < q" using True "1.prems"(2) by simp
    then have "hops_loop q sh = hops_loop q (?s\<lparr>sh_state := st\<rparr>)" using g st(1) \<open>ok\<close> by (subst hops_loop.simps) simp
    also have "\<dots> = hops_loop q sh'" using "1.IH" [OF True g [symmetric] refl refl refl] st \<open>ok\<close> "1.prems"(2) by simp
    finally show ?thesis .
  next
    case False
    then have "sh' = sh" using "1.prems"(1) by (subst (asm) hops_loop.simps) simp
    then show ?thesis by simp
  qed
qed

lemma resume_calculation:
  assumes "calculateFollowingHop b (SmartHops_init tr) = Some (Some m, sa)" and "b \<le> p"
  shows "calculateFollowingHop p sa = calculateFollowingHop p (SmartHops_init tr)"
proof (cases "b = 0")
  case True
  then have "sa = SmartHops_init tr" using assms(1) by (auto simp: calculateFollowingHop_def SmartHops_init_def hops_init_def)
  then show ?thesis by simp
next
  case False
  then have "hops_loop b (SmartHops_init tr) = Some (True, sa)"
    using assms(1) by (auto simp: calculateFollowingHop_def split: option.splits bool.splits)
  from hops_loop_resume [OF this assms(2)] show ?thesis using False assms(2) by (auto simp: calculateFollowingHop_def)
qed

text \<open>\<open>M p\<close> is the message of a new calculator for position \<open>p\<close>.\<close>

definition delivers :: "TraceReader \<Rightarrow> nat \<Rightarrow> (int \<Rightarrow> InjectionPointMessage) \<Rightarrow> bool" where
  "delivers tr N M \<longleftrightarrow> N < 2 ^ 32 \<and> (\<forall>p \<in> {0..int N}. target_trace_position (M p) = word_of_int p \<and> ip_costs (M p) < - 1 \<and>
     (\<exists>sa. calculateFollowingHop (word_of_int p) (SmartHops_init tr) = Some (Some (M p), sa)))"

definition reached :: "TraceReader \<Rightarrow> int \<Rightarrow> SmartHops \<Rightarrow> bool" where
  "reached tr c sa \<longleftrightarrow> c = - 1 \<and> sa = SmartHops_init tr \<or>
     (\<exists>b m. c = uint b \<and> calculateFollowingHop b (SmartHops_init tr) = Some (Some m, sa))"

lemma reached_next:
  assumes "delivers tr N M" and "reached tr c sa" and "c < uint p" and "unat p \<le> N"
  shows "\<exists>sa'. calculateFollowingHop p sa = Some (Some (M (uint p)), sa') \<and> reached tr (uint p) sa'"
proof -
  have "calculateFollowingHop p sa = calculateFollowingHop p (SmartHops_init tr)"
    using assms(2) unfolding reached_def
  proof (elim disjE exE conjE)
    fix b m assume b: "c = uint b" "calculateFollowingHop b (SmartHops_init tr) = Some (Some m, sa)"
    have "b \<le> p" using assms(3) b(1) by (simp add: word_le_def)
    then show ?thesis by (rule resume_calculation [OF b(2)])
  qed simp
  moreover have "uint p \<in> {0..int N}" using of_nat_mono [OF assms(4), where ?'a = int] by simp
  then obtain sa' where "calculateFollowingHop (word_of_int (uint p)) (SmartHops_init tr) = Some (Some (M (uint p)), sa')"
    using assms(1) unfolding delivers_def by blast
  ultimately have "calculateFollowingHop p sa = Some (Some (M (uint p)), sa')" "reached tr (uint p) sa'"
    unfolding reached_def by auto
  then show ?thesis by blast
qed

section \<open>Following a sequence of classes\<close>

definition first_new :: "u32 \<Rightarrow> InjectionPointHops \<Rightarrow> int" where
  "first_new instr1 iph = (if m_curr_instr2 iph < uint instr1 then uint instr1 else m_curr_instr2 iph + 1)"

lemma next_results_ok:
  assumes "delivers tr N M" and "instr1 \<le> instr2" and "unat instr2 \<le> N"
  shows "reached tr (m_curr_instr2 iph) sa \<Longrightarrow> \<exists>sa'. reached tr (max (m_curr_instr2 iph) (uint instr2)) sa' \<and>
    next_results instr1 instr2 sa iph = Some (iph\<lparr>m_sa := Some sa',
      m_curr_instr1 := (if m_curr_instr2 iph < uint instr1 then uint instr1 else m_curr_instr1 iph),
      m_curr_instr2 := max (m_curr_instr2 iph) (uint instr2),
      m_results := m_results iph @ map M [first_new instr1 iph..uint instr2]\<rparr>)"
proof (induction "nat (uint instr2 - m_curr_instr2 iph)" arbitrary: iph sa rule: less_induct)
  case less
  have le: "uint instr1 \<le> uint instr2" using assms(2) by (simp add: word_le_def)
  show ?case
  proof (cases "m_curr_instr2 iph < uint instr2")
    case True
    define new where "new = (if m_curr_instr2 iph < uint instr1 then instr1 else word_of_int (m_curr_instr2 iph + 1))"
    have nonneg: "- 1 \<le> m_curr_instr2 iph" using less.prems by (auto simp: reached_def intro: order_trans [of _ 0])
    have new: "uint new = first_new instr1 iph" unfolding new_def first_new_def
      using True nonneg uint_lt2p [of instr2] uint_of_int [of "m_curr_instr2 iph + 1"] by (simp del: of_int_add)
    have bounds: "m_curr_instr2 iph < uint new" "uint new \<le> uint instr2" "uint instr1 \<le> uint new"
      unfolding new using True le by (simp_all add: first_new_def)
    then have "new \<le> instr2" by (simp add: word_le_def)
    then have "unat new \<le> N" using assms(3) by (simp add: word_le_nat_alt)
    then obtain sa' where sa': "calculateFollowingHop new sa = Some (Some (M (uint new)), sa')" "reached tr (uint new) sa'"
      using reached_next [OF assms(1) less.prems bounds(1)] by blast
    define iph' where "iph' = iph\<lparr>m_curr_instr1 := (if m_curr_instr2 iph < uint instr1 then uint instr1 else m_curr_instr1 iph),
      m_results := m_results iph @ [M (uint new)], m_curr_instr2 := uint new\<rparr>"
    have step: "next_results instr1 instr2 sa iph = next_results instr1 instr2 sa' iph'"
      unfolding next_results.simps [of instr1 instr2 sa iph] Let_def new_def [symmetric] sa'(1) iph'_def using True by simp
    have "first_new instr1 iph' = uint new + 1" using bounds by (simp add: first_new_def iph'_def)
    moreover have "[uint new..uint instr2] = uint new # [uint new + 1..uint instr2]" using bounds(2) by (simp add: upto_rec1)
    ultimately have list: "m_results iph' @ map M [first_new instr1 iph'..uint instr2] =
        m_results iph @ map M [first_new instr1 iph..uint instr2]" by (simp add: new [symmetric] iph'_def)
    have dec: "nat (uint instr2 - m_curr_instr2 iph') < nat (uint instr2 - m_curr_instr2 iph)" using bounds by (simp add: iph'_def)
    have re: "reached tr (m_curr_instr2 iph') sa'" using sa'(2) by (simp add: iph'_def)
    obtain sb where sb: "reached tr (max (m_curr_instr2 iph') (uint instr2)) sb"
      "next_results instr1 instr2 sa' iph' = Some (iph'\<lparr>m_sa := Some sb,
        m_curr_instr1 := (if m_curr_instr2 iph' < uint instr1 then uint instr1 else m_curr_instr1 iph'),
        m_curr_instr2 := max (m_curr_instr2 iph') (uint instr2), m_results := m_results iph @ map M [first_new instr1 iph..uint instr2]\<rparr>)"
      using less.hyps [OF dec re] unfolding list by blast
    have m: "max (m_curr_instr2 iph') (uint instr2) = uint instr2" "max (m_curr_instr2 iph) (uint instr2) = uint instr2"
      "\<not> m_curr_instr2 iph' < uint instr1" using bounds by (simp_all add: iph'_def max_def)
    have "\<not> uint new < uint instr1" using bounds by simp
    with sb show ?thesis unfolding step m by (intro exI [of _ sb]) (simp add: iph'_def)
  next
    case False
    then have "next_results instr1 instr2 sa iph = Some (iph\<lparr>m_sa := Some sa\<rparr>)" by (subst next_results.simps) simp
    moreover have "[first_new instr1 iph..uint instr2] = []" using False le by (simp add: first_new_def)
    moreover have "max (m_curr_instr2 iph) (uint instr2) = m_curr_instr2 iph" "\<not> m_curr_instr2 iph < uint instr1" using False le by simp_all
    ultimately show ?thesis using less.prems by (intro exI [of _ sa]) simp
  qed
qed

lemma delete_iterator_keep: "\<forall>m \<in> set ms. \<not> target_trace_position m < instr1 \<Longrightarrow> delete_iterator instr1 ms i found = found"
  by (induction instr1 ms i found rule: delete_iterator.induct) auto

lemma delete_iterator_split:
  assumes "\<forall>m \<in> set ys. \<not> target_trace_position m < instr1"
  shows "\<forall>m \<in> set xs. target_trace_position m < instr1 \<Longrightarrow>
    delete_iterator instr1 (xs @ ys) i found = (if xs = [] then found else Some (i + length xs - 1))"
  using assms by (induction xs arbitrary: i found) (auto simp: delete_iterator_keep)

lemma delete_old_split:
  assumes "m_results iph = xs @ ys" and "\<forall>m \<in> set xs. target_trace_position m < instr1"
    and "\<forall>m \<in> set ys. \<not> target_trace_position m < instr1"
  shows "delete_old instr1 iph =
    (if xs = [] then iph else iph\<lparr>m_results := last xs # ys, m_curr_instr1 := uint instr1\<rparr>)"
proof -
  have "drop (length xs - 1) (xs @ ys) = last xs # ys" if "xs \<noteq> []"
    using that by (induction xs rule: rev_induct) auto
  then show ?thesis unfolding delete_old_def assms(1) delete_iterator_split [OF assms(3,2)] by simp
qed

lemma min_cost_msg_cases:
  "(\<forall>x \<in> set ms. c \<le> ip_costs x) \<and> min_cost_msg ms c best = best \<or>
   (\<exists>xs x ys. ms = xs @ x # ys \<and> min_cost_msg ms c best = Some x \<and> ip_costs x < c \<and>
      (\<forall>y \<in> set xs. ip_costs x < ip_costs y) \<and> (\<forall>y \<in> set ys. ip_costs x \<le> ip_costs y))"
proof (induction ms c best rule: min_cost_msg.induct)
  case (2 m ms c best)
  show ?case
  proof (cases "ip_costs m < c")
    case True
    from 2(1) [OF True] show ?thesis
    proof (elim disjE exE conjE)
      assume "\<forall>x \<in> set ms. ip_costs m \<le> ip_costs x" "min_cost_msg ms (ip_costs m) (Some m) = Some m"
      then show ?thesis using True by (intro disjI2 exI [of _ "[]"] exI [of _ m] exI [of _ ms]) simp
    next
      fix xs x ys
      assume "ms = xs @ x # ys" "min_cost_msg ms (ip_costs m) (Some m) = Some x" "ip_costs x < ip_costs m"
        "\<forall>y \<in> set xs. ip_costs x < ip_costs y" "\<forall>y \<in> set ys. ip_costs x \<le> ip_costs y"
      then show ?thesis using True less_trans [OF _ True, of "ip_costs x"]
        by (intro disjI2 exI [of _ "m # xs"] exI [of _ x] exI [of _ ys]) simp
    qed
  next
    case False
    from 2(2) [OF False] show ?thesis
    proof (elim disjE exE conjE)
      assume "\<forall>x \<in> set ms. c \<le> ip_costs x" "min_cost_msg ms c best = best"
      then show ?thesis using False leI [OF False] by (intro disjI1) simp
    next
      fix xs x ys
      assume x: "ms = xs @ x # ys" "min_cost_msg ms c best = Some x" "ip_costs x < c"
        "\<forall>y \<in> set xs. ip_costs x < ip_costs y" "\<forall>y \<in> set ys. ip_costs x \<le> ip_costs y"
      have "ip_costs x < ip_costs m" using x(3) leI [OF False] by (rule order_less_le_trans)
      then show ?thesis using x False by (intro disjI2 exI [of _ "m # xs"] exI [of _ x] exI [of _ ys]) simp
    qed
  qed
qed simp

text \<open>
  What is chosen from the results, for a class of \<open>k\<close> instructions before the last: the first of the
  cheapest.
\<close>

definition picked :: "InjectionPointMessage list \<Rightarrow> nat \<Rightarrow> InjectionPointMessage \<Rightarrow> bool" where
  "picked rs k m \<longleftrightarrow> (if k = 0 then m = hd rs
     else \<exists>j < k. j < length rs \<and> m = rs ! j \<and>
       (\<forall>i < k. i < length rs \<longrightarrow> ip_costs m \<le> ip_costs (rs ! i) \<and> (i < j \<longrightarrow> ip_costs m < ip_costs (rs ! i))))"

lemma first_of_cheapest:
  assumes "take k rs = xs @ m # ys" and "\<forall>x \<in> set xs. ip_costs m < ip_costs x" and "\<forall>y \<in> set ys. ip_costs m \<le> ip_costs y"
  shows "\<exists>j < k. j < length rs \<and> m = rs ! j \<and>
    (\<forall>i < k. i < length rs \<longrightarrow> ip_costs m \<le> ip_costs (rs ! i) \<and> (i < j \<longrightarrow> ip_costs m < ip_costs (rs ! i)))"
proof (intro exI [of _ "length xs"] conjI allI impI)
  have len: "length xs < length (take k rs)" using assms(1) by simp
  then show "length xs < k" "length xs < length rs" by simp_all
  have "take k rs ! length xs = m" using assms(1) by simp
  then show "m = rs ! length xs" using len by simp
  fix i assume i: "i < k" "i < length rs"
  then have at: "rs ! i = (xs @ m # ys) ! i" using assms(1) by (metis nth_take)
  have "(xs @ m # ys) ! i \<in> set (xs @ m # ys)" using i by (intro nth_mem) (simp flip: assms(1))
  then show "ip_costs m \<le> ip_costs (rs ! i)" unfolding at using assms(2,3) by (auto simp: less_imp_le)
  assume "i < length xs"
  then show "ip_costs m < ip_costs (rs ! i)" unfolding at using assms(2) by (simp add: nth_append)
qed

lemma choose_minimum_picks:
  assumes "m_curr_instr1 iph = uint instr1" and "instr1 \<le> instr2" and "nat (uint instr2 - uint instr1) < length (m_results iph)"
    and "\<forall>m \<in> set (m_results iph). ip_costs m < - 1"
  shows "\<exists>m. choose_minimum instr1 instr2 iph = Some m \<and> picked (m_results iph) (nat (uint instr2 - uint instr1)) m"
proof -
  have le: "uint instr1 \<le> uint instr2" using assms(2) by (simp add: word_le_def)
  have len: "\<not> int (length (m_results iph)) < uint instr2 - uint instr1" "m_results iph \<noteq> []" using assms(3) by auto
  show ?thesis
  proof (cases "uint instr2 = uint instr1")
    case True
    then show ?thesis using len assms(1) by (simp add: choose_minimum_def Let_def picked_def hd_conv_nth)
  next
    case False
    let ?ms = "take (nat (uint instr2 - uint instr1)) (m_results iph)"
    have ne: "?ms \<noteq> []" using False le len(2) by simp
    have "\<not> (\<forall>x \<in> set ?ms. - 1 \<le> ip_costs x)"
    proof
      assume "\<forall>x \<in> set ?ms. - 1 \<le> ip_costs x"
      then have "- 1 \<le> ip_costs (hd ?ms)" using hd_in_set [OF ne] by blast
      moreover have "ip_costs (hd ?ms) < - 1" using assms(4) in_set_takeD [OF hd_in_set [OF ne]] by blast
      ultimately show False by simp
    qed
    then obtain m xs ys where m: "min_cost_msg ?ms (- 1) None = Some m" "?ms = xs @ m # ys"
        "\<forall>x \<in> set xs. ip_costs m < ip_costs x" "\<forall>y \<in> set ys. ip_costs m \<le> ip_costs y"
      using min_cost_msg_cases [of ?ms "- 1" None] by blast
    have "choose_minimum instr1 instr2 iph = min_cost_msg ?ms (- 1) None"
      using False le len(1) assms(1) by (simp add: choose_minimum_def Let_def)
    then show ?thesis using False le m(1) first_of_cheapest [OF m(2-4)] by (simp add: picked_def)
  qed
qed

lemma picked_position:
  assumes "picked (map M [a..b]) (nat (b - a)) m" and "a \<le> b"
  shows "\<exists>p. m = M p \<and> a \<le> p \<and> (p < b \<or> p = b \<and> a = b) \<and>
    (\<forall>r. a \<le> r \<and> r < b \<longrightarrow> ip_costs m \<le> ip_costs (M r) \<and> (r < p \<longrightarrow> ip_costs m < ip_costs (M r)))"
proof (cases "a = b")
  case True
  then show ?thesis using assms(1) by (intro exI [of _ b]) (auto simp: picked_def)
next
  case False
  have at: "map M [a..b] ! i = M (a + int i)" if "i < nat (b - a)" for i using that by (simp add: nth_upto)
  obtain j where j: "j < nat (b - a)" "m = map M [a..b] ! j" "\<And>i. i < nat (b - a) \<Longrightarrow> i < length (map M [a..b]) \<Longrightarrow>
      ip_costs m \<le> ip_costs (map M [a..b] ! i) \<and> (i < j \<longrightarrow> ip_costs m < ip_costs (map M [a..b] ! i))"
    using assms False unfolding picked_def by (auto split: if_splits)
  show ?thesis
  proof (intro exI [of _ "a + int j"] conjI allI impI)
    show "m = M (a + int j)" using j(2) at [OF j(1)] by simp
    show "a + int j < b \<or> a + int j = b \<and> a = b" using j(1) by auto
    fix r assume r: "a \<le> r \<and> r < b"
    have i: "nat (r - a) < nat (b - a)" "nat (r - a) < length (map M [a..b])" "a + int (nat (r - a)) = r" using r by auto
    show "ip_costs m \<le> ip_costs (M r)" using j(3) [OF i(1,2)] unfolding at [OF i(1)] i(3) by simp
    assume "r < a + int j"
    then show "ip_costs m < ip_costs (M r)" using j(3) [OF i(1,2)] r unfolding at [OF i(1)] i(3) by auto
  qed simp
qed

text \<open>
  Between two calls: the chains of the instructions from the first of the last class on, after at most
  one chain of an earlier instruction.
\<close>

definition running :: "TraceReader \<Rightarrow> nat \<Rightarrow> (int \<Rightarrow> InjectionPointMessage) \<Rightarrow> InjectionPointMessage list \<Rightarrow> InjectionPointHops \<Rightarrow> bool" where
  "running tr N M stale iph \<longleftrightarrow>
     (\<exists>sa. m_sa iph = Some sa \<and> reached tr (m_curr_instr2 iph) sa) \<and>
     0 \<le> m_curr_instr1 iph \<and> m_curr_instr1 iph \<le> m_curr_instr2 iph \<and> m_curr_instr2 iph \<le> int N \<and>
     m_results iph = stale @ map M [m_curr_instr1 iph..m_curr_instr2 iph] \<and> length stale \<le> 1 \<and>
     (\<forall>m \<in> set stale. \<exists>q. 0 \<le> q \<and> q < m_curr_instr1 iph \<and> m = M q)"

lemma finish_parse:
  assumes del: "delivers tr N M" and le: "instr1 \<le> instr2" "unat instr2 \<le> N"
    and init: "iph_init tp iph = Some iph1" "m_sa iph1 = Some sa"
    and old: "delete_old instr1 iph1 = iph2" and re: "reached tr (m_curr_instr2 iph2) sa"
    and cur: "m_curr_instr2 iph2 < uint instr1 \<or> m_curr_instr1 iph2 = uint instr1" "m_curr_instr2 iph2 \<le> int N"
    and rs: "m_results iph2 = stale @ (if m_curr_instr2 iph2 < uint instr1 then [] else map M [uint instr1..m_curr_instr2 iph2])"
      "length stale \<le> 1" "\<forall>m \<in> set stale. \<exists>q. 0 \<le> q \<and> q < uint instr1 \<and> m = M q"
  shows "\<exists>iph' m. parseFromInjectionInstr tp instr1 instr2 iph = Some iph' \<and> running tr N M stale iph' \<and> m_curr_instr1 iph' = uint instr1 \<and>
    m_curr_instr2 iph' = max (m_curr_instr2 iph2) (uint instr2) \<and> m_ip iph' = Some m \<and>
    picked (stale @ map M [uint instr1..m_curr_instr2 iph']) (nat (uint instr2 - uint instr1)) m"
proof -
  let ?e = "max (m_curr_instr2 iph2) (uint instr2)"
  have le': "uint instr1 \<le> uint instr2" "uint instr2 \<le> int N"
    using le(1) of_nat_mono [OF le(2), where ?'a = int] by (simp_all add: word_le_def)
  obtain sa' where sa': "reached tr ?e sa'" "next_results instr1 instr2 sa iph2 = Some (iph2\<lparr>m_sa := Some sa',
      m_curr_instr1 := (if m_curr_instr2 iph2 < uint instr1 then uint instr1 else m_curr_instr1 iph2), m_curr_instr2 := ?e,
      m_results := m_results iph2 @ map M [first_new instr1 iph2..uint instr2]\<rparr>)" (is "_ = Some ?i")
    using next_results_ok [OF del le re] by blast
  have c1: "m_curr_instr1 ?i = uint instr1" using cur(1) by auto
  have list: "m_results ?i = stale @ map M [uint instr1..?e]"
  proof (cases "m_curr_instr2 iph2 < uint instr1")
    case True
    then show ?thesis using le' rs(1) by (simp add: first_new_def)
  next
    case False
    then have "[uint instr1..?e] = [uint instr1..m_curr_instr2 iph2] @ [m_curr_instr2 iph2 + 1..uint instr2]"
      using le' upto_split2 [of "uint instr1" "m_curr_instr2 iph2" "uint instr2"] by (cases "m_curr_instr2 iph2 \<le> uint instr2") (simp_all add: max_def)
    then show ?thesis using False rs(1) by (simp add: first_new_def)
  qed
  have eN: "?e \<le> int N" using le' cur(2) by simp
  have run: "running tr N M stale ?i" unfolding running_def list c1 using sa'(1) le' eN rs(2,3) by (auto simp: max_def)
  have cheap: "\<forall>m \<in> set (m_results ?i). ip_costs m < - 1"
  proof
    fix m assume "m \<in> set (m_results ?i)"
    then consider "m \<in> set stale" | q where "m = M q" "uint instr1 \<le> q" "q \<le> ?e" unfolding list by auto
    then obtain q where q: "m = M q" "q \<in> {0..int N}"
    proof cases
      case 1
      then obtain q where "0 \<le> q" "q < uint instr1" "m = M q" using rs(3) by blast
      then show ?thesis using that [of q] le' by simp
    next
      case 2
      then show ?thesis using that [of q] eN order_trans [OF uint_ge_0 2(2)] by simp
    qed
    then show "ip_costs m < - 1" using del unfolding delivers_def by blast
  qed
  have len: "nat (uint instr2 - uint instr1) < length (m_results ?i)" unfolding list using le'(1) nat_less_eq_zless [of "uint instr2 - uint instr1" "?e - uint instr1 + 1"] by simp
  obtain m where m: "choose_minimum instr1 instr2 ?i = Some m" "picked (m_results ?i) (nat (uint instr2 - uint instr1)) m"
    using choose_minimum_picks [OF c1 le(1) len cheap] by blast
  have "parseFromInjectionInstr tp instr1 instr2 iph = Some (?i\<lparr>m_ip := Some m\<rparr>)"
    unfolding parseFromInjectionInstr_def by (simp only: init option.case option.sel old sa'(2) m(1) option.map)
  moreover have "running tr N M stale (?i\<lparr>m_ip := Some m\<rparr>)" using run by (simp add: running_def)
  ultimately show ?thesis using m(2) c1 unfolding list by (intro exI [of _ "?i\<lparr>m_ip := Some m\<rparr>"] exI [of _ m]) simp
qed

lemma parse_first:
  assumes "delivers tr N M" and "instr1 \<le> instr2" "unat instr2 \<le> N"
  shows "\<exists>iph m. parseFromInjectionInstr (Some tr) instr1 instr2 InjectionPointHops_new = Some iph \<and> running tr N M [] iph \<and>
    m_curr_instr1 iph = uint instr1 \<and> m_curr_instr2 iph = uint instr2 \<and> m_ip iph = Some m \<and>
    picked (map M [uint instr1..uint instr2]) (nat (uint instr2 - uint instr1)) m"
proof -
  let ?i = "InjectionPointHops_new\<lparr>m_sa := Some (SmartHops_init tr)\<rparr>"
  have neg: "- 1 < uint (w :: u32)" for w using order_less_le_trans [OF _ uint_ge_0, of "- 1" w] by simp
  have m: "max (- 1) (uint instr2) = uint instr2" using neg [of instr2] by simp
  show ?thesis
    using finish_parse [OF assms, of "Some tr" InjectionPointHops_new ?i "SmartHops_init tr" ?i "[]"] neg m
    by (auto simp: iph_init_def InjectionPointHops_new_def delete_old_def reached_def)
qed

lemma parse_next:
  assumes del: "delivers tr N M" and le: "instr1 \<le> instr2" "unat instr2 \<le> N"
    and run: "running tr N M stale iph" and asc: "m_curr_instr1 iph \<le> uint instr1"
    and stale': "stale' = (if m_curr_instr1 iph < uint instr1 then [M (min (m_curr_instr2 iph) (uint instr1 - 1))] else stale)"
  shows "\<exists>iph' m. parseFromInjectionInstr tp instr1 instr2 iph = Some iph' \<and> running tr N M stale' iph' \<and> m_curr_instr1 iph' = uint instr1 \<and>
    m_curr_instr2 iph' = max (m_curr_instr2 iph) (uint instr2) \<and> m_ip iph' = Some m \<and>
    picked (stale' @ map M [uint instr1..m_curr_instr2 iph']) (nat (uint instr2 - uint instr1)) m"
proof -
  let ?c1 = "m_curr_instr1 iph" and ?c2 = "m_curr_instr2 iph" and ?k = "min (m_curr_instr2 iph) (uint instr1 - 1)"
  obtain sa where sa: "m_sa iph = Some sa" "reached tr ?c2 sa" using run by (auto simp: running_def)
  have c: "0 \<le> ?c1" "?c1 \<le> ?c2" "?c2 \<le> int N" and rs: "m_results iph = stale @ map M [?c1..?c2]" "length stale \<le> 1"
    and st: "\<forall>m \<in> set stale. \<exists>q. 0 \<le> q \<and> q < ?c1 \<and> m = M q" using run by (auto simp: running_def)
  have split: "[?c1..?c2] = [?c1..?k] @ (if ?c2 < uint instr1 then [] else [uint instr1..?c2])"
    using asc c(2) upto_split1 [of ?c1 "uint instr1" ?c2] by (auto simp: min_def)
  have target: "target_trace_position (M q) < instr1 \<longleftrightarrow> q < uint instr1" if "0 \<le> q" "q \<le> int N" for q
    using del that uint_of_int [of q] by (auto simp: delivers_def word_less_def)
  have early: "\<forall>m \<in> set (stale @ map M [?c1..?k]). target_trace_position m < instr1"
  proof
    fix m assume "m \<in> set (stale @ map M [?c1..?k])"
    then consider "m \<in> set stale" | q where "m = M q" "?c1 \<le> q" "q \<le> ?k" by auto
    then obtain q where "m = M q" "0 \<le> q" "q < uint instr1" "q \<le> int N"
    proof cases
      case 1
      then obtain q where "0 \<le> q" "q < ?c1" "m = M q" using st by blast
      then show ?thesis using that [of q] c asc by linarith
    next
      case 2
      then show ?thesis using that [of q] c by linarith
    qed
    then show "target_trace_position m < instr1" using target by simp
  qed
  have late: "\<forall>m \<in> set (if ?c2 < uint instr1 then [] else map M [uint instr1..?c2]). \<not> target_trace_position m < instr1"
  proof
    fix m assume "m \<in> set (if ?c2 < uint instr1 then [] else map M [uint instr1..?c2])"
    then obtain q where q: "m = M q" "uint instr1 \<le> q" "q \<le> ?c2" by (auto split: if_splits)
    then show "\<not> target_trace_position m < instr1" using target [of q] c(3) order_trans [OF uint_ge_0 q(2)] by simp
  qed
  let ?xs = "stale @ map M [?c1..?k]" and ?ys = "if ?c2 < uint instr1 then [] else map M [uint instr1..?c2]"
  have all: "m_results iph = ?xs @ ?ys" unfolding rs(1) split by simp
  have old: "delete_old instr1 iph = (if ?xs = [] then iph else iph\<lparr>m_results := last ?xs # ?ys, m_curr_instr1 := uint instr1\<rparr>)"
    by (rule delete_old_split [OF all early late])
  have init: "iph_init tp iph = Some iph" by (simp add: iph_init_def sa(1))
  show ?thesis
  proof (cases "?c1 < uint instr1")
    case True
    then have "[?c1..?k] = [?c1..?k - 1] @ [?k]" using c(2) upto_rec2 [of ?c1 ?k] by simp
    then have ne: "?xs \<noteq> []" "last ?xs = M ?k" by simp_all
    have old': "delete_old instr1 iph = iph\<lparr>m_results := [M ?k] @ ?ys, m_curr_instr1 := uint instr1\<rparr>"
      using old unfolding if_not_P [OF ne(1)] ne(2) by simp
    have s': "stale' = [M ?k]" using stale' True by simp
    have "0 \<le> ?k" "?k < uint instr1" using c True by simp_all
    then have st': "\<forall>m \<in> set [M ?k]. \<exists>q. 0 \<le> q \<and> q < uint instr1 \<and> m = M q" by (intro ballI exI [of _ ?k]) (simp only: set_simps insert_iff empty_iff, blast)
    let ?i = "iph\<lparr>m_results := [M ?k] @ ?ys, m_curr_instr1 := uint instr1\<rparr>"
    have f: "m_curr_instr2 ?i = ?c2" "m_curr_instr1 ?i = uint instr1" "m_results ?i = [M ?k] @ ?ys" "length [M ?k] \<le> 1" by simp_all
    show ?thesis unfolding s'
      using finish_parse [OF del le init sa(1) old', unfolded f(1-3), OF sa(2) disjI2 [OF refl] c(3) refl f(4) st'] .
  next
    case False
    then have eq: "?c1 = uint instr1" and s': "stale' = stale" using asc stale' by simp_all
    then have "[?c1..?k] = []" by simp
    then have xs: "?xs = stale" by simp
    have "delete_old instr1 iph = iph\<lparr>m_results := stale @ ?ys, m_curr_instr1 := uint instr1\<rparr>"
    proof (cases stale)
      case Nil
      then show ?thesis using old [unfolded xs] all [unfolded xs] eq by (simp only: if_True append.simps) simp
    next
      case (Cons m ms)
      then have "stale = [m]" using rs(2) by simp
      then show ?thesis using old [unfolded xs] by (simp only: list.distinct if_False last.simps append.simps refl if_True)
    qed
    note old' = this
    let ?i = "iph\<lparr>m_results := stale @ ?ys, m_curr_instr1 := uint instr1\<rparr>"
    have f: "m_curr_instr2 ?i = ?c2" "m_curr_instr1 ?i = uint instr1" "m_results ?i = stale @ ?ys" by simp_all
    show ?thesis unfolding s'
      using finish_parse [OF del le init sa(1) old', unfolded f, OF sa(2) disjI2 [OF refl] c(3) refl rs(2) st [unfolded eq]] .
  qed
qed

section \<open>Properties\<close>

lemma unat_max_u32: "unat (- 1 :: u32) = 2 ^ 32 - 1"
  by (simp add: unsigned_minus_1_eq_mask mask_eq_exp_minus_1)

lemma message_for_position:
  assumes bound: "length (instructions stream) < 2 ^ 31 - 1" and p: "p \<in> {0..int (length (instructions stream))}"
  shows "\<exists>m. target_trace_position m = word_of_int p \<and> ip_costs m < - 1 \<and>
    (\<exists>sa. calculateFollowingHop (word_of_int p) (SmartHops_init (openTraceFile stream 0 blank)) = Some (Some m, sa)) \<and>
    follow (at_position (instructions stream)) (length (instructions stream)) 0 (map event_of (ip_hops m)) = Some (nat p)"
proof (cases "p = 0")
  case True
  moreover have "(0 :: u32) < - 1" by (simp add: word_less_nat_alt unat_max_u32)
  ultimately show ?thesis by (simp add: calculateFollowingHop_def convertToIPM_def)
next
  case False
  let ?is = "instructions stream" and ?w = "word_of_int p :: u32"
  have w: "uint ?w = p" using p bound by (intro uint_of_int) simp_all
  then have "int (unat ?w) = p" by simp
  then have n: "unat ?w = nat p" by linarith
  have pos: "0 < ?w" using w False p by (simp add: word_less_def)
  have b: "length ?is < 2 ^ 32 - 1" using bound by simp
  have shape: "\<forall>i \<in> set ?is. i \<noteq> [] \<and> (\<forall>e \<in> set i. simple_event e)" using instructions_shape by blast
  have le: "unat ?w \<le> length ?is" using p n by (simp add: nat_le_iff)
  obtain m sa where m: "calculateFollowingHop ?w (SmartHops_init (openTraceFile stream 0 blank)) = Some (Some m, sa)"
      "sh_inv ?is (unat ?w) sa" "good_message ?is ?w m" "map event_of (ip_hops m) = map fst (m_result (sh_state sa))"
    using calculateFollowingHop_ok [OF sh_inv_init [of stream blank] _ pos b shape] le by auto
  let ?hs = "m_result (sh_state sa)"
  have nav: "navigable (at_position ?is) 0 ?hs" "end_of 0 ?hs = unat ?w" using m(2) by (simp_all add: sh_inv_def hops_inv_def)
  have ne: "?hs \<noteq> []" using nav(2) n False p by (auto simp: end_of_def)
  have "total_costs (map fst ?hs) < 2 ^ 32 - 1"
    using total_costs_le [of "map fst ?hs"] navigable_length [OF nav(1)] nav(2) le bound by simp
  moreover have "ip_costs m = of_nat (total_costs (map fst ?hs))"
    using m(3,4) ne by (simp add: good_message_def message_costs_chain calculate_costs_total)
  ultimately have "unat (ip_costs m) < 2 ^ 32 - 1" by (simp add: unat_of_nat_u32)
  then have "ip_costs m < - 1" by (simp add: word_less_nat_alt unat_max_u32)
  with m(1,3) n show ?thesis by (auto simp: good_message_def)
qed

lemma stream_delivers:
  assumes "length (instructions stream) < 2 ^ 31 - 1"
  obtains M where "delivers (openTraceFile stream 0 blank) (length (instructions stream)) M"
    and "\<forall>p \<in> {0..int (length (instructions stream))}.
      follow (at_position (instructions stream)) (length (instructions stream)) 0 (map event_of (ip_hops (M p))) = Some (nat p)"
proof -
  let ?P = "\<lambda>p m. target_trace_position m = word_of_int p \<and> ip_costs m < - 1 \<and>
    (\<exists>sa. calculateFollowingHop (word_of_int p) (SmartHops_init (openTraceFile stream 0 blank)) = Some (Some m, sa)) \<and>
    follow (at_position (instructions stream)) (length (instructions stream)) 0 (map event_of (ip_hops m)) = Some (nat p)"
  have "\<forall>p \<in> {0..int (length (instructions stream))}. \<exists>m. ?P p m" using message_for_position [OF assms] by blast
  from bchoice [OF this] obtain M where M: "\<forall>p \<in> {0..int (length (instructions stream))}. ?P p (M p)" by blast
  show thesis
  proof (rule that [of M])
    show "delivers (openTraceFile stream 0 blank) (length (instructions stream)) M"
      unfolding delivers_def using M assms by simp
    show "\<forall>p \<in> {0..int (length (instructions stream))}.
      follow (at_position (instructions stream)) (length (instructions stream)) 0 (map event_of (ip_hops (M p))) = Some (nat p)"
      using M by blast
  qed
qed

text \<open>
  C27. The first class that an injection point is made for gets the first of the cheapest hop chains to
  the instructions of the class except its last one, or the chain to its only instruction: no chain to
  an instruction before the last is cheaper, and the chains to instructions before the chosen one are
  dearer. The last instruction of a longer class is never chosen, even when its chain is the cheapest.
\<close>

theorem first_class_gets_cheapest_chain:
  assumes "length (instructions stream) < 2 ^ 31 - 1" and "instr1 \<le> instr2" and "unat instr2 \<le> length (instructions stream)"
  shows "\<exists>iph m. parseFromInjectionInstr (Some (openTraceFile stream 0 blank)) instr1 instr2 InjectionPointHops_new = Some iph \<and> m_ip iph = Some m \<and>
    instr1 \<le> target_trace_position m \<and> (target_trace_position m < instr2 \<or> target_trace_position m = instr2 \<and> instr1 = instr2) \<and>
    follow (at_position (instructions stream)) (length (instructions stream)) 0 (map event_of (ip_hops m)) = Some (unat (target_trace_position m)) \<and>
    (\<forall>q mq sh. instr1 \<le> q \<and> q < instr2 \<and> calculateFollowingHop q (SmartHops_init (openTraceFile stream 0 blank)) = Some (Some mq, sh) \<longrightarrow>
       ip_costs m \<le> ip_costs mq \<and> (q < target_trace_position m \<longrightarrow> ip_costs m < ip_costs mq))"
proof -
  let ?N = "length (instructions stream)" and ?tr = "openTraceFile stream 0 blank"
  obtain M where M: "delivers ?tr ?N M" "\<forall>p \<in> {0..int ?N}. follow (at_position (instructions stream)) ?N 0 (map event_of (ip_hops (M p))) = Some (nat p)"
    using stream_delivers [OF assms(1)] by blast
  have le: "uint instr1 \<le> uint instr2" "uint instr2 \<le> int ?N" "0 \<le> uint instr1"
    using assms(2) of_nat_mono [OF assms(3), where ?'a = int] by (simp_all add: word_le_def)
  obtain iph m where m: "parseFromInjectionInstr (Some ?tr) instr1 instr2 InjectionPointHops_new = Some iph" "m_ip iph = Some m"
      "picked (map M [uint instr1..uint instr2]) (nat (uint instr2 - uint instr1)) m"
    using parse_first [OF M(1) assms(2,3)] by blast
  obtain p where p: "m = M p" "uint instr1 \<le> p" "p < uint instr2 \<or> p = uint instr2 \<and> instr1 = instr2"
      "\<And>r. uint instr1 \<le> r \<Longrightarrow> r < uint instr2 \<Longrightarrow> ip_costs m \<le> ip_costs (M r) \<and> (r < p \<longrightarrow> ip_costs m < ip_costs (M r))"
    using picked_position [OF m(3) le(1)] by (metis word_uint_eq_iff)
  have pN: "0 \<le> p" "p \<le> int ?N" using p(2,3) le by linarith+
  have "target_trace_position m = word_of_int p" using M(1) pN unfolding p(1) by (simp add: delivers_def)
  then have t: "uint (target_trace_position m) = p" using pN assms(1) by (simp add: uint_of_int)
  then have n: "unat (target_trace_position m) = nat p" using of_nat_unat [of "target_trace_position m", where ?'a = int] by linarith
  have "ip_costs m \<le> ip_costs mq \<and> (q < target_trace_position m \<longrightarrow> ip_costs m < ip_costs mq)"
    if q: "instr1 \<le> q" "q < instr2" "calculateFollowingHop q (SmartHops_init ?tr) = Some (Some mq, sh)" for q mq sh
  proof -
    have r: "uint instr1 \<le> uint q" "uint q < uint instr2" using q(1,2) by (simp_all add: word_le_def word_less_def)
    have "uint q \<in> {0..int ?N}" using r le by simp
    then obtain sa where "calculateFollowingHop (word_of_int (uint q)) (SmartHops_init ?tr) = Some (Some (M (uint q)), sa)"
      using M(1) unfolding delivers_def by blast
    then have "mq = M (uint q)" using q(3) by simp
    then show ?thesis using p(4) [OF r] unfolding word_less_def t by simp
  qed
  moreover have "instr1 \<le> target_trace_position m" "target_trace_position m < instr2 \<or> target_trace_position m = instr2 \<and> instr1 = instr2"
    using p(2,3) unfolding word_le_def word_less_def word_uint_eq_iff t by auto
  moreover have "follow (at_position (instructions stream)) ?N 0 (map event_of (ip_hops m)) = Some (unat (target_trace_position m))"
    using M(2) pN p(1) n by simp
  ultimately show ?thesis using m(1,2) by blast
qed

theorem first_class_gets_cheapest_chain_witness:
  "\<exists>iph m. parseFromInjectionInstr (Some (openTraceFile demo_stream 0 (exec 0))) 1 3 InjectionPointHops_new = Some iph \<and> m_ip iph = Some m \<and>
     1 \<le> target_trace_position m \<and> target_trace_position m < 3"
proof -
  have "length (instructions demo_stream) < 2 ^ 31 - 1" "(1 :: u32) \<le> 3" "unat (3 :: u32) \<le> length (instructions demo_stream)"
    unfolding demo_stream_instructions by simp_all
  from first_class_gets_cheapest_chain [OF this, of "exec 0"] show ?thesis by auto
qed

text \<open>
  C35. The chains of instructions before the new class are deleted up to the last one, which stays. A class
  of one instruction behind the first therefore gets the chain to an earlier instruction, whatever
  the trace is.
\<close>

theorem next_single_class_gets_wrong_chain:
  assumes "length (instructions stream) < 2 ^ 31 - 1" and "a \<le> b" and "unat b \<le> length (instructions stream)"
    and "a < c" and "unat c \<le> length (instructions stream)"
  shows "\<exists>iph iph' m. parseFromInjectionInstr (Some (openTraceFile stream 0 blank)) a b InjectionPointHops_new = Some iph \<and>
    parseFromInjectionInstr (Some (openTraceFile stream 0 blank)) c c iph = Some iph' \<and> m_ip iph' = Some m \<and>
    target_trace_position m = min b (c - 1) \<and> target_trace_position m < c"
proof -
  let ?N = "length (instructions stream)" and ?tr = "openTraceFile stream 0 blank"
  obtain M where M: "delivers ?tr ?N M" using stream_delivers [OF assms(1)] by blast
  obtain iph where first: "parseFromInjectionInstr (Some ?tr) a b InjectionPointHops_new = Some iph" "running ?tr ?N M [] iph"
      "m_curr_instr1 iph = uint a" "m_curr_instr2 iph = uint b" using parse_first [OF M assms(2,3)] by blast
  have lt: "uint a < uint c" "uint b \<le> int ?N" using assms(4) of_nat_mono [OF assms(3), where ?'a = int] by (simp_all add: word_less_def)
  let ?k = "min (uint b) (uint c - 1)"
  obtain iph' m where next_c: "parseFromInjectionInstr (Some ?tr) c c iph = Some iph'" "m_ip iph' = Some m"
      "picked ([M ?k] @ map M [uint c..m_curr_instr2 iph']) (nat (uint c - uint c)) m"
    using parse_next [OF M order_refl assms(5) first(2) _ refl, of "Some ?tr"] first(3,4) lt(1) by auto
  have m: "m = M ?k" using next_c(3) by (simp add: picked_def)
  have k: "0 \<le> ?k" "?k \<le> int ?N" "?k < uint c" using lt order_le_less_trans [OF uint_ge_0 lt(1)] by simp_all
  have "target_trace_position m = word_of_int ?k" unfolding m using M k by (simp add: delivers_def)
  moreover have "uint (word_of_int ?k :: u32) = ?k" using k assms(1) by (intro uint_of_int) simp_all
  ultimately have t: "uint (target_trace_position m) = ?k" by simp
  have "uint (c - 1) = uint c - 1" using uint_sub_lem [of 1 c] order_le_less_trans [OF uint_ge_0 lt(1)] by simp
  then have "uint (min b (c - 1)) = ?k" by (simp add: min_def word_le_def)
  then have "target_trace_position m = min b (c - 1)" "target_trace_position m < c" using t k(3) by (simp_all add: word_uint_eq_iff word_less_def)
  with first(1) next_c(1,2) show ?thesis by blast
qed

theorem next_single_class_gets_wrong_chain_witness:
  "\<exists>iph iph' m. parseFromInjectionInstr (Some (openTraceFile demo_stream 0 (exec 0))) 1 1 InjectionPointHops_new = Some iph \<and>
     parseFromInjectionInstr (Some (openTraceFile demo_stream 0 (exec 0))) 3 3 iph = Some iph' \<and> m_ip iph' = Some m \<and> target_trace_position m = 1"
proof -
  have "length (instructions demo_stream) < 2 ^ 31 - 1" "(1 :: u32) \<le> 1" "unat (1 :: u32) \<le> length (instructions demo_stream)"
      "(1 :: u32) < 3" "unat (3 :: u32) \<le> length (instructions demo_stream)"
    unfolding demo_stream_instructions by simp_all
  from next_single_class_gets_wrong_chain [OF this, of "exec 0"] show ?thesis by (auto simp: min_def)
qed

end
