(* ===== verification/Database_Campaign.thy ===== *)
theory Database_Campaign
  imports Injection_Points Database_Layer Job_Server
begin

text \<open>
  The database-driven campaign (\<^verbatim>\<open>src/core/cpn/DatabaseCampaign.cc\<close>) and the lookup of variants and methods
  (\<^verbatim>\<open>src/core/util/Database.cc\<close>). The campaign sends a message for every pilot whose results are not yet
  complete.

  MySQL's \<open>LIKE\<close> is the argument \<open>like\<close>; the rows of a query come as a list that the database may
  order freely unless the statement has \<open>ORDER BY\<close>.
\<close>

section \<open>Variants and methods\<close>

record Variant =
  var_id :: nat
  var_variant :: string
  var_benchmark :: string

record name_tables =
  variants :: "Variant list"
  next_variant :: nat
  fspmethods :: "(nat \<times> string) list"
  next_method :: nat

definition get_variants ::
  "(string \<Rightarrow> string \<Rightarrow> bool) \<Rightarrow> string list \<Rightarrow> string list \<Rightarrow> string list \<Rightarrow> string list \<Rightarrow> name_tables \<Rightarrow> Variant list" where
  "get_variants like vs vs_exclude bs bs_exclude db =
     filter (\<lambda>v. list_ex (like (var_variant v)) vs \<and> list_ex (like (var_benchmark v)) bs \<and>
         \<not> (list_ex (like (var_variant v)) vs_exclude \<or> list_ex (like (var_benchmark v)) bs_exclude)) (variants db)"

text \<open>The identifier 0 stands for a failure, here for an ambiguous name.\<close>

definition get_variant_id :: "(string \<Rightarrow> string \<Rightarrow> bool) \<Rightarrow> string \<Rightarrow> string \<Rightarrow> name_tables \<Rightarrow> nat \<times> name_tables" where
  "get_variant_id like variant benchmark db =
     (case get_variants like [variant] [] [benchmark] [] db of
        [] \<Rightarrow> (next_variant db,
               db\<lparr>variants := variants db @ [\<lparr>var_id = next_variant db, var_variant = variant, var_benchmark = benchmark\<rparr>],
                  next_variant := next_variant db + 1\<rparr>)
      | [v] \<Rightarrow> (var_id v, db)
      | _ \<Rightarrow> (0, db))"

definition get_fspmethod_id :: "string \<Rightarrow> name_tables \<Rightarrow> nat \<times> name_tables" where
  "get_fspmethod_id method db =
     (case filter (\<lambda>m. snd m = method) (fspmethods db) of
        m # _ \<Rightarrow> (fst m, db)
      | [] \<Rightarrow> (next_method db, db\<lparr>fspmethods := fspmethods db @ [(next_method db, method)], next_method := next_method db + 1\<rparr>))"

section \<open>The campaign\<close>

datatype RegisterInjectionMode = OFF | AUTO | FORCE | RANDOMJUMP

record 'ip DatabaseCampaignMessage =
  cm_pilot_id :: u32
  cm_injection_instr :: u32
  cm_injection_instr_absolute :: "u32 option"
  cm_data_address :: u32
  cm_data_width :: u32
  cm_variant :: string
  cm_benchmark :: string
  cm_injection_point :: 'ip
  cm_inject_bursts :: bool
  cm_register_injection_mode :: RegisterInjectionMode

record DatabaseCampaign =
  m_fspmethod :: string
  completed_pilots :: "u32 \<Rightarrow> u32 option"
  m_inject_bursts :: bool
  m_register_injection_mode :: RegisterInjectionMode

definition expected_number_of_results :: "DatabaseCampaign \<Rightarrow> u32" where
  "expected_number_of_results c = (if m_inject_bursts c then 1 else 8)"

text \<open>\<open>method_selected\<close>: the subquery on \<open>fspmethod\<close>.\<close>

definition method_selected :: "(string \<Rightarrow> string \<Rightarrow> bool) \<Rightarrow> name_tables \<Rightarrow> DatabaseCampaign \<Rightarrow> nat \<Rightarrow> bool" where
  "method_selected like names c m \<longleftrightarrow> list_ex (\<lambda>(i, name). i = m \<and> like name (m_fspmethod c)) (fspmethods names)"

definition selected_pilots ::
  "(string \<Rightarrow> string \<Rightarrow> bool) \<Rightarrow> name_tables \<Rightarrow> DatabaseCampaign \<Rightarrow> Variant \<Rightarrow> database \<Rightarrow> ((nat \<times> pilot_row) \<times> trace_row) list" where
  "selected_pilots like names c v db =
     [((i, p), t). (i, p) \<leftarrow> fsppilot db, t \<leftarrow> trace db,
        trace_key t = pilot_key p \<and> method_selected like names c (p_method p) \<and> p_variant p = var_id v]"

text \<open>
  \<open>load_completed_pilots\<close>: the number of rows of the result table for each pilot; \<open>results\<close> is the column
  \<open>pilot_id\<close> of that table.
\<close>

definition result_counts ::
  "(string \<Rightarrow> string \<Rightarrow> bool) \<Rightarrow> name_tables \<Rightarrow> DatabaseCampaign \<Rightarrow> Variant list \<Rightarrow> database \<Rightarrow> nat list \<Rightarrow> (nat \<times> nat) list" where
  "result_counts like names c vs db results =
     [(i, length (filter ((=) i) results)). (i, p) \<leftarrow> fsppilot db,
        i \<in> set results \<and> list_ex (\<lambda>v. var_id v = p_variant p) vs \<and> method_selected like names c (p_method p)]"

definition completed_add :: "(u32 \<Rightarrow> u32 option) \<Rightarrow> nat \<times> nat \<Rightarrow> u32 \<Rightarrow> u32 option" where
  "completed_add m x = m(of_nat (fst x) \<mapsto> (case m (of_nat (fst x)) of None \<Rightarrow> 0 | Some n \<Rightarrow> n) + of_nat (snd x))"

definition load_completed_pilots ::
  "(string \<Rightarrow> string \<Rightarrow> bool) \<Rightarrow> name_tables \<Rightarrow> Variant list \<Rightarrow> database \<Rightarrow> nat list \<Rightarrow> DatabaseCampaign \<Rightarrow> DatabaseCampaign" where
  "load_completed_pilots like names vs db results c =
     (if vs = [] then c
      else c\<lparr>completed_pilots := foldl completed_add (completed_pilots c) (result_counts like names c vs db results)\<rparr>)"

definition existing_results_for_pilot :: "DatabaseCampaign \<Rightarrow> u32 \<Rightarrow> u32" where
  "existing_results_for_pilot c pid = (case completed_pilots c pid of None \<Rightarrow> 0 | Some n \<Rightarrow> n)"

definition pilot_message ::
  "DatabaseCampaign \<Rightarrow> Variant \<Rightarrow> nat \<Rightarrow> pilot_row \<Rightarrow> 'ip \<Rightarrow> 'ip DatabaseCampaignMessage" where
  "pilot_message c v i p ipm =
     \<lparr>cm_pilot_id = of_nat i, cm_injection_instr = of_nat (injection_instr p),
      cm_injection_instr_absolute = map_option of_nat (injection_instr_absolute p),
      cm_data_address = of_nat (p_data_address p), cm_data_width = of_nat (data_width p),
      cm_variant = var_variant v, cm_benchmark = var_benchmark v, cm_injection_point = ipm,
      cm_inject_bursts = m_inject_bursts c, cm_register_injection_mode = m_register_injection_mode c\<rparr>"

text \<open>
  The loop of \<open>run_variant\<close>. \<open>parse\<close> makes the message of the injection point, \<open>send\<close> is \<open>cb_send_pilot\<close>; the
  result has the messages sent and the number of pilots skipped.
\<close>

fun send_pilots ::
  "(u32 \<Rightarrow> u32 \<Rightarrow> 'st \<Rightarrow> ('ip \<times> 'st) option) \<Rightarrow> ('ip DatabaseCampaignMessage \<Rightarrow> 'm JobServer \<Rightarrow> 'm JobServer) \<Rightarrow>
   DatabaseCampaign \<Rightarrow> Variant \<Rightarrow> u32 \<Rightarrow> ((nat \<times> pilot_row) \<times> trace_row) list \<Rightarrow> 'st \<Rightarrow> 'm JobServer \<Rightarrow>
   ('ip DatabaseCampaignMessage list \<times> nat \<times> 'st \<times> 'm JobServer) option" where
  "send_pilots parse send c v expected [] st js = Some ([], 0, st, js)"
| "send_pilots parse send c v expected (((i, p), t) # rows) st js =
     (if existing_results_for_pilot c (of_nat i) = expected
      then map_option (\<lambda>(ms, skipped, r). (ms, Suc skipped, r)) (send_pilots parse send c v expected rows st (skipJobs 1 js))
      else case parse (of_nat (t_instr1 t)) (of_nat (t_instr2 t)) st of
             None \<Rightarrow> None
           | Some (ipm, st') \<Rightarrow>
               (let m = pilot_message c v i p ipm
                in map_option (\<lambda>(ms, r). (m # ms, r)) (send_pilots parse send c v expected rows st' (send m js))))"

text \<open>
  \<open>count\<close> is the answer to \<open>SELECT COUNT(*)\<close> and \<open>rows\<close> what the second query delivers; \<open>failed\<close> says whether the
  connection reported an error at the end. \<open>None\<close> is the failed assertion, or an exit in \<open>parse\<close>.
\<close>

definition run_variant ::
  "(u32 \<Rightarrow> u32 \<Rightarrow> 'st \<Rightarrow> ('ip \<times> 'st) option) \<Rightarrow> ('ip DatabaseCampaignMessage \<Rightarrow> 'm JobServer \<Rightarrow> 'm JobServer) \<Rightarrow> 'st \<Rightarrow>
   nat \<Rightarrow> ((nat \<times> pilot_row) \<times> trace_row) list \<Rightarrow> bool \<Rightarrow> DatabaseCampaign \<Rightarrow> Variant \<Rightarrow> 'm JobServer \<Rightarrow>
   (bool \<times> 'ip DatabaseCampaignMessage list \<times> 'm JobServer) option" where
  "run_variant parse send st count_rows rows failed c v js =
     (case send_pilots parse send c v (expected_number_of_results c) rows st (increaseTotalCount (of_nat count_rows) js) of
        None \<Rightarrow> None
      | Some (ms, skipped, st', js') \<Rightarrow>
          if failed then Some (False, ms, js')
          else if count_rows \<noteq> length ms + skipped then None
          else Some (True, ms, js'))"

text \<open>The command line of the server, and what \<open>run\<close> makes of it.\<close>

record campaign_options =
  opt_variants :: "string list"
  opt_variants_exclude :: "string list"
  opt_benchmarks :: "string list"
  opt_benchmarks_exclude :: "string list"
  opt_pruner :: "string option"
  opt_burst :: bool
  opt_registers :: bool
  opt_registers_force :: bool
  opt_randomjump :: bool

definition or_any :: "string list \<Rightarrow> string list" where
  "or_any xs = (if xs = [] then [''%''] else xs)"

definition campaign_of_options :: "campaign_options \<Rightarrow> DatabaseCampaign" where
  "campaign_of_options opt =
     \<lparr>m_fspmethod = (case opt_pruner opt of Some p \<Rightarrow> p | None \<Rightarrow> ''%''), completed_pilots = (\<lambda>i. None),
      m_inject_bursts = opt_burst opt,
      m_register_injection_mode =
        (if opt_registers opt \<and> \<not> opt_registers_force opt then AUTO
         else if opt_registers_force opt then FORCE
         else if opt_randomjump opt then RANDOMJUMP
         else OFF)\<rparr>"

text \<open>
  \<open>answers\<close> has for each variant what its queries deliver. A failing variant ends the campaign
  without \<open>noMoreParameters\<close>.
\<close>

fun run_variants ::
  "(u32 \<Rightarrow> u32 \<Rightarrow> 'st \<Rightarrow> ('ip \<times> 'st) option) \<Rightarrow> ('ip DatabaseCampaignMessage \<Rightarrow> 'm JobServer \<Rightarrow> 'm JobServer) \<Rightarrow> 'st \<Rightarrow>
   (Variant \<Rightarrow> nat \<times> ((nat \<times> pilot_row) \<times> trace_row) list \<times> bool) \<Rightarrow> DatabaseCampaign \<Rightarrow> Variant list \<Rightarrow> 'm JobServer \<Rightarrow>
   (bool \<times> 'ip DatabaseCampaignMessage list \<times> 'm JobServer) option" where
  "run_variants parse send st answers c [] js = Some (True, [], setNoMoreExperiments js)"
| "run_variants parse send st answers c (v # vs) js =
     (case answers v of (count_rows, rows, failed) \<Rightarrow>
        (case run_variant parse send st count_rows rows failed c v js of
           None \<Rightarrow> None
         | Some (False, ms, js') \<Rightarrow> Some (False, ms, js')
         | Some (True, ms, js') \<Rightarrow>
             map_option (\<lambda>(ok, ms', r). (ok, ms @ ms', r)) (run_variants parse send st answers c vs js')))"

definition campaign_run ::
  "(string \<Rightarrow> string \<Rightarrow> bool) \<Rightarrow> (u32 \<Rightarrow> u32 \<Rightarrow> 'st \<Rightarrow> ('ip \<times> 'st) option) \<Rightarrow>
   ('ip DatabaseCampaignMessage \<Rightarrow> 'm JobServer \<Rightarrow> 'm JobServer) \<Rightarrow> 'st \<Rightarrow>
   (DatabaseCampaign \<Rightarrow> Variant \<Rightarrow> nat \<times> ((nat \<times> pilot_row) \<times> trace_row) list \<times> bool) \<Rightarrow>
   campaign_options \<Rightarrow> name_tables \<Rightarrow> database \<Rightarrow> nat list \<Rightarrow> 'm JobServer \<Rightarrow>
   (bool \<times> 'ip DatabaseCampaignMessage list \<times> 'm JobServer) option" where
  "campaign_run like parse send st answers opt names db results js =
     (let vs = get_variants like (or_any (opt_variants opt)) (opt_variants_exclude opt)
                 (or_any (opt_benchmarks opt)) (opt_benchmarks_exclude opt) names;
          c = load_completed_pilots like names vs db results (campaign_of_options opt)
      in run_variants parse send st (answers c) c vs js)"

text \<open>\<open>collect_result_thread\<close>: what \<open>getDone\<close> delivers goes to \<open>insert_row\<close>. \<open>False\<close>: it waits for more results.\<close>

function collect_results :: "('m \<Rightarrow> 'd \<Rightarrow> 'd) \<Rightarrow> 'm JobServer \<Rightarrow> 'd \<Rightarrow> bool \<times> 'm JobServer \<times> 'd" where
  "collect_results insert_row js table =
     (case getDone js of
        None \<Rightarrow> (False, js, table)
      | Some (None, js') \<Rightarrow> (True, js', table)
      | Some (Some e, js') \<Rightarrow> collect_results insert_row js' (insert_row (msg (exps js e)) table))"
  by pat_completeness auto
termination
  by (relation "measure (\<lambda>(f, js, d). length (m_queue (m_doneJobs js)))")
    (auto simp: getDone_def Dequeue_def split: option.splits list.splits if_splits)

section \<open>What the campaign relies on in an injection point\<close>

text \<open>
  \<open>ready N i st\<close>: the object can take any class from \<open>i\<close> on within the \<open>N\<close> instructions of the trace; classes come in the
  order of their first instruction.
\<close>

locale injection_point =
  fixes parse :: "u32 \<Rightarrow> u32 \<Rightarrow> 'st \<Rightarrow> ('ip \<times> 'st) option"
    and ready :: "nat \<Rightarrow> nat \<Rightarrow> 'st \<Rightarrow> bool"
  assumes parse_ready: "ready N i st \<Longrightarrow> i \<le> unat instr1 \<Longrightarrow> instr1 \<le> instr2 \<Longrightarrow> unat instr2 \<le> N \<Longrightarrow>
      \<exists>m st'. parse instr1 instr2 st = Some (m, st') \<and> ready N (unat instr1) st'"
begin

lemma send_pilots_all:
  assumes "N < 2 ^ 32"
  shows "ready N i st \<Longrightarrow> sorted (map (\<lambda>r. t_instr1 (snd r)) rows) \<Longrightarrow>
    \<forall>r \<in> set rows. i \<le> t_instr1 (snd r) \<and> t_instr1 (snd r) \<le> t_instr2 (snd r) \<and> t_instr2 (snd r) \<le> N \<Longrightarrow>
    \<exists>ms skipped st' js'. send_pilots parse send c v expected rows st js = Some (ms, skipped, st', js') \<and> length ms + skipped = length rows \<and>
      list_all2 (\<lambda>r m. \<exists>ipm. m = pilot_message c v (fst (fst r)) (snd (fst r)) ipm)
        (filter (\<lambda>r. existing_results_for_pilot c (of_nat (fst (fst r))) \<noteq> expected) rows) ms"
proof (induction rows arbitrary: i st js)
  case (Cons r rows)
  obtain pid p t where r: "r = ((pid, p), t)" by (metis prod.collapse)
  show ?case
  proof (cases "existing_results_for_pilot c (of_nat pid) = expected")
    case True
    obtain ms skipped st' js' where "send_pilots parse send c v expected rows st (skipJobs 1 js) = Some (ms, skipped, st', js')"
        "length ms + skipped = length rows"
        "list_all2 (\<lambda>r m. \<exists>ipm. m = pilot_message c v (fst (fst r)) (snd (fst r)) ipm)
          (filter (\<lambda>r. existing_results_for_pilot c (of_nat (fst (fst r))) \<noteq> expected) rows) ms"
      using Cons.IH [of i st "skipJobs 1 js"] Cons.prems by auto
    then show ?thesis using True by (simp add: r)
  next
    case False
    have t: "i \<le> t_instr1 t" "t_instr1 t \<le> t_instr2 t" "t_instr2 t \<le> N" using Cons.prems(3) r by auto
    let ?a = "of_nat (t_instr1 t) :: u32" and ?b = "of_nat (t_instr2 t) :: u32"
    have u: "unat ?a = t_instr1 t" "unat ?b = t_instr2 t" using t assms by (simp_all add: unat_of_nat_u32)
    then obtain m st1 where m: "parse ?a ?b st = Some (m, st1)" "ready N (t_instr1 t) st1"
      using parse_ready [OF Cons.prems(1), of ?a ?b] t by (auto simp: word_le_nat_alt)
    have "\<forall>r \<in> set rows. t_instr1 t \<le> t_instr1 (snd r) \<and> t_instr1 (snd r) \<le> t_instr2 (snd r) \<and> t_instr2 (snd r) \<le> N"
      using Cons.prems(2,3) r by auto
    then obtain ms skipped st' js' where ms: "send_pilots parse send c v expected rows st1 (send (pilot_message c v pid p m) js) = Some (ms, skipped, st', js')"
        "length ms + skipped = length rows"
        "list_all2 (\<lambda>r m. \<exists>ipm. m = pilot_message c v (fst (fst r)) (snd (fst r)) ipm)
          (filter (\<lambda>r. existing_results_for_pilot c (of_nat (fst (fst r))) \<noteq> expected) rows) ms"
      using Cons.IH [OF m(2), where js = "send (pilot_message c v pid p m) js"] Cons.prems(2) by auto
    then show ?thesis using False m(1) by (auto simp: r Let_def)
  qed
qed simp

lemma run_variant_all:
  assumes "N < 2 ^ 32" and "ready N 0 st" and "sorted (map (\<lambda>r. t_instr1 (snd r)) rows)"
    and "\<forall>r \<in> set rows. t_instr1 (snd r) \<le> t_instr2 (snd r) \<and> t_instr2 (snd r) \<le> N"
  shows "\<exists>ms js'. run_variant parse send st (length rows) rows False c v js = Some (True, ms, js') \<and>
    list_all2 (\<lambda>r m. \<exists>ipm. m = pilot_message c v (fst (fst r)) (snd (fst r)) ipm)
      (filter (\<lambda>r. existing_results_for_pilot c (of_nat (fst (fst r))) \<noteq> expected_number_of_results c) rows) ms"
proof -
  obtain ms skipped st' js' where "send_pilots parse send c v (expected_number_of_results c) rows st (increaseTotalCount (of_nat (length rows)) js) =
      Some (ms, skipped, st', js')" "length ms + skipped = length rows"
      "list_all2 (\<lambda>r m. \<exists>ipm. m = pilot_message c v (fst (fst r)) (snd (fst r)) ipm)
        (filter (\<lambda>r. existing_results_for_pilot c (of_nat (fst (fst r))) \<noteq> expected_number_of_results c) rows) ms"
    using send_pilots_all [OF assms(1,2,3), of send c v "expected_number_of_results c" "increaseTotalCount (of_nat (length rows)) js"] assms(4) by auto
  then show ?thesis by (simp add: run_variant_def)
qed

end

text \<open>The two kinds of injection points; \<open>InjectionPointHops\<close> together with the trace it is used on.\<close>

definition hops_parse :: "u32 \<Rightarrow> u32 \<Rightarrow> TraceReader option \<times> InjectionPointHops \<Rightarrow>
    (InjectionPointMessage \<times> TraceReader option \<times> InjectionPointHops) option" where
  "hops_parse instr1 instr2 st =
     map_option (\<lambda>iph. (the (m_ip iph), fst st, iph)) (parseFromInjectionInstr (fst st) instr1 instr2 (snd st))"

definition steps_parse :: "u32 \<Rightarrow> u32 \<Rightarrow> InjectionPointSteps \<Rightarrow> (u32 \<times> InjectionPointSteps) option" where
  "steps_parse instr1 instr2 st =
     (let st' = steps_parseFromInjectionInstr instr1 instr2 st in map_option (\<lambda>i. (i, st')) (step_instr st'))"

definition hops_ready :: "nat \<Rightarrow> nat \<Rightarrow> TraceReader option \<times> InjectionPointHops \<Rightarrow> bool" where
  "hops_ready N i st \<longleftrightarrow> (\<exists>tr M. fst st = Some tr \<and> delivers tr N M \<and>
     (snd st = InjectionPointHops_new \<or> (\<exists>stale. running tr N M stale (snd st) \<and> m_curr_instr1 (snd st) \<le> int i)))"

interpretation hops: injection_point hops_parse hops_ready
proof
  fix N i st and instr1 instr2 :: u32
  assume "hops_ready N i st" and i: "i \<le> unat instr1" and le: "instr1 \<le> instr2" "unat instr2 \<le> N"
  then obtain tr M where tr: "fst st = Some tr" "delivers tr N M"
      and st: "snd st = InjectionPointHops_new \<or> (\<exists>stale. running tr N M stale (snd st) \<and> m_curr_instr1 (snd st) \<le> int i)"
    by (auto simp: hops_ready_def)
  have "\<exists>iph' m stale. parseFromInjectionInstr (Some tr) instr1 instr2 (snd st) = Some iph' \<and> running tr N M stale iph' \<and>
      m_curr_instr1 iph' = uint instr1 \<and> m_ip iph' = Some m"
    using st
  proof
    assume "snd st = InjectionPointHops_new"
    then show ?thesis using parse_first [OF tr(2) le] by auto
  next
    assume "\<exists>stale. running tr N M stale (snd st) \<and> m_curr_instr1 (snd st) \<le> int i"
    then obtain stale where run: "running tr N M stale (snd st)" "m_curr_instr1 (snd st) \<le> int i" by blast
    have "int i \<le> uint instr1" using of_nat_mono [OF i, where ?'a = int] by simp
    then have "m_curr_instr1 (snd st) \<le> uint instr1" using run(2) by simp
    from parse_next [OF tr(2) le run(1) this refl, of "Some tr"] show ?thesis by blast
  qed
  then obtain iph' m stale where p: "parseFromInjectionInstr (Some tr) instr1 instr2 (snd st) = Some iph'" "running tr N M stale iph'"
      "m_curr_instr1 iph' = uint instr1" "m_ip iph' = Some m" by blast
  have "m_curr_instr1 iph' \<le> int (unat instr1)" using p(3) by simp
  then have "hops_ready N (unat instr1) (Some tr, iph')" using tr(2) p(2) by (auto simp: hops_ready_def)
  then show "\<exists>m st'. hops_parse instr1 instr2 st = Some (m, st') \<and> hops_ready N (unat instr1) st'"
    using p(1,4) tr(1) by (simp add: hops_parse_def)
qed

interpretation steps: injection_point steps_parse "\<lambda>N i st. True"
  by unfold_locales (simp add: steps_parse_def steps_parseFromInjectionInstr_def Let_def)

section \<open>Properties\<close>

lemma filter_one:
  assumes "distinct (map f xs)" and "x \<in> set xs"
  shows "filter (\<lambda>y. f y = f x) xs = [x]"
  using assms
proof (induction xs)
  case (Cons a xs)
  show ?case
  proof (cases "a = x")
    case True
    then have "filter (\<lambda>y. f y = f x) xs = []" using Cons.prems(1) by (auto simp: filter_empty_conv image_iff)
    then show ?thesis using True by simp
  next
    case False
    then have "x \<in> set xs" "f a \<noteq> f x" using Cons.prems by auto
    then show ?thesis using Cons by simp
  qed
qed simp

lemma list_all2_right: "list_all2 P xs ys \<Longrightarrow> y \<in> set ys \<Longrightarrow> \<exists>x \<in> set xs. P x y"
  by (induction rule: list_all2_induct) auto

definition pilot_selected :: "(string \<Rightarrow> string \<Rightarrow> bool) \<Rightarrow> name_tables \<Rightarrow> DatabaseCampaign \<Rightarrow> Variant \<Rightarrow> nat \<times> pilot_row \<Rightarrow> bool" where
  "pilot_selected like names c v x \<longleftrightarrow> method_selected like names c (p_method (snd x)) \<and> p_variant (snd x) = var_id v"

lemma selected_pilots_once:
  assumes ok: "db_ok db" and cov: "\<forall>x \<in> set (fsppilot db). pilot_key (snd x) \<in> trace_key ` set (trace db)"
  shows "map fst (selected_pilots like names c v db) = filter (pilot_selected like names c v) (fsppilot db)"
proof -
  have one: "map fst (concat (map (\<lambda>t. if trace_key t = pilot_key p \<and> B then [((i, p), t)] else []) (trace db))) = (if B then [(i, p)] else [])"
    if mem: "(i, p) \<in> set (fsppilot db)" for i p B
  proof -
    obtain t where t: "t \<in> set (trace db)" "trace_key t = pilot_key p" using cov [rule_format, OF mem] by auto
    have "map fst (concat (map (\<lambda>t. if trace_key t = pilot_key p \<and> B then [((i, p), t)] else []) ts)) =
        map (\<lambda>t. (i, p)) (filter (\<lambda>t. trace_key t = pilot_key p \<and> B) ts)" for ts by (induction ts) auto
    moreover have "filter (\<lambda>t. trace_key t = pilot_key p) (trace db) = [t]"
      using filter_one [of trace_key "trace db" t] ok t by (simp add: db_ok_def)
    ultimately show ?thesis by (cases B) simp_all
  qed
  have "map fst (concat (map (\<lambda>(i, p). concat (map (\<lambda>t. if trace_key t = pilot_key p \<and> method_selected like names c (p_method p) \<and> p_variant p = var_id v
      then [((i, p), t)] else []) (trace db))) ps)) = filter (pilot_selected like names c v) ps" if "set ps \<subseteq> set (fsppilot db)" for ps
    using that
  proof (induction ps)
    case (Cons x ps)
    obtain i p where x: "x = (i, p)" by fastforce
    then show ?case using Cons one [of i p "method_selected like names c (p_method p) \<and> p_variant p = var_id v"] by (simp add: pilot_selected_def)
  qed simp
  from this [OF order_refl] show ?thesis by (simp add: selected_pilots_def)
qed

lemma completed_add_other: "\<forall>x \<in> set xs. of_nat (fst x) \<noteq> k \<Longrightarrow> foldl completed_add m xs k = m k"
  by (induction xs arbitrary: m) (auto simp: completed_add_def)

lemma completed_add_one:
  assumes "distinct (map (\<lambda>x. of_nat (fst x) :: u32) xs)"
  shows "(i, n) \<in> set xs \<Longrightarrow> m (of_nat i) = None \<Longrightarrow> foldl completed_add m xs (of_nat i) = Some (of_nat n)"
  using assms
proof (induction xs arbitrary: m)
  case (Cons x xs)
  show ?case
  proof (cases "x = (i, n)")
    case True
    then have "\<forall>y \<in> set xs. of_nat (fst y) \<noteq> (of_nat i :: u32)" using Cons.prems(3) by (auto simp: image_iff)
    moreover have "completed_add m (i, n) (of_nat i) = Some (of_nat n)" using Cons.prems(2) by (simp add: completed_add_def)
    ultimately show ?thesis using completed_add_other [of xs "of_nat i" "completed_add m (i, n)"] True by simp
  next
    case False
    then have mem: "(i, n) \<in> set xs" using Cons.prems(1) by simp
    then have "of_nat (fst x) \<noteq> (of_nat i :: u32)" using Cons.prems(3) by (force simp: image_iff)
    then have "completed_add m x (of_nat i) = None" using Cons.prems(2) by (simp add: completed_add_def)
    then show ?thesis using Cons.IH [OF mem] Cons.prems(3) by simp
  qed
qed simp

lemma of_nat_u32_inj: "a < 2 ^ 32 \<Longrightarrow> b < 2 ^ 32 \<Longrightarrow> (of_nat a :: u32) = of_nat b \<longleftrightarrow> a = b"
  using unat_of_nat_u32 [of a] unat_of_nat_u32 [of b] by metis

lemma existing_results:
  assumes ok: "db_ok db" "next_pilot_id db \<le> 2 ^ 32" and x: "x \<in> set (fsppilot db)" and sel: "pilot_selected like names c v x" and v: "v \<in> set vs"
    and none: "completed_pilots c = (\<lambda>i. None)"
  shows "existing_results_for_pilot (load_completed_pilots like names vs db results c) (of_nat (fst x)) = of_nat (length (filter ((=) (fst x)) results))"
proof -
  let ?xs = "result_counts like names c vs db results" and ?i = "fst x" and ?n = "length (filter ((=) (fst x)) results)"
  let ?sel = "\<lambda>(i, p). i \<in> set results \<and> list_ex (\<lambda>v. var_id v = p_variant p) vs \<and> method_selected like names c (p_method p)"
  have ids: "\<forall>y \<in> set (fsppilot db). fst y < 2 ^ 32" "distinct (map fst (fsppilot db))" using ok by (auto simp: db_ok_def)
  have list: "map fst (concat (map (\<lambda>(i, p). if i \<in> set results \<and> list_ex (\<lambda>v. var_id v = p_variant p) vs \<and> method_selected like names c (p_method p)
      then [(i, length (filter ((=) i) results))] else []) ps)) = map fst (filter ?sel ps)" for ps :: "(nat \<times> pilot_row) list" by (induction ps) (auto split: if_splits)
  have fsts: "map fst ?xs = map fst (filter ?sel (fsppilot db))" unfolding result_counts_def using list [of "fsppilot db"] by simp
  have d: "distinct (map fst ?xs)" "\<forall>y \<in> set ?xs. fst y < 2 ^ 32"
  proof -
    show "distinct (map fst ?xs)" unfolding fsts using ids(2) by (rule distinct_map_filter)
    have "fst ` set ?xs \<subseteq> fst ` set (fsppilot db)" using arg_cong [OF fsts, of set] by auto
    then show "\<forall>y \<in> set ?xs. fst y < 2 ^ 32" using ids(1) by fastforce
  qed
  have dw: "distinct (map (\<lambda>x. of_nat (fst x) :: u32) ?xs)"
    using d by (auto simp: distinct_map comp_def inj_on_def of_nat_u32_inj)
  have vs: "vs \<noteq> []" using v by auto
  have mem: "(?i, ?n) \<in> set ?xs" if "?i \<in> set results"
    using that x sel v by (cases x) (force simp: result_counts_def pilot_selected_def list_ex_iff)
  show ?thesis
  proof (cases "?i \<in> set results")
    case True
    then show ?thesis using completed_add_one [OF dw mem [OF True], of "completed_pilots c"] none vs
      by (simp add: load_completed_pilots_def existing_results_for_pilot_def)
  next
    case False
    have "\<forall>y \<in> set ?xs. of_nat (fst y) \<noteq> (of_nat ?i :: u32)"
    proof
      fix y assume y: "y \<in> set ?xs"
      then have "fst y \<in> set results" by (auto simp: result_counts_def split: if_splits)
      then have "fst y \<noteq> ?i" using False by metis
      then show "of_nat (fst y) \<noteq> (of_nat ?i :: u32)" using of_nat_u32_inj d(2) y ids(1) x by metis
    qed
    moreover have "?n = 0" using False by (auto simp: filter_empty_conv)
    ultimately show ?thesis using completed_add_other [of ?xs "of_nat ?i" "completed_pilots c"] none vs
      by (simp add: load_completed_pilots_def existing_results_for_pilot_def)
  qed
qed

text \<open>
  The pilots of a variant whose number of results is not the expected one: fewer, as the documentation of
  \<open>expected_number_of_results\<close> has it, or more.
\<close>

definition unmatched_pilots ::
  "(string \<Rightarrow> string \<Rightarrow> bool) \<Rightarrow> name_tables \<Rightarrow> campaign_options \<Rightarrow> Variant \<Rightarrow> database \<Rightarrow> nat list \<Rightarrow> (nat \<times> pilot_row) list" where
  "unmatched_pilots like names opt v db results =
     filter (\<lambda>x. pilot_selected like names (campaign_of_options opt) v x \<and>
       length (filter ((=) (fst x)) results) \<noteq> unat (expected_number_of_results (campaign_of_options opt))) (fsppilot db)"

lemma unmatched_existing:
  assumes "db_ok db" "next_pilot_id db \<le> 2 ^ 32" and "v \<in> set vs" and few: "length results < 2 ^ 32"
    and c_def: "c = load_completed_pilots like names vs db results (campaign_of_options opt)"
  shows "filter (\<lambda>x. existing_results_for_pilot c (of_nat (fst x)) \<noteq> expected_number_of_results c)
      (filter (pilot_selected like names c v) (fsppilot db)) = unmatched_pilots like names opt v db results"
proof -
  let ?c0 = "campaign_of_options opt"
  have c: "m_fspmethod c = m_fspmethod ?c0" "expected_number_of_results c = expected_number_of_results ?c0"
    by (simp_all add: c_def load_completed_pilots_def expected_number_of_results_def)
  have sel: "pilot_selected like names c v x = pilot_selected like names ?c0 v x" for x
    by (simp add: pilot_selected_def method_selected_def c(1))
  have "existing_results_for_pilot c (of_nat (fst x)) \<noteq> expected_number_of_results c \<longleftrightarrow>
      length (filter ((=) (fst x)) results) \<noteq> unat (expected_number_of_results ?c0)"
    if "x \<in> set (fsppilot db)" "pilot_selected like names ?c0 v x" for x
  proof -
    have "existing_results_for_pilot c (of_nat (fst x)) = of_nat (length (filter ((=) (fst x)) results))"
      unfolding c_def by (rule existing_results [OF assms(1,2) that assms(3)]) (simp add: campaign_of_options_def)
    moreover have "length (filter ((=) (fst x)) results) < 2 ^ 32" by (rule le_less_trans [OF length_filter_le few])
    then have "unat (of_nat (length (filter ((=) (fst x)) results)) :: u32) = length (filter ((=) (fst x)) results)" by (rule unat_of_nat_u32)
    ultimately show ?thesis unfolding c(2) by (metis word_unat_eq_iff)
  qed
  then show ?thesis unfolding unmatched_pilots_def filter_filter sel by (intro filter_cong refl) blast
qed

lemma run_variant_pilots:
  assumes "length (instructions stream) < 2 ^ 31 - 1" and "db_ok db" "next_pilot_id db \<le> 2 ^ 32"
    and "\<forall>x \<in> set (fsppilot db). pilot_key (snd x) \<in> trace_key ` set (trace db)"
    and "\<forall>t \<in> set (trace db). t_instr1 t \<le> t_instr2 t \<and> t_instr2 t \<le> length (instructions stream)"
    and "v \<in> set vs" and "length results < 2 ^ 32"
    and "c = load_completed_pilots like names vs db results (campaign_of_options opt)"
    and "mset rows = mset (selected_pilots like names c v db)" and "sorted (map (\<lambda>r. t_instr1 (snd r)) rows)"
  shows "\<exists>ms js'. run_variant hops_parse send (Some (openTraceFile stream 0 blank), InjectionPointHops_new) (length rows) rows False c v js =
      Some (True, ms, js') \<and>
    mset (map cm_pilot_id ms) = mset (map (\<lambda>x. of_nat (fst x)) (unmatched_pilots like names opt v db results)) \<and>
    (\<forall>m \<in> set ms. \<exists>x \<in> set (unmatched_pilots like names opt v db results). \<exists>ipm. m = pilot_message c v (fst x) (snd x) ipm)"
proof -
  let ?N = "length (instructions stream)" and ?st = "(Some (openTraceFile stream 0 blank), InjectionPointHops_new)"
  let ?Q = "\<lambda>x. existing_results_for_pilot c (of_nat (fst x)) \<noteq> expected_number_of_results c"
  obtain M where "delivers (openTraceFile stream 0 blank) ?N M" using stream_delivers [OF assms(1)] by blast
  then have ready: "hops_ready ?N 0 ?st" by (auto simp: hops_ready_def)
  have "set rows \<subseteq> set (selected_pilots like names c v db)" using mset_eq_setD [OF assms(9)] by simp
  moreover have "snd r \<in> set (trace db)" if "r \<in> set (selected_pilots like names c v db)" for r
    using that by (auto simp: selected_pilots_def split: if_splits)
  ultimately have fit: "\<forall>r \<in> set rows. t_instr1 (snd r) \<le> t_instr2 (snd r) \<and> t_instr2 (snd r) \<le> ?N" using assms(5) by blast
  have N: "?N < 2 ^ 32" using assms(1) by simp
  obtain ms js' where ms: "run_variant hops_parse send ?st (length rows) rows False c v js = Some (True, ms, js')"
      "list_all2 (\<lambda>r m. \<exists>ipm. m = pilot_message c v (fst (fst r)) (snd (fst r)) ipm) (filter (\<lambda>r. ?Q (fst r)) rows) ms"
    using hops.run_variant_all [OF N ready assms(10) fit] by blast
  have "mset (map fst rows) = mset (map fst (selected_pilots like names c v db))" using assms(9) by simp
  then have all: "mset (map fst rows) = mset (filter (pilot_selected like names c v) (fsppilot db))"
    unfolding selected_pilots_once [OF assms(2,4)] .
  have "mset (map fst (filter (\<lambda>r. ?Q (fst r)) rows)) = filter_mset ?Q (mset (map fst rows))" by (induction rows) auto
  also have "\<dots> = mset (filter ?Q (filter (pilot_selected like names c v) (fsppilot db)))" unfolding all by (rule mset_filter [symmetric])
  finally have inc: "mset (map fst (filter (\<lambda>r. ?Q (fst r)) rows)) = mset (unmatched_pilots like names opt v db results)"
    unfolding unmatched_existing [OF assms(2,3,6,7,8)] .
  have "map cm_pilot_id ms = map (\<lambda>r. of_nat (fst (fst r))) (filter (\<lambda>r. ?Q (fst r)) rows)"
    using ms(2) by (induction rule: list_all2_induct) (auto simp: pilot_message_def)
  then have "mset (map cm_pilot_id ms) = image_mset (\<lambda>x. of_nat (fst x)) (mset (map fst (filter (\<lambda>r. ?Q (fst r)) rows)))"
    by (simp add: image_mset.compositionality comp_def)
  then have ids: "mset (map cm_pilot_id ms) = mset (map (\<lambda>x. of_nat (fst x)) (unmatched_pilots like names opt v db results))" unfolding inc by simp
  have "\<exists>x \<in> set (unmatched_pilots like names opt v db results). \<exists>ipm. m = pilot_message c v (fst x) (snd x) ipm" if m: "m \<in> set ms" for m
  proof -
    obtain r ipm where r: "r \<in> set (filter (\<lambda>r. ?Q (fst r)) rows)" "m = pilot_message c v (fst (fst r)) (snd (fst r)) ipm"
      using list_all2_right [OF ms(2) m] by blast
    have "fst r \<in> set (map fst (filter (\<lambda>r. ?Q (fst r)) rows))" using r(1) unfolding set_map by (rule imageI)
    then have "fst r \<in> set (unmatched_pilots like names opt v db results)" unfolding mset_eq_setD [OF inc] .
    with r(2) show ?thesis by blast
  qed
  with ms(1) ids show ?thesis by blast
qed

text \<open>
  C10. A campaign that is started on a database in which every pilot has its trace row, with injection
  points that are hop chains, sends exactly one message for every pilot of the variant and the chosen
  methods whose number of results differs from \<open>expected_number_of_results\<close>, made from that pilot,
  and none for the others; it never stops at its own consistency check. This includes pilots that
  have more results than expected: the code tests for equality, where the documentation speaks of
  less result rows.
\<close>

theorem campaign_sends_unmatched_pilots:
  assumes "length (instructions stream) < 2 ^ 31 - 1" and "db_ok db" "next_pilot_id db \<le> 2 ^ 32"
    and "\<forall>x \<in> set (fsppilot db). pilot_key (snd x) \<in> trace_key ` set (trace db)"
    and "\<forall>t \<in> set (trace db). t_instr1 t \<le> t_instr2 t \<and> t_instr2 t \<le> length (instructions stream)"
    and "v \<in> set vs" and "length results < 2 ^ 32"
    and "c = load_completed_pilots like names vs db results (campaign_of_options opt)"
    and "mset rows = mset (selected_pilots like names c v db)" and "sorted (map (\<lambda>r. t_instr1 (snd r)) rows)"
  shows "\<exists>ms js'. run_variant hops_parse send (Some (openTraceFile stream 0 blank), InjectionPointHops_new) (length rows) rows False c v js =
      Some (True, ms, js') \<and>
    mset (map cm_pilot_id ms) = mset (map (\<lambda>x. of_nat (fst x)) (unmatched_pilots like names opt v db results)) \<and>
    (\<forall>m \<in> set ms. \<exists>x \<in> set (unmatched_pilots like names opt v db results). \<exists>ipm. m = pilot_message c v (fst x) (snd x) ipm) \<and>
    (\<forall>x \<in> set (fsppilot db). pilot_selected like names c v x \<and> unat (expected_number_of_results c) < length (filter ((=) (fst x)) results) \<longrightarrow>
       of_nat (fst x) \<in> cm_pilot_id ` set ms)"
proof -
  obtain ms js' where ms: "run_variant hops_parse send (Some (openTraceFile stream 0 blank), InjectionPointHops_new) (length rows) rows False c v js = Some (True, ms, js')"
      "mset (map cm_pilot_id ms) = mset (map (\<lambda>x. of_nat (fst x)) (unmatched_pilots like names opt v db results))"
      "\<forall>m \<in> set ms. \<exists>x \<in> set (unmatched_pilots like names opt v db results). \<exists>ipm. m = pilot_message c v (fst x) (snd x) ipm"
    using run_variant_pilots [OF assms, of send blank js] by blast
  have c: "expected_number_of_results c = expected_number_of_results (campaign_of_options opt)"
      "pilot_selected like names c v x = pilot_selected like names (campaign_of_options opt) v x" for x
    by (simp_all add: assms(8) load_completed_pilots_def expected_number_of_results_def pilot_selected_def method_selected_def)
  have ids: "cm_pilot_id ` set ms = (\<lambda>x. of_nat (fst x)) ` set (unmatched_pilots like names opt v db results)"
    using mset_eq_setD [OF ms(2)] by simp
  have "of_nat (fst x) \<in> cm_pilot_id ` set ms"
    if "x \<in> set (fsppilot db)" "pilot_selected like names c v x" "unat (expected_number_of_results c) < length (filter ((=) (fst x)) results)" for x
    unfolding ids using that unfolding c by (intro imageI) (simp add: unmatched_pilots_def)
  with ms show ?thesis by blast
qed

text \<open>
  A trace with one class and its pilot, of which there are no results yet; \<open>LIKE\<close> is matching a pattern
  that is a single percent sign or the word itself.
\<close>

definition demo_trace_row :: trace_row where
  "demo_trace_row = \<lparr>t_variant = 2, t_instr1 = 2, t_instr1_absolute = None, t_instr2 = 3, t_instr2_absolute = None, t_time1 = 2, t_time2 = 3,
     t_data_address = 64, t_width = 8, t_accesstype = R\<rparr>"

definition demo_pilot :: pilot_row where
  "demo_pilot = \<lparr>known_outcome = False, p_variant = 2, p_instr2 = 3, injection_instr = 3, injection_instr_absolute = None,
     p_data_address = 64, data_width = 8, p_method = 4\<rparr>"

definition demo_db :: database where
  "demo_db = \<lparr>trace = [demo_trace_row], fsppilot = [(7, demo_pilot)], next_pilot_id = 8, fspgroup = []\<rparr>"

definition demo_names :: name_tables where
  "demo_names = \<lparr>variants = [\<lparr>var_id = 2, var_variant = ''v'', var_benchmark = ''b''\<rparr>], next_variant = 3, fspmethods = [(4, ''basic'')], next_method = 5\<rparr>"

definition demo_like :: "string \<Rightarrow> string \<Rightarrow> bool" where
  "demo_like s pat \<longleftrightarrow> pat = ''%'' \<or> s = pat"

definition demo_options :: campaign_options where
  "demo_options = \<lparr>opt_variants = [], opt_variants_exclude = [], opt_benchmarks = [], opt_benchmarks_exclude = [], opt_pruner = None,
     opt_burst = False, opt_registers = False, opt_registers_force = False, opt_randomjump = False\<rparr>"

lemmas demo_defs = demo_trace_row_def demo_pilot_def demo_db_def demo_names_def demo_like_def demo_options_def

theorem campaign_sends_unmatched_pilots_witness:
  "\<exists>c ms js'. run_variant hops_parse (\<lambda>m js. js) (Some (openTraceFile demo_stream 0 (exec 0)), InjectionPointHops_new) 1
      [((7, demo_pilot), demo_trace_row)] False c (hd (variants demo_names)) (JobServer_new 9 0 ''x'') = Some (True, ms, js') \<and> mset (map cm_pilot_id ms) = {#7#}"
proof -
  let ?v = "hd (variants demo_names)" and ?rows = "[((7, demo_pilot), demo_trace_row)]"
  let ?c = "load_completed_pilots demo_like demo_names [?v] demo_db [] (campaign_of_options demo_options)"
  have h: "length (instructions demo_stream) < 2 ^ 31 - 1" "db_ok demo_db" "next_pilot_id demo_db \<le> 2 ^ 32"
      "\<forall>x \<in> set (fsppilot demo_db). pilot_key (snd x) \<in> trace_key ` set (trace demo_db)"
      "\<forall>t \<in> set (trace demo_db). t_instr1 t \<le> t_instr2 t \<and> t_instr2 t \<le> length (instructions demo_stream)" "?v \<in> set [?v]"
      "length ([] :: nat list) < 2 ^ 32" "sorted (map (\<lambda>r. t_instr1 (snd r)) ?rows)"
    unfolding demo_stream_instructions by (simp_all add: demo_defs db_ok_def trace_key_def pilot_key_def)
  have sel: "mset ?rows = mset (selected_pilots demo_like demo_names ?c ?v demo_db)"
    by (simp add: selected_pilots_def method_selected_def trace_key_def pilot_key_def load_completed_pilots_def campaign_of_options_def
        result_counts_def demo_defs)
  have inc: "unmatched_pilots demo_like demo_names demo_options ?v demo_db [] = [(7, demo_pilot)]"
    by (simp add: unmatched_pilots_def expected_number_of_results_def pilot_selected_def method_selected_def campaign_of_options_def demo_defs)
  from campaign_sends_unmatched_pilots [OF h(1-7) refl sel h(8), of "\<lambda>m js. js" "exec 0" "JobServer_new 9 0 ''x''"]
  show ?thesis unfolding inc by auto
qed

end
