(* ===== verification/Database_Experiment.thy ===== *)
theory Database_Experiment
  imports Client_Sessions Database_Campaign Register_Info
begin

unbundle bit_operations_syntax

text \<open>
  The generic experiment (\<^verbatim>\<open>src/core/efw/DatabaseExperiment.cc\<close>): it takes jobs from the client, injects the
  faults of a job one after the other and sends the results back. The simulator is a parameter;
  of the machine the model has the memory, the registers and the program counter of the first CPU, and the
  instruction pointers of the others.
\<close>

section \<open>Injecting a fault\<close>

record machine =
  memory :: "address_t \<Rightarrow> u8"
  registers :: "u32 \<Rightarrow> u64"
  pc :: address_t
  other_ips :: "address_t list"

text \<open>The faulty value of a byte: all eight bits or one of them are flipped.\<close>

definition injected_value :: "bool \<Rightarrow> u32 \<Rightarrow> u32 \<Rightarrow> u32" where
  "injected_value inject_burst bitpos v = v XOR (if inject_burst then 0xff else push_bit (unat bitpos) 1)"

definition injectFault ::
  "address_t \<Rightarrow> u32 \<Rightarrow> bool \<Rightarrow> bool \<Rightarrow> bool \<Rightarrow> bool \<Rightarrow> machine \<Rightarrow> u32 \<times> machine" where
  "injectFault data_address bitpos inject_burst inject_registers force_registers randomjump m =
     (if randomjump then (ucast (pc m), m\<lparr>pc := data_address\<rparr>)
      else if data_address < push_bit 4 128 \<and> inject_registers then
        let reginfo = fromDataAddress (ucast data_address) 1;
            content = registers m (ri_id reginfo);
            v = ucast (getRegisterContent content reginfo) :: u32
        in (v, m\<lparr>registers := (registers m)
               (ri_id reginfo := setRegisterContent content reginfo (ucast (injected_value inject_burst bitpos v)))\<rparr>)
      else if \<not> force_registers then
        let v = ucast (memory m data_address) :: u32
        in (v, m\<lparr>memory := (memory m)(data_address := ucast (injected_value inject_burst bitpos v))\<rparr>)
      else (0, m))"

section \<open>The injections of a job\<close>

text \<open>The loop variable \<open>bit_offset\<close>, from 0 to the number of bits in steps of the injection width.\<close>

function bit_offsets :: "nat \<Rightarrow> nat \<Rightarrow> nat \<Rightarrow> nat list" where
  "bit_offsets bit_offset limit injection_width =
     (if bit_offset < limit \<and> 0 < injection_width
      then bit_offset # bit_offsets (bit_offset + injection_width) limit injection_width else [])"
  by pat_completeness auto
termination
  by (relation "measure (\<lambda>(b, limit, w). limit - b)") auto

declare bit_offsets.simps [simp del]

definition injection_width :: "'ip DatabaseCampaignMessage \<Rightarrow> nat" where
  "injection_width m = (if cm_inject_bursts m \<or> cm_register_injection_mode m = RANDOMJUMP then 8 else 1)"

definition job_offsets :: "'ip DatabaseCampaignMessage \<Rightarrow> nat list" where
  "job_offsets m = bit_offsets 0 (unat (cm_data_width m * 8)) (injection_width m)"

definition inject_at :: "'ip DatabaseCampaignMessage \<Rightarrow> nat \<Rightarrow> machine \<Rightarrow> u32 \<times> machine" where
  "inject_at m bit_offset =
     injectFault (ucast (cm_data_address m) + of_nat (bit_offset div 8)) (of_nat (bit_offset mod 8)) (cm_inject_bursts m)
       (cm_register_injection_mode m \<noteq> OFF) (cm_register_injection_mode m = FORCE) (cm_register_injection_mode m = RANDOMJUMP)"

text \<open>A slot of the result; it is allocated before anything can go wrong.\<close>

record experiment_result =
  bitoffset :: nat
  original_value :: "u32 option"
  result_width :: "nat option"

text \<open>
  The experiment's callbacks and the simulator, for one injection: whether \<open>cb_before_fast_forward\<close>,
  \<open>cb_after_fast_forward\<close> and \<open>cb_before_resume\<close> want to go on, and the state at the injection point.
\<close>

record experiment_env =
  before_fast_forward :: "nat \<Rightarrow> bool"
  after_fast_forward :: "nat \<Rightarrow> bool"
  before_resume :: "nat \<Rightarrow> bool"
  at_injection_point :: "nat \<Rightarrow> u32 \<Rightarrow> machine"

text \<open>The check of the injection address, which the instruction pointer of any CPU can satisfy.\<close>

definition misplaced :: "'ip DatabaseCampaignMessage \<Rightarrow> machine \<Rightarrow> bool" where
  "misplaced m s \<longleftrightarrow>
     (let injection_instr_absolute = (case cm_injection_instr_absolute m of None \<Rightarrow> 0 | Some a \<Rightarrow> ucast a);
          found_eip = list_ex (\<lambda>eip. eip = injection_instr_absolute) (pc s # other_ips s)
      in cm_injection_instr_absolute m \<noteq> None \<and> \<not> found_eip)"

definition inject_one :: "experiment_env \<Rightarrow> 'ip DatabaseCampaignMessage \<Rightarrow> nat \<Rightarrow> (experiment_result \<times> machine option) option" where
  "inject_one env m b =
     (let result = \<lparr>bitoffset = b, original_value = None, result_width = None\<rparr>
      in if \<not> before_fast_forward env b \<or> \<not> after_fast_forward env b then Some (result, None)
         else let s = at_injection_point env b (cm_injection_instr m)
              in if misplaced m s then None
                 else case inject_at m b s of (v, s') \<Rightarrow>
                   Some (result\<lparr>original_value := Some v, result_width := Some (injection_width m)\<rparr>,
                         if before_resume env b then Some s' else None))"

text \<open>The results of a job, and the machine states that were run till the crash; \<open>None\<close>: the simulator terminates.\<close>

fun run_job :: "experiment_env \<Rightarrow> 'ip DatabaseCampaignMessage \<Rightarrow> nat list \<Rightarrow> (experiment_result \<times> machine option) list option" where
  "run_job env m [] = Some []"
| "run_job env m (b # bs) =
     (case inject_one env m b of None \<Rightarrow> None | Some r \<Rightarrow> map_option ((#) r) (run_job env m bs))"

section \<open>The experiment's main loop\<close>

text \<open>How the simulator is terminated: after enough jobs, for want of jobs, or at a wrong injection point.\<close>

datatype loop_end = Enough_jobs | No_jobs | Invalid_address

text \<open>
  \<open>job\<close> is what a job does to its message and \<open>injections\<close> how many injections it has. The loop ends after at
  least 25 injections when no fetched job is left, or when the server has no more jobs; \<open>getParam\<close> asks
  again when it is told to. The count of injections is 32-bit. \<open>get_session\<close> and \<open>send_session\<close> are calls of the client
  on a network without failures; \<open>None\<close> would be a job that the server does not answer, or a bound \<open>n\<close> on the jobs
  and retries that is too small.
\<close>

fun experiment_loop ::
  "('m \<Rightarrow> 'm option) \<Rightarrow> ('m \<Rightarrow> nat) \<Rightarrow> nat \<Rightarrow> (nat \<Rightarrow> bool \<times> int) \<Rightarrow> u32 \<Rightarrow> 'm ExperimentData \<Rightarrow> 'm JobServer \<Rightarrow> 'm JobClient \<Rightarrow>
   (loop_end \<times> 'm JobServer \<times> 'm JobClient) option" where
  "experiment_loop job injections 0 clock executed_jobs exp js c = None"
| "experiment_loop job injections (Suc n) clock executed_jobs exp js c =
     (if \<not> (executed_jobs < 25 \<or> m_parameters c \<noteq> []) then Some (Enough_jobs, js, c)
      else case get_session js exp c of
             None \<Rightarrow> None
           | Some (WORK_FOLLOWS, param, js1, c1) \<Rightarrow>
               (case job (msg param) of
                  None \<Rightarrow> Some (Invalid_address, js1, c1)
                | Some m \<Rightarrow>
                    (case send_session (fst (clock n)) (snd (clock n)) (param\<lparr>msg := m\<rparr>) js1 c1 of
                       None \<Rightarrow> None
                     | Some (js2, c2) \<Rightarrow> experiment_loop job injections n clock (executed_jobs + of_nat (injections (msg param))) param js2 c2))
           | Some (COME_AGAIN, param, js1, c1) \<Rightarrow> experiment_loop job injections n clock executed_jobs param js1 c1
           | Some (cmd, param, js1, c1) \<Rightarrow> Some (No_jobs, js1, c1))"

text \<open>A job's message has the pilot and the results so far.\<close>

type_synonym 'ip experiment_message = "'ip DatabaseCampaignMessage \<times> experiment_result list"

definition run_pilot :: "experiment_env \<Rightarrow> 'ip experiment_message \<Rightarrow> 'ip experiment_message option" where
  "run_pilot env m = map_option (\<lambda>rs. (fst m, snd m @ map fst rs)) (run_job env (fst m) (job_offsets (fst m)))"

definition experiment_run ::
  "experiment_env \<Rightarrow> nat \<Rightarrow> (nat \<Rightarrow> bool \<times> int) \<Rightarrow> 'ip experiment_message ExperimentData \<Rightarrow> 'ip experiment_message JobServer \<Rightarrow>
   'ip experiment_message JobClient \<Rightarrow> (loop_end \<times> 'ip experiment_message JobServer \<times> 'ip experiment_message JobClient) option" where
  "experiment_run env n clock = experiment_loop (run_pilot env) (\<lambda>m. length (job_offsets (fst m))) n clock 0"

section \<open>Faults hit exactly the chosen bits\<close>

lemma bit_injected:
  assumes "unat bitpos < 8" and "k < 8"
  shows "bit (ucast (injected_value burst bitpos (ucast (b :: u8))) :: u8) k \<longleftrightarrow> (bit b k \<noteq> (burst \<or> k = unat bitpos))"
proof -
  have ff: "(0xff :: u32) = mask 8" by (simp add: mask_eq_exp_minus_1)
  have "bit (0xff :: u32) k" unfolding ff using assms(2) by (simp add: bit_mask_iff)
  moreover have "bit (push_bit (unat bitpos) 1 :: u32) k \<longleftrightarrow> k = unat bitpos" using assms by (auto simp: bit_exp_iff)
  ultimately show ?thesis using assms(2) by (simp add: injected_value_def bit_unsigned_iff bit_xor_iff)
qed

lemma memory_fault:
  assumes "\<not> randomjump" and "\<not> (a < push_bit 4 128 \<and> inject_registers)" and "\<not> force_registers" and "unat bitpos < 8"
  shows "\<exists>m'. injectFault a bitpos burst inject_registers force_registers randomjump m = (ucast (memory m a), m') \<and>
    registers m' = registers m \<and> pc m' = pc m \<and>
    (\<forall>x k. k < 8 \<longrightarrow> bit (memory m' x) k = (bit (memory m x) k \<noteq> (x = a \<and> (burst \<or> k = unat bitpos))))"
proof -
  have "injectFault a bitpos burst inject_registers force_registers randomjump m =
      (ucast (memory m a), m\<lparr>memory := (memory m)(a := ucast (injected_value burst bitpos (ucast (memory m a))))\<rparr>)"
    unfolding injectFault_def Let_def if_not_P [OF assms(1)] if_not_P [OF assms(2)] if_P [OF assms(3)] by simp
  then show ?thesis using bit_injected [OF assms(4)] by simp
qed

lemma unat_of_nat_u8: "n < 2 ^ 8 \<Longrightarrow> unat (of_nat n :: u8) = n"
  by (simp add: unat_of_nat take_bit_nat_eq_self)

lemma unat_eq_u32: "unat (x :: u32) = unat y \<Longrightarrow> x = y"
  by (simp add: word_unat_eq_iff)

lemma data_address_byte:
  assumes "a < push_bit 4 128" and "unat a mod 16 < 8"
  shows "fromDataAddress (ucast (a :: address_t)) 1 = reginfo (of_nat (unat a div 16)) 8 (of_nat (unat a mod 16 * 8))"
proof -
  have small: "unat a < 2048" using assms(1) by (simp add: word_less_nat_alt)
  then have u: "unat (ucast a :: u32) = unat a" by (simp add: unsigned_ucast_eq take_bit_nat_eq_self)
  have "\<not> bit (ucast a :: u32) 31"
  proof
    assume "bit (ucast a :: u32) 31"
    from bit_below [OF this, of 11] u small show False by simp
  qed
  then have "signed_drop_bit 4 (ucast a :: u32) = drop_bit 4 (ucast a)"
    by (intro bit_word_eqI) (auto simp: bit_signed_drop_bit_iff bit_drop_bit_eq dest: bit_imp_le_length)
  also have "\<dots> = of_nat (unat a div 16)"
  proof (rule unat_eq_u32)
    have "unat (drop_bit 4 (ucast a) :: u32) = unat a div 16" using u by (simp add: drop_bit_eq_div unat_div)
    moreover have "unat (of_nat (unat a div 16) :: u32) = unat a div 16" using small by (intro unat_of_nat_u32) simp
    ultimately show "unat (drop_bit 4 (ucast a) :: u32) = unat (of_nat (unat a div 16) :: u32)" by simp
  qed
  finally have i: "signed_drop_bit 4 (ucast a :: u32) = of_nat (unat a div 16)" .
  have m: "(0xf :: u32) = mask 4" by (simp add: mask_eq_exp_minus_1)
  have "unat (ucast a AND 0xf :: u32) = unat a mod 16" unfolding m take_bit_eq_mask [symmetric] using u by (simp add: take_bit_eq_mod unat_mod)
  then have "(ucast a AND 0xf :: u32) = of_nat (unat a mod 16)" by (intro unat_eq_u32) (simp add: unat_of_nat_u32)
  then have "ucast (ucast a AND 0xf :: u32) * 8 = (of_nat (unat a mod 16 * 8) :: u8)"
    using assms(2) by (simp add: unsigned_of_nat take_bit_nat_eq_self)
  then show ?thesis by (simp add: fromDataAddress_def i)
qed

lemma register_fault:
  assumes "\<not> randomjump" and "a < push_bit 4 128" and "inject_registers" and "unat a mod 16 < 8" and "unat bitpos < 8"
  shows "\<exists>m'. snd (injectFault a bitpos burst inject_registers force_registers randomjump m) = m' \<and> memory m' = memory m \<and> pc m' = pc m \<and>
    (\<forall>r k. bit (registers m' r) k = (bit (registers m r) k \<noteq>
      (r = of_nat (unat a div 16) \<and> k div 8 = unat a mod 16 \<and> (burst \<or> k mod 8 = unat bitpos))))"
proof -
  define offs :: u8 where "offs = of_nat (unat a mod 16 * 8)"
  let ?i = "of_nat (unat a div 16) :: u32"
  let ?info = "reginfo ?i 8 offs" and ?c = "registers m (of_nat (unat a div 16))"
  let ?v = "ucast (getRegisterContent ?c ?info) :: u32"
  have o: "unat offs = unat a mod 16 * 8" unfolding offs_def using assms(4) by (intro unat_of_nat_u8) simp
  have sub: "sub_register 8 offs" using o assms(4) by (simp add: sub_register_def)
  have inj: "snd (injectFault a bitpos burst inject_registers force_registers randomjump m) =
      m\<lparr>registers := (registers m)(?i := setRegisterContent ?c ?info (ucast (injected_value burst bitpos ?v)))\<rparr>"
    using assms data_address_byte [OF assms(2,4)] unfolding offs_def by (simp add: injectFault_def Let_def reginfo_def)
  have ff: "(0xff :: u32) = mask 8" by (simp add: mask_eq_exp_minus_1)
  have val: "bit (ucast (injected_value burst bitpos ?v) :: u64) j \<longleftrightarrow> (bit ?c (unat offs + j) \<noteq> (burst \<or> j = unat bitpos))" if "j < 8" for j
    using that assms(5) unfolding injected_value_def ff
    by (auto simp: bit_unsigned_iff bit_xor_iff bit_getRegisterContent [OF sub] bit_mask_iff bit_exp_iff)
  have "bit (setRegisterContent ?c ?info (ucast (injected_value burst bitpos ?v))) k =
      (bit ?c k \<noteq> (k div 8 = unat a mod 16 \<and> (burst \<or> k mod 8 = unat bitpos)))" for k
  proof (cases "k div 8 = unat a mod 16")
    case True
    then have k: "k = unat offs + k mod 8" using o mult_div_mod_eq [of 8 k] by (simp add: mult.commute)
    then have "unat offs \<le> k" "k < unat offs + 8" "k - unat offs = k mod 8" using mod_less_divisor [of 8 k] by linarith+
    then show ?thesis using val [of "k mod 8"] True k by (simp add: bit_setRegisterContent [OF sub])
  next
    case False
    then have "\<not> (unat offs \<le> k \<and> k < unat offs + 8)" using o by auto
    then show ?thesis using False by (auto simp: bit_setRegisterContent [OF sub])
  qed
  then show ?thesis unfolding inj by simp
qed

lemma bit_offsets_single: "bit_offsets b limit 1 = [b..<limit]"
proof (induction "limit - b" arbitrary: b)
  case 0
  then show ?case by (simp add: bit_offsets.simps)
next
  case (Suc n)
  then have "b < limit" "n = limit - Suc b" by simp_all
  with Suc.hyps(1) [of "Suc b"] show ?case by (subst bit_offsets.simps) (simp add: upt_conv_Cons)
qed

lemma bit_offsets_byte: "bit_offsets (b * 8) (n * 8) 8 = map (\<lambda>i. i * 8) [b..<n]"
proof (induction "n - b" arbitrary: b)
  case 0
  then show ?case by (simp add: bit_offsets.simps)
next
  case (Suc d)
  then have "b < n" "d = n - Suc b" by simp_all
  with Suc.hyps(1) [of "Suc b"] show ?case by (subst bit_offsets.simps) (simp add: upt_conv_Cons add.commute)
qed

lemma job_offsets_closed:
  assumes "unat (cm_data_width m) < 2 ^ 29"
  shows "job_offsets m = (if injection_width m = 1 then [0..<8 * unat (cm_data_width m)] else map (\<lambda>i. i * 8) [0..<unat (cm_data_width m)])"
proof -
  have w: "unat (cm_data_width m * 8) = unat (cm_data_width m) * 8" using assms by (simp add: unat_word_ariths)
  have "injection_width m \<in> {1, 8}" by (simp add: injection_width_def)
  then show ?thesis using bit_offsets_single [of 0 "unat (cm_data_width m) * 8"] bit_offsets_byte [of 0 "unat (cm_data_width m)"]
    by (auto simp: job_offsets_def w mult.commute)
qed

lemma run_job_None: "b \<in> set bs \<Longrightarrow> inject_one env m b = None \<Longrightarrow> run_job env m bs = None"
  by (induction bs) (auto split: option.splits)

lemma run_job_map: "\<forall>b \<in> set bs. inject_one env m b = Some (g b) \<Longrightarrow> run_job env m bs = Some (map g bs)"
  by (induction bs) auto

text \<open>
  C12. A job for single-bit faults in memory makes one injection for every bit of the pilot's bytes and no
  other. An injection that the callbacks before and after the fast forward do not cancel changes the machine
  at the injection point in exactly that bit, and its result has the byte's original value; the
  machine is then run unless the callback before the resume cancels it. A cancelled injection has an
  empty result. If the pilot has an absolute injection address, and no CPU's instruction pointer is
  there at one of the injections, the simulator is terminated and the job has no results. The pilot's
  width is below \<open>2\<^sup>2\<^sup>9\<close> bytes.
\<close>

theorem job_flips_every_bit_once:
  assumes "cm_register_injection_mode m = OFF" and "\<not> cm_inject_bursts m" and "unat (cm_data_width m) < 2 ^ 29"
  shows "if \<exists>b < 8 * unat (cm_data_width m). before_fast_forward env b \<and> after_fast_forward env b \<and>
        misplaced m (at_injection_point env b (cm_injection_instr m))
    then run_job env m (job_offsets m) = None
    else \<exists>rs. run_job env m (job_offsets m) = Some rs \<and> length rs = 8 * unat (cm_data_width m) \<and>
      (\<forall>b < 8 * unat (cm_data_width m). let s = at_injection_point env b (cm_injection_instr m); a = ucast (cm_data_address m) + of_nat (b div 8) in
        if before_fast_forward env b \<and> after_fast_forward env b then
          \<exists>s'. rs ! b = (\<lparr>bitoffset = b, original_value = Some (ucast (memory s a)), result_width = Some 1\<rparr>, if before_resume env b then Some s' else None) \<and>
            registers s' = registers s \<and> pc s' = pc s \<and>
            (\<forall>x k. k < 8 \<longrightarrow> bit (memory s' x) k = (bit (memory s x) k \<noteq> (x = a \<and> k = b mod 8)))
        else rs ! b = (\<lparr>bitoffset = b, original_value = None, result_width = None\<rparr>, None))"
proof -
  let ?s = "\<lambda>b. at_injection_point env b (cm_injection_instr m)" and ?a = "\<lambda>b. ucast (cm_data_address m) + of_nat (b div 8) :: address_t"
  let ?go = "\<lambda>b. before_fast_forward env b \<and> after_fast_forward env b" and ?N = "8 * unat (cm_data_width m)"
  have w: "injection_width m = 1" using assms(1,2) by (simp add: injection_width_def)
  have off: "job_offsets m = [0..<?N]" using job_offsets_closed [OF assms(3)] w by simp
  have pos: "unat (of_nat (b mod 8) :: u32) = b mod 8" for b
  proof -
    have "b mod 8 < 2 ^ 32" using mod_less_divisor [of 8 b] by (rule less_trans) simp_all
    then show ?thesis by (rule unat_of_nat_u32)
  qed
  have inj: "\<exists>s'. inject_at m b (?s b) = (ucast (memory (?s b) (?a b)), s') \<and> registers s' = registers (?s b) \<and> pc s' = pc (?s b) \<and>
      (\<forall>x k. k < 8 \<longrightarrow> bit (memory s' x) k = (bit (memory (?s b) x) k \<noteq> (x = ?a b \<and> k = b mod 8)))" for b
    using memory_fault [of False "?a b" False False "of_nat (b mod 8)" False "?s b"] assms(1,2) pos [of b] by (simp add: inject_at_def)
  show ?thesis
  proof (cases "\<exists>b < ?N. before_fast_forward env b \<and> after_fast_forward env b \<and> misplaced m (?s b)")
    case True
    then obtain b where b: "b \<in> set (job_offsets m)" "inject_one env m b = None" unfolding off by (auto simp: inject_one_def Let_def)
    from run_job_None [OF this] show ?thesis unfolding if_P [OF True] .
  next
    case False
    let ?g = "\<lambda>b. if ?go b then (\<lparr>bitoffset = b, original_value = Some (fst (inject_at m b (?s b))), result_width = Some 1\<rparr>,
        if before_resume env b then Some (snd (inject_at m b (?s b))) else None) else (\<lparr>bitoffset = b, original_value = None, result_width = None\<rparr>, None)"
    have "inject_one env m b = Some (?g b)" if "b < ?N" for b using False that by (auto simp: inject_one_def Let_def w split: prod.split)
    then have run: "run_job env m (job_offsets m) = Some (map ?g [0..<?N])" unfolding off by (intro run_job_map) simp
    have "\<exists>rs. run_job env m (job_offsets m) = Some rs \<and> length rs = ?N \<and> (\<forall>b < ?N. let s = ?s b; a = ?a b in
        if ?go b then \<exists>s'. rs ! b = (\<lparr>bitoffset = b, original_value = Some (ucast (memory s a)), result_width = Some 1\<rparr>, if before_resume env b then Some s' else None) \<and>
            registers s' = registers s \<and> pc s' = pc s \<and> (\<forall>x k. k < 8 \<longrightarrow> bit (memory s' x) k = (bit (memory s x) k \<noteq> (x = a \<and> k = b mod 8)))
        else rs ! b = (\<lparr>bitoffset = b, original_value = None, result_width = None\<rparr>, None))"
    proof (intro exI conjI allI impI, rule run)
      fix b assume b: "b < ?N"
      obtain s' where "inject_at m b (?s b) = (ucast (memory (?s b) (?a b)), s')" "registers s' = registers (?s b)" "pc s' = pc (?s b)"
          "\<forall>x k. k < 8 \<longrightarrow> bit (memory s' x) k = (bit (memory (?s b) x) k \<noteq> (x = ?a b \<and> k = b mod 8))" using inj [of b] by blast
      then show "let s = ?s b; a = ?a b in if ?go b then \<exists>s'. map ?g [0..<?N] ! b =
          (\<lparr>bitoffset = b, original_value = Some (ucast (memory s a)), result_width = Some 1\<rparr>, if before_resume env b then Some s' else None) \<and>
          registers s' = registers s \<and> pc s' = pc s \<and> (\<forall>x k. k < 8 \<longrightarrow> bit (memory s' x) k = (bit (memory s x) k \<noteq> (x = a \<and> k = b mod 8)))
        else map ?g [0..<?N] ! b = (\<lparr>bitoffset = b, original_value = None, result_width = None\<rparr>, None)"
        unfolding Let_def using b by (cases "?go b") (auto intro!: exI [of _ s'])
    qed simp
    then show ?thesis unfolding if_not_P [OF False] .
  qed
qed

text \<open>A byte at address 5 with the value 3, in a machine that reaches every injection point.\<close>

definition demo_machine :: machine where
  "demo_machine = \<lparr>memory = (\<lambda>a. if a = 5 then 3 else 0), registers = (\<lambda>r. 0), pc = 77, other_ips = [90]\<rparr>"

definition demo_env :: experiment_env where
  "demo_env = \<lparr>before_fast_forward = (\<lambda>b. True), after_fast_forward = (\<lambda>b. True), before_resume = (\<lambda>b. True),
     at_injection_point = (\<lambda>b i. demo_machine)\<rparr>"

definition demo_message :: "unit DatabaseCampaignMessage" where
  "demo_message = \<lparr>cm_pilot_id = 7, cm_injection_instr = 3, cm_injection_instr_absolute = Some 90, cm_data_address = 5, cm_data_width = 1,
     cm_variant = ''v'', cm_benchmark = ''b'', cm_injection_point = (), cm_inject_bursts = False, cm_register_injection_mode = OFF\<rparr>"

lemma demo_placed: "\<not> misplaced demo_message (at_injection_point demo_env b i)"
  by (simp add: misplaced_def demo_message_def demo_env_def demo_machine_def)

theorem job_flips_every_bit_once_witness:
  "\<exists>rs s'. run_job demo_env demo_message (job_offsets demo_message) = Some rs \<and> length rs = 8 \<and>
     rs ! 6 = (\<lparr>bitoffset = 6, original_value = Some 3, result_width = Some 1\<rparr>, Some s') \<and> bit (memory s' 5) 6 \<and> \<not> bit (memory s' 5) 7"
proof -
  have m: "cm_register_injection_mode demo_message = OFF" "\<not> cm_inject_bursts demo_message" "unat (cm_data_width demo_message) < 2 ^ 29"
    by (simp_all add: demo_message_def)
  have w: "8 * unat (cm_data_width demo_message) = 8" by (simp add: demo_message_def)
  have env: "before_fast_forward demo_env b = True" "after_fast_forward demo_env b = True" "before_resume demo_env b = True"
    "misplaced demo_message (at_injection_point demo_env b i) = False" for b i using demo_placed by (simp_all add: demo_env_def)
  obtain rs where rs: "run_job demo_env demo_message (job_offsets demo_message) = Some rs" "length rs = 8"
      "\<forall>b < 8. let s = at_injection_point demo_env b (cm_injection_instr demo_message); a = ucast (cm_data_address demo_message) + of_nat (b div 8) in
        \<exists>s'. rs ! b = (\<lparr>bitoffset = b, original_value = Some (ucast (memory s a)), result_width = Some 1\<rparr>, Some s') \<and> registers s' = registers s \<and> pc s' = pc s \<and>
          (\<forall>x k. k < 8 \<longrightarrow> bit (memory s' x) k = (bit (memory s x) k \<noteq> (x = a \<and> k = b mod 8)))"
    using job_flips_every_bit_once [OF m, of demo_env] unfolding w env if_True simp_thms HOL.simp_thms if_False by blast
  have six: "(6 :: nat) < 8" by simp
  obtain s' where s': "rs ! 6 = (\<lparr>bitoffset = 6, original_value = Some 3, result_width = Some 1\<rparr>, Some s')"
      "\<forall>x k. k < 8 \<longrightarrow> bit (memory s' x) k = (bit (memory demo_machine x) k \<noteq> (x = 5 \<and> k = 6))"
    using rs(3) [rule_format, OF six] by (auto simp: demo_message_def demo_env_def demo_machine_def Let_def)
  have "bit (memory s' 5) 6" "\<not> bit (memory s' 5) 7" using s'(2) by (simp_all add: demo_machine_def bit_numeral_rec(2) numeral_eq_Suc)
  with rs(1,2) s'(1) show ?thesis by (intro exI [of _ rs] exI [of _ s']) simp
qed

section \<open>The results of a job against the campaign's count\<close>

lemma run_job_length: "run_job env m bs = Some rs \<Longrightarrow> length rs = length bs"
  by (induction bs arbitrary: rs) (auto split: option.splits)

text \<open>
  C33. A pilot of one byte without results is run, its results are stored, and the campaign is started again on
  the same database. Then the campaign does not send the pilot - except in random-jump mode without bursts:
  there the experiment makes one injection where \<open>expected_number_of_results\<close> is eight, so that the pilot is
  sent again. Injection points are hop chains, and every pilot has its trace row.
\<close>

theorem job_completes_pilot_unless_randomjump:
  assumes "length (instructions stream) < 2 ^ 31 - 1" and "db_ok db" "next_pilot_id db \<le> 2 ^ 32"
    and "\<forall>x \<in> set (fsppilot db). pilot_key (snd x) \<in> trace_key ` set (trace db)"
    and "\<forall>t \<in> set (trace db). t_instr1 t \<le> t_instr2 t \<and> t_instr2 t \<le> length (instructions stream)" and "v \<in> set vs"
    and "x \<in> set (fsppilot db)" and "pilot_selected like names (campaign_of_options opt) v x" and "data_width (snd x) = 1" and "fst x \<notin> set results"
    and "m = pilot_message (load_completed_pilots like names vs db results (campaign_of_options opt)) v (fst x) (snd x) ipm"
    and "run_job env m (job_offsets m) = Some rs" and "length (results @ replicate (length rs) (fst x)) < 2 ^ 32"
    and "c = load_completed_pilots like names vs db (results @ replicate (length rs) (fst x)) (campaign_of_options opt)"
    and "mset rows = mset (selected_pilots like names c v db)" and "sorted (map (\<lambda>r. t_instr1 (snd r)) rows)"
  shows "\<exists>ms js'. run_variant hops_parse send (Some (openTraceFile stream 0 blank), InjectionPointHops_new) (length rows) rows False c v js =
      Some (True, ms, js') \<and>
    (of_nat (fst x) \<in> cm_pilot_id ` set ms \<longleftrightarrow> opt_randomjump opt \<and> \<not> opt_registers opt \<and> \<not> opt_registers_force opt \<and> \<not> opt_burst opt)"
proof -
  let ?all = "results @ replicate (length rs) (fst x)" and ?jump = "opt_randomjump opt \<and> \<not> opt_registers opt \<and> \<not> opt_registers_force opt"
  have m: "cm_data_width m = 1" "cm_inject_bursts m = opt_burst opt"
      "cm_register_injection_mode m = m_register_injection_mode (campaign_of_options opt)"
    using assms(9,11) by (simp_all add: pilot_message_def load_completed_pilots_def campaign_of_options_def)
  have "injection_width m = 1 \<longleftrightarrow> \<not> opt_burst opt \<and> \<not> ?jump" by (auto simp: injection_width_def m(2,3) campaign_of_options_def)
  then have len: "length rs = (if \<not> opt_burst opt \<and> \<not> ?jump then 8 else 1)"
    using run_job_length [OF assms(12)] job_offsets_closed [of m] m(1) by simp
  have "filter ((=) (fst x)) results = []" using assms(10) by (auto simp: filter_empty_conv)
  then have n: "length (filter ((=) (fst x)) ?all) = length rs" by simp
  have "unat (expected_number_of_results (campaign_of_options opt)) = (if opt_burst opt then 1 else 8)"
    by (simp add: expected_number_of_results_def campaign_of_options_def)
  then have un: "x \<in> set (unmatched_pilots like names opt v db ?all) \<longleftrightarrow> ?jump \<and> \<not> opt_burst opt"
    unfolding unmatched_pilots_def using assms(7,8) n len by auto
  obtain ms js' where ms: "run_variant hops_parse send (Some (openTraceFile stream 0 blank), InjectionPointHops_new) (length rows) rows False c v js = Some (True, ms, js')"
      "mset (map cm_pilot_id ms) = mset (map (\<lambda>x. of_nat (fst x)) (unmatched_pilots like names opt v db ?all))"
    using run_variant_pilots [OF assms(1-6,13-16), of send blank js] by blast
  have ids: "fst y < 2 ^ 32" if "y \<in> set (fsppilot db)" for y using that assms(2,3) by (auto simp: db_ok_def)
  have same: "y = x" if "y \<in> set (fsppilot db)" "(of_nat (fst y) :: u32) = of_nat (fst x)" for y
  proof -
    have "fst y = fst x" using that of_nat_u32_inj ids assms(7) by metis
    then show ?thesis using that(1) assms(2,7) by (auto simp: db_ok_def distinct_map inj_on_def)
  qed
  have "set (unmatched_pilots like names opt v db ?all) \<subseteq> set (fsppilot db)" by (auto simp: unmatched_pilots_def)
  then have "of_nat (fst x) \<in> cm_pilot_id ` set ms \<longleftrightarrow> x \<in> set (unmatched_pilots like names opt v db ?all)"
    using mset_eq_setD [OF ms(2)] same by (auto simp: image_iff)
  with ms(1) un show ?thesis by blast
qed

theorem job_completes_pilot_unless_randomjump_witness:
  "\<exists>rs ms js'. run_job demo_env (demo_message\<lparr>cm_injection_instr_absolute := None, cm_data_address := 64, cm_register_injection_mode := RANDOMJUMP\<rparr>)
      (job_offsets (demo_message\<lparr>cm_injection_instr_absolute := None, cm_data_address := 64, cm_register_injection_mode := RANDOMJUMP\<rparr>)) = Some rs \<and>
     run_variant hops_parse (\<lambda>m js. js) (Some (openTraceFile demo_stream 0 (exec 0)), InjectionPointHops_new) 1
       [((7, demo_pilot\<lparr>data_width := 1\<rparr>), demo_trace_row)] False
       (load_completed_pilots demo_like demo_names (variants demo_names) (demo_db\<lparr>fsppilot := [(7, demo_pilot\<lparr>data_width := 1\<rparr>)]\<rparr>) (replicate (length rs) 7)
          (campaign_of_options (demo_options\<lparr>opt_randomjump := True\<rparr>)))
       (hd (variants demo_names)) (JobServer_new 9 0 ''x'') = Some (True, ms, js') \<and> 7 \<in> cm_pilot_id ` set ms"
proof -
  let ?opt = "demo_options\<lparr>opt_randomjump := True\<rparr>" and ?x = "(7 :: nat, demo_pilot\<lparr>data_width := 1\<rparr>)" and ?v = "hd (variants demo_names)"
  let ?vs = "variants demo_names" and ?db = "demo_db\<lparr>fsppilot := [?x]\<rparr>" and ?rows = "[(?x, demo_trace_row)]"
  let ?m = "demo_message\<lparr>cm_injection_instr_absolute := None, cm_data_address := 64, cm_register_injection_mode := RANDOMJUMP\<rparr>"
  have h: "length (instructions demo_stream) < 2 ^ 31 - 1" "db_ok ?db" "next_pilot_id ?db \<le> 2 ^ 32"
      "\<forall>x \<in> set (fsppilot ?db). pilot_key (snd x) \<in> trace_key ` set (trace ?db)"
      "\<forall>t \<in> set (trace ?db). t_instr1 t \<le> t_instr2 t \<and> t_instr2 t \<le> length (instructions demo_stream)" "?v \<in> set ?vs"
      "?x \<in> set (fsppilot ?db)" "pilot_selected demo_like demo_names (campaign_of_options ?opt) ?v ?x" "data_width (snd ?x) = 1" "fst ?x \<notin> set []"
    unfolding demo_stream_instructions
    by (simp_all add: demo_defs db_ok_def trace_key_def pilot_key_def pilot_selected_def method_selected_def campaign_of_options_def)
  have m: "?m = pilot_message (load_completed_pilots demo_like demo_names ?vs ?db [] (campaign_of_options ?opt)) ?v (fst ?x) (snd ?x) ()"
    by (simp add: pilot_message_def demo_message_def load_completed_pilots_def campaign_of_options_def demo_defs)
  obtain rs where rs: "run_job demo_env ?m (job_offsets ?m) = Some rs"
    using run_job_map [of "job_offsets ?m" demo_env ?m "\<lambda>b. the (inject_one demo_env ?m b)"]
    by (auto simp: inject_one_def misplaced_def demo_env_def Let_def split: prod.splits)
  have "job_offsets ?m = [0]" using job_offsets_closed [of ?m] by (simp add: injection_width_def demo_message_def)
  then have len: "length ([] @ replicate (length rs) (fst ?x)) < 2 ^ 32" using run_job_length [OF rs] by simp
  let ?c = "load_completed_pilots demo_like demo_names ?vs ?db ([] @ replicate (length rs) (fst ?x)) (campaign_of_options ?opt)"
  have sel: "mset ?rows = mset (selected_pilots demo_like demo_names ?c ?v ?db)" "sorted (map (\<lambda>r. t_instr1 (snd r)) ?rows)"
    by (simp_all add: selected_pilots_def method_selected_def trace_key_def pilot_key_def load_completed_pilots_def campaign_of_options_def demo_defs)
  from job_completes_pilot_unless_randomjump [OF h m rs len refl sel, of "\<lambda>m js. js" "exec 0" "JobServer_new 9 0 ''x''"]
  show ?thesis using rs by (auto simp: demo_options_def)
qed

section \<open>The main loop hands back what it took\<close>

lemma enough:
  assumes "\<not> k < (25 :: u32)" and "k = of_nat n"
  shows "25 \<le> n"
proof -
  have "unat k \<le> n" unfolding assms(2) by (simp add: unat_of_nat take_bit_nat_less_eq_self)
  then show ?thesis using assms(1) by (simp add: word_less_nat_alt)
qed

lemma experiment_loop_ends:
  "server_inv f orig P (H @ Q) U js \<Longrightarrow> client_inv f orig H Q js c \<Longrightarrow> (Q = [] \<longrightarrow> H = []) \<Longrightarrow> length (H @ Q @ U) < 2 ^ 32 - 1 \<Longrightarrow>
    k = of_nat (sum_list (map (\<lambda>e. injections (orig e)) (P @ H))) \<Longrightarrow> \<forall>e \<in> set (Q @ U). job (orig e) = Some (f (orig e)) \<Longrightarrow>
    \<exists>b js' c' P' U'. experiment_loop job injections (Suc (length (Q @ U))) clock k exp js c = Some (b, js', c') \<and> P' @ U' = P @ H @ Q @ U \<and>
      server_inv f orig P' [] U' js' \<and> (b = Enough_jobs \<and> 25 \<le> sum_list (map (\<lambda>e. injections (orig e)) P') \<or> b = No_jobs \<and> U' = [])"
proof (induction "length (Q @ U)" arbitrary: P H Q U js c exp k)
  case 0
  then have nil: "Q = []" "U = []" "H = []" by simp_all
  with 0 have inv: "server_inv f orig P [] [] js" "client_inv f orig [] [] js c" by simp_all
  then have par: "m_parameters c = []" by (simp add: client_inv_def)
  obtain param js' c' where die: "get_session js exp c = Some (DIE, param, js', c')" "server_inv f orig P [] [] js'"
    using get_session_end [OF inv, of exp] by blast
  show ?case
  proof (cases "k < 25")
    case True
    then have "experiment_loop job injections (Suc (length (Q @ U))) clock k exp js c = Some (No_jobs, js', c')" using die(1) by simp
    with die(2) nil show ?thesis by (intro exI [of _ No_jobs] exI [of _ js'] exI [of _ c'] exI [of _ P] exI [of _ "[]"]) simp
  next
    case False
    then have "experiment_loop job injections (Suc (length (Q @ U))) clock k exp js c = Some (Enough_jobs, js, c)" using par by simp
    with inv(1) nil enough [OF False 0(6)] show ?thesis by (intro exI [of _ Enough_jobs] exI [of _ js] exI [of _ c] exI [of _ P] exI [of _ "[]"]) simp
  qed
next
  case (Suc n)
  show ?case
  proof (cases "k < 25 \<or> m_parameters c \<noteq> []")
    case False
    then have nil: "Q = []" "H = []" using Suc.prems(2,3) by (auto simp: client_inv_def)
    then show ?thesis using False enough [OF _ Suc.prems(5)] Suc.prems by (intro exI [of _ Enough_jobs] exI [of _ js] exI [of _ c] exI [of _ P] exI [of _ U]) auto
  next
    case True
    let ?k = "length (Q @ U)"
    have "Q @ U \<noteq> []" using Suc.hyps(2) by auto
    from session_round [OF Suc.prems(1-4) this, of exp "fst (clock ?k)" "snd (clock ?k)"]
    obtain e Q' V P' H' js1 c1 js2 c2 where r: "Q @ U = e # Q' @ V" "get_session js exp c = Some (WORK_FOLLOWS, exps js1 e, js1, c1)" "msg (exps js1 e) = orig e"
        "send_session (fst (clock ?k)) (snd (clock ?k)) ((exps js1 e)\<lparr>msg := f (msg (exps js1 e))\<rparr>) js1 c1 = Some (js2, c2)" "P' @ H' = P @ H @ [e]"
        "server_inv f orig P' (H' @ Q') V js2" "client_inv f orig H' Q' js2 c2" "Q' = [] \<longrightarrow> H' = []" "length (H' @ Q' @ V) < 2 ^ 32 - 1" by blast
    have n: "n = length (Q' @ V)" "?k = Suc n" using Suc.hyps(2) arg_cong [OF r(1), of length] by simp_all
    have all: "P' @ H' @ Q' @ V = P @ H @ Q @ U" using r(1,5) by (metis append.assoc append_Cons append_Nil)
    have job: "job (orig e) = Some (f (orig e))" "\<forall>e \<in> set (Q' @ V). job (orig e) = Some (f (orig e))" using Suc.prems(6) unfolding r(1) by simp_all
    have "k + of_nat (injections (orig e)) = of_nat (sum_list (map (\<lambda>e. injections (orig e)) (P' @ H')))" unfolding r(5) using Suc.prems(5) by simp
    note ih = Suc.hyps(1) [OF n(1) r(6-9) this job(2), of "exps js1 e"]
    have step: "experiment_loop job injections (Suc ?k) clock k exp js c =
        experiment_loop job injections ?k clock (k + of_nat (injections (orig e))) (exps js1 e) js2 c2" using True r(2,4) unfolding r(3) by (simp add: r(3) job(1))
    have k: "?k = Suc (length (Q' @ V))" unfolding n(2) n(1) ..
    show ?thesis using ih unfolding all k [symmetric] step .
  qed
qed

text \<open>
  C13. The experiment's main loop hands back the results of all jobs it took, under two conditions: the network
  does not fail (every connection, message and reply gets through), and every job can be run, that is,
  no injection finds all CPUs away from the pilot's absolute injection address, which would terminate
  the simulator in the middle. Whatever the clock measures, the loop then ends, no job is left running
  at the server, the jobs done and the jobs not yet sent are the campaign's in their order, and each
  finished one has the results of its injections. It ends with jobs left only after 25 injections.
\<close>

theorem experiment_hands_back_its_jobs:
  assumes "distinct (map fst jobs)" and "length jobs < 2 ^ 32 - 1" and "\<forall>(e, m) \<in> set jobs. run_pilot env m \<noteq> None"
  shows "\<exists>s b js c finished_jobs rest. sys_run (sys_new runid 0 m0) (map (\<lambda>(e, m). AddParam e m) jobs @ [SetNoMoreExperiments]) = Some s \<and>
    experiment_run env (Suc (length jobs)) clock exp (server s) JobClient_new = Some (b, js, c) \<and>
    jobs = finished_jobs @ rest \<and> m_queue (m_doneJobs js) = map fst finished_jobs \<and> m_queue (m_undoneJobs js) = map fst rest \<and>
    m_map (m_runningJobs js) = [] \<and> (\<forall>(e, m) \<in> set finished_jobs. run_pilot env m = Some (msg (exps js e))) \<and>
    (rest \<noteq> [] \<longrightarrow> b = Enough_jobs \<and> 25 \<le> sum_list (map (\<lambda>(e, m). length (job_offsets (fst m))) finished_jobs))"
proof -
  let ?orig = "\<lambda>e. the (map_of jobs e)" and ?f = "\<lambda>m. the (run_pilot env m)" and ?inj = "\<lambda>m. length (job_offsets (fst m))"
  obtain s where s: "sys_run (sys_new runid 0 m0) (map (\<lambda>(e, m). AddParam e m) jobs @ [SetNoMoreExperiments]) = Some s"
      "server_inv ?f ?orig [] [] (map fst jobs) (server s)" "client_inv ?f ?orig [] [] (server s) JobClient_new"
    using campaign_start [OF assms(1,2)] by blast
  have job: "run_pilot env (?orig e) = Some (?f (?orig e))" if "e \<in> set (map fst jobs)" for e
  proof -
    from that obtain m where "(e, m) \<in> set jobs" by auto
    with assms(1,3) show ?thesis by auto
  qed
  obtain b js c P U where l: "experiment_run env (Suc (length jobs)) clock exp (server s) JobClient_new = Some (b, js, c)"
      "P @ U = map fst jobs" "server_inv ?f ?orig P [] U js" "b = Enough_jobs \<and> 25 \<le> sum_list (map (\<lambda>e. ?inj (?orig e)) P) \<or> b = No_jobs \<and> U = []"
    using experiment_loop_ends [of ?f ?orig "[]" "[]" "[]" "map fst jobs" "server s" JobClient_new 0 ?inj "run_pilot env" clock exp] s(2,3) assms(2) job
    unfolding experiment_run_def by auto
  obtain F G where jobs: "jobs = F @ G" "map fst F = P" "map fst G = U" using l(2) [symmetric] unfolding map_eq_append_conv by blast
  have mem: "(e, m) \<in> set jobs \<and> e \<in> set P" if "(e, m) \<in> set F" for e m using that jobs by force
  have res: "run_pilot env m = Some (msg (exps js e))" if "(e, m) \<in> set F" for e m
  proof -
    have "msg (exps js e) = ?f m" by (rule server_inv_results_of [OF l(3) assms(1) conjunct1 [OF mem [OF that]] conjunct2 [OF mem [OF that]]])
    moreover have "run_pilot env m \<noteq> None" using assms(3) mem [OF that] by blast
    ultimately show ?thesis by simp
  qed
  have "map (\<lambda>e. ?inj (?orig e)) P = map (\<lambda>(e, m). ?inj m) F"
    unfolding jobs(2) [symmetric] using map_of_is_SomeI [OF assms(1) conjunct1 [OF mem]] by auto
  then have "G \<noteq> [] \<longrightarrow> b = Enough_jobs \<and> 25 \<le> sum_list (map (\<lambda>(e, m). ?inj m) F)" using l(4) jobs(3) by auto
  then show ?thesis using s(1) l(1,3) jobs res
    by (intro exI [of _ s] exI [of _ b] exI [of _ js] exI [of _ c] exI [of _ F] exI [of _ G]) (auto simp: server_inv_def)
qed

theorem experiment_hands_back_its_jobs_witness:
  "\<exists>s b js c. sys_run (sys_new 9 0 (demo_message, [])) [AddParam 4 (demo_message, []), AddParam 7 (demo_message, []), SetNoMoreExperiments] = Some s \<and>
     experiment_run demo_env 3 (\<lambda>n. (False, 50)) \<lparr>msg = (demo_message, []), m_workloadID = 0\<rparr> (server s) JobClient_new = Some (b, js, c) \<and>
     m_map (m_runningJobs js) = [] \<and> m_queue (m_doneJobs js) @ m_queue (m_undoneJobs js) = [4, 7]"
proof -
  let ?jobs = "[(4 :: nat, (demo_message, [] :: experiment_result list)), (7, (demo_message, []))]"
  have "distinct (map fst ?jobs)" "length ?jobs < 2 ^ 32 - 1" by simp_all
  moreover obtain rs where "run_job demo_env demo_message (job_offsets demo_message) = Some rs"
    using run_job_map [of "job_offsets demo_message" demo_env demo_message "\<lambda>b. the (inject_one demo_env demo_message b)"]
    by (auto simp: inject_one_def demo_placed Let_def split: prod.splits)
  then have "\<forall>(e, m) \<in> set ?jobs. run_pilot demo_env m \<noteq> None" by (simp add: run_pilot_def)
  ultimately obtain s b js c F G where r: "sys_run (sys_new 9 0 (demo_message, [])) (map (\<lambda>(e, m). AddParam e m) ?jobs @ [SetNoMoreExperiments]) = Some s"
     "experiment_run demo_env (Suc (length ?jobs)) (\<lambda>n. (False, 50)) \<lparr>msg = (demo_message, []), m_workloadID = 0\<rparr> (server s) JobClient_new = Some (b, js, c)"
     "?jobs = F @ G" "m_queue (m_doneJobs js) = map fst F" "m_queue (m_undoneJobs js) = map fst G" "m_map (m_runningJobs js) = []"
    using experiment_hands_back_its_jobs [of ?jobs demo_env 9 "(demo_message, [])" "\<lambda>n. (False, 50)" "\<lparr>msg = (demo_message, []), m_workloadID = 0\<rparr>"] by blast
  have three: "Suc (length ?jobs) = 3" by simp
  have "m_queue (m_doneJobs js) @ m_queue (m_undoneJobs js) = map fst ?jobs" unfolding r(3-5) by simp
  then show ?thesis using r(1,2,6) unfolding three
    by (intro exI [of _ s] exI [of _ b] exI [of _ js] exI [of _ c]) (simp del: sys_run.simps)
qed

end
