(* ===== verification/Sha1.thy ===== *)
theory Sha1
  imports Fail_Prelude
begin

unbundle bit_operations_syntax

text \<open>
  SHA-1 as in \<^verbatim>\<open>src/plugins/checkpoint/sha1.c\<close>, the hash the checkpoint plugin takes of memory. A context takes
  the message in portions, each a byte list for the array and its (\<open>unsigned\<close>) length. The reference is the definition of FIPS 180: pad the whole message,
  cut it into blocks, compress them one after the other. Pointers are not \<open>NULL\<close>.
\<close>

section \<open>The code\<close>

definition SHA1CircularShift :: "nat \<Rightarrow> u32 \<Rightarrow> u32" where
  "SHA1CircularShift bits w = push_bit bits w OR drop_bit (32 - bits) w"

datatype sha_status = shaSuccess | shaNull | shaInputTooLong | shaStateError

text \<open>\<open>Corrupted\<close> holds an error code: 0 is \<open>shaSuccess\<close>, and the 1 of a message too long is \<open>shaNull\<close>.\<close>

record SHA1Context =
  Intermediate_Hash :: "u32 list"
  Length_Low :: u32
  Length_High :: u32
  Message_Block_Index :: nat
  Message_Block :: "u8 list"
  Computed :: bool
  Corrupted :: sha_status

definition SHA1Reset :: "SHA1Context \<Rightarrow> SHA1Context" where
  "SHA1Reset context =
     context\<lparr>Length_Low := 0, Length_High := 0, Message_Block_Index := 0,
       Intermediate_Hash := [0x67452301, 0xEFCDAB89, 0x98BADCFE, 0x10325476, 0xC3D2E1F0],
       Computed := False, Corrupted := shaSuccess\<rparr>"

text \<open>The word sequence of a block: sixteen words of the message, then the schedule.\<close>

definition block_word :: "u8 list \<Rightarrow> nat \<Rightarrow> u32" where
  "block_word mb t =
     push_bit 24 (ucast (mb ! (t * 4))) OR push_bit 16 (ucast (mb ! (t * 4 + 1))) OR
     push_bit 8 (ucast (mb ! (t * 4 + 2))) OR ucast (mb ! (t * 4 + 3))"

definition schedule_word :: "nat \<Rightarrow> u32 list \<Rightarrow> u32 list" where
  "schedule_word t ws = ws @ [SHA1CircularShift 1 (ws ! (t - 3) XOR ws ! (t - 8) XOR ws ! (t - 14) XOR ws ! (t - 16))]"

definition word_sequence :: "u8 list \<Rightarrow> u32 list" where
  "word_sequence mb = fold schedule_word [16..<80] (map (block_word mb) [0..<16])"

type_synonym word_buffers = "u32 \<times> u32 \<times> u32 \<times> u32 \<times> u32"

definition sha_round :: "(u32 \<Rightarrow> u32 \<Rightarrow> u32 \<Rightarrow> u32) \<Rightarrow> u32 \<Rightarrow> u32 list \<Rightarrow> nat \<Rightarrow> word_buffers \<Rightarrow> word_buffers" where
  "sha_round f k ws t = (\<lambda>(A, B, C, D, E).
     let temp = SHA1CircularShift 5 A + f B C D + E + ws ! t + k
     in (temp, A, SHA1CircularShift 30 B, C, D))"

definition SHA1ProcessMessageBlock :: "SHA1Context \<Rightarrow> SHA1Context" where
  "SHA1ProcessMessageBlock context =
     (let ws = word_sequence (Message_Block context);
          h = Intermediate_Hash context;
          s1 = fold (sha_round (\<lambda>B C D. (B AND C) OR (NOT B AND D)) 0x5A827999 ws) [0..<20] (h ! 0, h ! 1, h ! 2, h ! 3, h ! 4);
          s2 = fold (sha_round (\<lambda>B C D. B XOR C XOR D) 0x6ED9EBA1 ws) [20..<40] s1;
          s3 = fold (sha_round (\<lambda>B C D. (B AND C) OR (B AND D) OR (C AND D)) 0x8F1BBCDC ws) [40..<60] s2;
          (A, B, C, D, E) = fold (sha_round (\<lambda>B C D. B XOR C XOR D) 0xCA62C1D6 ws) [60..<80] s3
      in context\<lparr>Intermediate_Hash := [h ! 0 + A, h ! 1 + B, h ! 2 + C, h ! 3 + D, h ! 4 + E], Message_Block_Index := 0\<rparr>)"

definition put_byte :: "u8 \<Rightarrow> SHA1Context \<Rightarrow> SHA1Context" where
  "put_byte b context =
     context\<lparr>Message_Block := (Message_Block context)[Message_Block_Index context := b],
       Message_Block_Index := Message_Block_Index context + 1\<rparr>"

text \<open>One turn of the loop of \<open>SHA1Input\<close>.\<close>

definition input_byte :: "u8 \<Rightarrow> SHA1Context \<Rightarrow> SHA1Context" where
  "input_byte b context =
     (let c1 = put_byte b context;
          c2 = c1\<lparr>Length_Low := Length_Low c1 + 8\<rparr>;
          c3 = (if Length_Low c2 = 0
                then let c = c2\<lparr>Length_High := Length_High c2 + 1\<rparr>
                     in if Length_High c = 0 then c\<lparr>Corrupted := shaNull\<rparr> else c
                else c2)
      in if Message_Block_Index c3 = 64 then SHA1ProcessMessageBlock c3 else c3)"

fun input_loop :: "u8 list \<Rightarrow> SHA1Context \<Rightarrow> SHA1Context" where
  "input_loop [] context = context"
| "input_loop (b # bs) context = (if Corrupted context = shaSuccess then input_loop bs (input_byte b context) else context)"

definition SHA1Input :: "u8 list \<Rightarrow> SHA1Context \<Rightarrow> sha_status \<times> SHA1Context" where
  "SHA1Input message_array context =
     (if message_array = [] then (shaSuccess, context)
      else if Computed context then (shaStateError, context\<lparr>Corrupted := shaStateError\<rparr>)
      else if Corrupted context \<noteq> shaSuccess then (Corrupted context, context)
      else (shaSuccess, input_loop message_array context))"

text \<open>The loops that fill the block with zeros up to an index.\<close>

function pad_zero :: "nat \<Rightarrow> SHA1Context \<Rightarrow> SHA1Context" where
  "pad_zero limit context =
     (if Message_Block_Index context < limit then pad_zero limit (put_byte 0 context) else context)"
  by pat_completeness auto
termination
  by (relation "measure (\<lambda>(limit, context). limit - Message_Block_Index context)") (auto simp: put_byte_def)

declare pad_zero.simps [simp del]

definition store_length :: "SHA1Context \<Rightarrow> SHA1Context" where
  "store_length context =
     context\<lparr>Message_Block := (Message_Block context)
       [56 := ucast (drop_bit 24 (Length_High context)), 57 := ucast (drop_bit 16 (Length_High context)),
        58 := ucast (drop_bit 8 (Length_High context)), 59 := ucast (Length_High context),
        60 := ucast (drop_bit 24 (Length_Low context)), 61 := ucast (drop_bit 16 (Length_Low context)),
        62 := ucast (drop_bit 8 (Length_Low context)), 63 := ucast (Length_Low context)]\<rparr>"

definition SHA1PadMessage :: "SHA1Context \<Rightarrow> SHA1Context" where
  "SHA1PadMessage context =
     SHA1ProcessMessageBlock (store_length
       (if 55 < Message_Block_Index context
        then pad_zero 56 (SHA1ProcessMessageBlock (pad_zero 64 (put_byte 0x80 context)))
        else pad_zero 56 (put_byte 0x80 context)))"

definition digest_byte :: "u32 list \<Rightarrow> nat \<Rightarrow> u8" where
  "digest_byte h i = ucast (drop_bit (8 * (3 - i mod 4)) (h ! (i div 4)))"

definition SHA1Result :: "SHA1Context \<Rightarrow> (sha_status + u8 list) \<times> SHA1Context" where
  "SHA1Result context =
     (if Corrupted context \<noteq> shaSuccess then (Inl (Corrupted context), context)
      else let c = (if Computed context then context
                    else (SHA1PadMessage context)\<lparr>Message_Block := replicate 64 0, Length_Low := 0, Length_High := 0, Computed := True\<rparr>)
           in (Inr (map (digest_byte (Intermediate_Hash c)) [0..<20]), c))"

section \<open>The standard\<close>

definition sha_f :: "nat \<Rightarrow> u32 \<Rightarrow> u32 \<Rightarrow> u32 \<Rightarrow> u32" where
  "sha_f t B C D =
     (if t < 20 then (B AND C) OR (NOT B AND D)
      else if t < 40 then B XOR C XOR D
      else if t < 60 then (B AND C) OR (B AND D) OR (C AND D)
      else B XOR C XOR D)"

definition sha_K :: "nat \<Rightarrow> u32" where
  "sha_K t = (if t < 20 then 0x5A827999 else if t < 40 then 0x6ED9EBA1 else if t < 60 then 0x8F1BBCDC else 0xCA62C1D6)"

text \<open>The \<open>n\<close>-byte number of some bytes, the most significant one first.\<close>

definition be_word :: "u8 list \<Rightarrow> u32" where
  "be_word bs = fold (\<lambda>b w. w * 256 + ucast b) bs 0"

function sha_W :: "u8 list \<Rightarrow> nat \<Rightarrow> u32" where
  "sha_W M t = (if t < 16 then be_word (take 4 (drop (4 * t) M))
     else word_rotl 1 (sha_W M (t - 3) XOR sha_W M (t - 8) XOR sha_W M (t - 14) XOR sha_W M (t - 16)))"
  by pat_completeness auto
termination
  by (relation "measure snd") auto

declare sha_W.simps [simp del]

text \<open>The buffers before round \<open>t\<close>.\<close>

primrec sha_state :: "u8 list \<Rightarrow> word_buffers \<Rightarrow> nat \<Rightarrow> word_buffers" where
  "sha_state M h 0 = h"
| "sha_state M h (Suc t) =
     (case sha_state M h t of (A, B, C, D, E) \<Rightarrow>
        (word_rotl 5 A + sha_f t B C D + E + sha_W M t + sha_K t, A, word_rotl 30 B, C, D))"

definition compress :: "word_buffers \<Rightarrow> u8 list \<Rightarrow> word_buffers" where
  "compress h M = (case h of (a, b, c, d, e) \<Rightarrow> case sha_state M h 80 of (A, B, C, D, E) \<Rightarrow> (a + A, b + B, c + C, d + D, e + E))"

text \<open>The chaining value after the complete blocks of a message.\<close>

function sha_blocks :: "u8 list \<Rightarrow> word_buffers \<Rightarrow> word_buffers" where
  "sha_blocks M h = (if length M < 64 then h else sha_blocks (drop 64 M) (compress h (take 64 M)))"
  by pat_completeness auto
termination
  by (relation "measure (\<lambda>(M, h). length M)") auto

declare sha_blocks.simps [simp del]

text \<open>The message, a one bit, zeros up to eight bytes before the end of a block, and the length in bits.\<close>

definition be_bytes :: "nat \<Rightarrow> nat \<Rightarrow> u8 list" where
  "be_bytes n v = map (\<lambda>i. of_nat (v div 256 ^ (n - 1 - i))) [0..<n]"

definition sha_pad :: "u8 list \<Rightarrow> u8 list" where
  "sha_pad M = M @ [0x80] @ replicate ((119 - length M mod 64) mod 64) 0 @ be_bytes 8 (8 * length M)"

definition sha_init :: word_buffers where
  "sha_init = (0x67452301, 0xEFCDAB89, 0x98BADCFE, 0x10325476, 0xC3D2E1F0)"

definition SHA1 :: "u8 list \<Rightarrow> u8 list" where
  "SHA1 M = (case sha_blocks (sha_pad M) sha_init of (a, b, c, d, e) \<Rightarrow> concat (map (\<lambda>w. be_bytes 4 (unat w)) [a, b, c, d, e]))"

section \<open>A block\<close>

lemma circular_shift: "0 < n \<Longrightarrow> n < 32 \<Longrightarrow> SHA1CircularShift n w = word_rotl n w"
proof (rule bit_word_eqI)
  fix i assume n: "0 < n" "n < 32" and "i < LENGTH(32)"
  then have i: "i < 32" by simp
  have l: "bit (word_rotl n w) i = bit w ((i + (32 - n)) mod 32)" using i n by (simp add: bit_word_rotl_iff)
  have r: "bit (SHA1CircularShift n w) i \<longleftrightarrow> n \<le> i \<and> bit w (i - n) \<or> bit w (32 - n + i)"
    using i by (auto simp: SHA1CircularShift_def bit_or_iff bit_push_bit_iff bit_drop_bit_eq)
  show "bit (SHA1CircularShift n w) i = bit (word_rotl n w) i"
  proof (cases "i < n")
    case True
    then have "(i + (32 - n)) mod 32 = 32 - n + i" using n by simp
    then show ?thesis unfolding l r using True by simp
  next
    case False
    have "i + (32 - n) = i - n + 32" using False n by simp
    moreover have "(i - n + 32) mod 32 = i - n" using i by simp
    moreover have "\<not> bit w (32 - n + i)" using False n by (auto dest: bit_imp_le_length)
    ultimately show ?thesis unfolding l r using False by simp
  qed
qed

lemma or_byte: "push_bit 8 (w :: u32) OR ucast (b :: u8) = w * 256 + ucast b"
proof -
  have "push_bit 8 w OR ucast b = push_bit 8 w + ucast b"
    by (rule disjunctive_add [symmetric]) (auto simp: bit_push_bit_iff bit_unsigned_iff dest: bit_imp_le_length)
  then show ?thesis by (simp add: push_bit_eq_mult)
qed

lemma or_bytes: "push_bit 24 (a :: u32) OR push_bit 16 b OR push_bit 8 c OR d = push_bit 8 (push_bit 8 (push_bit 8 a OR b) OR c) OR d"
  by (simp add: push_bit_or or.assoc)

lemma block_word_be:
  assumes "length mb = 64" and "t < 16"
  shows "block_word mb t = be_word (take 4 (drop (4 * t) mb))"
proof -
  have "take 4 (drop (4 * t) mb) = map ((!) mb) [4 * t..<4 * t + 4]" using assms by (intro nth_equalityI) auto
  also have "[4 * t..<4 * t + 4] = [4 * t, 4 * t + 1, 4 * t + 2, 4 * t + 3]" by (simp add: upt_rec numeral_eq_Suc)
  finally have b: "take 4 (drop (4 * t) mb) = [mb ! (t * 4), mb ! (t * 4 + 1), mb ! (t * 4 + 2), mb ! (t * 4 + 3)]" by (simp add: mult.commute)
  show ?thesis unfolding b block_word_def be_word_def or_bytes unfolding or_byte by simp
qed

lemma schedule:
  assumes "length mb = 64" and "16 \<le> n"
  shows "fold schedule_word [16..<n] (map (block_word mb) [0..<16]) = map (sha_W mb) [0..<n]"
  using assms(2)
proof (induction n rule: dec_induct)
  case base
  have "block_word mb t = sha_W mb t" if "t < 16" for t
    using block_word_be [OF assms(1) that] that by (subst sha_W.simps) simp
  then show ?case by simp
next
  case (step n)
  have "sha_W mb n = SHA1CircularShift 1 (sha_W mb (n - 3) XOR sha_W mb (n - 8) XOR sha_W mb (n - 14) XOR sha_W mb (n - 16))"
    using step.hyps by (subst sha_W.simps) (simp add: circular_shift)
  then show ?case using step by (simp add: schedule_word_def)
qed

lemma rounds:
  assumes "\<And>t. a \<le> t \<Longrightarrow> t < b \<Longrightarrow> sha_f t = f \<and> sha_K t = k" and "a \<le> b" "b \<le> 80"
  shows "fold (sha_round f k (map (sha_W M) [0..<80])) [a..<b] (sha_state M h a) = sha_state M h b"
  using assms(2,1,3)
proof (induction b rule: dec_induct)
  case (step n)
  then have "sha_f n = f" "sha_K n = k" "map (sha_W M) [0..<80] ! n = sha_W M n" by auto
  then show ?case using step by (simp add: sha_round_def circular_shift Let_def split: prod.split)
qed simp

definition hash_list :: "word_buffers \<Rightarrow> u32 list" where
  "hash_list = (\<lambda>(a, b, c, d, e). [a, b, c, d, e])"

lemma process_block:
  assumes "length (Message_Block c) = 64" and "Intermediate_Hash c = hash_list h"
  shows "SHA1ProcessMessageBlock c = c\<lparr>Intermediate_Hash := hash_list (compress h (Message_Block c)), Message_Block_Index := 0\<rparr>"
proof -
  let ?M = "Message_Block c"
  obtain a0 b0 c0 d0 e0 where h: "h = (a0, b0, c0, d0, e0)" by (cases h)
  have ws: "word_sequence ?M = map (sha_W ?M) [0..<80]" unfolding word_sequence_def by (rule schedule [OF assms(1)]) simp
  have s0: "(Intermediate_Hash c ! 0, Intermediate_Hash c ! 1, Intermediate_Hash c ! 2, Intermediate_Hash c ! 3, Intermediate_Hash c ! 4) = sha_state ?M h 0"
    using assms(2) by (simp add: h hash_list_def)
  have r: "fold (sha_round (\<lambda>B C D. (B AND C) OR (NOT B AND D)) 0x5A827999 (map (sha_W ?M) [0..<80])) [0..<20] (sha_state ?M h 0) = sha_state ?M h 20"
      "fold (sha_round (\<lambda>B C D. B XOR C XOR D) 0x6ED9EBA1 (map (sha_W ?M) [0..<80])) [20..<40] (sha_state ?M h 20) = sha_state ?M h 40"
      "fold (sha_round (\<lambda>B C D. (B AND C) OR (B AND D) OR (C AND D)) 0x8F1BBCDC (map (sha_W ?M) [0..<80])) [40..<60] (sha_state ?M h 40) = sha_state ?M h 60"
      "fold (sha_round (\<lambda>B C D. B XOR C XOR D) 0xCA62C1D6 (map (sha_W ?M) [0..<80])) [60..<80] (sha_state ?M h 60) = sha_state ?M h 80"
    by (rule rounds; simp add: sha_f_def sha_K_def fun_eq_iff)+
  obtain A B C D E where s: "sha_state ?M h 80 = (A, B, C, D, E)" by (cases "sha_state ?M h 80")
  show ?thesis unfolding SHA1ProcessMessageBlock_def Let_def ws s0 r s using assms(2) by (simp add: h hash_list_def compress_def s [unfolded h])
qed

section \<open>A message in portions\<close>

lemma sha_blocks_short: "length M < 64 \<Longrightarrow> sha_blocks M h = h"
  by (subst sha_blocks.simps) simp

lemma sha_blocks_one: "length M = 64 \<Longrightarrow> sha_blocks (M @ N) h = sha_blocks N (compress h M)"
  by (subst sha_blocks.simps) simp

lemma sha_blocks_append: "64 dvd length M \<Longrightarrow> sha_blocks (M @ N) h = sha_blocks N (sha_blocks M h)"
proof (induction M h rule: sha_blocks.induct)
  case (1 M h)
  show ?case
  proof (cases "length M < 64")
    case True
    with 1(2) have "M = []" by (auto dest: dvd_imp_le)
    then show ?thesis by (simp add: sha_blocks_short)
  next
    case False
    have "64 dvd length (drop 64 M)" using 1(2) False by (auto intro: dvd_diff_nat)
    note ih = 1(1) [OF False this]
    have "sha_blocks (M @ N) h = sha_blocks (drop 64 M @ N) (compress h (take 64 M))" using False by (subst sha_blocks.simps) simp
    also have "\<dots> = sha_blocks N (sha_blocks (drop 64 M) (compress h (take 64 M)))" by (rule ih)
    also have "sha_blocks (drop 64 M) (compress h (take 64 M)) = sha_blocks M h" using False by (subst (2) sha_blocks.simps) simp
    finally show ?thesis .
  qed
qed

abbreviation full_part :: "u8 list \<Rightarrow> u8 list" where
  "full_part M \<equiv> take (64 * (length M div 64)) M"

abbreviation open_part :: "u8 list \<Rightarrow> u8 list" where
  "open_part M \<equiv> drop (64 * (length M div 64)) M"

lemma length_parts: "length (open_part M) = length M mod 64" "64 dvd length (full_part M)"
  by (simp_all add: minus_mult_div_eq_mod min_absorb2)

lemma sha_blocks_full: "sha_blocks (full_part M) h = sha_blocks M h"
proof -
  have "sha_blocks M h = sha_blocks (full_part M @ open_part M) h" by simp
  also have "\<dots> = sha_blocks (open_part M) (sha_blocks (full_part M) h)" by (rule sha_blocks_append) (rule length_parts)
  also have "\<dots> = sha_blocks (full_part M) h" by (rule sha_blocks_short) (unfold length_parts, simp)
  finally show ?thesis ..
qed

lemma sha_blocks_extend: "sha_blocks (M @ N) h = sha_blocks (open_part M @ N) (sha_blocks M h)"
proof -
  have "sha_blocks (M @ N) h = sha_blocks (full_part M @ (open_part M @ N)) h" by (simp only: append_assoc [symmetric] append_take_drop_id)
  also have "\<dots> = sha_blocks (open_part M @ N) (sha_blocks (full_part M) h)" by (rule sha_blocks_append) (rule length_parts)
  finally show ?thesis unfolding sha_blocks_full .
qed

text \<open>The context after a message was put in: what the fields mean.\<close>

definition absorbed :: "u8 list \<Rightarrow> SHA1Context \<Rightarrow> bool" where
  "absorbed m c \<longleftrightarrow> Corrupted c = shaSuccess \<and> \<not> Computed c \<and> length (Message_Block c) = 64 \<and> Message_Block_Index c = length m mod 64 \<and>
     take (length m mod 64) (Message_Block c) = open_part m \<and> Intermediate_Hash c = hash_list (sha_blocks m sha_init) \<and>
     unat (Length_High c) * 2 ^ 32 + unat (Length_Low c) = 8 * length m"

lemma reset_absorbed: "length (Message_Block c) = 64 \<Longrightarrow> absorbed [] (SHA1Reset c)"
  by (simp add: absorbed_def SHA1Reset_def sha_blocks_short hash_list_def sha_init_def)

lemma length_counters:
  fixes hi lo :: u32
  assumes "unat hi * 2 ^ 32 + unat lo = 8 * n" and "Suc n < 2 ^ 61"
  shows "if lo + 8 = 0 then hi + 1 \<noteq> 0 \<and> unat (hi + 1) * 2 ^ 32 = 8 * Suc n else unat hi * 2 ^ 32 + unat (lo + 8) = 8 * Suc n"
proof -
  have lo: "unat lo < 2 ^ 32" by (rule unat_less_u32)
  have "8 dvd unat hi * 2 ^ 32 + unat lo" unfolding assms(1) by simp
  then have "8 dvd unat lo" by (simp add: dvd_add_right_iff)
  then obtain k where k: "unat lo = 8 * k" by (rule dvdE)
  with lo have k': "k < 2 ^ 29" by simp
  have plus: "unat (lo + 8) = (unat lo + 8) mod 2 ^ 32" by (simp add: unat_word_ariths)
  show ?thesis
  proof (cases "Suc k = 2 ^ 29")
    case True
    then have "unat lo + 8 = 2 ^ 32" using k by simp
    then have "unat (lo + 8) = 0" unfolding plus by simp
    then have zero: "lo + 8 = 0" by (simp add: unat_eq_zero)
    have hi: "(unat hi + 1) * 2 ^ 32 = 8 * Suc n" using assms(1) \<open>unat lo + 8 = 2 ^ 32\<close> by simp
    then have "unat hi + 1 < 2 ^ 32" using assms(2) by simp
    then have "unat (hi + 1) = unat hi + 1" by (simp add: unat_word_ariths)
    then show ?thesis using zero hi by (auto simp: unat_eq_zero [symmetric])
  next
    case False
    then have "unat lo + 8 < 2 ^ 32" using k k' by simp
    then have "unat (lo + 8) = unat lo + 8" unfolding plus by simp
    moreover then have "lo + 8 \<noteq> 0" by (auto simp: unat_eq_zero [symmetric])
    ultimately show ?thesis using assms(1) by simp
  qed
qed

lemma input_byte_absorbed:
  assumes "absorbed m c" and "Suc (length m) < 2 ^ 61"
  shows "absorbed (m @ [b]) (input_byte b c)"
proof -
  let ?i = "length m mod 64"
  let ?mb = "(Message_Block c)[?i := b]"
  have c: "Corrupted c = shaSuccess" "\<not> Computed c" "length (Message_Block c) = 64" "Message_Block_Index c = ?i"
      "take ?i (Message_Block c) = open_part m" "Intermediate_Hash c = hash_list (sha_blocks m sha_init)"
      "unat (Length_High c) * 2 ^ 32 + unat (Length_Low c) = 8 * length m" using assms(1) by (simp_all add: absorbed_def)
  define c3 where "c3 = (if Length_Low c + 8 = 0 then (put_byte b c)\<lparr>Length_Low := 0, Length_High := Length_High c + 1\<rparr>
    else (put_byte b c)\<lparr>Length_Low := Length_Low c + 8\<rparr>)"
  have c3: "Corrupted c3 = shaSuccess" "\<not> Computed c3" "Message_Block c3 = ?mb" "Message_Block_Index c3 = Suc ?i"
      "Intermediate_Hash c3 = hash_list (sha_blocks m sha_init)" "unat (Length_High c3) * 2 ^ 32 + unat (Length_Low c3) = 8 * Suc (length m)"
    using c length_counters [OF c(7) assms(2)] by (auto simp: c3_def put_byte_def split: if_splits)
  have step: "input_byte b c = (if Suc ?i = 64 then SHA1ProcessMessageBlock c3 else c3)"
    using c c3(4) length_counters [OF c(7) assms(2)] by (auto simp: input_byte_def c3_def put_byte_def Let_def)
  have i: "?i < 64" by simp
  have tk: "take (Suc ?i) ?mb = open_part m @ [b]" using c(3,5) i by (simp add: take_Suc_conv_app_nth)
  have ext: "sha_blocks (m @ [b]) sha_init = sha_blocks (open_part m @ [b]) (sha_blocks m sha_init)" by (rule sha_blocks_extend)
  show ?thesis
  proof (cases "Suc ?i = 64")
    case True
    then have full: "?mb = open_part m @ [b]" using tk c(3) by simp
    have "length (Message_Block c3) = 64" using c3(3) c(3) by simp
    note pb = process_block [OF this c3(5)]
    have "length (open_part m @ [b]) = 64" using True by (simp only: length_append length_parts) simp
    then have h: "sha_blocks (m @ [b]) sha_init = compress (sha_blocks m sha_init) ?mb"
      unfolding ext full using sha_blocks_one [of "open_part m @ [b]" "[]"] by (simp add: sha_blocks_short)
    have "length (m @ [b]) mod 64 = 0" using True by (simp add: mod_Suc)
    then show ?thesis unfolding absorbed_def step if_P [OF True] pb using c3 c(3) h by (simp add: c3(3) mod_eq_0_iff_dvd)
  next
    case False
    then have m: "length (m @ [b]) mod 64 = Suc ?i" and d: "length (m @ [b]) div 64 = length m div 64" by (simp_all add: mod_Suc div_Suc)
    have "length (open_part m @ [b]) < 64" using i False by (simp only: length_append length_parts) simp
    then have h: "sha_blocks (m @ [b]) sha_init = sha_blocks m sha_init" unfolding ext by (rule sha_blocks_short)
    have op: "open_part (m @ [b]) = open_part m @ [b]" unfolding d by (simp add: mult.commute)
    show ?thesis unfolding absorbed_def step if_not_P [OF False] m op h using c3 c(3) tk by simp
  qed
qed

lemma input_loop_absorbed:
  "absorbed m c \<Longrightarrow> length (m @ bs) < 2 ^ 61 \<Longrightarrow> absorbed (m @ bs) (input_loop bs c)"
proof (induction bs arbitrary: m c)
  case (Cons b bs)
  have "absorbed (m @ [b]) (input_byte b c)" using Cons.prems by (intro input_byte_absorbed) simp_all
  from Cons.IH [OF this] Cons.prems show ?case by (simp add: absorbed_def)
qed simp

lemma SHA1Input_absorbed:
  assumes "absorbed m c" and "length (m @ bs) < 2 ^ 61"
  shows "\<exists>c'. SHA1Input bs c = (shaSuccess, c') \<and> absorbed (m @ bs) c'"
  using input_loop_absorbed [OF assms] assms(1) by (auto simp: SHA1Input_def absorbed_def)

section \<open>Padding and the digest\<close>

lemma pad_zero_fills:
  "Message_Block_Index c \<le> limit \<Longrightarrow> limit \<le> length (Message_Block c) \<Longrightarrow>
    pad_zero limit c = c\<lparr>Message_Block_Index := limit,
      Message_Block := take (Message_Block_Index c) (Message_Block c) @ replicate (limit - Message_Block_Index c) 0 @ drop limit (Message_Block c)\<rparr>"
proof (induction limit c rule: pad_zero.induct)
  case (1 limit c)
  show ?case
  proof (cases "Message_Block_Index c < limit")
    case True
    let ?i = "Message_Block_Index c" and ?c = "put_byte 0 c"
    have c: "Message_Block_Index ?c = Suc ?i" "Message_Block ?c = (Message_Block c)[?i := 0]" by (simp_all add: put_byte_def)
    have "pad_zero limit c = pad_zero limit ?c" using True by (subst pad_zero.simps) simp
    also have "\<dots> = ?c\<lparr>Message_Block_Index := limit,
        Message_Block := take (Suc ?i) ((Message_Block c)[?i := 0]) @ replicate (limit - Suc ?i) 0 @ drop limit ((Message_Block c)[?i := 0])\<rparr>"
      using 1(1) [OF True] True 1(3) unfolding c by simp
    also have "take (Suc ?i) ((Message_Block c)[?i := 0]) = take ?i (Message_Block c) @ [0]"
      using True 1(3) by (simp add: take_Suc_conv_app_nth)
    also have "(take ?i (Message_Block c) @ [0]) @ replicate (limit - Suc ?i) 0 @ drop limit ((Message_Block c)[?i := 0]) =
        take ?i (Message_Block c) @ replicate (limit - ?i) 0 @ drop limit (Message_Block c)"
      using True by (simp add: Suc_diff_Suc [symmetric])
    finally show ?thesis by (simp add: put_byte_def)
  next
    case False
    then have "limit = Message_Block_Index c" using 1(2) by simp
    then show ?thesis by (subst pad_zero.simps) simp
  qed
qed

lemma upt_4: "[0..<4] = [0, 1, 2, 3]" and upt_8: "[0..<8] = [0, 1, 2, 3, 4, 5, 6, 7]"
    and upt_20: "[0..<20] = [0, 1, 2, 3, 4, 5, 6, 7, 8, 9, 10, 11, 12, 13, 14, 15, 16, 17, 18, 19]"
  by (simp_all add: upt_rec)

lemma be_bytes_word: "be_bytes 4 (unat (w :: u32)) = [ucast (drop_bit 24 w), ucast (drop_bit 16 w), ucast (drop_bit 8 w), ucast w]"
proof -
  have "of_nat (unat w div 2 ^ n) = (ucast (drop_bit n w) :: u8)" for n
  proof -
    have "unat (drop_bit n w) = drop_bit n (unat w)" by (simp add: unsigned_drop_bit_eq take_bit_nat_eq_self [OF unat_less_u32])
    then have "unat w div 2 ^ n = unat (drop_bit n w)" unfolding drop_bit_eq_div [of n "unat w"] by simp
    then show ?thesis by simp
  qed
  from this [of 24] this [of 16] this [of 8] this [of 0] show ?thesis by (simp add: be_bytes_def upt_4)
qed

lemma be_bytes_split:
  assumes "k < 2 ^ 32"
  shows "be_bytes 8 (j * 2 ^ 32 + k) = be_bytes 4 j @ be_bytes 4 k"
proof -
  have hi: "(j * 2 ^ 32 + k) div (2 ^ 32 * d) = j div d" for d
    using assms by (simp add: div_mult2_eq)
  have lo: "(of_nat ((j * (256 * e * d) + k) div d) :: u8) = of_nat (k div d)" if "0 < d" for d e
  proof -
    have "(j * (256 * e * d) + k) div d = 256 * (j * e) + k div d"
      using that by (simp add: div_mult_self1 [of d k "256 * (j * e)"] algebra_simps)
    moreover have "(of_nat (256 * (j * e)) :: u8) = 0" unfolding word_of_nat_eq_0_iff by simp
    ultimately show ?thesis by (simp only: of_nat_add) simp
  qed
  show ?thesis using hi [of "2 ^ 24"] hi [of "2 ^ 16"] hi [of "2 ^ 8"] hi [of 1] lo [of "2 ^ 24" 1] lo [of "2 ^ 16" "2 ^ 8"] lo [of "2 ^ 8" "2 ^ 16"] lo [of 1 "2 ^ 24"]
    by (simp add: be_bytes_def upt_4 upt_8)
qed

lemma digest_bytes: "map (digest_byte (hash_list (a, b, c, d, e))) [0..<20] = concat (map (\<lambda>w. be_bytes 4 (unat w)) [a, b, c, d, e])"
  by (simp add: be_bytes_word upt_20 digest_byte_def hash_list_def)

lemma update_last_8:
  assumes "length mb = 64"
  shows "mb[56 := a, 57 := b, 58 := c, 59 := d, 60 := e, 61 := f, 62 := g, 63 := h] = take 56 mb @ [a, b, c, d, e, f, g, h]"
proof -
  have "length (drop 56 mb) = 8" "length (take 56 mb) = 56" using assms by simp_all
  then obtain ys where ys: "mb = take 56 mb @ ys" "length ys = 8" using append_take_drop_id [of 56 mb] by metis
  then have "ys[0 := a, 1 := b, 2 := c, 3 := d, 4 := e, 5 := f, 6 := g, 7 := h] = [a, b, c, d, e, f, g, h]"
    by (intro nth_equalityI) (auto simp: nth_list_update less_Suc_eq numeral_eq_Suc)
  then show ?thesis using \<open>length (take 56 mb) = 56\<close> by (subst ys(1)) (simp add: list_update_append del: append_take_drop_id)
qed

lemma store_length_block:
  assumes "length (Message_Block c) = 64" and "unat (Length_High c) * 2 ^ 32 + unat (Length_Low c) = n"
  shows "store_length c = c\<lparr>Message_Block := take 56 (Message_Block c) @ be_bytes 8 n\<rparr>"
  unfolding store_length_def update_last_8 [OF assms(1)] assms(2) [symmetric] be_bytes_split [OF unat_less_u32] be_bytes_word by simp

lemma length_be_bytes [simp]: "length (be_bytes n v) = n"
  by (simp add: be_bytes_def)

lemma pad_count: "i \<le> 55 \<Longrightarrow> (119 - i) mod 64 = (55 :: nat) - i" "55 < i \<Longrightarrow> i < 64 \<Longrightarrow> (119 - i) mod 64 = (63 :: nat) - i + 56"
proof -
  assume "i \<le> 55"
  then have "119 - i = 64 + (55 - i)" by arith
  then have "(119 - i) mod 64 = (55 - i) mod 64" by (simp only: mod_add_self1)
  also have "\<dots> = 55 - i" by (rule mod_less) arith
  finally show "(119 - i) mod 64 = 55 - i" .
next
  assume "55 < i" "i < 64"
  then have "(119 - i) mod 64 = 119 - i" by (intro mod_less) arith
  also have "\<dots> = 63 - i + 56" using \<open>i < 64\<close> by arith
  finally show "(119 - i) mod 64 = 63 - i + 56" .
qed

lemma pad_absorbed:
  assumes "absorbed m c"
  shows "Intermediate_Hash (SHA1PadMessage c) = hash_list (sha_blocks (sha_pad m) sha_init)"
proof -
  let ?i = "length m mod 64" and ?h = "sha_blocks m sha_init" and ?L = "be_bytes 8 (8 * length m)" and ?r = "open_part m"
  have c: "length (Message_Block c) = 64" "Message_Block_Index c = ?i" "take ?i (Message_Block c) = ?r" "Intermediate_Hash c = hash_list ?h"
      "unat (Length_High c) * 2 ^ 32 + unat (Length_Low c) = 8 * length m" using assms by (simp_all add: absorbed_def)
  define c1 where "c1 = put_byte 0x80 c"
  have i: "?i < 64" by simp
  have c1: "length (Message_Block c1) = 64" "Message_Block_Index c1 = Suc ?i" "take (Suc ?i) (Message_Block c1) = ?r @ [0x80]"
      "Intermediate_Hash c1 = hash_list ?h" "unat (Length_High c1) * 2 ^ 32 + unat (Length_Low c1) = 8 * length m"
    using c i by (simp_all add: c1_def put_byte_def take_Suc_conv_app_nth)
  have pad: "sha_blocks (sha_pad m) sha_init = sha_blocks (?r @ [0x80] @ replicate ((119 - ?i) mod 64) 0 @ ?L) ?h"
    unfolding sha_pad_def by (rule sha_blocks_extend)
  show ?thesis
  proof (cases "55 < ?i")
    case False
    define B where "B = ?r @ [0x80] @ replicate (55 - ?i) 0"
    let ?M = "B @ ?L"
    have B: "length B = 56" using False unfolding B_def by (simp only: length_append length_parts length_replicate) simp
    then have len: "length ?M = 64" by simp
    have z: "pad_zero 56 c1 = c1\<lparr>Message_Block_Index := 56, Message_Block := B @ drop 56 (Message_Block c1)\<rparr>"
      using pad_zero_fills [of c1 56] c1 False by (simp add: B_def)
    define c2 where "c2 = store_length (pad_zero 56 c1)"
    have "c2 = c1\<lparr>Message_Block_Index := 56, Message_Block := ?M\<rparr>"
      unfolding c2_def z using store_length_block [of "c1\<lparr>Message_Block_Index := 56, Message_Block := B @ drop 56 (Message_Block c1)\<rparr>" "8 * length m"] c1(1,5) B
      by simp
    then have "Message_Block c2 = ?M" "Intermediate_Hash c2 = hash_list ?h" using c1(4) by simp_all
    then have "Intermediate_Hash (SHA1ProcessMessageBlock c2) = hash_list (compress ?h ?M)" using process_block [of c2 ?h] len by simp
    moreover have blk: "?r @ [0x80] @ replicate ((119 - ?i) mod 64) 0 @ ?L = ?M" unfolding pad_count(1) [OF leI [OF False]] by (simp add: B_def)
    have "sha_blocks (sha_pad m) sha_init = compress ?h ?M" unfolding pad blk using sha_blocks_one [OF len, of "[]"] by (simp add: sha_blocks_short)
    ultimately show ?thesis using False c(2) by (simp add: SHA1PadMessage_def c2_def c1_def)
  next
    case True
    define B where "B = ?r @ [0x80] @ replicate (63 - ?i) 0"
    let ?N = "replicate 56 0 @ ?L"
    have "pad_zero 64 c1 = c1\<lparr>Message_Block_Index := 64, Message_Block := B\<rparr>"
      using pad_zero_fills [of c1 64] c1 True i by (simp add: B_def)
    moreover have len: "length B = 64" using True i unfolding B_def by (simp only: length_append length_parts length_replicate) simp
    ultimately have p: "SHA1ProcessMessageBlock (pad_zero 64 c1) =
        c1\<lparr>Message_Block_Index := 0, Message_Block := B, Intermediate_Hash := hash_list (compress ?h B)\<rparr>" (is "_ = ?c2")
      using process_block [of "pad_zero 64 c1" ?h] c1(4) by simp
    have z: "pad_zero 56 ?c2 = ?c2\<lparr>Message_Block_Index := 56, Message_Block := replicate 56 0 @ drop 56 B\<rparr>"
      using pad_zero_fills [of ?c2 56] len by simp
    define c3 where "c3 = store_length (pad_zero 56 ?c2)"
    have "c3 = ?c2\<lparr>Message_Block_Index := 56, Message_Block := ?N\<rparr>" unfolding c3_def z
      using store_length_block [of "?c2\<lparr>Message_Block_Index := 56, Message_Block := replicate 56 0 @ drop 56 B\<rparr>" "8 * length m"] c1(5) len by simp
    then have "Message_Block c3 = ?N" "Intermediate_Hash c3 = hash_list (compress ?h B)" by simp_all
    then have "Intermediate_Hash (SHA1ProcessMessageBlock c3) = hash_list (compress (compress ?h B) ?N)" using process_block [of c3 "compress ?h B"] by simp
    moreover have blk: "?r @ [0x80] @ replicate ((119 - ?i) mod 64) 0 @ ?L = B @ ?N" unfolding pad_count(2) [OF True i] replicate_add by (simp add: B_def)
    have "sha_blocks (sha_pad m) sha_init = compress (compress ?h B) ?N"
      unfolding pad blk sha_blocks_one [OF len] using sha_blocks_one [of ?N "[]"] by (simp add: sha_blocks_short)
    ultimately show ?thesis using True c(2) by (simp add: SHA1PadMessage_def c3_def c1_def [symmetric] p)
  qed
qed

lemma result_absorbed:
  assumes "absorbed m c"
  shows "\<exists>c'. SHA1Result c = (Inr (SHA1 m), c') \<and> Computed c'"
proof -
  obtain a b x d e where h: "sha_blocks (sha_pad m) sha_init = (a, b, x, d, e)" by (cases "sha_blocks (sha_pad m) sha_init")
  have "Intermediate_Hash (SHA1PadMessage c) = hash_list (a, b, x, d, e)" using pad_absorbed [OF assms] unfolding h .
  moreover have "Corrupted c = shaSuccess" "\<not> Computed c" using assms by (simp_all add: absorbed_def)
  ultimately show ?thesis by (simp add: SHA1Result_def Let_def SHA1_def h digest_bytes del: upt.simps)
qed

text \<open>After the digest was taken the context refuses more input, and then the digest as well.\<close>

lemma input_after_result:
  assumes "SHA1Result c = (Inr d, c')" and "bs \<noteq> []"
  shows "SHA1Input bs c' = (shaStateError, c'\<lparr>Corrupted := shaStateError\<rparr>)" "fst (SHA1Result (snd (SHA1Input bs c'))) = Inl shaStateError"
proof -
  have "Computed c'" using assms(1) by (auto simp: SHA1Result_def Let_def split: if_splits)
  then show "SHA1Input bs c' = (shaStateError, c'\<lparr>Corrupted := shaStateError\<rparr>)" using assms(2) by (simp add: SHA1Input_def)
  then show "fst (SHA1Result (snd (SHA1Input bs c'))) = Inl shaStateError" by (simp add: SHA1Result_def)
qed

text \<open>The portions of a message one after the other; a status other than success ends it.\<close>

fun sha_inputs :: "u8 list list \<Rightarrow> SHA1Context \<Rightarrow> sha_status \<times> SHA1Context" where
  "sha_inputs [] c = (shaSuccess, c)"
| "sha_inputs (m # ms) c = (case SHA1Input m c of (shaSuccess, c') \<Rightarrow> sha_inputs ms c' | (err, c') \<Rightarrow> (err, c'))"

lemma sha_inputs_absorbed:
  "absorbed m c \<Longrightarrow> length (m @ concat ms) < 2 ^ 61 \<Longrightarrow> \<exists>c'. sha_inputs ms c = (shaSuccess, c') \<and> absorbed (m @ concat ms) c'"
proof (induction ms arbitrary: m c)
  case (Cons x ms)
  have "length (m @ x) < 2 ^ 61" using Cons.prems(2) by simp
  from SHA1Input_absorbed [OF Cons.prems(1) this] obtain c1 where c1: "SHA1Input x c = (shaSuccess, c1)" "absorbed (m @ x) c1" by blast
  from Cons.IH [OF c1(2)] Cons.prems(2) c1(1) show ?case by simp
qed simp

text \<open>
  C22. Whatever portions a message of less than \<open>2 ^ 61\<close> bytes is given in, and whatever the context held before it
  was reset, the digest is the one the standard defines for the whole message.
\<close>

theorem sha1_implements_standard:
  assumes "length (Message_Block c) = 64" and "length (concat ms) < 2 ^ 61"
  shows "\<exists>c1 c2. sha_inputs ms (SHA1Reset c) = (shaSuccess, c1) \<and> SHA1Result c1 = (Inr (SHA1 (concat ms)), c2)"
proof -
  from sha_inputs_absorbed [OF reset_absorbed [OF assms(1)], of ms] assms(2)
  obtain c1 where c1: "sha_inputs ms (SHA1Reset c) = (shaSuccess, c1)" "absorbed (concat ms) c1" by auto
  with result_absorbed [OF c1(2)] show ?thesis by blast
qed

definition fresh_context :: SHA1Context where
  "fresh_context = \<lparr>Intermediate_Hash = [], Length_Low = 7, Length_High = 7, Message_Block_Index = 7, Message_Block = replicate 64 7,
     Computed = True, Corrupted = shaStateError\<rparr>"

theorem sha1_implements_standard_witness:
  "\<exists>c1 c2 d1 d2. sha_inputs [[97], [], [98, 99]] (SHA1Reset fresh_context) = (shaSuccess, c1) \<and> SHA1Result c1 = (Inr (SHA1 [97, 98, 99]), c2) \<and>
     sha_inputs [replicate 200 7] (SHA1Reset fresh_context) = (shaSuccess, d1) \<and> SHA1Result d1 = (Inr (SHA1 (replicate 200 7)), d2)"
proof -
  have f: "length (Message_Block fresh_context) = 64" by (simp add: fresh_context_def)
  have "length (concat [[97], [], [98, 99 :: u8]]) < 2 ^ 61" "length (concat [replicate 200 (7 :: u8)]) < 2 ^ 61" by simp_all
  from sha1_implements_standard [OF f this(1)] sha1_implements_standard [OF f this(2)] show ?thesis by (simp del: sha_inputs.simps)
qed

end
