(* ===== verification/Checkpoint_Plugin.thy ===== *)
theory Checkpoint_Plugin
  imports Sha1
begin

unbundle bit_operations_syntax

text \<open>
  The checkpoint plugin (\<^verbatim>\<open>src/plugins/checkpoint/Checkpoint.cc\<close>): in tracing mode it writes a line with the
  instruction pointer, the time, a value and a hash of memory for every write to a symbol; in checking mode it
  compares an experiment with such a file. The file is modelled character by character, with the formatted
  output and input of C++ streams; numbers in the file have no sign and no base prefix.
\<close>

section \<open>Streams\<close>

definition digit_char :: "nat \<Rightarrow> char" where
  "digit_char d = char_of (if d < 10 then 48 + d else 87 + d)"

definition digit_val :: "char \<Rightarrow> nat" where
  "digit_val c =
     (let n = of_char c
      in if 48 \<le> n \<and> n < 58 then n - 48 else if 97 \<le> n \<and> n < 103 then n - 87 else if 65 \<le> n \<and> n < 71 then n - 55 else 16)"

definition is_space :: "char \<Rightarrow> bool" where
  "is_space c \<longleftrightarrow> (of_char c :: nat) \<in> {9, 10, 11, 12, 13, 32}"

text \<open>Output of a number in a base, and a number of digits filled with zeros (\<open>setw\<close>, \<open>fill\<close>).\<close>

function print_number :: "nat \<Rightarrow> nat \<Rightarrow> string" where
  "print_number b n = (if n < b \<or> b < 2 then [digit_char n] else print_number b (n div b) @ [digit_char (n mod b)])"
  by pat_completeness auto
termination
  by (relation "measure snd") auto

declare print_number.simps [simp del]

text \<open>An input stream: what is left and its state bits; \<open>sentry\<close> skips white space.\<close>

record istream =
  rest :: string
  eofbit :: bool
  failbit :: bool

definition sentry :: "istream \<Rightarrow> bool \<times> istream" where
  "sentry st =
     (if eofbit st \<or> failbit st then (False, st\<lparr>failbit := True\<rparr>)
      else let r = dropWhile is_space (rest st)
           in if r = [] then (False, st\<lparr>rest := [], eofbit := True, failbit := True\<rparr>) else (True, st\<lparr>rest := r\<rparr>))"

definition number_of :: "nat \<Rightarrow> string \<Rightarrow> nat" where
  "number_of b ds = foldl (\<lambda>n c. n * b + digit_val c) 0 ds"

text \<open>
  Reading a number into a variable with the largest value \<open>limit\<close>: a failed sentry leaves the variable as it is, a
  number too large sets it to the limit, and both make the stream fail.
\<close>

definition read_number :: "nat \<Rightarrow> nat \<Rightarrow> nat \<Rightarrow> istream \<Rightarrow> nat \<times> istream" where
  "read_number b limit old st =
     (case sentry st of
        (False, st1) \<Rightarrow> (old, st1)
      | (True, st1) \<Rightarrow>
          (let ds = takeWhile (\<lambda>c. digit_val c < b) (rest st1);
               r = dropWhile (\<lambda>c. digit_val c < b) (rest st1);
               st2 = st1\<lparr>rest := r, eofbit := (r = [])\<rparr>
           in if ds = [] then (0, st2\<lparr>failbit := True\<rparr>)
              else if limit < number_of b ds then (limit, st2\<lparr>failbit := True\<rparr>)
              else (number_of b ds, st2)))"

text \<open>Reading a word of at most \<open>n\<close> characters.\<close>

definition read_word :: "nat \<Rightarrow> string \<Rightarrow> istream \<Rightarrow> string \<times> istream" where
  "read_word n old st =
     (case sentry st of
        (False, st1) \<Rightarrow> (old, st1)
      | (True, st1) \<Rightarrow>
          (let w = take n (takeWhile (\<lambda>c. \<not> is_space c) (rest st1)); r = drop (length w) (rest st1)
           in (w, st1\<lparr>rest := r, eofbit := (length w < n \<and> r = [])\<rparr>)))"

section \<open>The plugin\<close>

type_synonym indirectable_address_t = "address_t \<times> bool"
type_synonym address_range = "indirectable_address_t \<times> indirectable_address_t"

datatype check_result = IDENTICAL | DIFFERENT_IP | DIFFERENT_VALUE | DIFFERENT_DIGEST | INVALID

record ElfSymbol =
  sym_address :: address_t
  sym_size :: nat

record Checkpoint =
  m_symbol :: ElfSymbol
  m_check_ranges :: "address_range list"
  m_checking :: bool
  m_ostream :: "string option"
  m_istream :: "istream option"
  m_count :: u32
  cached_stackpointer_variables :: "address_t \<Rightarrow> address_t option"

text \<open>
  What the memory manager of the simulator shows: with the paging of the target, and without it (on x86 the
  checksum is taken with paging disabled in \<open>CR0\<close>).
\<close>

record memory_view =
  isMapped :: "address_t \<Rightarrow> bool"
  getByte :: "address_t \<Rightarrow> u8"

record simulator =
  paged :: memory_view
  unpaged :: memory_view
  getTimerTicks :: simtime_t

text \<open>The number whose bytes are at an address, the least significant one first.\<close>

fun le_number :: "u8 list \<Rightarrow> nat" where
  "le_number [] = 0"
| "le_number (b # bs) = unat b + 256 * le_number bs"

definition getBytes :: "memory_view \<Rightarrow> address_t \<Rightarrow> nat \<Rightarrow> u8 list" where
  "getBytes mm a n = map (\<lambda>i. getByte mm (a + of_nat i)) [0..<n]"

definition mapped4 :: "memory_view \<Rightarrow> address_t \<Rightarrow> bool" where
  "mapped4 mm a \<longleftrightarrow> isMapped mm a \<and> isMapped mm (a + 1) \<and> isMapped mm (a + 2) \<and> isMapped mm (a + 3)"

definition resolve_address :: "Checkpoint \<Rightarrow> memory_view \<Rightarrow> indirectable_address_t \<Rightarrow> address_t" where
  "resolve_address cp mm addr =
     (if snd addr then
        let v = (case cached_stackpointer_variables cp (fst addr) of
                   Some v \<Rightarrow> v
                 | None \<Rightarrow> if mapped4 mm (fst addr) then of_nat (le_number (getBytes mm (fst addr) 4)) else 0)
        in v AND 0x7FFFFFFF
      else fst addr)"

fun in_ranges :: "Checkpoint \<Rightarrow> memory_view \<Rightarrow> address_range list \<Rightarrow> address_t \<Rightarrow> bool" where
  "in_ranges cp mm [] addr = False"
| "in_ranges cp mm (r # rs) addr =
     (let start = resolve_address cp mm (fst r); end_addr = resolve_address cp mm (snd r)
      in if start = 0 \<or> end_addr = 0 then in_ranges cp mm rs addr
         else if start \<le> addr \<and> addr < end_addr then True
         else in_ranges cp mm rs addr)"

definition in_range :: "Checkpoint \<Rightarrow> simulator \<Rightarrow> address_t \<Rightarrow> bool" where
  "in_range cp sim addr = in_ranges cp (paged sim) (m_check_ranges cp) addr"

text \<open>What is hashed of an address: its byte, or the low half of the address itself when it is not mapped.\<close>

definition hashed_bytes :: "memory_view \<Rightarrow> address_t \<Rightarrow> u8 list" where
  "hashed_bytes mm addr =
     (if isMapped mm addr then [getByte mm addr]
      else [ucast addr, ucast (drop_bit 8 addr), ucast (drop_bit 16 addr), ucast (drop_bit 24 addr)])"

function hash_range :: "memory_view \<Rightarrow> address_t \<Rightarrow> address_t \<Rightarrow> SHA1Context \<Rightarrow> SHA1Context option" where
  "hash_range mm addr end_addr sha =
     (if addr < end_addr then
        (case SHA1Input (hashed_bytes mm addr) sha of
           (err, sha') \<Rightarrow> if err = shaSuccess then hash_range mm (addr + 1) end_addr sha' else None)
      else Some sha)"
  by pat_completeness auto
termination
proof (relation "measure (\<lambda>(mm, addr, end_addr, sha). unat end_addr - unat addr)")
  fix addr end_addr :: address_t and mm sha x err sha'
  assume less: "addr < end_addr"
  then have "unat addr + 1 < 2 ^ 64" using unat_less_u64 [of end_addr] by (simp add: word_less_nat_alt)
  then have "unat (addr + 1) = unat addr + 1" by (simp add: unat_word_ariths)
  then show "((mm, addr + 1, end_addr, sha'), mm, addr, end_addr, sha) \<in> measure (\<lambda>(mm, addr, end_addr, sha). unat end_addr - unat addr)"
    using less by (simp add: word_less_nat_alt)
qed simp

declare hash_range.simps [simp del]

fun hash_ranges :: "Checkpoint \<Rightarrow> memory_view \<Rightarrow> address_range list \<Rightarrow> SHA1Context \<Rightarrow> SHA1Context option" where
  "hash_ranges cp mm [] sha = Some sha"
| "hash_ranges cp mm (r # rs) sha =
     (let start = resolve_address cp mm (fst r); end_addr = resolve_address cp mm (snd r)
      in if start = 0 \<or> end_addr = 0 then hash_ranges cp mm rs sha
         else case hash_range mm start end_addr sha of None \<Rightarrow> None | Some sha' \<Rightarrow> hash_ranges cp mm rs sha')"

text \<open>\<open>sha\<close> is the local context before it is reset; \<open>None\<close> is a failed assertion.\<close>

definition checksum :: "SHA1Context \<Rightarrow> Checkpoint \<Rightarrow> simulator \<Rightarrow> u8 list option" where
  "checksum sha cp sim =
     (case hash_ranges cp (unpaged sim) (m_check_ranges cp) (SHA1Reset sha) of
        None \<Rightarrow> None
      | Some sha' \<Rightarrow> (case fst (SHA1Result sha') of Inl err \<Rightarrow> None | Inr digest \<Rightarrow> Some digest))"

definition digest_string :: "u8 list \<Rightarrow> string" where
  "digest_string ds = concat (map (\<lambda>b. [digit_char (unat b div 16), digit_char (unat b mod 16)]) ds)"

text \<open>
  Local variables without an initial value hold what the stack had. \<open>value\<close> keeps the bytes that a symbol of less
  than four bytes does not overwrite; a larger one overwrites other variables, which is \<open>None\<close>.
\<close>

record stack =
  old_value :: "u8 list"
  old_sha :: SHA1Context
  old_golden_ip :: nat
  old_golden_value :: nat
  old_golden_digest :: string

definition written_value :: "stack \<Rightarrow> ElfSymbol \<Rightarrow> simulator \<Rightarrow> nat option" where
  "written_value stk symbol sim =
     (if mapped4 (paged sim) (sym_address symbol) then
        (if 4 < sym_size symbol then None
         else Some (le_number (getBytes (paged sim) (sym_address symbol) (sym_size symbol) @ drop (sym_size symbol) (old_value stk))))
      else Some 0xDEADBEEF)"

definition checkpoint ::
  "stack \<Rightarrow> ElfSymbol \<Rightarrow> simulator \<Rightarrow> Checkpoint \<Rightarrow> (nat \<times> simtime_t \<times> string \<times> Checkpoint) option" where
  "checkpoint stk symbol sim cp =
     (case (written_value stk symbol sim, checksum (old_sha stk) cp sim) of
        (Some v, Some digest) \<Rightarrow> Some (v, getTimerTicks sim, digest_string digest, cp\<lparr>m_count := m_count cp + 1\<rparr>)
      | _ \<Rightarrow> None)"

definition checkpoint_line :: "address_t \<Rightarrow> simtime_t \<Rightarrow> nat \<Rightarrow> string \<Rightarrow> string" where
  "checkpoint_line ip simtime v digest =
     print_number 16 (unat ip) @ [CHR 0x09] @ print_number 10 (unat simtime) @ [CHR 0x09] @ print_number 10 v @ [CHR 0x09] @ digest @ [CHR 0x0A]"

definition save_checkpoint :: "stack \<Rightarrow> address_t \<Rightarrow> simulator \<Rightarrow> Checkpoint \<Rightarrow> Checkpoint option" where
  "save_checkpoint stk ip sim cp =
     (case checkpoint stk (m_symbol cp) sim cp of
        None \<Rightarrow> None
      | Some (v, simtime, digest, cp') \<Rightarrow>
          Some (cp'\<lparr>m_ostream := map_option (\<lambda>out. out @ checkpoint_line ip simtime v digest) (m_ostream cp')\<rparr>))"

text \<open>The tracing flow: every write to the symbol, with the stack, the instruction pointer and the machine.\<close>

fun trace_writes :: "(stack \<times> address_t \<times> simulator) list \<Rightarrow> Checkpoint \<Rightarrow> Checkpoint option" where
  "trace_writes [] cp = Some cp"
| "trace_writes ((stk, ip, sim) # evs) cp =
     (case save_checkpoint stk ip sim cp of None \<Rightarrow> None | Some cp' \<Rightarrow> trace_writes evs cp')"

definition run_tracing :: "(stack \<times> address_t \<times> simulator) list \<Rightarrow> Checkpoint \<Rightarrow> Checkpoint option" where
  "run_tracing evs cp = (if m_checking cp then None else if m_ostream cp = None then Some cp else trace_writes evs cp)"

definition check ::
  "stack \<Rightarrow> ElfSymbol \<Rightarrow> address_t \<Rightarrow> simulator \<Rightarrow> Checkpoint \<Rightarrow> (check_result \<times> Checkpoint) option" where
  "check stk symbol ip sim cp =
     (if \<not> m_checking cp then None
      else case checkpoint stk symbol sim cp of
             None \<Rightarrow> None
           | Some (v, simtime, digest, cp') \<Rightarrow>
               (case m_istream cp' of
                  None \<Rightarrow> Some (INVALID, cp')
                | Some st \<Rightarrow>
                    if eofbit st then Some (INVALID, cp')
                    else let (golden_ip, st1) = read_number 16 (2 ^ 64 - 1) (old_golden_ip stk) st;
                             (golden_timestamp, st2) = read_number 10 (2 ^ 32 - 1) 0 st1;
                             (golden_value, st3) = read_number 10 (2 ^ 32 - 1) (old_golden_value stk) st2;
                             (golden_digest, st4) = read_word 40 (old_golden_digest stk) st3
                         in Some (if v \<noteq> golden_value then DIFFERENT_VALUE
                                  else if unat ip \<noteq> golden_ip then DIFFERENT_IP
                                  else if digest \<noteq> golden_digest then DIFFERENT_DIGEST
                                  else IDENTICAL,
                                  cp'\<lparr>m_istream := Some st4\<rparr>)))"

section \<open>Numbers survive the file\<close>

lemma unat_less_u8: "unat (b :: u8) < 256"
  using unsigned_less [of b] by simp

lemma digit_val_char: "d < 16 \<Longrightarrow> digit_val (digit_char d) = d"
  by (simp add: digit_val_def digit_char_def Let_def)

lemma space_no_digit: "is_space c \<Longrightarrow> digit_val c = 16"
  by (auto simp: is_space_def digit_val_def Let_def)

lemma print_number_digits:
  assumes "2 \<le> b" "b \<le> 16"
  shows "(\<forall>c \<in> set (print_number b n). digit_val c < b) \<and> print_number b n \<noteq> []"
proof (induction n rule: less_induct)
  case (less n)
  show ?case
  proof (cases "n < b")
    case True
    then show ?thesis using assms by (subst (1 2) print_number.simps) (simp add: digit_val_char)
  next
    case False
    then have "n div b < n" using assms by (intro div_less_dividend) simp_all
    moreover have "n mod b < b" using assms by simp
    moreover then have "digit_val (digit_char (n mod b)) = n mod b" using assms(2) by (intro digit_val_char) simp
    ultimately show ?thesis using less.IH [of "n div b"] assms False
      by (subst (1 2) print_number.simps) auto
  qed
qed

lemma number_of_print:
  assumes "2 \<le> b" "b \<le> 16"
  shows "number_of b (print_number b n) = n"
proof (induction n rule: less_induct)
  case (less n)
  show ?case
  proof (cases "n < b")
    case True
    then show ?thesis using assms by (subst print_number.simps) (simp add: digit_val_char number_of_def)
  next
    case False
    then have "n div b < n" using assms by (intro div_less_dividend) simp_all
    moreover have "n mod b < 16" using assms mod_less_divisor [of b n] by linarith
    ultimately show ?thesis using less.IH [of "n div b"] assms False
      by (subst print_number.simps) (simp add: digit_val_char number_of_def)
  qed
qed

text \<open>A stream without errors, and reading what was printed; the rest begins with white space.\<close>

definition good :: "string \<Rightarrow> istream" where
  "good s = \<lparr>rest = s, eofbit = False, failbit = False\<rparr>"

lemma sentry_good: "\<forall>c \<in> set w. is_space c \<Longrightarrow> \<not> is_space d \<Longrightarrow> sentry (good (w @ d # s)) = (True, good (d # s))"
  by (simp add: sentry_def good_def)

lemma read_printed:
  assumes "2 \<le> b" "b \<le> 16" and "\<forall>c \<in> set w. is_space c" and "is_space d"
  shows "read_number b limit old (good (w @ print_number b n @ d # s)) =
    (if n \<le> limit then (n, good (d # s)) else (limit, (good (d # s))\<lparr>failbit := True\<rparr>))"
proof -
  let ?p = "\<lambda>c. digit_val c < b"
  have p: "\<forall>c \<in> set (print_number b n). ?p c" "print_number b n \<noteq> []" using print_number_digits [OF assms(1,2), of n] by simp_all
  obtain x xs where x: "print_number b n = x # xs" using p(2) by (cases "print_number b n") simp_all
  have "\<not> is_space x" using p(1) assms(2) space_no_digit [of x] unfolding x by auto
  from sentry_good [OF assms(3) this] have s: "sentry (good (w @ print_number b n @ d # s)) = (True, good (print_number b n @ d # s))"
    unfolding x by simp
  have d: "\<not> ?p d" using space_no_digit [OF assms(4)] assms(2) by simp
  have "takeWhile ?p (print_number b n @ d # s) = print_number b n" "dropWhile ?p (print_number b n @ d # s) = d # s"
    using p(1) d by (simp_all add: takeWhile_append2 dropWhile_append2)
  then show ?thesis unfolding read_number_def s using p(2) number_of_print [OF assms(1,2), of n] by (simp add: good_def Let_def)
qed

lemma read_printed_word:
  assumes "\<forall>c \<in> set w. is_space c" and "\<forall>c \<in> set t. \<not> is_space c" and "length t = 40" and "is_space d"
  shows "read_word 40 old (good (w @ t @ d # s)) = (t, good (d # s))"
proof -
  obtain x xs where x: "t = x # xs" using assms(3) by (cases t) simp_all
  have "\<not> is_space x" using assms(2) x by simp
  from sentry_good [OF assms(1) this] have s: "sentry (good (w @ t @ d # s)) = (True, good (t @ d # s))" unfolding x by simp
  have "takeWhile (\<lambda>c. \<not> is_space c) (t @ d # s) = t" using assms(2,4) by (simp add: takeWhile_append2)
  then show ?thesis unfolding read_word_def s using assms(3) by (simp add: good_def)
qed

lemma failed_reads:
  assumes "failbit st" and "\<not> eofbit st"
  shows "read_number b limit old st = (old, st)" "read_word n old_word st = (old_word, st)"
  using assms by (simp_all add: read_number_def read_word_def sentry_def)

section \<open>The hash of memory\<close>

function range_bytes :: "memory_view \<Rightarrow> address_t \<Rightarrow> address_t \<Rightarrow> u8 list" where
  "range_bytes mm addr end_addr = (if addr < end_addr then hashed_bytes mm addr @ range_bytes mm (addr + 1) end_addr else [])"
  by pat_completeness auto
termination
proof (relation "measure (\<lambda>(mm, addr, end_addr). unat end_addr - unat addr)")
  fix addr end_addr :: address_t and mm :: memory_view
  assume less: "addr < end_addr"
  then have "unat addr + 1 < 2 ^ 64" using unat_less_u64 [of end_addr] by (simp add: word_less_nat_alt)
  then have "unat (addr + 1) = unat addr + 1" by (simp add: unat_word_ariths)
  then show "((mm, addr + 1, end_addr), mm, addr, end_addr) \<in> measure (\<lambda>(mm, addr, end_addr). unat end_addr - unat addr)"
    using less by (simp add: word_less_nat_alt)
qed simp

declare range_bytes.simps [simp del]

definition region_bytes :: "Checkpoint \<Rightarrow> simulator \<Rightarrow> u8 list" where
  "region_bytes cp sim = concat (map (\<lambda>(a, b).
     let start = resolve_address cp (unpaged sim) a; end_addr = resolve_address cp (unpaged sim) b
     in if start = 0 \<or> end_addr = 0 then [] else range_bytes (unpaged sim) start end_addr) (m_check_ranges cp))"

lemma hash_range_absorbed:
  "absorbed m sha \<Longrightarrow> length (m @ range_bytes mm addr end_addr) < 2 ^ 61 \<Longrightarrow>
    \<exists>sha'. hash_range mm addr end_addr sha = Some sha' \<and> absorbed (m @ range_bytes mm addr end_addr) sha'"
proof (induction mm addr end_addr arbitrary: m sha rule: range_bytes.induct)
  case (1 mm addr end_addr)
  show ?case
  proof (cases "addr < end_addr")
    case True
    have r: "range_bytes mm addr end_addr = hashed_bytes mm addr @ range_bytes mm (addr + 1) end_addr"
      using True by (subst range_bytes.simps) simp
    have "length (m @ hashed_bytes mm addr) < 2 ^ 61" using 1(3) unfolding r by simp
    from SHA1Input_absorbed [OF 1(2) this] obtain sha1 where i: "SHA1Input (hashed_bytes mm addr) sha = (shaSuccess, sha1)"
      "absorbed (m @ hashed_bytes mm addr) sha1" by blast
    have "hash_range mm addr end_addr sha = hash_range mm (addr + 1) end_addr sha1" using True i(1) by (subst hash_range.simps) simp
    moreover have "length ((m @ hashed_bytes mm addr) @ range_bytes mm (addr + 1) end_addr) < 2 ^ 61" using 1(3) unfolding r by simp
    from 1(1) [OF True i(2) this] obtain sha' where "hash_range mm (addr + 1) end_addr sha1 = Some sha'"
      "absorbed (m @ range_bytes mm addr end_addr) sha'" unfolding r by auto
    ultimately show ?thesis by simp
  next
    case False
    then have "range_bytes mm addr end_addr = []" "hash_range mm addr end_addr sha = Some sha" by (subst range_bytes.simps hash_range.simps; simp)+
    with 1(2) show ?thesis by simp
  qed
qed

lemma checksum_is_sha1:
  assumes "length (Message_Block sha) = 64" and "length (region_bytes cp sim) < 2 ^ 61"
  shows "checksum sha cp sim = Some (SHA1 (region_bytes cp sim))"
proof -
  let ?mm = "unpaged sim"
  let ?g = "\<lambda>(a, b). let start = resolve_address cp ?mm a; end_addr = resolve_address cp ?mm b
     in if start = 0 \<or> end_addr = 0 then [] else range_bytes ?mm start end_addr"
  have ranges: "\<exists>sha'. hash_ranges cp ?mm rs s = Some sha' \<and> absorbed (m @ concat (map ?g rs)) sha'"
    if "absorbed m s" "length (m @ concat (map ?g rs)) < 2 ^ 61" for rs m s
    using that
  proof (induction rs arbitrary: m s)
    case (Cons r rs)
    obtain a b where r: "r = (a, b)" by (cases r)
    show ?case
    proof (cases "resolve_address cp ?mm a = 0 \<or> resolve_address cp ?mm b = 0")
      case True
      then show ?thesis using Cons by (simp add: r Let_def)
    next
      case False
      then have g: "?g r = range_bytes ?mm (resolve_address cp ?mm a) (resolve_address cp ?mm b)" by (simp add: r Let_def)
      have "length (m @ ?g r) < 2 ^ 61" using Cons.prems(2) by simp
      from hash_range_absorbed [OF Cons.prems(1) this [unfolded g]]
      obtain s1 where s1: "hash_range ?mm (resolve_address cp ?mm a) (resolve_address cp ?mm b) s = Some s1" "absorbed (m @ ?g r) s1"
        unfolding g by blast
      have "length ((m @ ?g r) @ concat (map ?g rs)) < 2 ^ 61" using Cons.prems(2) by simp
      from Cons.IH [OF s1(2) this] s1(1) False show ?thesis by (simp add: r Let_def)
    qed
  qed simp
  have "length ([] @ concat (map ?g (m_check_ranges cp))) < 2 ^ 61" using assms(2) by (simp add: region_bytes_def)
  from ranges [OF reset_absorbed [OF assms(1)] this]
  obtain sha' where "hash_ranges cp ?mm (m_check_ranges cp) (SHA1Reset sha) = Some sha'" "absorbed (region_bytes cp sim) sha'"
    by (auto simp: region_bytes_def)
  with result_absorbed [of "region_bytes cp sim" sha'] show ?thesis by (auto simp: checksum_def)
qed

text \<open>An address is in range when it lies in one of the regions whose borders are valid.\<close>

lemma in_range_iff:
  "in_range cp sim addr \<longleftrightarrow> (\<exists>r \<in> set (m_check_ranges cp). let start = resolve_address cp (paged sim) (fst r); end_addr = resolve_address cp (paged sim) (snd r)
     in start \<noteq> 0 \<and> end_addr \<noteq> 0 \<and> start \<le> addr \<and> addr < end_addr)"
proof -
  have "in_ranges cp mm rs addr \<longleftrightarrow> (\<exists>r \<in> set rs. let start = resolve_address cp mm (fst r); end_addr = resolve_address cp mm (snd r)
      in start \<noteq> 0 \<and> end_addr \<noteq> 0 \<and> start \<le> addr \<and> addr < end_addr)" for mm rs
    by (induction rs) (auto simp: Let_def)
  then show ?thesis by (simp add: in_range_def)
qed

section \<open>Checking against a golden run\<close>

lemma digest_string_inj: "digest_string xs = digest_string ys \<longleftrightarrow> xs = ys"
proof (induction xs arbitrary: ys)
  case Nil
  show ?case by (cases ys) (simp_all add: digest_string_def)
next
  case (Cons x xs)
  show ?case
  proof (cases ys)
    case (Cons y ys')
    have d: "digit_val (digit_char (unat b div 16)) = unat b div 16" "digit_val (digit_char (unat b mod 16)) = unat b mod 16" for b :: u8
      using unat_less_u8 [of b] by (simp_all add: digit_val_char)
    have "unat x div 16 = unat y div 16 \<and> unat x mod 16 = unat y mod 16 \<longleftrightarrow> x = y"
      by (metis div_mult_mod_eq word_unat_eq_iff)
    then have "digit_char (unat x div 16) = digit_char (unat y div 16) \<and> digit_char (unat x mod 16) = digit_char (unat y mod 16) \<longleftrightarrow> x = y"
      using d by metis
    then show ?thesis using Cons.IH [of ys'] unfolding Cons by (auto simp: digest_string_def)
  qed (simp add: digest_string_def)
qed

lemma digest_string_word: "\<forall>c \<in> set (digest_string ds). \<not> is_space c" "length (digest_string ds) = 2 * length ds"
proof -
  have "\<not> is_space (digit_char (unat b div 16))" "\<not> is_space (digit_char (unat b mod 16))" for b :: u8
    using unat_less_u8 [of b] space_no_digit [of "digit_char (unat b div 16)"] space_no_digit [of "digit_char (unat b mod 16)"]
    by (auto simp: digit_val_char)
  then show "\<forall>c \<in> set (digest_string ds). \<not> is_space c" by (auto simp: digest_string_def)
  show "length (digest_string ds) = 2 * length ds" by (induction ds) (simp_all add: digest_string_def)
qed

lemma length_SHA1: "length (SHA1 m) = 20"
  by (simp add: SHA1_def split: prod.split)

text \<open>What a checkpoint stands for: the value of the symbol and the digest of the memory regions.\<close>

definition symbol_value :: "ElfSymbol \<Rightarrow> simulator \<Rightarrow> nat" where
  "symbol_value symbol sim = (if mapped4 (paged sim) (sym_address symbol) then le_number (getBytes (paged sim) (sym_address symbol) 4) else 0xDEADBEEF)"

definition verdict :: "Checkpoint \<Rightarrow> ElfSymbol \<Rightarrow> address_t \<times> simulator \<Rightarrow> address_t \<times> simulator \<Rightarrow> check_result" where
  "verdict cp symbol = (\<lambda>(golden_ip, golden) (ip, sim).
     if symbol_value symbol sim \<noteq> symbol_value symbol golden then DIFFERENT_VALUE
     else if ip \<noteq> golden_ip then DIFFERENT_IP
     else if SHA1 (region_bytes cp sim) \<noteq> SHA1 (region_bytes cp golden) then DIFFERENT_DIGEST
     else IDENTICAL)"

definition event_ok :: "Checkpoint \<Rightarrow> stack \<times> address_t \<times> simulator \<Rightarrow> bool" where
  "event_ok cp = (\<lambda>(stk, ip, sim). length (old_value stk) = 4 \<and> length (Message_Block (old_sha stk)) = 64 \<and> length (region_bytes cp sim) < 2 ^ 61)"

fun check_writes :: "ElfSymbol \<Rightarrow> (stack \<times> address_t \<times> simulator) list \<Rightarrow> Checkpoint \<Rightarrow> (check_result list \<times> Checkpoint) option" where
  "check_writes symbol [] cp = Some ([], cp)"
| "check_writes symbol ((stk, ip, sim) # evs) cp =
     (case check stk symbol ip sim cp of
        None \<Rightarrow> None
      | Some (r, cp') \<Rightarrow> map_option (\<lambda>(rs, cp''). (r # rs, cp'')) (check_writes symbol evs cp'))"

lemma le_number_less: "le_number bs < 256 ^ length bs"
proof (induction bs)
  case (Cons b bs)
  have "unat b < 256" using unat_less_u8 [of b] by simp
  with Cons show ?case by simp
qed simp

lemma symbol_value_less: "symbol_value symbol sim < 2 ^ 32"
  using le_number_less [of "getBytes (paged sim) (sym_address symbol) 4"] by (simp add: symbol_value_def getBytes_def)

lemma checkpoint_ok:
  assumes "event_ok cp (stk, ip, sim)" and "sym_size symbol = 4"
  shows "checkpoint stk symbol sim cp =
    Some (symbol_value symbol sim, getTimerTicks sim, digest_string (SHA1 (region_bytes cp sim)), cp\<lparr>m_count := m_count cp + 1\<rparr>)"
  using assms checksum_is_sha1 [of "old_sha stk" cp sim] by (simp add: checkpoint_def event_ok_def written_value_def symbol_value_def)

abbreviation golden_line :: "Checkpoint \<Rightarrow> ElfSymbol \<Rightarrow> stack \<times> address_t \<times> simulator \<Rightarrow> string" where
  "golden_line cp symbol \<equiv> \<lambda>(stk, ip, sim).
     checkpoint_line ip (getTimerTicks sim) (symbol_value symbol sim) (digest_string (SHA1 (region_bytes cp sim)))"

text \<open>Only the ranges and the cached pointers matter for the regions.\<close>

lemma region_bytes_cong:
  assumes "m_check_ranges cp = m_check_ranges cp'" and "cached_stackpointer_variables cp = cached_stackpointer_variables cp'"
  shows "region_bytes cp = region_bytes cp'"
proof -
  have "resolve_address cp = resolve_address cp'" using assms(2) by (simp add: fun_eq_iff resolve_address_def)
  then show ?thesis unfolding region_bytes_def assms(1) by simp
qed

lemma trace_writes_file:
  "\<forall>ev \<in> set evs. event_ok cp ev \<Longrightarrow> sym_size (m_symbol cp) = 4 \<Longrightarrow> m_ostream cp = Some out \<Longrightarrow>
    \<exists>cp'. trace_writes evs cp = Some cp' \<and> m_ostream cp' = Some (out @ concat (map (golden_line cp (m_symbol cp)) evs))"
proof (induction evs arbitrary: cp out)
  case (Cons ev evs)
  obtain stk ip sim where ev: "ev = (stk, ip, sim)" by (cases ev)
  let ?cp = "cp\<lparr>m_count := m_count cp + 1, m_ostream := Some (out @ golden_line cp (m_symbol cp) ev)\<rparr>"
  have s: "save_checkpoint stk ip sim cp = Some ?cp"
    using checkpoint_ok [of cp stk ip sim "m_symbol cp"] Cons.prems by (simp add: ev save_checkpoint_def)
  have r: "region_bytes ?cp = region_bytes cp" by (rule region_bytes_cong) simp_all
  have "event_ok ?cp = event_ok cp" by (simp add: fun_eq_iff event_ok_def r)
  then have "\<exists>cp'. trace_writes evs ?cp = Some cp' \<and> m_ostream cp' = Some ((out @ golden_line cp (m_symbol cp) ev) @ concat (map (golden_line ?cp (m_symbol ?cp)) evs))"
    using Cons.prems by (intro Cons.IH) simp_all
  then show ?case unfolding r by (simp add: ev s)
qed simp

text \<open>A check of an event against the line of a golden one.\<close>

lemma space_chars: "is_space (CHR 0x09)" "is_space (CHR 0x0A)"
  by (simp_all add: is_space_def)

lemma check_line:
  assumes "event_ok cp (stk, ip, sim)" "sym_size symbol = 4" and "m_checking cp" and "\<forall>c \<in> set w. is_space c"
    and "m_istream cp = Some (good (w @ golden_line cp symbol (gstk, gip, golden) @ s))" and "unat (getTimerTicks golden) < 2 ^ 32"
  shows "check stk symbol ip sim cp =
    Some (verdict cp symbol (gip, golden) (ip, sim), cp\<lparr>m_count := m_count cp + 1, m_istream := Some (good (CHR 0x0A # s))\<rparr>)"
proof -
  let ?v = "symbol_value symbol golden" and ?d = "digest_string (SHA1 (region_bytes cp golden))"
  have gip: "unat gip \<le> 2 ^ 64 - 1" using unat_less_u64 [of gip] by simp
  have r1: "read_number 16 (2 ^ 64 - 1) (old_golden_ip stk) (good (w @ golden_line cp symbol (gstk, gip, golden) @ s)) =
      (unat gip, good (CHR 0x09 # print_number 10 (unat (getTimerTicks golden)) @ CHR 0x09 # print_number 10 ?v @ CHR 0x09 # ?d @ CHR 0x0A # s))"
    using read_printed [of 16 w "CHR 0x09" "2 ^ 64 - 1" "old_golden_ip stk" "unat gip"] assms(4) space_chars gip by (simp add: checkpoint_line_def)
  have r2: "read_number 10 (2 ^ 32 - 1) 0 (good (CHR 0x09 # print_number 10 (unat (getTimerTicks golden)) @ CHR 0x09 # print_number 10 ?v @ CHR 0x09 # ?d @ CHR 0x0A # s)) =
      (unat (getTimerTicks golden), good (CHR 0x09 # print_number 10 ?v @ CHR 0x09 # ?d @ CHR 0x0A # s))"
    using read_printed [of 10 "[CHR 0x09]" "CHR 0x09" "2 ^ 32 - 1" 0 "unat (getTimerTicks golden)"] assms(6) space_chars by simp
  have r3: "read_number 10 (2 ^ 32 - 1) (old_golden_value stk) (good (CHR 0x09 # print_number 10 ?v @ CHR 0x09 # ?d @ CHR 0x0A # s)) =
      (?v, good (CHR 0x09 # ?d @ CHR 0x0A # s))"
    using read_printed [of 10 "[CHR 0x09]" "CHR 0x09" "2 ^ 32 - 1" "old_golden_value stk" ?v] symbol_value_less [of symbol golden] space_chars by simp
  have r4: "read_word 40 (old_golden_digest stk) (good (CHR 0x09 # ?d @ CHR 0x0A # s)) = (?d, good (CHR 0x0A # s))"
    using read_printed_word [of "[CHR 0x09]" ?d "CHR 0x0A"] digest_string_word [of "SHA1 (region_bytes cp golden)"] space_chars by (simp add: length_SHA1)
  have e: "\<not> eofbit (good x)" for x by (simp add: good_def)
  have ips: "unat ip = unat gip \<longleftrightarrow> ip = gip" by (simp add: word_unat_eq_iff)
  show ?thesis unfolding check_def checkpoint_ok [OF assms(1,2)]
    using assms(3,5) e by (simp add: r1 [simplified] r2 [simplified] r3 [simplified] r4 verdict_def digest_string_inj ips)
qed

lemma check_writes_verdicts:
  "\<forall>ev \<in> set tests. event_ok cp ev \<Longrightarrow> sym_size symbol = 4 \<Longrightarrow> m_checking cp \<Longrightarrow> \<forall>c \<in> set w. is_space c \<Longrightarrow>
    \<forall>(stk, ip, sim) \<in> set evs. unat (getTimerTicks sim) < 2 ^ 32 \<Longrightarrow> length tests \<le> length evs \<Longrightarrow>
    m_istream cp = Some (good (w @ concat (map (golden_line cp symbol) evs))) \<Longrightarrow>
    \<exists>cp'. check_writes symbol tests cp = Some (map2 (\<lambda>ev test. verdict cp symbol (snd ev) (snd test)) evs tests, cp')"
proof (induction tests arbitrary: evs cp w)
  case (Cons test tests)
  obtain stk ip sim where test: "test = (stk, ip, sim)" by (cases test)
  obtain ev evs' where evs: "evs = ev # evs'" using Cons.prems(6) by (cases evs) auto
  obtain gstk gip golden where ev: "ev = (gstk, gip, golden)" by (cases ev)
  let ?s = "concat (map (golden_line cp symbol) evs')"
  let ?cp = "cp\<lparr>m_count := m_count cp + 1, m_istream := Some (good (CHR 0x0A # ?s))\<rparr>"
  have "m_istream cp = Some (good (w @ golden_line cp symbol (gstk, gip, golden) @ ?s))" using Cons.prems(7) by (simp add: evs ev)
  moreover have "event_ok cp (stk, ip, sim)" "unat (getTimerTicks golden) < 2 ^ 32" using Cons.prems(1,5) by (auto simp: test evs ev)
  ultimately have c: "check stk symbol ip sim cp = Some (verdict cp symbol (gip, golden) (ip, sim), ?cp)"
    using check_line [OF _ Cons.prems(2,3,4)] by blast
  have r: "region_bytes ?cp = region_bytes cp" by (rule region_bytes_cong) simp_all
  then have same: "event_ok ?cp = event_ok cp" "verdict ?cp = verdict cp" by (simp_all add: fun_eq_iff event_ok_def verdict_def)
  have "\<exists>cp'. check_writes symbol tests ?cp = Some (map2 (\<lambda>ev test. verdict ?cp symbol (snd ev) (snd test)) evs' tests, cp')"
    using Cons.prems space_chars by (intro Cons.IH [where w = "[CHR 0x0A]"]) (auto simp: evs same r)
  then show ?case unfolding same by (auto simp: test evs ev c)
qed simp

text \<open>A plugin in tracing mode with an empty output file, and one in checking mode that reads a file.\<close>

definition Checkpoint_tracing :: "ElfSymbol \<Rightarrow> address_range list \<Rightarrow> Checkpoint" where
  "Checkpoint_tracing symbol ranges = \<lparr>m_symbol = symbol, m_check_ranges = ranges, m_checking = False, m_ostream = Some [], m_istream = None,
     m_count = 0, cached_stackpointer_variables = (\<lambda>a. None)\<rparr>"

definition Checkpoint_checking :: "address_range list \<Rightarrow> string \<Rightarrow> Checkpoint" where
  "Checkpoint_checking ranges file = \<lparr>m_symbol = \<lparr>sym_address = 0, sym_size = 0\<rparr>, m_check_ranges = ranges, m_checking = True, m_ostream = None,
     m_istream = Some (good file), m_count = 0, cached_stackpointer_variables = (\<lambda>a. None)\<rparr>"

lemma traced_file:
  assumes "\<forall>ev \<in> set evs. event_ok (Checkpoint_tracing symbol ranges) ev" and "sym_size symbol = 4"
  shows "\<exists>cp. run_tracing evs (Checkpoint_tracing symbol ranges) = Some cp \<and> m_ostream cp = Some (concat (map (golden_line (Checkpoint_tracing symbol ranges) symbol) evs))"
  using trace_writes_file [OF assms(1), of "[]"] assms(2) by (simp add: run_tracing_def Checkpoint_tracing_def)

lemma same_regions: "region_bytes (Checkpoint_checking ranges file) = region_bytes (Checkpoint_tracing symbol ranges)"
  by (rule region_bytes_cong) (simp_all add: Checkpoint_tracing_def Checkpoint_checking_def)

text \<open>
  C23. The checkpoints of an experiment are compared with those of the golden run one by one and in order: a run
  is traced into a file, and when an experiment (whatever its stack holds) is checked against that file, each of its
  checkpoints is judged by the value of the symbol, the instruction pointer and the SHA-1 digest of the memory
  regions at the golden checkpoint of the same number. The golden run must end before tick \<open>2 ^ 32\<close>.
\<close>

theorem checks_compare_with_golden_run:
  assumes "sym_size symbol = 4" and "\<forall>ev \<in> set evs \<union> set tests. event_ok (Checkpoint_tracing symbol ranges) ev"
    and "\<forall>(stk, ip, sim) \<in> set evs. unat (getTimerTicks sim) < 2 ^ 32" and "length tests \<le> length evs"
  shows "\<exists>cp file cp'. run_tracing evs (Checkpoint_tracing symbol ranges) = Some cp \<and> m_ostream cp = Some file \<and>
    check_writes symbol tests (Checkpoint_checking ranges file) =
      Some (map2 (\<lambda>golden test. verdict (Checkpoint_tracing symbol ranges) symbol (snd golden) (snd test)) evs tests, cp')"
proof -
  let ?t = "Checkpoint_tracing symbol ranges" and ?file = "concat (map (golden_line (Checkpoint_tracing symbol ranges) symbol) evs)"
  let ?c = "Checkpoint_checking ranges ?file"
  obtain cp where cp: "run_tracing evs ?t = Some cp" "m_ostream cp = Some ?file" using traced_file [of evs symbol ranges] assms(1,2) by auto
  note r = same_regions [of ranges ?file symbol]
  have ok: "\<forall>ev \<in> set tests. event_ok ?c ev" using assms(2) by (auto simp: event_ok_def r)
  have v: "verdict ?c = verdict ?t" by (simp add: fun_eq_iff verdict_def r)
  have "m_checking ?c" "m_istream ?c = Some (good ([] @ concat (map (golden_line ?c symbol) evs)))" by (unfold r) (simp_all add: Checkpoint_checking_def)
  from check_writes_verdicts [OF ok assms(1) this(1) _ assms(3,4) this(2)]
  obtain cp' where "check_writes symbol tests ?c = Some (map2 (\<lambda>golden test. verdict ?t symbol (snd golden) (snd test)) evs tests, cp')" unfolding v by auto
  with cp show ?thesis by blast
qed

text \<open>A word of memory at address 8 and a region of two bytes at 16.\<close>

definition demo_view :: "u8 \<Rightarrow> memory_view" where
  "demo_view b = \<lparr>isMapped = (\<lambda>a. True), getByte = (\<lambda>a. if a = 8 then b else 0)\<rparr>"

definition demo_sim :: "u8 \<Rightarrow> simtime_t \<Rightarrow> simulator" where
  "demo_sim b t = \<lparr>paged = demo_view b, unpaged = demo_view b, getTimerTicks = t\<rparr>"

definition demo_stack :: stack where
  "demo_stack = \<lparr>old_value = [1, 2, 3, 4], old_sha = fresh_context, old_golden_ip = 9, old_golden_value = 99, old_golden_digest = ''x''\<rparr>"

definition demo_symbol :: ElfSymbol where
  "demo_symbol = \<lparr>sym_address = 8, sym_size = 4\<rparr>"

abbreviation demo_ranges :: "address_range list" where
  "demo_ranges \<equiv> [((16, False), (18, False))]"

lemma demo_region: "region_bytes (Checkpoint_tracing symbol demo_ranges) (demo_sim b t) = [0, 0]"
proof -
  have "range_bytes (demo_view b) 18 18 = []" by (subst range_bytes.simps) simp
  then have "range_bytes (demo_view b) 17 18 = [0]" by (subst range_bytes.simps) (simp add: hashed_bytes_def demo_view_def)
  then have "range_bytes (demo_view b) 16 18 = [0, 0]" by (subst range_bytes.simps) (simp add: hashed_bytes_def demo_view_def)
  then show ?thesis by (simp add: region_bytes_def Checkpoint_tracing_def demo_sim_def resolve_address_def)
qed

lemma demo_event: "event_ok (Checkpoint_tracing symbol demo_ranges) (demo_stack, ip, demo_sim b t)"
  by (simp add: event_ok_def demo_region demo_stack_def fresh_context_def)

lemma demo_value: "symbol_value demo_symbol (demo_sim b t) = unat b"
  by (simp add: symbol_value_def demo_symbol_def demo_sim_def demo_view_def mapped4_def getBytes_def upt_4)

theorem checks_compare_with_golden_run_witness:
  "\<exists>cp file cp'. run_tracing [(demo_stack, 5, demo_sim 7 30), (demo_stack, 6, demo_sim 8 40)] (Checkpoint_tracing demo_symbol demo_ranges) = Some cp \<and>
     m_ostream cp = Some file \<and>
     check_writes demo_symbol [(demo_stack, 5, demo_sim 7 31), (demo_stack, 6, demo_sim 9 41)] (Checkpoint_checking demo_ranges file) =
       Some ([IDENTICAL, DIFFERENT_VALUE], cp')"
proof -
  let ?evs = "[(demo_stack, 5, demo_sim 7 30), (demo_stack, 6, demo_sim 8 40)]" and ?tests = "[(demo_stack, 5, demo_sim 7 31), (demo_stack, 6, demo_sim 9 41)]"
  have h: "sym_size demo_symbol = 4" "\<forall>ev \<in> set ?evs \<union> set ?tests. event_ok (Checkpoint_tracing demo_symbol demo_ranges) ev"
      "\<forall>(stk, ip, sim) \<in> set ?evs. unat (getTimerTicks sim) < 2 ^ 32" "length ?tests \<le> length ?evs"
    using demo_event by (simp_all add: demo_symbol_def demo_sim_def)
  have "map2 (\<lambda>golden test. verdict (Checkpoint_tracing demo_symbol demo_ranges) demo_symbol (snd golden) (snd test)) ?evs ?tests = [IDENTICAL, DIFFERENT_VALUE]"
    by (simp add: verdict_def demo_value demo_region)
  with checks_compare_with_golden_run [OF h] show ?thesis by metis
qed

section \<open>Golden runs that are too long\<close>

text \<open>
  The result of a check that could not read the golden value and digest: the variables still hold what the
  stack had. The first such check has read the instruction pointer.
\<close>

definition stale_verdict :: "Checkpoint \<Rightarrow> ElfSymbol \<Rightarrow> nat \<Rightarrow> stack \<times> address_t \<times> simulator \<Rightarrow> check_result" where
  "stale_verdict cp symbol golden_ip = (\<lambda>(stk, ip, sim).
     if symbol_value symbol sim \<noteq> old_golden_value stk then DIFFERENT_VALUE
     else if unat ip \<noteq> golden_ip then DIFFERENT_IP
     else if digest_string (SHA1 (region_bytes cp sim)) \<noteq> old_golden_digest stk then DIFFERENT_DIGEST
     else IDENTICAL)"

fun stale_verdicts :: "Checkpoint \<Rightarrow> ElfSymbol \<Rightarrow> address_t \<Rightarrow> (stack \<times> address_t \<times> simulator) list \<Rightarrow> check_result list" where
  "stale_verdicts cp symbol golden_ip [] = []"
| "stale_verdicts cp symbol golden_ip (test # tests) =
     stale_verdict cp symbol (unat golden_ip) test # map (\<lambda>t. stale_verdict cp symbol (old_golden_ip (fst t)) t) tests"

lemma check_failed_stream:
  assumes "event_ok cp (stk, ip, sim)" "sym_size symbol = 4" and "m_checking cp" and "m_istream cp = Some st" "failbit st" "\<not> eofbit st"
  shows "check stk symbol ip sim cp =
    Some (stale_verdict cp symbol (old_golden_ip stk) (stk, ip, sim), cp\<lparr>m_count := m_count cp + 1, m_istream := Some st\<rparr>)"
  unfolding check_def checkpoint_ok [OF assms(1,2)] using assms(3-6) by (simp add: failed_reads stale_verdict_def)

lemma check_same_regions:
  "region_bytes (cp\<lparr>m_count := n, m_istream := st\<rparr>) = region_bytes cp" "event_ok (cp\<lparr>m_count := n, m_istream := st\<rparr>) = event_ok cp"
  "verdict (cp\<lparr>m_count := n, m_istream := st\<rparr>) = verdict cp" "stale_verdict (cp\<lparr>m_count := n, m_istream := st\<rparr>) = stale_verdict cp"
proof -
  show r: "region_bytes (cp\<lparr>m_count := n, m_istream := st\<rparr>) = region_bytes cp" by (rule region_bytes_cong) simp_all
  show "event_ok (cp\<lparr>m_count := n, m_istream := st\<rparr>) = event_ok cp" "verdict (cp\<lparr>m_count := n, m_istream := st\<rparr>) = verdict cp"
    "stale_verdict (cp\<lparr>m_count := n, m_istream := st\<rparr>) = stale_verdict cp"
    by (simp_all add: fun_eq_iff event_ok_def verdict_def stale_verdict_def r)
qed

lemma check_writes_failed:
  "\<forall>ev \<in> set tests. event_ok cp ev \<Longrightarrow> sym_size symbol = 4 \<Longrightarrow> m_checking cp \<Longrightarrow> m_istream cp = Some st \<Longrightarrow> failbit st \<Longrightarrow> \<not> eofbit st \<Longrightarrow>
    \<exists>cp'. check_writes symbol tests cp = Some (map (\<lambda>t. stale_verdict cp symbol (old_golden_ip (fst t)) t) tests, cp')"
proof (induction tests arbitrary: cp)
  case (Cons test tests)
  obtain stk ip sim where test: "test = (stk, ip, sim)" by (cases test)
  let ?cp = "cp\<lparr>m_count := m_count cp + 1, m_istream := Some st\<rparr>"
  have c: "check stk symbol ip sim cp = Some (stale_verdict cp symbol (old_golden_ip stk) (stk, ip, sim), ?cp)"
    using Cons.prems by (intro check_failed_stream) (auto simp: test)
  have "\<exists>cp'. check_writes symbol tests ?cp = Some (map (\<lambda>t. stale_verdict ?cp symbol (old_golden_ip (fst t)) t) tests, cp')"
    using Cons.prems by (intro Cons.IH) (auto simp: check_same_regions)
  then show ?case by (auto simp: test c check_same_regions)
qed simp

lemma check_late_line:
  assumes "event_ok cp (stk, ip, sim)" "sym_size symbol = 4" and "m_checking cp" and "\<forall>c \<in> set w. is_space c"
    and "m_istream cp = Some (good (w @ golden_line cp symbol (gstk, gip, golden) @ s))" and "2 ^ 32 \<le> unat (getTimerTicks golden)"
  shows "\<exists>st. check stk symbol ip sim cp =
    Some (stale_verdict cp symbol (unat gip) (stk, ip, sim), cp\<lparr>m_count := m_count cp + 1, m_istream := Some st\<rparr>) \<and> failbit st \<and> \<not> eofbit st"
proof -
  let ?v = "symbol_value symbol golden" and ?d = "digest_string (SHA1 (region_bytes cp golden))"
  let ?s = "CHR 0x09 # print_number 10 ?v @ CHR 0x09 # ?d @ CHR 0x0A # s"
  have gip: "unat gip \<le> 2 ^ 64 - 1" using unat_less_u64 [of gip] by simp
  have r1: "read_number 16 (2 ^ 64 - 1) (old_golden_ip stk) (good (w @ golden_line cp symbol (gstk, gip, golden) @ s)) =
      (unat gip, good (CHR 0x09 # print_number 10 (unat (getTimerTicks golden)) @ ?s))"
    using read_printed [of 16 w "CHR 0x09" "2 ^ 64 - 1" "old_golden_ip stk" "unat gip"] assms(4) space_chars gip by (simp add: checkpoint_line_def)
  have r2: "read_number 10 (2 ^ 32 - 1) 0 (good (CHR 0x09 # print_number 10 (unat (getTimerTicks golden)) @ ?s)) =
      (2 ^ 32 - 1, (good ?s)\<lparr>failbit := True\<rparr>)"
    using read_printed [of 10 "[CHR 0x09]" "CHR 0x09" "2 ^ 32 - 1" 0 "unat (getTimerTicks golden)"] assms(6) space_chars by simp
  have st: "failbit ((good ?s)\<lparr>failbit := True\<rparr>)" "\<not> eofbit ((good ?s)\<lparr>failbit := True\<rparr>)" "\<not> eofbit (good x)" for x by (simp_all add: good_def)
  have "check stk symbol ip sim cp =
      Some (stale_verdict cp symbol (unat gip) (stk, ip, sim), cp\<lparr>m_count := m_count cp + 1, m_istream := Some ((good ?s)\<lparr>failbit := True\<rparr>)\<rparr>)"
    unfolding check_def checkpoint_ok [OF assms(1,2)] using assms(3,5) st(3)
    by (simp add: r1 [simplified] r2 [simplified] failed_reads [OF st(1,2)] stale_verdict_def)
  with st show ?thesis by blast
qed

lemma check_writes_late:
  "\<forall>ev' \<in> set tests. event_ok cp ev' \<Longrightarrow> sym_size symbol = 4 \<Longrightarrow> m_checking cp \<Longrightarrow> \<forall>c \<in> set w. is_space c \<Longrightarrow>
    \<forall>(stk, ip, sim) \<in> set early. unat (getTimerTicks sim) < 2 ^ 32 \<Longrightarrow> 2 ^ 32 \<le> unat (getTimerTicks (snd (snd ev))) \<Longrightarrow>
    m_istream cp = Some (good (w @ concat (map (golden_line cp symbol) (early @ [ev])) @ s)) \<Longrightarrow>
    \<exists>cp'. check_writes symbol tests cp =
      Some (map2 (\<lambda>golden test. verdict cp symbol (snd golden) (snd test)) early tests @
            stale_verdicts cp symbol (fst (snd ev)) (drop (length early) tests), cp')"
proof (induction tests arbitrary: early cp w)
  case (Cons test tests)
  obtain stk ip sim where test: "test = (stk, ip, sim)" by (cases test)
  have e: "event_ok cp (stk, ip, sim)" using Cons.prems(1) by (simp add: test)
  show ?case
  proof (cases early)
    case Nil
    obtain gstk gip golden where ev: "ev = (gstk, gip, golden)" by (cases ev)
    from check_late_line [OF e Cons.prems(2,3,4), of gstk gip golden s] Cons.prems(6,7) obtain st
      where st: "check stk symbol ip sim cp = Some (stale_verdict cp symbol (unat gip) (stk, ip, sim), cp\<lparr>m_count := m_count cp + 1, m_istream := Some st\<rparr>)"
        "failbit st" "\<not> eofbit st"
      by (auto simp: Nil ev)
    let ?cp = "cp\<lparr>m_count := m_count cp + 1, m_istream := Some st\<rparr>"
    have "\<exists>cp'. check_writes symbol tests ?cp = Some (map (\<lambda>t. stale_verdict ?cp symbol (old_golden_ip (fst t)) t) tests, cp')"
      using Cons.prems(1,2,3) st(2,3) by (intro check_writes_failed [where st = st]) (auto simp: check_same_regions)
    then show ?thesis by (auto simp: Nil test ev st(1) check_same_regions)
  next
    case (Cons ev0 early')
    obtain gstk gip golden where ev0: "ev0 = (gstk, gip, golden)" by (cases ev0)
    let ?s = "concat (map (golden_line cp symbol) (early' @ [ev])) @ s"
    let ?cp = "cp\<lparr>m_count := m_count cp + 1, m_istream := Some (good (CHR 0x0A # ?s))\<rparr>"
    have c: "check stk symbol ip sim cp = Some (verdict cp symbol (gip, golden) (ip, sim), ?cp)"
      using check_line [OF e Cons.prems(2,3,4), of gstk gip golden ?s] Cons.prems(5,7) by (simp add: Cons ev0)
    have "\<exists>cp'. check_writes symbol tests ?cp =
        Some (map2 (\<lambda>golden test. verdict ?cp symbol (snd golden) (snd test)) early' tests @
              stale_verdicts ?cp symbol (fst (snd ev)) (drop (length early') tests), cp')"
      using Cons.prems space_chars by (intro Cons.IH [where w = "[CHR 0x0A]"]) (auto simp: Cons check_same_regions)
    moreover have "stale_verdicts ?cp symbol g ts = stale_verdicts cp symbol g ts" for g ts
      by (cases ts) (simp_all add: check_same_regions)
    ultimately show ?thesis by (auto simp: Cons test ev0 c check_same_regions)
  qed
qed simp

text \<open>
  C36. A golden run that passes tick \<open>2 ^ 32\<close> is compared only up to there. The checks before its first late
  checkpoint are right; the check against that one and all later checks compare the value and the digest
  with the uninitialised variables of \<open>check\<close>, and all but the first of them the instruction pointer too,
  whatever the rest of the golden run was: the time does not fit the 32-bit variable it is read into,
  which makes the stream fail for good.
\<close>

theorem late_golden_run_not_compared:
  assumes "sym_size symbol = 4" and "\<forall>ev' \<in> set (early @ ev # late) \<union> set tests. event_ok (Checkpoint_tracing symbol ranges) ev'"
    and "\<forall>(stk, ip, sim) \<in> set early. unat (getTimerTicks sim) < 2 ^ 32" and "2 ^ 32 \<le> unat (getTimerTicks (snd (snd ev)))"
  shows "\<exists>cp file cp'. run_tracing (early @ ev # late) (Checkpoint_tracing symbol ranges) = Some cp \<and> m_ostream cp = Some file \<and>
    check_writes symbol tests (Checkpoint_checking ranges file) =
      Some (map2 (\<lambda>golden test. verdict (Checkpoint_tracing symbol ranges) symbol (snd golden) (snd test)) early tests @
            stale_verdicts (Checkpoint_tracing symbol ranges) symbol (fst (snd ev)) (drop (length early) tests), cp')"
proof -
  let ?t = "Checkpoint_tracing symbol ranges"
  let ?file = "concat (map (golden_line ?t symbol) (early @ ev # late))"
  let ?c = "Checkpoint_checking ranges ?file"
  obtain cp where cp: "run_tracing (early @ ev # late) ?t = Some cp" "m_ostream cp = Some ?file"
    using traced_file [of "early @ ev # late" symbol ranges] assms(1,2) by auto
  note r = same_regions [of ranges ?file symbol]
  have same: "event_ok ?c = event_ok ?t" "verdict ?c = verdict ?t" "stale_verdict ?c = stale_verdict ?t"
    by (simp_all only: fun_eq_iff event_ok_def verdict_def stale_verdict_def r simp_thms)
  have sv: "stale_verdicts ?c symbol g ts = stale_verdicts ?t symbol g ts" for g ts by (cases ts) (simp_all only: stale_verdicts.simps same)
  have "\<forall>ev' \<in> set tests. event_ok ?c ev'" using assms(2) unfolding same by simp
  moreover have "m_checking ?c" "m_istream ?c = Some (good ([] @ concat (map (golden_line ?c symbol) (early @ [ev])) @ concat (map (golden_line ?t symbol) late)))"
    by (unfold r) (simp_all add: Checkpoint_checking_def)
  ultimately show ?thesis
    using check_writes_late [of tests ?c symbol "[]" early ev "concat (map (golden_line ?t symbol) late)"] assms(1,3,4) cp
    unfolding same sv by auto
qed

theorem late_golden_run_not_compared_witness:
  "\<exists>cp file cp'. run_tracing [(demo_stack, 5, demo_sim 7 30), (demo_stack, 6, demo_sim 8 4294967296)] (Checkpoint_tracing demo_symbol demo_ranges) = Some cp \<and>
     m_ostream cp = Some file \<and>
     check_writes demo_symbol [(demo_stack, 5, demo_sim 7 30), (demo_stack, 6, demo_sim 8 4294967296)] (Checkpoint_checking demo_ranges file) =
       Some ([IDENTICAL, DIFFERENT_VALUE], cp')"
proof -
  let ?e = "(demo_stack, 5, demo_sim 7 30)" and ?l = "(demo_stack, 6, demo_sim 8 4294967296)"
  have h: "sym_size demo_symbol = 4" "\<forall>ev' \<in> set ([?e] @ ?l # []) \<union> set [?e, ?l]. event_ok (Checkpoint_tracing demo_symbol demo_ranges) ev'"
      "\<forall>(stk, ip, sim) \<in> set [?e]. unat (getTimerTicks sim) < 2 ^ 32" "2 ^ 32 \<le> unat (getTimerTicks (snd (snd ?l)))"
    using demo_event by (simp_all add: demo_symbol_def demo_sim_def)
  have "map2 (\<lambda>golden test. verdict (Checkpoint_tracing demo_symbol demo_ranges) demo_symbol (snd golden) (snd test)) [?e] [?e, ?l] @
      stale_verdicts (Checkpoint_tracing demo_symbol demo_ranges) demo_symbol (fst (snd ?l)) (drop (length [?e]) [?e, ?l]) = [IDENTICAL, DIFFERENT_VALUE]"
    by (simp add: verdict_def stale_verdict_def demo_value demo_region) (simp add: demo_stack_def)
  with late_golden_run_not_compared [OF h] show ?thesis by (metis append_Cons append_Nil)
qed

end
