(* ===== verification/Spec2Isabelle.thy ===== *)
theory Spec2Isabelle
  imports Job_Ownership Pruning_Basic Pruning_Sampling Pruning_Regions Trace_Times Advanced_Refinement Sal_Runs Database_Experiment Checkpoint_Plugin
begin

text \<open>
  FAIL* is a framework for fault-injection campaigns. A target program runs once under a simulator and
  leaves a trace; tools turn the trace into a fault space and choose where to inject; a server hands the
  injections to clients; a client runs a simulator up to the injection point, changes a bit and watches
  what happens; the results go back into the database. This development follows that path. File names
  are relative to \<^verbatim>\<open>src/\<close> of the repository; a definition has the name of the function it models.

  \<^bold>\<open>Conventions.\<close> A class is a record, its methods are functions on it; what a method writes is
  returned. \<open>None\<close> is a failed assertion, an exception, undefined behaviour or a call that blocks, as the
  theories say. Machine integers are words (\<open>u8\<close>, \<open>u32\<close>, \<open>u64\<close>) where their width can be felt, and the
  \<open>auto_increment\<close> and row numbers of the database are natural numbers. Code outside the repository (MySQL,
  Protocol Buffers, the disassemblers, the simulators, the coroutine library, the clock, random words) is
  an argument of the definitions that use it. \<open>Fail_Prelude\<close> has the types and the generic lemmas.

  \<^bold>\<open>1. From the trace to the fault space\<close> (\<^verbatim>\<open>tools/import-trace\<close>). \<open>Proto_Stream\<close> is the framing of trace files
  (\<^verbatim>\<open>ProtoStream.cc\<close>) with its round trip. \<open>Trace_Import\<close> is the template \<^verbatim>\<open>Importer.cc\<close>: one equivalence class
  per address is open at any time, an access closes it and opens the next one; the importers are the
  instances of \<open>Trace_Importers\<close>. \<open>Trace_Coverage\<close> states what they have in common as the locale \<open>ec_importer\<close>
  and proves its consequences once, \<open>Trace_Partition\<close> interprets it: for every address the classes partition
  the instructions of the trace. The addresses with classes are known exactly for registers (the bytes of the selected
  registers that the executed instructions use or define), and contain the accessed and the mapped ones for memory. \<open>Trace_Sanity\<close> and \<open>Trace_Times\<close> derive that the rows respect the primary key and
  pass the tool's own sanity checks, and show an overlap the check does not see. \<open>Register_Info\<close> is the
  addressing of sub-registers. \<open>Advanced_Import\<close> delays rows until 16 following branches are known;
  \<open>Importer_Maps\<close> (locale \<open>importer_map\<close>) and \<open>Advanced_Refinement\<close> show that it equals a two-pass import and
  refines the plain memory importer.

  \<^bold>\<open>2. From the fault space to pilots\<close> (\<^verbatim>\<open>tools/prune-trace\<close>). \<open>Database_Layer\<close> has the tables and the insert cache
  of \<^verbatim>\<open>Database.cc\<close>. \<open>Pruning_Basic\<close>: every trace row is represented by exactly one group row that
  leads to a pilot, the one pilot with known outcome for the write classes. \<open>Sum_Tree\<close> is the bucket tree of \<^verbatim>\<open>SumTree.hpp\<close>, equal to a naive scan;
  \<open>Pruning_Sampling\<close> draws from it through the locale \<open>weighted_bag\<close>, with and without replacement; a draw picks the pilot at a
  position of the population, and the weight of a pilot is the number of draws that picked it.
  \<open>Pruning_Regions\<close> cuts the trace into basic blocks and call regions; every region begins at a leader.

  \<^bold>\<open>3. The server\<close> (\<^verbatim>\<open>src/core/cpn\<close>). \<open>Sync_Containers\<close> are queue, map and counter, with the locales \<open>fifo_queue\<close> and
  \<open>id_map\<close> as what the server relies on. \<open>Job_Server\<close> is \<^verbatim>\<open>JobServer.cc\<close> as a step relation whose steps
  are the code between two socket operations; \<open>Job_Ownership\<close> proves by rule induction over its runs that
  no job is lost or duplicated, that workload ids are unique and when the campaign may end, and shows two
  kinds of runs in which it goes wrong. \<open>Trace_Reader\<close> and \<open>Smart_Hops\<close> calculate hop chains (\<^verbatim>\<open>util/smarthops\<close>), \<open>Hop_Chains\<close>
  proves that waiting for the hops leads to the target, \<open>Hops_Optimal\<close> that the chain is
  the cheapest. \<open>Injection_Points\<close> picks the cheapest chain of a class, and \<open>Database_Campaign\<close> sends a
  message for every pilot whose number of results is not the expected one, so also when there are too many; it uses injection points through the locale
  \<open>injection_point\<close>, interpreted by hop chains and by step counts.

  \<^bold>\<open>4. The client\<close> (\<^verbatim>\<open>src/core/efw\<close>). \<open>Job_Client\<close> is \<^verbatim>\<open>JobClient.cc\<close> on a network given as a script of what
  the socket operations return. \<open>Client_Sessions\<close> runs client and server coroutine against each other over a network that does not fail and
  proves that one client completes a campaign. \<open>Database_Experiment\<close> is the generic experiment: which bits are
  flipped, how many results a job has, that nothing is injected when no CPU is at the expected address, and that the main loop hands back what it took.

  \<^bold>\<open>5. The simulator abstraction\<close> (\<^verbatim>\<open>src/core/sal\<close>). \<open>Sal_Listeners\<close> are events and listeners, \<open>Listener_Manager\<close> the
  buffers they live in, \<open>Sal_Dispatch\<close> the search for the listeners of an event (in the plain build and with
  the performance buffers, proved equal), \<open>Sim_Controller\<close> the controller and the coroutines as a step
  relation, and \<open>Sal_Runs\<close> what its runs guarantee.

  \<^bold>\<open>6. The checkpoint plugin\<close> (\<^verbatim>\<open>src/plugins/checkpoint\<close>). \<open>Sha1\<close> is the hash of \<^verbatim>\<open>sha1.c\<close>, proved equal to the definition of the
  standard for messages in any portions. \<open>Checkpoint_Plugin\<close> writes and reads the file of a golden run, with
  the formatted input and output of C++ streams, and judges an experiment by it; a golden run is not compared beyond tick \<open>2 ^ 32\<close>.

  \<^bold>\<open>Bounds and fuel.\<close> Loops are structural or have a termination proof, with these exceptions.
  \<open>dispatch_loop\<close>, \<open>delete_hops\<close> and \<open>getParam\<close> are partial functions in which not returning is \<open>None\<close>; the first two are proved to return
  under the invariants of their callers, and a case in which \<open>dispatch_loop\<close> does not return is a theorem.
  \<open>minion\<close> and \<open>experiment_loop\<close> take a bound on their rounds; the theorems show that the number of
  jobs plus one is enough. The random words of the sampling pruners are a list; running out of it is a value of
  its own, \<open>Entropy_pending\<close>. Theorems that need a counter not to wrap say so (fewer than \<open>2 ^ 32 - 1\<close> jobs or
  \<open>2 ^ 31 - 1\<close> instructions).

  \<^bold>\<open>Not modelled.\<close> The simulators and debuggers (\<^verbatim>\<open>simulators\<close>, \<^verbatim>\<open>debuggers\<close>) and the backends that connect them to the
  abstraction layer, mostly AspectC++ advice on their code. The experiments (\<^verbatim>\<open>src/experiments\<close>), which are
  callbacks of the generic experiment or programs of their own on the abstraction layer. The other plugins,
  the readers of ELF and DWARF files and the disassemblers, which wrap libraries or external programs.
  Command lines, logging, timers and the programs' main functions. Failing statements of the database: an insert takes
  its row. The analysis tools, which are
  scripts and web pages over the result tables. The mapping between protobuf messages and SQL columns, which is
  driven by the reflection interface of Protocol Buffers. The vendored headers. The manifest lists
  these parts with their reasons.
\<close>

end
